(* ===== verification/Aprsc_Prelude.thy ===== *)
theory Aprsc_Prelude
  imports Complex_Main "HOL-Library.Word"
begin

text \<open>
  Shared vocabulary of the development: the C byte and string primitives the sources of
  aprsc call (\<^verbatim>\<open>ctype.h\<close> in the C locale, which \<^verbatim>\<open>aprsc.c\<close> selects at start-up,
  \<^verbatim>\<open>memchr\<close>, \<^verbatim>\<open>memmem\<close>, \<^verbatim>\<open>strncasecmp\<close>, \<^verbatim>\<open>snprintf\<close>), the machine-word types, and the
  generic list lemmas the component theories share.

  A C buffer is a \<^typ>\<open>string\<close> (a list of bytes) and a pointer into it is an index.
  A pointer that may be NULL is an option.
\<close>

unbundle bit_operations_syntax

named_theorems cstr_simps \<open>evaluation rules for the C string primitives\<close>

type_synonym u16 = "16 word"
type_synonym u32 = "32 word"
type_synonym ctime = int \<comment> \<open>\<^verbatim>\<open>time_t\<close> seconds\<close>

section \<open>Bytes\<close>

abbreviation NUL :: char where
  "NUL \<equiv> CHR 0x00"

definition byte_code :: "char \<Rightarrow> nat" where
  "byte_code c = of_char c"

text \<open>A byte read through a (signed) C \<^verbatim>\<open>char\<close>.\<close>

definition schar :: "char \<Rightarrow> int" where
  "schar c = (if byte_code c < 128 then int (byte_code c) else int (byte_code c) - 256)"

definition is_digit :: "char \<Rightarrow> bool" where
  "is_digit c \<longleftrightarrow> 48 \<le> byte_code c \<and> byte_code c \<le> 57"

definition is_upper :: "char \<Rightarrow> bool" where
  "is_upper c \<longleftrightarrow> 65 \<le> byte_code c \<and> byte_code c \<le> 90"

definition is_lower :: "char \<Rightarrow> bool" where
  "is_lower c \<longleftrightarrow> 97 \<le> byte_code c \<and> byte_code c \<le> 122"

definition isalnum :: "char \<Rightarrow> bool" where
  "isalnum c \<longleftrightarrow> is_digit c \<or> is_upper c \<or> is_lower c"

definition toupper :: "char \<Rightarrow> char" where
  "toupper c = (if is_lower c then char_of (byte_code c - 32) else c)"

lemmas ctype_defs = is_digit_def is_upper_def is_lower_def isalnum_def

lemma byte_code_less [simp]: "byte_code c < 256"
  by (simp add: byte_code_def)

lemma byte_code_char_of [simp]: "byte_code (char_of n) = n mod 256"
  by (simp add: byte_code_def)

lemma byte_code_eq_iff: "byte_code a = byte_code b \<longleftrightarrow> a = b"
  by (simp add: byte_code_def)

lemma byte_code_toupper:
  "byte_code (toupper c) = (if is_lower c then byte_code c - 32 else byte_code c)"
proof (cases "is_lower c")
  case True
  have "byte_code c - 32 < 256"
    using byte_code_less [of c] by linarith
  with True show ?thesis by (simp add: toupper_def)
qed (simp add: toupper_def)

lemma not_is_lower_toupper [simp]: "\<not> is_lower (toupper c)"
  by (auto simp: is_lower_def byte_code_toupper)

lemma toupper_idem [simp]: "toupper (toupper c) = toupper c"
  by (simp add: toupper_def [of "toupper c"])

lemma toupper_fixed: "\<not> is_lower d \<Longrightarrow> \<not> is_upper d \<Longrightarrow> toupper c = d \<longleftrightarrow> c = d"
  by (auto simp: byte_code_eq_iff [symmetric] byte_code_toupper ctype_defs split: if_splits)

lemma toupper_dash [simp]: "toupper c = CHR ''-'' \<longleftrightarrow> c = CHR ''-''"
  by (rule toupper_fixed) (simp_all add: ctype_defs byte_code_def)

lemma toupper_NUL [simp]: "toupper c = NUL \<longleftrightarrow> c = NUL"
  by (rule toupper_fixed) (simp_all add: ctype_defs byte_code_def)

lemma isalnum_comma [simp]: "\<not> isalnum (CHR '','')"
  and isalnum_dash [simp]: "\<not> isalnum (CHR ''-'')"
  and isalnum_colon [simp]: "\<not> isalnum (CHR '':'')"
  and isalnum_gt [simp]: "\<not> isalnum (CHR ''>'')"
  and isalnum_star [simp]: "\<not> isalnum (CHR ''*'')"
  and isalnum_NUL [simp]: "\<not> isalnum NUL"
  by (simp_all add: ctype_defs byte_code_def)

lemmas byte_eval [cstr_simps] = toupper_def ctype_defs byte_code_def char_of_def bit_0

section \<open>Searching buffers\<close>

fun find_index :: "('a \<Rightarrow> bool) \<Rightarrow> 'a list \<Rightarrow> nat option" where
  "find_index P [] = None"
| "find_index P (x # xs) = (if P x then Some 0 else map_option Suc (find_index P xs))"

lemma find_index_None: "find_index P xs = None \<longleftrightarrow> (\<forall>x \<in> set xs. \<not> P x)"
  by (induction xs) auto

lemma find_index_Some:
  "find_index P xs = Some i \<Longrightarrow> i < length xs \<and> P (xs ! i) \<and> (\<forall>j < i. \<not> P (xs ! j))"
  by (induction xs arbitrary: i) (auto simp: less_Suc_eq_0_disj split: if_splits)

lemma find_index_SomeI:
  "i < length xs \<Longrightarrow> P (xs ! i) \<Longrightarrow> (\<And>j. j < i \<Longrightarrow> \<not> P (xs ! j)) \<Longrightarrow> find_index P xs = Some i"
proof (induction xs arbitrary: i)
  case (Cons x xs)
  show ?case
  proof (cases i)
    case (Suc k)
    have "\<not> P x" using Cons.prems(3) [of 0] Suc by simp
    moreover have "find_index P xs = Some k"
      using Cons.prems Suc by (intro Cons.IH) force+
    ultimately show ?thesis by (simp add: Suc)
  qed (use Cons.prems in simp)
qed simp

lemma find_index_append_hit:
  "\<forall>x \<in> set xs. \<not> P x \<Longrightarrow> P y \<Longrightarrow> find_index P (xs @ y # ys) = Some (length xs)"
  by (induction xs) auto

text \<open>\<^verbatim>\<open>memchr(s + p, c, n)\<close>, as an index into \<open>s\<close>.\<close>

definition memchr :: "string \<Rightarrow> nat \<Rightarrow> nat \<Rightarrow> char \<Rightarrow> nat option" where
  "memchr s p n c = map_option ((+) p) (find_index ((=) c) (take n (drop p s)))"

lemma memchr_Some:
  assumes "memchr s p n c = Some i"
  shows "p \<le> i" and "i < p + n" and "i < length s" and "s ! i = c"
    and "\<forall>j. p \<le> j \<and> j < i \<longrightarrow> s ! j \<noteq> c"
proof -
  from assms obtain k where k: "find_index ((=) c) (take n (drop p s)) = Some k" and i: "i = p + k"
    by (auto simp: memchr_def)
  note K = find_index_Some [OF k]
  then show "p \<le> i" and "i < p + n" and "i < length s" and "s ! i = c" using i by auto
  show "\<forall>j. p \<le> j \<and> j < i \<longrightarrow> s ! j \<noteq> c"
  proof (intro allI impI)
    fix j assume j: "p \<le> j \<and> j < i"
    then have "j - p < k" using i by linarith
    then have "c \<noteq> take n (drop p s) ! (j - p)" using K by blast
    moreover have "j - p < n" "p + (j - p) < length s" using K j i by auto
    ultimately show "s ! j \<noteq> c" using j by auto
  qed
qed

fun find_sub :: "string \<Rightarrow> string \<Rightarrow> nat option" where
  "find_sub ndl [] = (if ndl = [] then Some 0 else None)"
| "find_sub ndl (x # xs) =
     (if take (length ndl) (x # xs) = ndl then Some 0 else map_option Suc (find_sub ndl xs))"

text \<open>\<^verbatim>\<open>memmem(s + p, n, ndl, strlen(ndl))\<close>, as an index into \<open>s\<close>.\<close>

definition memmem :: "string \<Rightarrow> nat \<Rightarrow> nat \<Rightarrow> string \<Rightarrow> nat option" where
  "memmem s p n ndl = map_option ((+) p) (find_sub ndl (take n (drop p s)))"

lemma find_sub_Some:
  "find_sub ndl xs = Some i \<Longrightarrow>
     i + length ndl \<le> length xs \<and> take (length ndl) (drop i xs) = ndl"
proof (induction ndl xs arbitrary: i rule: find_sub.induct)
  case (2 ndl x xs)
  show ?case
  proof (cases "take (length ndl) (x # xs) = ndl")
    case True
    then have "length ndl \<le> length (x # xs)" by (metis length_take min.cobounded1)
    with True 2 show ?thesis by simp
  next
    case False
    with 2 show ?thesis by auto
  qed
qed (auto split: if_splits)

lemma memmem_Some:
  assumes "memmem s p n ndl = Some i"
  shows "p \<le> i" and "i + length ndl \<le> p + n" and "take (length ndl) (drop i s) = ndl"
    and "i + length ndl \<le> length s \<or> ndl = []"
proof -
  from assms obtain k where k: "find_sub ndl (take n (drop p s)) = Some k" and i: "i = p + k"
    by (auto simp: memmem_def)
  note K = find_sub_Some [OF k]
  then have len: "k + length ndl \<le> n" "k + length ndl \<le> length s - p" by auto
  have "take (length ndl) (drop k (take n (drop p s))) = take (length ndl) (drop i s)"
    using len i by (simp add: drop_take take_take min_def add.commute)
  with K show "take (length ndl) (drop i s) = ndl" by simp
  show "p \<le> i" and "i + length ndl \<le> p + n" using i len by auto
  show "i + length ndl \<le> length s \<or> ndl = []"
    using i len by (cases ndl) auto
qed

text \<open>The byte at an index; one past the end of a line stands its terminator, never one of
  the delimiters the parsers look for, written NUL here.\<close>

definition rd :: "string \<Rightarrow> nat \<Rightarrow> char" where
  "rd s i = (if i < length s then s ! i else NUL)"

lemma rd_in [simp]: "i < length s \<Longrightarrow> rd s i = s ! i"
  and rd_out [simp]: "length s \<le> i \<Longrightarrow> rd s i = NUL"
  by (simp_all add: rd_def)

text \<open>\<^verbatim>\<open>s + a .. s + b\<close>, exclusive of \<open>b\<close>.\<close>

definition sub :: "string \<Rightarrow> nat \<Rightarrow> nat \<Rightarrow> string" where
  "sub s a b = take (b - a) (drop a s)"

lemma length_sub [simp]: "length (sub s a b) = min (b - a) (length s - a)"
  by (simp add: sub_def min.commute)

lemma sub_empty [simp]: "b \<le> a \<Longrightarrow> sub s a b = []"
  by (simp add: sub_def)

lemma sub_prefix: "sub s 0 b = take b s"
  by (simp add: sub_def)

lemma nth_sub: "i < b - a \<Longrightarrow> i < length s - a \<Longrightarrow> sub s a b ! i = s ! (a + i)"
  by (simp add: sub_def)

lemma set_sub_subset: "set (sub s a b) \<subseteq> set s"
  unfolding sub_def by (meson order_trans set_drop_subset set_take_subset)

text \<open>Case-insensitive equality of equally long strings: \<^verbatim>\<open>strncasecmp(a, b, n) == 0\<close> on
  strings of length \<open>n\<close>.\<close>

definition strcaseeq :: "string \<Rightarrow> string \<Rightarrow> bool" where
  "strcaseeq a b \<longleftrightarrow> map toupper a = map toupper b"

lemma strcaseeq_refl [simp]: "strcaseeq a a"
  and strcaseeq_sym: "strcaseeq a b \<longleftrightarrow> strcaseeq b a"
  by (auto simp: strcaseeq_def)

lemma strcaseeq_trans: "strcaseeq a b \<Longrightarrow> strcaseeq b c \<Longrightarrow> strcaseeq a c"
  by (simp add: strcaseeq_def)

lemma strcaseeq_length: "strcaseeq a b \<Longrightarrow> length a = length b"
  by (metis length_map strcaseeq_def)

text \<open>\<^verbatim>\<open>strncasecmp(a, b, n) == 0\<close>: the comparison ends at a NUL in both.\<close>

definition strncaseeq :: "nat \<Rightarrow> string \<Rightarrow> string \<Rightarrow> bool" where
  "strncaseeq n a b \<longleftrightarrow>
     strcaseeq (takeWhile (\<lambda>c. c \<noteq> NUL) (take n a)) (takeWhile (\<lambda>c. c \<noteq> NUL) (take n b))"

lemma strncaseeq_no_NUL:
  assumes "NUL \<notin> set a" and "length a = n" and "n \<le> length b"
  shows "strncaseeq n a b \<longleftrightarrow> strcaseeq a (take n b)"
proof -
  have a: "takeWhile (\<lambda>c. c \<noteq> NUL) (take n a) = a" using assms by (auto simp: takeWhile_eq_all_conv)
  show ?thesis
  proof (cases "NUL \<in> set (take n b)")
    case True
    have "length (takeWhile (\<lambda>c. c \<noteq> NUL) (take n b)) \<noteq> length (take n b)"
    proof
      assume "length (takeWhile (\<lambda>c. c \<noteq> NUL) (take n b)) = length (take n b)"
      then have "takeWhile (\<lambda>c. c \<noteq> NUL) (take n b) = take n b"
        by (subst takeWhile_eq_take) (simp add: min_def)
      then show False using True set_takeWhileD by metis
    qed
    moreover have "\<not> strcaseeq a (take n b)"
    proof
      assume "strcaseeq a (take n b)"
      then have "toupper ` set a = toupper ` set (take n b)"
        by (metis strcaseeq_def set_map)
      then have "NUL \<in> set a" using True by (metis imageE imageI toupper_NUL)
      with assms(1) show False by contradiction
    qed
    moreover have "length (take n b) = length a" using assms by simp
    ultimately show ?thesis
      using strcaseeq_length [of a "takeWhile (\<lambda>c. c \<noteq> NUL) (take n b)"]
      unfolding strncaseeq_def a by metis
  next
    case False
    then have "takeWhile (\<lambda>c. c \<noteq> NUL) (take n b) = take n b" by (auto simp: takeWhile_eq_all_conv)
    then show ?thesis unfolding strncaseeq_def a by (simp only:)
  qed
qed

text \<open>The loop \<^verbatim>\<open>while (p < e && P( *p )) p++\<close>: the index where it stops.\<close>

definition scan :: "(char \<Rightarrow> bool) \<Rightarrow> string \<Rightarrow> nat \<Rightarrow> nat \<Rightarrow> nat" where
  "scan P s p e = p + length (takeWhile P (sub s p e))"

lemma scan_ge [simp]: "p \<le> scan P s p e"
  by (simp add: scan_def)

lemma scan_le: "p \<le> e \<Longrightarrow> scan P s p e \<le> e"
  using length_takeWhile_le [of P "sub s p e"] by (auto simp: scan_def)

lemma scan_in:
  assumes "p \<le> i" and "i < scan P s p e"
  shows "P (s ! i)"
proof -
  let ?k = "i - p"
  have k: "?k < length (takeWhile P (sub s p e))" using assms by (simp add: scan_def)
  then have "P (takeWhile P (sub s p e) ! ?k)" using nth_mem set_takeWhileD by fastforce
  moreover have "?k < length (sub s p e)" using k length_takeWhile_le less_le_trans by blast
  ultimately show ?thesis using assms k by (simp add: takeWhile_nth nth_sub)
qed

lemma scan_stop:
  assumes "scan P s p e < e" and "e \<le> length s"
  shows "\<not> P (s ! scan P s p e)"
proof -
  let ?k = "length (takeWhile P (sub s p e))"
  have "?k < length (sub s p e)" using assms by (simp add: scan_def)
  then have "\<not> P (sub s p e ! ?k)" by (rule nth_length_takeWhile)
  with \<open>?k < length (sub s p e)\<close> show ?thesis by (simp add: nth_sub scan_def)
qed

lemma sub_scan_all: "\<forall>c \<in> set (sub s p (scan P s p e)). P c"
proof -
  let ?k = "length (takeWhile P (sub s p e))"
  have "?k \<le> e - p" using length_takeWhile_le [of P "sub s p e"] by simp
  then have "sub s p (scan P s p e) = take ?k (sub s p e)"
    by (simp add: scan_def sub_def min_def)
  also have "\<dots> = takeWhile P (sub s p e)" by (rule takeWhile_eq_take [symmetric])
  finally have "sub s p (scan P s p e) = takeWhile P (sub s p e)" .
  then show ?thesis by (auto dest: set_takeWhileD)
qed

text \<open>A fixed-size C string buffer of \<open>n\<close> bytes filled by \<^verbatim>\<open>strncpy\<close> and NUL-terminated in its
  last byte.\<close>

definition cbuf :: "nat \<Rightarrow> string \<Rightarrow> string" where
  "cbuf n s = take (n - 1) (s @ replicate (n - 1) NUL) @ [NUL]"

lemma length_cbuf [simp]: "0 < n \<Longrightarrow> length (cbuf n s) = n"
  by (simp add: cbuf_def)

lemma take_cbuf: "length s \<le> k \<Longrightarrow> k < n \<Longrightarrow> take k (cbuf n s) = s @ replicate (k - length s) NUL"
  by (simp add: cbuf_def min_def)

lemma take_cbuf_self [simp]: "length s < n \<Longrightarrow> take (length s) (cbuf n s) = s"
  by (simp add: take_cbuf)

text \<open>\<^verbatim>\<open>snprintf(buf, size, ...)\<close> of a text: what it leaves in the buffer before the NUL. It
  returns the length of the whole text.\<close>

definition snprintf_buf :: "nat \<Rightarrow> string \<Rightarrow> string" where
  "snprintf_buf n txt = take (n - 1) txt"

lemmas [cstr_simps] = memchr_def memmem_def scan_def sub_def rd_def strcaseeq_def snprintf_buf_def

section \<open>Flag words\<close>

definition has_flag :: "'a::len word \<Rightarrow> 'a word \<Rightarrow> bool" where
  "has_flag w m \<longleftrightarrow> w AND m \<noteq> 0"

lemma has_flag_or_self: "m \<noteq> 0 \<Longrightarrow> has_flag (w OR m) m"
  by (simp add: has_flag_def bit.conj_disj_distrib2)

end
