(* ===== verification/Passcode.thy ===== *)
theory Passcode
  imports Aprsc_Prelude
begin

text \<open>
  \<^verbatim>\<open>src/src/passcode.c\<close>: the APRS-IS passcode of a callsign, a 15-bit hash of the callsign
  without its SSID, upper-cased and cut to nine characters.
\<close>

definition kKey :: u16 where
  "kKey = 0x73e2"

text \<open>The copy loop: stops at a dash, at the terminating NUL or with nine bytes copied.\<close>

fun root_call :: "nat \<Rightarrow> string \<Rightarrow> string" where
  "root_call 0 s = []"
| "root_call (Suc n) [] = []"
| "root_call (Suc n) (c # s) =
     (if c = CHR ''-'' \<or> c = NUL then [] else toupper c # root_call n s)"

text \<open>A \<^verbatim>\<open>char\<close> promoted to \<^verbatim>\<open>int\<close> and narrowed to the 16 bits of the \<^verbatim>\<open>short\<close> hash.\<close>

definition char16 :: "char \<Rightarrow> u16" where
  "char16 c = word_of_int (schar c)"

text \<open>The hash loop takes two bytes at a time; with an odd length the second byte is the
  terminating NUL of the buffer.\<close>

fun passcode_loop :: "string \<Rightarrow> u16 \<Rightarrow> u16" where
  "passcode_loop [] h = h"
| "passcode_loop [a] h = (h XOR push_bit 8 (char16 a)) XOR char16 NUL"
| "passcode_loop (a # b # r) h = passcode_loop r ((h XOR push_bit 8 (char16 a)) XOR char16 b)"

definition aprs_passcode :: "string \<Rightarrow> u16" where
  "aprs_passcode theCall = passcode_loop (root_call 9 theCall) kKey AND 0x7fff"

lemma root_call_map_toupper: "root_call n (map toupper s) = root_call n s"
  by (induction n s rule: root_call.induct) auto

lemma root_call_take: "root_call n (take n s) = root_call n s"
  by (induction n s rule: root_call.induct) auto

lemma root_call_append:
  "\<forall>c \<in> set b. c \<noteq> CHR ''-'' \<and> c \<noteq> NUL \<Longrightarrow> root_call n (b @ CHR ''-'' # t) = root_call n b"
proof (induction n b rule: root_call.induct)
  case (2 n)
  then show ?case by simp
qed auto

lemma length_root_call: "length (root_call n s) \<le> n"
  by (induction n s rule: root_call.induct) auto

text \<open>The passcode is always a non-negative \<^verbatim>\<open>short\<close>: the high bit is masked off.\<close>

theorem aprs_passcode_bound: "unat (aprs_passcode s) < 2 ^ 15"
proof -
  have "aprs_passcode s \<le> 0x7fff"
    unfolding aprs_passcode_def by (rule word_and_le1)
  then show ?thesis by (simp add: word_le_nat_alt)
qed

end
