(* ===== verification/Hash_Table.thy ===== *)
theory Hash_Table
  imports Aprsc_Prelude
begin

text \<open>
  The bucket arrays that \<^verbatim>\<open>clientlist.c\<close>, \<^verbatim>\<open>client_heard.c\<close>, \<^verbatim>\<open>historydb.c\<close> and
  \<^verbatim>\<open>dupecheck.c\<close> each build by hand: a fixed number of singly or doubly linked chains, a chain
  being a list from its head. The locale states what the four tables rely on, that an entry
  is always kept in the bucket its key hashes to, and proves once that walking that one
  bucket is as good as walking the whole table.
\<close>

type_synonym 'e table = "nat \<Rightarrow> 'e list"

definition entries :: "nat \<Rightarrow> 'e table \<Rightarrow> 'e list" where
  "entries nb tbl = concat (map tbl [0..<nb])"

lemma set_entries: "set (entries nb tbl) = (\<Union>i<nb. set (tbl i))"
  by (auto simp: entries_def)

lemma entries_Suc: "entries (Suc nb) tbl = entries nb tbl @ tbl nb"
  by (simp add: entries_def)

lemma entries_upd_beyond: "nb \<le> i \<Longrightarrow> entries nb (tbl(i := xs)) = entries nb tbl"
  unfolding entries_def by (intro arg_cong [where f = concat] map_cong) auto

lemma length_entries_upd:
  "i < nb \<Longrightarrow> length (entries nb (tbl(i := xs))) + length (tbl i) = length (entries nb tbl) + length xs"
proof (induction nb)
  case (Suc nb)
  then show ?case
    by (cases "i = nb") (simp_all add: entries_Suc entries_upd_beyond del: fun_upd_apply, simp_all)
qed simp

lemma set_entries_insert:
  "i < nb \<Longrightarrow> set (entries nb (tbl(i := e # tbl i))) = insert e (set (entries nb tbl))"
  by (auto simp: set_entries split: if_splits)

locale bucket_table =
  fixes nb :: nat
    and key :: "'e \<Rightarrow> 'k"
    and bkt :: "'k \<Rightarrow> nat"
  assumes bkt_less: "bkt k < nb"
begin

definition placed :: "'e table \<Rightarrow> bool" where
  "placed tbl \<longleftrightarrow> (\<forall>i e. e \<in> set (tbl i) \<longrightarrow> bkt (key e) = i)"

lemma placed_empty: "placed (\<lambda>_. [])"
  by (simp add: placed_def)

lemma placed_updI:
  "placed tbl \<Longrightarrow> (\<And>e. e \<in> set xs \<Longrightarrow> bkt (key e) = i) \<Longrightarrow> placed (tbl(i := xs))"
  by (simp add: placed_def)

lemma placed_insert: "placed tbl \<Longrightarrow> bkt (key e) = i \<Longrightarrow> placed (tbl(i := e # tbl i))"
  by (auto simp: placed_def)

lemma placed_subset:
  "placed tbl \<Longrightarrow> (\<And>i. set (tbl' i) \<subseteq> set (tbl i)) \<Longrightarrow> placed tbl'"
  by (auto simp: placed_def)

text \<open>Walking the bucket of a key finds what walking the whole table finds.\<close>

lemma bucket_iff_entries:
  "placed tbl \<Longrightarrow> key e = k \<Longrightarrow> e \<in> set (tbl (bkt k)) \<longleftrightarrow> e \<in> set (entries nb tbl)"
  by (auto simp: set_entries placed_def intro: bkt_less)

lemma bucket_ex_iff_entries:
  "placed tbl \<Longrightarrow> (\<exists>e \<in> set (tbl (bkt k)). key e = k \<and> P e) \<longleftrightarrow>
     (\<exists>e \<in> set (entries nb tbl). key e = k \<and> P e)"
  using bucket_iff_entries by blast

end

lemma find_name: "distinct (map f xs) \<Longrightarrow> find (\<lambda>e. f e = n) xs = Some e \<longleftrightarrow> e \<in> set xs \<and> f e = n"
  by (induction xs) auto

lemma option_eqI: "(\<And>x. a = Some x \<longleftrightarrow> b = Some x) \<Longrightarrow> a = b"
  by (cases a; cases b) auto

text \<open>Three of the tables are maps: they hold at most one entry for a name, whose hash is the
  key. Lookup, insertion at the head of the chain, moving to the front, removal and expiry keep
  that, and act on the map the table stands for as they should.\<close>

locale keyed_table = bucket_table nb key bkt
  for nb :: nat and key :: "'e \<Rightarrow> 'k" and bkt :: "'k \<Rightarrow> nat" +
  fixes name :: "'e \<Rightarrow> 'n"
    and hash :: "'n \<Rightarrow> 'k"
begin

definition table_ok :: "'e table \<Rightarrow> bool" where
  "table_ok tbl \<longleftrightarrow> placed tbl \<and>
     (\<forall>i. distinct (map name (tbl i)) \<and> (\<forall>e \<in> set (tbl i). key e = hash (name e)))"

definition lookup :: "'e table \<Rightarrow> 'n \<Rightarrow> 'e option" where
  "lookup tbl n = find (\<lambda>e. name e = n) (tbl (bkt (hash n)))"

lemma table_ok_empty: "table_ok (\<lambda>_. [])"
  by (simp add: table_ok_def placed_empty)

lemma lookup_empty [simp]: "lookup (\<lambda>_. []) n = None"
  by (simp add: lookup_def)

lemma table_ok_bucket: "table_ok tbl \<Longrightarrow> e \<in> set (tbl i) \<Longrightarrow> i = bkt (hash (name e))"
  by (auto simp: table_ok_def placed_def)

lemma lookup_Some_bucket:
  "table_ok tbl \<Longrightarrow> lookup tbl n = Some e \<longleftrightarrow> e \<in> set (tbl (bkt (hash n))) \<and> name e = n"
  unfolding lookup_def table_ok_def by (subst find_name) auto

lemma lookup_Some_iff:
  assumes "table_ok tbl"
  shows "lookup tbl n = Some e \<longleftrightarrow> e \<in> set (entries nb tbl) \<and> name e = n"
  unfolding lookup_Some_bucket [OF assms]
  using table_ok_bucket [OF assms, of e] bkt_less by (auto simp: set_entries)

lemma lookup_None_iff:
  "table_ok tbl \<Longrightarrow> lookup tbl n = None \<longleftrightarrow> (\<forall>e \<in> set (entries nb tbl). name e \<noteq> n)"
  using lookup_Some_iff [of tbl n] by (cases "lookup tbl n") auto

lemma table_ok_insert:
  assumes "table_ok tbl" and "lookup tbl (name e) = None" and "key e = hash (name e)"
    and "i = bkt (hash (name e))"
  shows "table_ok (tbl(i := e # tbl i))"
  using assms by (auto simp: table_ok_def lookup_def find_None_iff intro!: placed_insert)

lemma lookup_insert:
  "i = bkt (hash (name e)) \<Longrightarrow> lookup (tbl(i := e # tbl i)) n = (if n = name e then Some e else lookup tbl n)"
  by (auto simp: lookup_def)

lemma table_ok_subset:
  assumes "table_ok tbl" and "\<And>i. set (tbl' i) \<subseteq> set (tbl i)" and "\<And>i. distinct (map name (tbl' i))"
  shows "table_ok tbl'"
  using assms(1,3) placed_subset [of tbl tbl', OF _ assms(2)] assms(2) unfolding table_ok_def by blast

lemma table_ok_remove: "table_ok tbl \<Longrightarrow> table_ok (tbl(i := remove1 e (tbl i)))"
  by (rule table_ok_subset [of tbl])
    (auto simp: table_ok_def distinct_map inj_on_def dest: set_remove1_subset [THEN subsetD] split: if_splits)

lemma lookup_remove:
  assumes ok: "table_ok tbl" and e: "lookup tbl m = Some e" and i: "i = bkt (hash m)"
  shows "lookup (tbl(i := remove1 e (tbl i))) n = (if n = m then None else lookup tbl n)"
proof -
  have mem: "e \<in> set (tbl i)" "name e = m" using e lookup_Some_bucket [OF ok] i by auto
  have ok': "table_ok (tbl(i := remove1 e (tbl i)))" by (rule table_ok_remove [OF ok])
  have dist: "distinct (tbl i)" "\<And>a b. a \<in> set (tbl i) \<Longrightarrow> b \<in> set (tbl i) \<Longrightarrow> name a = name b \<Longrightarrow> a = b"
    using ok by (auto simp: table_ok_def distinct_map inj_on_def)
  have "lookup (tbl(i := remove1 e (tbl i))) n = Some x \<longleftrightarrow> n \<noteq> m \<and> lookup tbl n = Some x" for x
    unfolding lookup_Some_bucket [OF ok'] lookup_Some_bucket [OF ok]
    using mem dist by (cases "bkt (hash n) = i") (auto simp: i)
  then show ?thesis by (intro option_eqI) simp
qed

lemma table_ok_filter: "table_ok tbl \<Longrightarrow> table_ok (\<lambda>i. filter P (tbl i))"
  by (rule table_ok_subset [of tbl]) (auto simp: table_ok_def distinct_map inj_on_def)

lemma lookup_filter:
  assumes "table_ok tbl"
  shows "lookup (\<lambda>i. filter P (tbl i)) n =
    (case lookup tbl n of None \<Rightarrow> None | Some e \<Rightarrow> if P e then Some e else None)"
proof -
  have "lookup (\<lambda>i. filter P (tbl i)) n = Some x \<longleftrightarrow> lookup tbl n = Some x \<and> P x" for x
    unfolding lookup_Some_bucket [OF assms] lookup_Some_bucket [OF table_ok_filter [OF assms]] by auto
  then show ?thesis by (intro option_eqI) (auto split: option.split)
qed

text \<open>An entry replaced by one of the same name, at the head of its chain.\<close>

lemma move_laws:
  assumes ok: "table_ok tbl" and e: "lookup tbl m = Some e" and i: "i = bkt (hash m)"
    and e': "name e' = m" "key e' = hash m"
  shows "table_ok (tbl(i := e' # remove1 e (tbl i)))"
    and "lookup (tbl(i := e' # remove1 e (tbl i))) n = (if n = m then Some e' else lookup tbl n)"
proof -
  let ?t = "tbl(i := remove1 e (tbl i))"
  have upd: "tbl(i := e' # remove1 e (tbl i)) = ?t(i := e' # ?t i)" by simp
  show "table_ok (tbl(i := e' # remove1 e (tbl i)))"
    unfolding upd using e' i lookup_remove [OF ok e i, of m]
    by (intro table_ok_insert table_ok_remove ok) auto
  show "lookup (tbl(i := e' # remove1 e (tbl i))) n = (if n = m then Some e' else lookup tbl n)"
    unfolding upd using e' i lookup_remove [OF ok e i, of n] by (subst lookup_insert) auto
qed

text \<open>An entry replaced where it stands.\<close>

lemma replace_laws:
  assumes ok: "table_ok tbl" and e: "lookup tbl m = Some e" and i: "i = bkt (hash m)"
    and e': "name e' = m" "key e' = hash m"
  shows "table_ok (tbl(i := map (\<lambda>x. if name x = m then e' else x) (tbl i)))"
    and "lookup (tbl(i := map (\<lambda>x. if name x = m then e' else x) (tbl i))) n =
      (if n = m then Some e' else lookup tbl n)"
proof -
  let ?r = "\<lambda>x. if name x = m then e' else x"
  have names: "map name (map ?r (tbl i)) = map name (tbl i)" using e' by (auto simp: comp_def)
  have "placed (tbl(i := map ?r (tbl i)))"
    using ok e' i by (intro placed_updI) (auto simp: table_ok_def placed_def)
  then show ok': "table_ok (tbl(i := map ?r (tbl i)))"
    using ok names by (auto simp: table_ok_def e' simp del: map_map)
  have mem: "e \<in> set (tbl i)" "name e = m" using e lookup_Some_bucket [OF ok] i by auto
  have "lookup (tbl(i := map ?r (tbl i))) n = Some x \<longleftrightarrow>
      (if n = m then x = e' else lookup tbl n = Some x)" for x
    unfolding lookup_Some_bucket [OF ok'] lookup_Some_bucket [OF ok] using mem e' i by auto
  then show "lookup (tbl(i := map ?r (tbl i))) n = (if n = m then Some e' else lookup tbl n)"
    by (intro option_eqI) auto
qed

end

lemma entries_cong: "(\<And>i. i < nb \<Longrightarrow> tbl i = tbl' i) \<Longrightarrow> entries nb tbl = entries nb tbl'"
  unfolding entries_def by (intro arg_cong [where f = concat] map_cong) auto

lemma entries_filter: "entries nb (\<lambda>i. filter P (tbl i)) = filter P (entries nb tbl)"
  by (simp add: entries_def filter_concat comp_def)

lemma set_bucket_entries: "i < nb \<Longrightarrow> e \<in> set (tbl i) \<Longrightarrow> e \<in> set (entries nb tbl)"
  by (auto simp: set_entries)

lemma set_entries_upd_subset:
  "i < nb \<Longrightarrow> set (entries nb (tbl(i := xs))) \<subseteq> set (entries nb tbl) \<union> set xs"
  by (auto simp: set_entries split: if_splits)

lemma length_entries_remove:
  assumes "i < nb" and "e \<in> set (tbl i)"
  shows "Suc (length (entries nb (tbl(i := remove1 e (tbl i))))) = length (entries nb tbl)"
proof -
  have "Suc (length (remove1 e (tbl i))) = length (tbl i)"
    using assms(2) length_pos_if_in_set by (fastforce simp: length_remove1)
  then show ?thesis using length_entries_upd [OF assms(1), of tbl "remove1 e (tbl i)"] by linarith
qed

lemma set_entries_remove:
  "set (entries nb (tbl(i := remove1 e (tbl i)))) \<subseteq> set (entries nb tbl)"
  using set_remove1_subset [of e "tbl i"] by (fastforce simp: set_entries split: if_splits)

context keyed_table
begin

text \<open>A chain replaced as a whole.\<close>

lemma table_ok_chain:
  assumes "table_ok tbl" and "distinct (map name xs)"
    and "\<And>e. e \<in> set xs \<Longrightarrow> key e = hash (name e) \<and> bkt (hash (name e)) = i"
  shows "table_ok (tbl(i := xs))"
proof -
  have "placed (tbl(i := xs))" using assms by (intro placed_updI) (auto simp: table_ok_def)
  with assms show ?thesis by (auto simp: table_ok_def)
qed

lemma lookup_chain:
  "lookup (tbl(i := xs)) n = (if bkt (hash n) = i then find (\<lambda>e. name e = n) xs else lookup tbl n)"
  by (simp add: lookup_def)

end

context keyed_table
begin

lemma distinct_entries:
  assumes "table_ok tbl"
  shows "distinct (map name (entries nb tbl))"
proof -
  have "distinct (map name (concat (map tbl js)))" if "distinct js" for js
    using that
  proof (induction js)
    case (Cons j js)
    have "name e \<noteq> name e'" if "e \<in> set (tbl j)" "i \<in> set js" "e' \<in> set (tbl i)" for e e' i
      using table_ok_bucket [OF assms that(1)] table_ok_bucket [OF assms that(3)] that(2) Cons.prems by auto
    with Cons assms show ?case by (fastforce simp: table_ok_def)
  qed simp
  then show ?thesis unfolding entries_def by simp
qed

end

end
