(* ===== verification/Worker_Types.thy ===== *)
theory Worker_Types
  imports Hash_Table
begin

text \<open>
  The shared structures of \<^verbatim>\<open>src/src/worker.h\<close>: drop reasons, flag bits, the client and the
  packet buffer, with the configuration globals of \<^verbatim>\<open>config.c\<close> the packet path reads.
\<close>

section \<open>Limits\<close>

abbreviation CRLF :: string where "CRLF \<equiv> [CHR 0x0D, CHR 0x0A]"

definition CALLSIGNLEN_MIN :: nat where "CALLSIGNLEN_MIN = 3"
definition CALLSIGNLEN_MAX :: nat where "CALLSIGNLEN_MAX = 9"
definition PACKETLEN_MIN :: nat where "PACKETLEN_MIN = 10"
definition PACKETLEN_MAX :: nat where "PACKETLEN_MAX = 512"
definition PACKETLEN_MAX_SMALL :: nat where "PACKETLEN_MAX_SMALL = 100"
definition PACKETLEN_MAX_MEDIUM :: nat where "PACKETLEN_MAX_MEDIUM = 180"
definition PACKETLEN_MAX_LARGE :: nat where "PACKETLEN_MAX_LARGE = PACKETLEN_MAX"

lemmas len_defs = CALLSIGNLEN_MIN_def CALLSIGNLEN_MAX_def PACKETLEN_MIN_def PACKETLEN_MAX_def
  PACKETLEN_MAX_SMALL_def PACKETLEN_MAX_MEDIUM_def PACKETLEN_MAX_LARGE_def

section \<open>Drop reasons\<close>

datatype inerr =
    INERR_NO_COLON | INERR_NO_DST | INERR_NO_PATH | INERR_INV_SRCCALL | INERR_NO_BODY
  | INERR_INV_DSTCALL | INERR_DISALLOW_UNVERIFIED | INERR_DISALLOW_UNVERIFIED_PATH
  | INERR_NOGATE | INERR_3RD_PARTY_IP | INERR_INV_3RD_PARTY | INERR_GENERAL_QUERY
  | INERR_OUT_OF_PBUFS | INERR_CLASS_FAIL | INERR_Q_BUG | INERR_Q_DROP | INERR_SHORT_PACKET
  | INERR_LONG_PACKET | INERR_INV_PATH_CALL | INERR_Q_QAX | INERR_Q_QAZ
  | INERR_Q_QPATH_MYCALL | INERR_Q_QPATH_CALL_TWICE | INERR_Q_PATH_LOGIN_NOT_LAST
  | INERR_Q_PATH_CALL_IS_LOCAL_CLIENT | INERR_Q_PATH_CALL_IS_INVALID
  | INERR_Q_QAU_PATH_CALL_IS_SRCCALL | INERR_Q_NEWQ_BUFFER_SMALL
  | INERR_Q_NONVAL_MULTI_Q_CALLS | INERR_Q_I_NO_VIACALL | INERR_Q_DISALLOW_PROTOCOL
  | INERR_EMPTY | INERR_DIS_SRCCALL | INERR_DIS_DX | INERR_DIS_MSG_DST | INERR_DIS_IGATECALL

fun inerr_code :: "inerr \<Rightarrow> int" where
  "inerr_code INERR_NO_COLON = -1"
| "inerr_code INERR_NO_DST = -2"
| "inerr_code INERR_NO_PATH = -3"
| "inerr_code INERR_INV_SRCCALL = -4"
| "inerr_code INERR_NO_BODY = -5"
| "inerr_code INERR_INV_DSTCALL = -6"
| "inerr_code INERR_DISALLOW_UNVERIFIED = -7"
| "inerr_code INERR_DISALLOW_UNVERIFIED_PATH = -8"
| "inerr_code INERR_NOGATE = -9"
| "inerr_code INERR_3RD_PARTY_IP = -10"
| "inerr_code INERR_INV_3RD_PARTY = -11"
| "inerr_code INERR_GENERAL_QUERY = -12"
| "inerr_code INERR_OUT_OF_PBUFS = -13"
| "inerr_code INERR_CLASS_FAIL = -14"
| "inerr_code INERR_Q_BUG = -15"
| "inerr_code INERR_Q_DROP = -16"
| "inerr_code INERR_SHORT_PACKET = -17"
| "inerr_code INERR_LONG_PACKET = -18"
| "inerr_code INERR_INV_PATH_CALL = -19"
| "inerr_code INERR_Q_QAX = -20"
| "inerr_code INERR_Q_QAZ = -21"
| "inerr_code INERR_Q_QPATH_MYCALL = -22"
| "inerr_code INERR_Q_QPATH_CALL_TWICE = -23"
| "inerr_code INERR_Q_PATH_LOGIN_NOT_LAST = -24"
| "inerr_code INERR_Q_PATH_CALL_IS_LOCAL_CLIENT = -25"
| "inerr_code INERR_Q_PATH_CALL_IS_INVALID = -26"
| "inerr_code INERR_Q_QAU_PATH_CALL_IS_SRCCALL = -27"
| "inerr_code INERR_Q_NEWQ_BUFFER_SMALL = -28"
| "inerr_code INERR_Q_NONVAL_MULTI_Q_CALLS = -29"
| "inerr_code INERR_Q_I_NO_VIACALL = -30"
| "inerr_code INERR_Q_DISALLOW_PROTOCOL = -31"
| "inerr_code INERR_EMPTY = -32"
| "inerr_code INERR_DIS_SRCCALL = -33"
| "inerr_code INERR_DIS_DX = -34"
| "inerr_code INERR_DIS_MSG_DST = -35"
| "inerr_code INERR_DIS_IGATECALL = -36"

definition INERR_MIN :: int where "INERR_MIN = -36"
definition INERR_BUCKETS :: nat where "INERR_BUCKETS = nat (INERR_MIN * -1 + 1)"

lemma inerr_code_range: "INERR_MIN \<le> inerr_code e \<and> inerr_code e \<le> -1"
  by (cases e) (simp_all add: INERR_MIN_def)

section \<open>Packet flags\<close>

definition T_POSITION :: u16 where "T_POSITION = push_bit 0 1"
definition T_OBJECT :: u16 where "T_OBJECT = push_bit 1 1"
definition T_ITEM :: u16 where "T_ITEM = push_bit 2 1"
definition T_MESSAGE :: u16 where "T_MESSAGE = push_bit 3 1"
definition T_NWS :: u16 where "T_NWS = push_bit 4 1"
definition T_WX :: u16 where "T_WX = push_bit 5 1"
definition T_TELEMETRY :: u16 where "T_TELEMETRY = push_bit 6 1"
definition T_QUERY :: u16 where "T_QUERY = push_bit 7 1"
definition T_STATUS :: u16 where "T_STATUS = push_bit 8 1"
definition T_USERDEF :: u16 where "T_USERDEF = push_bit 9 1"
definition T_CWOP :: u16 where "T_CWOP = push_bit 10 1"
definition T_STATCAPA :: u16 where "T_STATCAPA = push_bit 11 1"
definition T_3RDPARTY :: u16 where "T_3RDPARTY = push_bit 12 1"
definition T_ALL :: u16 where "T_ALL = push_bit 15 1"

definition F_DUPE :: u16 where "F_DUPE = push_bit 0 1"
definition F_HASPOS :: u16 where "F_HASPOS = push_bit 1 1"
definition F_HAS_TCPIP :: u16 where "F_HAS_TCPIP = push_bit 2 1"
definition F_FROM_UPSTR :: u16 where "F_FROM_UPSTR = push_bit 3 1"
definition F_FROM_DOWNSTR :: u16 where "F_FROM_DOWNSTR = push_bit 4 1"

lemmas ptype_defs = T_POSITION_def T_OBJECT_def T_ITEM_def T_MESSAGE_def T_NWS_def T_WX_def
  T_TELEMETRY_def T_QUERY_def T_STATUS_def T_USERDEF_def T_CWOP_def T_STATCAPA_def
  T_3RDPARTY_def T_ALL_def

lemmas pflag_defs = F_DUPE_def F_HASPOS_def F_HAS_TCPIP_def F_FROM_UPSTR_def F_FROM_DOWNSTR_def

section \<open>Client flags and state\<close>

definition CLFLAGS_INPORT :: u32 where "CLFLAGS_INPORT = 0x001"
definition CLFLAGS_UPLINKPORT :: u32 where "CLFLAGS_UPLINKPORT = 0x002"
definition CLFLAGS_UDPSUBMIT :: u32 where "CLFLAGS_UDPSUBMIT = 0x004"
definition CLFLAGS_PORT_RO :: u32 where "CLFLAGS_PORT_RO = 0x008"
definition CLFLAGS_USERFILTEROK :: u32 where "CLFLAGS_USERFILTEROK = 0x010"
definition CLFLAGS_FULLFEED :: u32 where "CLFLAGS_FULLFEED = 0x100"
definition CLFLAGS_DUPEFEED :: u32 where "CLFLAGS_DUPEFEED = 0x200"
definition CLFLAGS_MESSAGEONLY :: u32 where "CLFLAGS_MESSAGEONLY = 0x400"
definition CLFLAGS_CLIENTONLY :: u32 where "CLFLAGS_CLIENTONLY = 0x800"
definition CLFLAGS_IGATE :: u32 where "CLFLAGS_IGATE = 0x1000"
definition CLFLAGS_UPLINKMULTI :: u32 where "CLFLAGS_UPLINKMULTI = 0x2000"

lemmas clflag_defs = CLFLAGS_INPORT_def CLFLAGS_UPLINKPORT_def CLFLAGS_UDPSUBMIT_def
  CLFLAGS_PORT_RO_def CLFLAGS_USERFILTEROK_def CLFLAGS_FULLFEED_def CLFLAGS_DUPEFEED_def
  CLFLAGS_MESSAGEONLY_def CLFLAGS_CLIENTONLY_def CLFLAGS_IGATE_def CLFLAGS_UPLINKMULTI_def

definition VALIDATED_WEAK :: nat where "VALIDATED_WEAK = 1"
definition VALIDATED_STRONG :: nat where "VALIDATED_STRONG = 3"

datatype CStateEnum =
  CSTATE_INIT | CSTATE_UDP | CSTATE_LOGIN | CSTATE_LOGRESP | CSTATE_CONNECTED | CSTATE_COREPEER

text \<open>An entry of a client's heard or courtesy list; \<open>h_callsign\<close> is the whole ten-byte array.\<close>

record client_heard_t =
  h_hash :: u32
  h_call_len :: nat
  h_last_heard :: ctime
  h_callsign :: string

section \<open>Filters\<close>

text \<open>A C \<^verbatim>\<open>float\<close> read from text. Finite values are real numbers: rounding is left out.\<close>

datatype cfloat = Fin real | Infinite bool \<comment> \<open>negative\<close> | NaN

text \<open>\<^verbatim>\<open>x < y\<close> on such values: false as soon as one is no number.\<close>

fun cf_less :: "cfloat \<Rightarrow> cfloat \<Rightarrow> bool" where
  "cf_less (Fin x) (Fin y) \<longleftrightarrow> x < y"
| "cf_less (Fin x) (Infinite n) \<longleftrightarrow> \<not> n"
| "cf_less (Infinite n) (Fin y) \<longleftrightarrow> n"
| "cf_less (Infinite n) (Infinite m) \<longleftrightarrow> n \<and> \<not> m"
| "cf_less NaN y \<longleftrightarrow> False"
| "cf_less x NaN \<longleftrightarrow> False"

text \<open>A callsign or prefix of a filter: the bytes of the array before its padding, and the length
  with the flags \<^verbatim>\<open>WildCard\<close> and \<^verbatim>\<open>NegationFlag\<close>.\<close>

record filter_refcallsign_t =
  rc_callsign :: string
  rc_reflen :: "8 word"

text \<open>One filter. The members of an anonymous union are fields of their own: no type of filter uses
  two members of the same one. The text is in \<open>f_textbuf\<close> or, when it did not fit, in a string of its
  own, \<open>f_exttext\<close>. \<open>f_refcallsigns\<close> holds the \<^verbatim>\<open>numnames\<close> valid elements of its array;
  \<open>f_cached\<close> is \<^verbatim>\<open>numnames\<close> in its second role, the validity of the cached position.\<close>

record filter_t =
  f_type :: char
  f_negation :: bool
  f_textbuf :: string
  f_exttext :: "string option"
  f_latN :: real
  f_lonE :: real
  f_latS :: real
  f_lonW :: real
  f_coslat :: real
  f_dist :: cfloat
  f_hist_age :: ctime
  f_cached :: bool
  f_bitflags :: u16
  f_len1s :: nat
  f_len1 :: nat
  f_len2s :: nat
  f_len2 :: nat
  f_len3s :: nat
  f_len3 :: nat
  f_refcallsign :: string
  f_refcallsigns :: "filter_refcallsign_t list"

definition f_text :: "filter_t \<Rightarrow> string" where
  "f_text f = (case f_exttext f of None \<Rightarrow> f_textbuf f | Some s \<Rightarrow> s)"

section \<open>Clients and packets\<close>

text \<open>Socket addresses: the bytes of the address in network order, and the port.\<close>

datatype sockaddr_u = SA_INET "8 word list" "16 word" | SA_INET6 "8 word list" "16 word"

text \<open>The functions \<^verbatim>\<open>handler_line_in\<close> points to.\<close>

datatype line_handler = Login_Handler | Incoming_Handler | Uplink_Login_Handler | Uplink_Logresp_Handler

text \<open>The functions \<^verbatim>\<open>write\<close> points to, and the transport protocols.\<close>

datatype client_writer = Tcp_Client_Write | Udp_Client_Write | Ssl_Client_Write | Sctp_Client_Write

datatype l4proto = IPPROTO_TCP | IPPROTO_UDP | IPPROTO_SCTP

text \<open>The output buffer of a client.\<close>

record obuf_t =
  ob_mem :: string
  ob_size :: nat
  ob_start :: nat
  ob_end :: nat
  ob_flushsize :: nat
  ob_writes :: nat
  ob_wtime :: ctime
  ob_poll :: bool \<comment> \<open>whether the poller has been told that there is outgoing data\<close>

text \<open>The client fields the packet path reads or writes. \<open>c_id\<close> is the address of the
  structure, used as an identity only; \<open>c_udpclient\<close> says whether the pointer is set.\<close>

record client_t =
  c_id :: nat
  c_fd :: int
  c_state :: CStateEnum
  c_flags :: u32
  c_validated :: nat
  c_username :: string
  c_addr_hex :: string
  c_quirks_mode :: bool
  c_no_tx :: bool
  c_loc_known :: bool
  c_lat :: real
  c_lng :: real
  c_cos_lat :: real
  c_udp_port :: nat
  c_udpclient :: bool
  c_heard :: "client_heard_t table"
  c_courtesy :: "client_heard_t table"
  c_heard_count :: int
  c_courtesy_count :: int
  c_warned :: bool
  c_posdefaultfilters :: "filter_t list"
  c_negdefaultfilters :: "filter_t list"
  c_posuserfilters :: "filter_t list"
  c_neguserfilters :: "filter_t list"
  c_filter_s :: string
  c_addr :: sockaddr_u
  c_udpaddr :: sockaddr_u
  c_ssl_validate :: bool \<comment> \<open>TLS with validation of client certificates\<close>
  c_failed_cmds :: int
  c_app_name :: string
  c_app_version :: string
  c_handler_line_in :: line_handler
  c_last_read :: ctime
  c_keepalive :: ctime
  c_cleanup :: ctime
  c_connect_tick :: ctime
  c_ai_protocol :: l4proto
  c_addr_loc :: string
  c_write :: "client_writer option" \<comment> \<open>None while the pointer is NULL\<close>
  c_obuf :: obuf_t

text \<open>A packet buffer at address \<open>pb_addr\<close>. Pointers into \<^verbatim>\<open>data\<close> are offsets from its start,
  the names \<^verbatim>\<open>srcname\<close> and \<^verbatim>\<open>dstname\<close> are the bytes their pointer and length delimit, \<^verbatim>\<open>dstname\<close> None while NULL; \<open>pb_origin\<close>
  is the address of the client the packet came from.\<close>

record pbuf_t =
  pb_addr :: nat
  pb_origin :: nat
  pb_srcname_hash :: u32
  pb_srccall_hash :: u32
  pb_dstname_hash :: u32
  pb_packettype :: u16
  pb_flags :: u16
  pb_srcname :: string
  pb_dstname :: "string option"
  pb_entrycall_len :: nat
  pb_seqnum :: u32
  pb_t :: ctime
  pb_packet_len :: nat
  pb_buf_len :: nat
  pb_srccall_end :: nat
  pb_dstcall_end_or_ssid :: nat
  pb_dstcall_end :: nat
  pb_dstcall_len :: nat
  pb_qconst_start :: nat
  pb_info_start :: nat
  pb_lat :: real
  pb_lng :: real
  pb_cos_lat :: real
  pb_symbol :: string
  pb_is_free :: bool
  pb_data :: string

text \<open>Configuration globals.\<close>

record config =
  serverid :: string
  q_protocol_id :: char
  disallow_other_protocol_id :: bool
  disallow_unverified :: bool
  disallow_srccall_glob :: "string list option"
  disallow_igate_glob :: "string list option"

text \<open>A worker thread: its clients and its lists of classified ones, its free buffers by size
  class, the packets parsed but not yet handed over, the inbox of the duplicate check, and its place
  in the two global queues. A queue with its tail pointer is a list. The places \<^verbatim>\<open>pbuf_global_prevp\<close>
  point to the \<^verbatim>\<open>next\<close> field of the packet at the given address, or to the head of the queue
  (\<^const>\<open>None\<close>).\<close>

record worker_t =
  w_clients :: "client_t list"
  w_clients_dupe :: "client_t list"
  w_clients_ro :: "client_t list"
  w_clients_ups :: "client_t list"
  w_clients_other :: "client_t list"
  w_pbuf_free_small :: "pbuf_t list"
  w_pbuf_free_medium :: "pbuf_t list"
  w_pbuf_free_large :: "pbuf_t list"
  w_pbuf_incoming_local :: "pbuf_t list"
  w_pbuf_incoming_local_count :: int
  w_pbuf_incoming :: "pbuf_t list"
  w_pbuf_incoming_count :: int
  w_pbuf_global_prevp :: "nat option"
  w_pbuf_global_dupe_prevp :: "nat option"
  w_last_pbuf_seqnum :: u32
  w_last_pbuf_dupe_seqnum :: u32
  w_internal_packet_drops :: u32

text \<open>A buffer with all header fields zero: \<^verbatim>\<open>memset(pb, 0, sizeof( *pb))\<close> and the length of its
  class. The bytes of \<^verbatim>\<open>data\<close> behind the header are not touched, and nothing reads them before
  they are written.\<close>

definition pbuf_zero :: "nat \<Rightarrow> nat \<Rightarrow> pbuf_t" where
  "pbuf_zero addr len =
     \<lparr>pb_addr = addr, pb_origin = 0, pb_srcname_hash = 0, pb_srccall_hash = 0, pb_dstname_hash = 0,
      pb_packettype = 0, pb_flags = 0, pb_srcname = [], pb_dstname = None, pb_entrycall_len = 0,
      pb_seqnum = 0, pb_t = 0, pb_packet_len = 0, pb_buf_len = len, pb_srccall_end = 0,
      pb_dstcall_end_or_ssid = 0, pb_dstcall_end = 0, pb_dstcall_len = 0, pb_qconst_start = 0,
      pb_info_start = 0, pb_lat = 0, pb_lng = 0, pb_cos_lat = 0, pb_symbol = [],
      pb_is_free = False, pb_data = []\<rparr>"

text \<open>The \<^verbatim>\<open>dstname_len\<close> bytes at \<^verbatim>\<open>dstname\<close>.\<close>

definition dstname_text :: "pbuf_t \<Rightarrow> string" where
  "dstname_text pb = (case pb_dstname pb of None \<Rightarrow> [] | Some d \<Rightarrow> d)"

text \<open>\<^verbatim>\<open>client_printf\<close> of \<^verbatim>\<open>worker.c\<close> for a text already formatted: what \<^verbatim>\<open>c->write\<close> returns, and the text it
  is given. Texts that do not fit the buffer are not written.\<close>

definition client_printf :: "(string \<Rightarrow> int) \<Rightarrow> string \<Rightarrow> int \<times> string option" where
  "client_printf write s = (if PACKETLEN_MAX \<le> length s then (-1, None) else (write s, Some s))"

section \<open>Concrete values\<close>

text \<open>A server and a logged-in client, for the concrete runs of the other theories.\<close>

definition demo_config :: config where
  "demo_config = \<lparr>serverid = ''T2FIN'', q_protocol_id = CHR ''A'',
     disallow_other_protocol_id = True, disallow_unverified = False,
     disallow_srccall_glob = None, disallow_igate_glob = None\<rparr>"

definition demo_client :: client_t where
  "demo_client = \<lparr>c_id = 1, c_fd = 7, c_state = CSTATE_CONNECTED, c_flags = CLFLAGS_INPORT,
     c_validated = VALIDATED_WEAK, c_username = ''OH7LZB'', c_addr_hex = ''7F000001'',
     c_quirks_mode = False, c_no_tx = False, c_loc_known = False, c_lat = 0, c_lng = 0,
     c_cos_lat = 0, c_udp_port = 0, c_udpclient = False, c_heard = (\<lambda>_. []),
     c_courtesy = (\<lambda>_. []), c_heard_count = 0, c_courtesy_count = 0,
     c_warned = False, c_posdefaultfilters = [], c_negdefaultfilters = [], c_posuserfilters = [],
     c_neguserfilters = [], c_filter_s = [], c_addr = SA_INET [127, 0, 0, 1] 50000,
     c_udpaddr = SA_INET [0, 0, 0, 0] 0, c_ssl_validate = False, c_failed_cmds = 0, c_app_name = [],
     c_app_version = [], c_handler_line_in = Incoming_Handler, c_last_read = 0, c_keepalive = 0, c_cleanup = 0,
     c_connect_tick = 0, c_ai_protocol = IPPROTO_TCP, c_addr_loc = ''127.0.0.1:14580'', c_write = Some Tcp_Client_Write,
     c_obuf = \<lparr>ob_mem = [], ob_size = 0, ob_start = 0, ob_end = 0, ob_flushsize = 0, ob_writes = 0, ob_wtime = 0, ob_poll = False\<rparr>\<rparr>"

end
