(* ===== verification/Keyhash.thy ===== *)
theory Keyhash
  imports Aprsc_Prelude
begin

text \<open>
  \<^verbatim>\<open>src/src/keyhash.c\<close>: the 32-bit string hash of every hash table of the server, in the
  variant the compiler sees (shifts and additions for the multiplication by the FNV prime).
\<close>

definition FNV_32_PRIME :: u32 where
  "FNV_32_PRIME = 16777619"

definition FVN_32_OFFSET :: u32 where
  "FVN_32_OFFSET = 2166136261"

definition fnv_mult :: "u32 \<Rightarrow> u32" where
  "fnv_mult h = h + (push_bit 1 h + push_bit 4 h + push_bit 7 h + push_bit 8 h + push_bit 24 h)"

definition byte32 :: "char \<Rightarrow> u32" where
  "byte32 c = of_nat (byte_code c)"

fun keyhash_loop :: "string \<Rightarrow> u32 \<Rightarrow> u32" where
  "keyhash_loop [] h = h"
| "keyhash_loop (c # s) h = keyhash_loop s (fnv_mult h XOR byte32 c)"

definition keyhash :: "string \<Rightarrow> u32 \<Rightarrow> u32" where
  "keyhash p h = keyhash_loop p (if h = 0 then FVN_32_OFFSET else h)"

fun keyhashuc_loop :: "string \<Rightarrow> u32 \<Rightarrow> u32" where
  "keyhashuc_loop [] h = h"
| "keyhashuc_loop (u # s) h =
     (let c = byte32 u;
          c' = (if 97 \<le> c \<and> c \<le> 122 then c - (97 - 65) else c)
      in keyhashuc_loop s (fnv_mult h XOR c'))"

definition keyhashuc :: "string \<Rightarrow> u32 \<Rightarrow> u32" where
  "keyhashuc p h = keyhashuc_loop p (if h = 0 then FVN_32_OFFSET else h)"

text \<open>The shifts and additions are one multiplication by the FNV prime.\<close>

lemma fnv_mult_eq: "fnv_mult h = h * FNV_32_PRIME"
  by (simp add: fnv_mult_def FNV_32_PRIME_def push_bit_eq_mult algebra_simps)

section \<open>Laws\<close>

text \<open>Hashing on: the hash of a text continues that of its first part, unless that is zero,
  which the functions take for the start of a new hash.\<close>

lemma keyhash_loop_append: "keyhash_loop (a @ b) h = keyhash_loop b (keyhash_loop a h)"
  by (induction a arbitrary: h) auto

lemma keyhash_append: "keyhash a h \<noteq> 0 \<Longrightarrow> keyhash (a @ b) h = keyhash b (keyhash a h)"
  by (simp add: keyhash_def keyhash_loop_append)

lemma byte32_toupper:
  "byte32 (toupper c) = (if 97 \<le> byte32 c \<and> byte32 c \<le> 122 then byte32 c - (97 - 65) else byte32 c)"
proof -
  have le: "(97 \<le> byte32 c \<and> byte32 c \<le> 122) = is_lower c"
  proof -
    have "byte_code c mod 4294967296 = byte_code c"
      using byte_code_less [of c] by (intro mod_less) linarith
    then show ?thesis by (simp add: byte32_def is_lower_def word_le_nat_alt unat_of_nat)
  qed
  have "of_nat (byte_code c - 32) = (of_nat (byte_code c) - 32 :: u32)" if "is_lower c"
    using that by (simp add: is_lower_def of_nat_diff)
  then show ?thesis unfolding le by (simp add: byte32_def byte_code_toupper)
qed

lemma keyhashuc_loop_toupper: "keyhashuc_loop s h = keyhash_loop (map toupper s) h"
  by (induction s arbitrary: h) (simp_all add: Let_def byte32_toupper)

lemma keyhashuc_map: "keyhashuc s h = keyhash (map toupper s) h"
  by (simp add: keyhashuc_def keyhash_def keyhashuc_loop_toupper)

text \<open>The case-folding hash is the plain hash of the upper-cased text, so that names that differ
  in case only land in the same chain.\<close>

theorem keyhashuc_toupper: "keyhashuc s h = keyhash (map toupper s) h"
  by (rule keyhashuc_map)

text \<open>The two orders of the published FNV hash.\<close>

fun fnv1a :: "string \<Rightarrow> u32 \<Rightarrow> u32" where
  "fnv1a [] h = h"
| "fnv1a (c # s) h = fnv1a s ((h XOR byte32 c) * FNV_32_PRIME)"

fun fnv1 :: "string \<Rightarrow> u32 \<Rightarrow> u32" where
  "fnv1 [] h = h"
| "fnv1 (c # s) h = fnv1 s ((h * FNV_32_PRIME) XOR byte32 c)"
lemma keyhash_loop_fnv1: "keyhash_loop s h = fnv1 s h"
  by (induction s arbitrary: h) (simp_all add: fnv_mult_eq)

text \<open>The hash is FNV-1: multiply, then mix the byte in. The FNV-1a the comment in the source names
  mixes first, and gives other values already on one letter.\<close>

theorem keyhash_is_fnv1:
  "keyhash s 0 = fnv1 s FVN_32_OFFSET \<and> keyhash ''a'' 0 \<noteq> fnv1a ''a'' FVN_32_OFFSET"
  by (simp add: keyhash_def keyhash_loop_fnv1) (simp add: FVN_32_OFFSET_def FNV_32_PRIME_def byte32_def byte_code_def)

end
