(* ===== verification/Clientlist.thy ===== *)
theory Clientlist
  imports Worker_Types Keyhash
begin

text \<open>
  \<^verbatim>\<open>src/src/clientlist.c\<close>: the process-wide list of logged-in clients, 512 hash buckets.
  The read-write lock around every operation makes each of them one atomic step, so an
  operation is a function on the table.
\<close>

record clientlist_t =
  cl_username :: string \<comment> \<open>the 16-byte array\<close>
  cl_username_len :: nat
  cl_validated :: nat
  cl_fd :: int
  cl_hash :: u32
  cl_client_id :: nat

definition CLIENTLIST_BUCKETS :: nat where "CLIENTLIST_BUCKETS = 512"

definition clientlist_bucket :: "u32 \<Rightarrow> nat" where
  "clientlist_bucket hash =
     (let idx = hash; idx = idx XOR drop_bit 16 idx; idx = idx XOR drop_bit 8 idx
      in unat idx mod CLIENTLIST_BUCKETS)"

definition clientlist_find_id :: "clientlist_t table \<Rightarrow> string \<Rightarrow> nat \<Rightarrow> clientlist_t option" where
  "clientlist_find_id cls username cid =
     find (\<lambda>cl. cl_client_id cl = cid) (cls (clientlist_bucket (keyhash username 0)))"

definition cl_matches :: "u32 \<Rightarrow> string \<Rightarrow> clientlist_t \<Rightarrow> bool" where
  "cl_matches hash username cl \<longleftrightarrow>
     cl_hash cl = hash \<and> take (length username) (cl_username cl) = username \<and>
     cl_username_len cl = length username \<and> cl_validated cl \<noteq> 0"

definition check_if_validated_client :: "clientlist_t table \<Rightarrow> string \<Rightarrow> int" where
  "check_if_validated_client cls username =
     (let hash = keyhash username 0
      in case find (cl_matches hash username) (cls (clientlist_bucket hash)) of
           None \<Rightarrow> -1 | Some cl \<Rightarrow> cl_fd cl)"

definition clientlist_check_if_validated_client :: "clientlist_t table \<Rightarrow> string \<Rightarrow> int" where
  "clientlist_check_if_validated_client cls username = check_if_validated_client cls username"

definition clientlist_entry :: "client_t \<Rightarrow> clientlist_t" where
  "clientlist_entry c =
     \<lparr>cl_username = cbuf 16 (c_username c), cl_username_len = length (c_username c),
      cl_validated = c_validated c, cl_fd = c_fd c, cl_hash = keyhash (c_username c) 0,
      cl_client_id = c_id c\<rparr>"

definition clientlist_add :: "client_t \<Rightarrow> clientlist_t table \<Rightarrow> int \<times> clientlist_t table" where
  "clientlist_add c cls =
     (let i = clientlist_bucket (keyhash (c_username c) 0);
          old_fd = check_if_validated_client cls (c_username c)
      in (old_fd, cls(i := clientlist_entry c # cls i)))"

definition clientlist_remove :: "client_t \<Rightarrow> clientlist_t table \<Rightarrow> clientlist_t table" where
  "clientlist_remove c cls =
     (case clientlist_find_id cls (c_username c) (c_id c) of
        None \<Rightarrow> cls
      | Some cl \<Rightarrow>
          (let i = clientlist_bucket (keyhash (c_username c) 0) in cls(i := remove1 cl (cls i))))"

interpretation cltab: bucket_table CLIENTLIST_BUCKETS cl_hash clientlist_bucket
  by unfold_locales (simp add: clientlist_bucket_def CLIENTLIST_BUCKETS_def Let_def)


section \<open>What the table stands for\<close>

text \<open>A callsign is logged in when some entry of the whole table carries it with a valid
  passcode or certificate: the specification the hash lookup has to meet.\<close>

definition cl_name :: "clientlist_t \<Rightarrow> string" where
  "cl_name e = take (cl_username_len e) (cl_username e)"

definition logged_in :: "clientlist_t table \<Rightarrow> string \<Rightarrow> bool" where
  "logged_in cls u \<longleftrightarrow>
     (\<exists>e \<in> set (entries CLIENTLIST_BUCKETS cls). cl_name e = u \<and> cl_validated e \<noteq> 0)"

definition wf_cl_entry :: "clientlist_t \<Rightarrow> bool" where
  "wf_cl_entry e \<longleftrightarrow>
     length (cl_username e) = 16 \<and> cl_username_len e \<le> 15 \<and> cl_hash e = keyhash (cl_name e) 0 \<and>
     cl_fd e \<noteq> -1"

definition clientlist_inv :: "clientlist_t table \<Rightarrow> bool" where
  "clientlist_inv cls \<longleftrightarrow> cltab.placed cls \<and> (\<forall>i. \<forall>e \<in> set (cls i). wf_cl_entry e)"

text \<open>What the login handler guarantees of a client before it is added.\<close>

definition addable :: "client_t \<Rightarrow> bool" where
  "addable c \<longleftrightarrow> length (c_username c) \<le> 15 \<and> c_fd c \<noteq> -1"

lemma clientlist_inv_empty: "clientlist_inv (\<lambda>_. [])"
  by (simp add: clientlist_inv_def cltab.placed_empty)

lemma cl_matches_wf:
  "wf_cl_entry e \<Longrightarrow>
     cl_matches (keyhash u 0) u e \<longleftrightarrow> cl_hash e = keyhash u 0 \<and> cl_name e = u \<and> cl_validated e \<noteq> 0"
  by (auto simp: cl_matches_def wf_cl_entry_def cl_name_def)

lemma cl_name_entry [simp]: "length (c_username c) \<le> 15 \<Longrightarrow> cl_name (clientlist_entry c) = c_username c"
  by (simp add: cl_name_def clientlist_entry_def)

lemma wf_clientlist_entry: "addable c \<Longrightarrow> wf_cl_entry (clientlist_entry c)"
  by (simp add: wf_cl_entry_def addable_def) (simp add: clientlist_entry_def)

lemma clientlist_inv_add:
  "clientlist_inv cls \<Longrightarrow> addable c \<Longrightarrow> clientlist_inv (snd (clientlist_add c cls))"
  using wf_clientlist_entry [of c]
  by (auto simp: clientlist_inv_def clientlist_add_def Let_def clientlist_entry_def
      intro!: cltab.placed_insert)

lemma clientlist_inv_remove: "clientlist_inv cls \<Longrightarrow> clientlist_inv (clientlist_remove c cls)"
  by (auto simp: clientlist_inv_def clientlist_remove_def Let_def split: option.split
      dest: set_remove1_subset [THEN subsetD] elim!: cltab.placed_subset split: if_splits)

lemma logged_in_bucket:
  assumes "clientlist_inv cls"
  shows "logged_in cls u \<longleftrightarrow>
     (\<exists>e \<in> set (cls (clientlist_bucket (keyhash u 0))). cl_matches (keyhash u 0) u e)"
proof -
  have wf: "wf_cl_entry e" if "e \<in> set (entries CLIENTLIST_BUCKETS cls)" for e
    using assms that by (auto simp: clientlist_inv_def set_entries)
  have wf': "wf_cl_entry e" if "e \<in> set (cls i)" for e i
    using assms that by (auto simp: clientlist_inv_def)
  have "logged_in cls u \<longleftrightarrow>
      (\<exists>e \<in> set (entries CLIENTLIST_BUCKETS cls). cl_hash e = keyhash u 0 \<and> cl_matches (keyhash u 0) u e)"
    unfolding logged_in_def using cl_matches_wf [OF wf] wf
    by (intro bex_cong refl) (auto simp: wf_cl_entry_def)
  also have "\<dots> \<longleftrightarrow> (\<exists>e \<in> set (cls (clientlist_bucket (keyhash u 0))).
      cl_hash e = keyhash u 0 \<and> cl_matches (keyhash u 0) u e)"
    using assms by (intro cltab.bucket_ex_iff_entries [symmetric]) (simp add: clientlist_inv_def)
  finally show ?thesis by (auto simp: cl_matches_def)
qed

lemma check_if_validated_client_iff:
  assumes inv: "clientlist_inv cls"
  shows "clientlist_check_if_validated_client cls u \<noteq> -1 \<longleftrightarrow> logged_in cls u"
proof (cases "find (cl_matches (keyhash u 0) u) (cls (clientlist_bucket (keyhash u 0)))")
  case None
  then show ?thesis
    by (simp add: clientlist_check_if_validated_client_def check_if_validated_client_def Let_def
        logged_in_bucket [OF inv]) (auto simp: find_None_iff)
next
  case (Some e)
  then have "e \<in> set (cls (clientlist_bucket (keyhash u 0)))" "cl_matches (keyhash u 0) u e"
    by (auto simp: find_Some_iff)
  with inv Some show ?thesis
    by (auto simp: clientlist_check_if_validated_client_def check_if_validated_client_def Let_def
        logged_in_bucket [OF inv] clientlist_inv_def wf_cl_entry_def)
qed

lemma logged_in_add:
  assumes "addable c"
  shows "logged_in (snd (clientlist_add c cls)) u \<longleftrightarrow>
     logged_in cls u \<or> u = c_username c \<and> c_validated c \<noteq> 0"
proof -
  have "cl_validated (clientlist_entry c) = c_validated c" by (simp add: clientlist_entry_def)
  with assms show ?thesis
    by (auto simp: logged_in_def clientlist_add_def Let_def addable_def
        set_entries_insert [OF cltab.bkt_less] simp del: fun_upd_apply)
qed


lemma clientlist_remove_add: "clientlist_remove c (snd (clientlist_add c cls)) = cls"
proof -
  have "clientlist_find_id (snd (clientlist_add c cls)) (c_username c) (c_id c) =
      Some (clientlist_entry c)"
    by (simp add: clientlist_find_id_def clientlist_add_def Let_def clientlist_entry_def)
  then show ?thesis by (simp add: clientlist_remove_def Let_def) (simp add: clientlist_add_def Let_def)
qed

end
