(* ===== verification/Parse_QC.thy ===== *)
theory Parse_QC
  imports Clientlist
begin

text \<open>
  \<^verbatim>\<open>src/src/parse_qc.c\<close>: the APRS-IS q construct algorithm. The packet is the buffer
  \<^verbatim>\<open>pdata\<close>, the pointers \<^verbatim>\<open>via_start\<close>, \<^verbatim>\<open>path_end\<close> and \<^verbatim>\<open>q_start\<close> are offsets into it. The
  function returns the bytes to append to the path, or the reason to drop the packet;
  \<open>Q_Fault\<close> stands for the call of \<^verbatim>\<open>memmem\<close> with a length that ran below zero, whose
  behaviour C leaves undefined.
\<close>

section \<open>Results\<close>

text \<open>\<^verbatim>\<open>*new_q_start\<close>: untouched NULL, a pointer into the packet, or \<^verbatim>\<open>NULL + 1\<close>.\<close>

datatype q_ptr = Q_Null | Q_NullPlus1 | Q_At nat

record q_out =
  qo_len :: nat \<comment> \<open>returned length of the text to append\<close>
  qo_newq :: string \<comment> \<open>contents of the buffer \<^verbatim>\<open>new_q\<close>\<close>
  qo_start :: q_ptr \<comment> \<open>\<^verbatim>\<open>*new_q_start\<close>\<close>
  qo_replace :: "nat option" \<comment> \<open>\<^verbatim>\<open>*q_replace\<close>\<close>
  qo_path_end :: nat \<comment> \<open>\<^verbatim>\<open>*path_end\<close>\<close>
  qo_data :: string \<comment> \<open>the packet, edited in place\<close>

datatype q_ret = Q_Fault | Q_Drop inerr | Q_Accept q_out

section \<open>Callsigns\<close>

definition check_invalid_q_callsign :: "string \<Rightarrow> int" where
  "check_invalid_q_callsign call =
     (if (length call > CALLSIGNLEN_MAX \<or> length call < 1) \<and> length call \<noteq> 32 then -1
      else if \<exists>p \<in> set call. \<not> isalnum p \<and> p \<noteq> CHR ''-'' then -1
      else 0)"

section \<open>The last block: rejection and loop detection\<close>

definition MAX_Q_CALLS :: nat where "MAX_Q_CALLS = 64"

text \<open>The pointer array \<^verbatim>\<open>qcallv\<close>: the starts of the callsigns, and where the scan stopped.\<close>

fun qcall_scan :: "nat \<Rightarrow> string \<Rightarrow> nat \<Rightarrow> nat \<Rightarrow> nat list \<times> nat" where
  "qcall_scan 0 s p path_end = ([], p)"
| "qcall_scan (Suc n) s p path_end =
     (if p < path_end then
        (let p1 = scan (\<lambda>c. c = CHR '','') s p path_end
         in if p1 = path_end then ([], p1)
            else
              (let p2 = scan (\<lambda>c. c \<noteq> CHR '','') s p1 path_end;
                   (starts, pf) = qcall_scan n s p2 path_end
               in (p1 # starts, pf)))
      else ([], p))"

text \<open>The callsigns themselves: number \<open>i\<close> runs from \<^verbatim>\<open>qcallv[i]\<close> for
  \<^verbatim>\<open>qcallv[i+1] - qcallv[i] - 1\<close> bytes, the array being closed by the stop position plus one.\<close>

definition qcalls :: "string \<Rightarrow> nat \<Rightarrow> nat \<Rightarrow> string list" where
  "qcalls s q_start path_end =
     (let (starts, pf) = qcall_scan MAX_Q_CALLS s (q_start + 4) path_end;
          qcallv = starts @ [pf + 1]
      in map (\<lambda>(a, b). sub s a (b - 1)) (zip starts (tl qcallv)))"

text \<open>The test for the own server name: only the first occurrence \<^verbatim>\<open>memmem\<close> finds is looked at.\<close>

definition q_mycall :: "config \<Rightarrow> string \<Rightarrow> nat \<Rightarrow> nat \<Rightarrow> bool" where
  "q_mycall cfg s q_start path_end =
     (case memmem s (q_start + 4) (path_end - q_start - 4) (serverid cfg) of
        None \<Rightarrow> False
      | Some p \<Rightarrow>
          rd s (p - 1) = CHR '','' \<and>
          (let e = p + length (serverid cfg)
           in rd s e = CHR '','' \<or> e = path_end \<or> rd s e = CHR '':''))"

text \<open>The loop over the callsigns after the q construct: an error, or whether the login was
  seen among them.\<close>

fun qcalls_loop ::
    "clientlist_t table \<Rightarrow> client_t \<Rightarrow> string \<Rightarrow> char \<Rightarrow> string list \<Rightarrow> bool \<Rightarrow> inerr + bool" where
  "qcalls_loop cls c pdata q_type [] login_in_path = Inr login_in_path"
| "qcalls_loop cls c pdata q_type (x # rest) login_in_path =
     (if x \<in> set rest then Inl INERR_Q_QPATH_CALL_TWICE
      else
        let is_login = strcaseeq x (c_username c)
        in if is_login \<and> c_state c = CSTATE_CONNECTED \<and> has_flag (c_flags c) CLFLAGS_INPORT \<and> rest \<noteq> []
           then Inl INERR_Q_PATH_LOGIN_NOT_LAST
           else if \<not> is_login \<and> clientlist_check_if_validated_client cls x \<noteq> -1
           then Inl INERR_Q_PATH_CALL_IS_LOCAL_CLIENT
           else if \<not> is_login \<and> check_invalid_q_callsign x \<noteq> 0
           then Inl INERR_Q_PATH_CALL_IS_INVALID
           else if q_type = CHR ''U'' \<and> take (length x) pdata = x \<and> rd pdata (length x) = CHR ''>''
           then Inl INERR_Q_QAU_PATH_CALL_IS_SRCCALL
           else qcalls_loop cls c pdata q_type rest (login_in_path \<or> is_login))"

text \<open>The qAI trace: the existing construct is copied, the login and the server name are
  appended.\<close>

definition q_trace :: "config \<Rightarrow> client_t \<Rightarrow> nat \<Rightarrow> nat \<Rightarrow> bool \<Rightarrow> q_out \<Rightarrow> q_ret" where
  "q_trace cfg c new_q_size q_start login_in_path o0 =
     (let len1 = qo_path_end o0 - q_start - 1
      in if len1 > new_q_size then Q_Drop INERR_Q_NEWQ_BUFFER_SMALL
         else
           let buf1 = sub (qo_data o0) (q_start + 1) (qo_path_end o0);
               app = (if c_validated c \<noteq> 0 \<and> \<not> login_in_path \<and> c_state c \<noteq> CSTATE_COREPEER
                      then '','' @ c_username c else []);
               len2 = len1 + length app;
               buf2 = buf1 @ snprintf_buf (new_q_size - len1) app
           in if int new_q_size - int len2 < 20 then Q_Drop INERR_Q_NEWQ_BUFFER_SMALL
              else
                let srv = '','' @ serverid cfg
                in Q_Accept (o0\<lparr>qo_len := len2 + length srv,
                                qo_newq := buf2 @ snprintf_buf (new_q_size - len2) srv,
                                qo_replace := Some (q_start + 1)\<rparr>))"

definition q_dropcheck ::
    "config \<Rightarrow> clientlist_t table \<Rightarrow> client_t \<Rightarrow> nat \<Rightarrow> char \<Rightarrow> char \<Rightarrow> nat option \<Rightarrow> q_out \<Rightarrow> q_ret" where
  "q_dropcheck cfg cls c new_q_size q_proto q_type q_start o0 =
     (if q_proto \<noteq> q_protocol_id cfg \<and> disallow_other_protocol_id cfg
      then Q_Drop INERR_Q_DISALLOW_PROTOCOL
      else if q_type = CHR ''X'' \<and> disallow_unverified cfg then Q_Drop INERR_Q_QAX
      else if q_type = CHR ''Z'' then Q_Drop INERR_Q_QAZ
      else
        case q_start of
          None \<Rightarrow> Q_Accept o0
        | Some qs \<Rightarrow>
            if qo_path_end o0 < qs + 4 then Q_Fault
            else if q_mycall cfg (qo_data o0) qs (qo_path_end o0) then Q_Drop INERR_Q_QPATH_MYCALL
            else
              case qcalls_loop cls c (qo_data o0) q_type (qcalls (qo_data o0) qs (qo_path_end o0)) False of
                Inl e \<Rightarrow> Q_Drop e
              | Inr login_in_path \<Rightarrow>
                  if q_type = CHR ''I'' then q_trace cfg c new_q_size qs login_in_path o0
                  else Q_Accept o0)"

section \<open>Finding the q construct\<close>

record q_found =
  qf_start :: "nat option" \<comment> \<open>the comma before the construct\<close>
  qf_proto :: char
  qf_type :: char
  qf_nextcall_end :: nat
  qf_path_end :: nat

definition q_find :: "string \<Rightarrow> nat \<Rightarrow> nat \<Rightarrow> q_found" where
  "q_find s via_start path_end =
     (case memmem s via_start (path_end - via_start) '',q'' of
        None \<Rightarrow> \<lparr>qf_start = None, qf_proto = NUL, qf_type = NUL, qf_nextcall_end = 0,
                 qf_path_end = path_end\<rparr>
      | Some qs \<Rightarrow>
          (let none = \<lparr>qf_start = Some qs, qf_proto = NUL, qf_type = NUL, qf_nextcall_end = 0,
                       qf_path_end = qs\<rparr>
           in case memchr s (qs + 1) (path_end - qs - 1) (CHR '','') of
                None \<Rightarrow> none
              | Some nc \<Rightarrow>
                  if nc - qs \<noteq> 4 then none
                  else
                    let call = nc + 1;
                        call_end = scan (\<lambda>ch. ch \<noteq> CHR '','' \<and> ch \<noteq> CHR '':'') s call path_end
                    in if call = call_end then none\<lparr>qf_nextcall_end := call_end\<rparr>
                       else \<lparr>qf_start = Some qs, qf_proto = rd s (qs + 2), qf_type = rd s (qs + 3),
                             qf_nextcall_end = call_end, qf_path_end = path_end\<rparr>))"

section \<open>The algorithm\<close>

text \<open>\<^verbatim>\<open>while (p > via_start && *p != ',') p--\<close>\<close>

fun back_to_comma :: "string \<Rightarrow> nat \<Rightarrow> nat \<Rightarrow> nat" where
  "back_to_comma s via_start 0 = 0"
| "back_to_comma s via_start (Suc p) =
     (if via_start < Suc p \<and> rd s (Suc p) \<noteq> CHR '','' then back_to_comma s via_start p else Suc p)"

definition path_ends_I :: "string \<Rightarrow> nat \<Rightarrow> nat \<Rightarrow> bool" where
  "path_ends_I s pathlen path_end \<longleftrightarrow>
     pathlen > 2 \<and> rd s (path_end - 1) = CHR ''I'' \<and> rd s (path_end - 2) = CHR '',''"

text \<open>The callsign before a trailing \<^verbatim>\<open>,I\<close>: the comma in front of it and the callsign.\<close>

definition i_viacall :: "string \<Rightarrow> nat \<Rightarrow> nat \<Rightarrow> (nat \<times> string) option" where
  "i_viacall s via_start path_end =
     (let p = back_to_comma s via_start (path_end - 3)
      in if rd s p = CHR '','' then Some (p, sub s (p + 1) (path_end - 2)) else None)"

definition path_ends_TCPIP :: "string \<Rightarrow> nat \<Rightarrow> nat \<Rightarrow> bool" where
  "path_ends_TCPIP s pathlen path_end \<longleftrightarrow>
     pathlen > 7 \<and> sub s (path_end - 7) path_end = '',TCPIP*''"

definition q_text :: "nat \<Rightarrow> string \<Rightarrow> q_out \<Rightarrow> q_out" where
  "q_text new_q_size txt o0 = o0\<lparr>qo_len := length txt, qo_newq := snprintf_buf new_q_size txt\<rparr>"

text \<open>Packets from an inbound connection, once the cases handled before the state test are
  out of the way.\<close>

definition q_process_inport ::
    "config \<Rightarrow> clientlist_t table \<Rightarrow> client_t \<Rightarrow> nat \<Rightarrow> nat \<Rightarrow> nat \<Rightarrow> bool \<Rightarrow> q_found \<Rightarrow> q_out \<Rightarrow> q_ret" where
  "q_process_inport cfg cls c new_q_size via_start pathlen originated_by_client f o0 =
     (let s = qo_data o0;
          pe = qf_path_end f;
          proto = q_protocol_id cfg;
          has_q = qf_proto f \<noteq> NUL;
          drop = q_dropcheck cfg cls c new_q_size;
          client_only = has_flag (c_flags c) CLFLAGS_CLIENTONLY
      in
      if has_flag (c_flags c) CLFLAGS_UDPSUBMIT then
        (let pe1 = (if has_q then the (qf_start f) else pe);
             txt = (if path_ends_TCPIP s pathlen pe1 then [] else '',TCPIP*'') @
                   '',q'' @ [proto] @ ''U,'' @ serverid cfg
         in Q_Accept (q_text new_q_size txt (o0\<lparr>qo_path_end := pe1\<rparr>)))
      else if c_validated c = 0 \<and> originated_by_client then
        (if has_q \<and> qf_nextcall_end f < pe then Q_Drop INERR_Q_NONVAL_MULTI_Q_CALLS
         else Q_Accept (q_text new_q_size ('',TCPXX*,q'' @ [proto] @ ''X,'' @ serverid cfg)
                (o0\<lparr>qo_path_end := via_start\<rparr>)))
      else if c_validated c \<noteq> 0 \<and> client_only \<and> originated_by_client then
        (let pe1 = (case qf_start f of Some qs \<Rightarrow> qs | None \<Rightarrow> via_start)
         in Q_Accept (q_text new_q_size ('',q'' @ [proto] @ ''C,'' @ serverid cfg)
              (o0\<lparr>qo_path_end := pe1\<rparr>)))
      else if c_validated c \<noteq> 0 \<and> client_only then
        (if has_q then
           (let qs = the (qf_start f);
                ty = (if qf_type f = CHR ''R'' \<or> qf_type f = CHR ''r'' then CHR ''o''
                      else if qf_type f = CHR ''S'' \<or> qf_type f = CHR ''C'' then CHR ''O''
                      else qf_type f)
            in drop (qf_proto f) ty (qf_start f)
                 (o0\<lparr>qo_path_end := pe, qo_data := s[qs + 3 := ty], qo_start := Q_At (qs + 1)\<rparr>))
         else
           (let qao = drop proto (CHR ''O'') (qf_start f)
                        (q_text new_q_size ('',q'' @ [proto] @ ''O,'' @ c_username c)
                           (o0\<lparr>qo_path_end := pe\<rparr>))
            in if path_ends_I s pathlen pe then
                 (case i_viacall s via_start pe of
                    Some (p, prevcall) \<Rightarrow>
                      drop proto (CHR ''o'') (qf_start f)
                        (q_text new_q_size ('',q'' @ [proto] @ ''o,'' @ prevcall) (o0\<lparr>qo_path_end := p\<rparr>))
                  | None \<Rightarrow> qao)
               else qao))
      else if has_q then
        drop (qf_proto f) (qf_type f) (qf_start f)
          (o0\<lparr>qo_path_end := pe, qo_start := Q_At (the (qf_start f) + 1)\<rparr>)
      else if path_ends_I s pathlen pe then
        (case i_viacall s via_start pe of
           Some (p, prevcall) \<Rightarrow>
             (if strcaseeq (c_username c) prevcall then
                drop proto (CHR ''R'') (qf_start f)
                  (q_text new_q_size ('',q'' @ [proto] @ ''R,'' @ c_username c) (o0\<lparr>qo_path_end := p\<rparr>))
              else
                drop proto (CHR ''r'') (qf_start f)
                  (q_text new_q_size ('',q'' @ [proto] @ ''r,'' @ prevcall) (o0\<lparr>qo_path_end := p\<rparr>)))
         | None \<Rightarrow> Q_Drop INERR_Q_I_NO_VIACALL)
      else if originated_by_client then
        Q_Accept (q_text new_q_size
          ((if path_ends_TCPIP s pathlen pe then [] else '',TCPIP*'') @ '',qAC,'' @ serverid cfg)
          (o0\<lparr>qo_path_end := pe\<rparr>))
      else
        drop proto (CHR ''S'') (qf_start f)
          (q_text new_q_size ('',q'' @ [proto] @ ''S,'' @ c_username c) (o0\<lparr>qo_path_end := pe\<rparr>)))"

text \<open>Packets from uplinks and core peers.\<close>

definition q_process_other ::
    "config \<Rightarrow> clientlist_t table \<Rightarrow> client_t \<Rightarrow> nat \<Rightarrow> nat \<Rightarrow> nat \<Rightarrow> q_found \<Rightarrow> q_out \<Rightarrow> q_ret" where
  "q_process_other cfg cls c new_q_size via_start pathlen f o0 =
     (let s = qo_data o0;
          pe = qf_path_end f;
          proto = q_protocol_id cfg;
          drop = q_dropcheck cfg cls c new_q_size
      in
      if qf_proto f = NUL \<and> has_flag (c_flags c) CLFLAGS_UPLINKPORT then
        (if path_ends_I s pathlen pe then
           (case i_viacall s via_start pe of
              Some (p, prevcall) \<Rightarrow>
                drop proto (CHR ''r'') (qf_start f)
                  (q_text new_q_size ('',q'' @ [proto] @ ''r,'' @ prevcall) (o0\<lparr>qo_path_end := p\<rparr>))
            | None \<Rightarrow> Q_Drop INERR_Q_I_NO_VIACALL)
         else
           drop proto (CHR ''S'') (qf_start f)
             (q_text new_q_size ('',q'' @ [proto] @ ''S,'' @ c_addr_hex c) (o0\<lparr>qo_path_end := pe\<rparr>)))
      else
        drop (qf_proto f) (qf_type f) (qf_start f)
          (o0\<lparr>qo_path_end := pe,
              qo_start := (case qf_start f of None \<Rightarrow> Q_NullPlus1 | Some qs \<Rightarrow> Q_At (qs + 1))\<rparr>))"

definition q_process ::
    "config \<Rightarrow> clientlist_t table \<Rightarrow> client_t \<Rightarrow> string \<Rightarrow> nat \<Rightarrow> nat \<Rightarrow> nat \<Rightarrow> nat \<Rightarrow> bool \<Rightarrow> q_ret" where
  "q_process cfg cls c pdata new_q_size via_start path_end pathlen originated_by_client =
     (let f = q_find pdata via_start path_end;
          o0 = \<lparr>qo_len = 0, qo_newq = [], qo_start = Q_Null, qo_replace = None,
                qo_path_end = qf_path_end f, qo_data = pdata\<rparr>;
          proto = q_protocol_id cfg;
          udp = has_flag (c_flags c) CLFLAGS_UDPSUBMIT;
          tcpip = Q_Accept (q_text new_q_size ('',TCPIP*,q'' @ [proto] @ ''C,'' @ serverid cfg)
                              (o0\<lparr>qo_replace := Some via_start\<rparr>));
          tcpxx = Q_Accept (q_text new_q_size ('',TCPXX*,q'' @ [proto] @ ''X,'' @ serverid cfg)
                              (o0\<lparr>qo_replace := Some via_start\<rparr>))
      in
      if qf_start f = None \<and> originated_by_client \<and> \<not> udp then
        (if c_validated c \<noteq> 0 then tcpip else tcpxx)
      else if c_validated c \<noteq> 0 \<and> originated_by_client \<and> has_flag (c_flags c) CLFLAGS_INPORT \<and>
              qf_type f \<noteq> CHR ''I'' \<and> \<not> udp then tcpip
      else if c_state c = CSTATE_CONNECTED \<and> has_flag (c_flags c) CLFLAGS_INPORT then
        q_process_inport cfg cls c new_q_size via_start pathlen originated_by_client f o0
      else q_process_other cfg cls c new_q_size via_start pathlen f o0)"


section \<open>What acceptance by the last block means\<close>

text \<open>The declarative reading of the loop over the callsigns after the construct: no callsign
  twice; every callsign other than the login a valid server name that is not logged in here;
  the login of an inbound connection only in the last place; with qAU no source callsign.\<close>

definition is_srccall :: "string \<Rightarrow> string \<Rightarrow> bool" where
  "is_srccall pdata x \<longleftrightarrow> take (length x) pdata = x \<and> rd pdata (length x) = CHR ''>''"

definition q_path_ok :: "clientlist_t table \<Rightarrow> client_t \<Rightarrow> string \<Rightarrow> char \<Rightarrow> string list \<Rightarrow> bool" where
  "q_path_ok cls c pdata q_type xs \<longleftrightarrow>
     distinct xs \<and>
     (\<forall>x \<in> set xs. strcaseeq x (c_username c) \<or>
        \<not> logged_in cls x \<and> check_invalid_q_callsign x = 0) \<and>
     (c_state c = CSTATE_CONNECTED \<and> has_flag (c_flags c) CLFLAGS_INPORT \<longrightarrow>
        (\<forall>x \<in> set (butlast xs). \<not> strcaseeq x (c_username c))) \<and>
     (q_type = CHR ''U'' \<longrightarrow> (\<forall>x \<in> set xs. \<not> is_srccall pdata x))"

lemma q_path_ok_Nil [simp]: "q_path_ok cls c pdata q_type []"
  by (simp add: q_path_ok_def)

lemma q_path_ok_Cons:
  "q_path_ok cls c pdata q_type (x # xs) \<longleftrightarrow>
     x \<notin> set xs \<and>
     (strcaseeq x (c_username c) \<or> \<not> logged_in cls x \<and> check_invalid_q_callsign x = 0) \<and>
     \<not> (strcaseeq x (c_username c) \<and> c_state c = CSTATE_CONNECTED \<and>
        has_flag (c_flags c) CLFLAGS_INPORT \<and> xs \<noteq> []) \<and>
     \<not> (q_type = CHR ''U'' \<and> is_srccall pdata x) \<and>
     q_path_ok cls c pdata q_type xs"
  by (auto simp: q_path_ok_def)

lemma qcalls_loop_Inr:
  assumes "clientlist_inv cls"
  shows "qcalls_loop cls c pdata q_type xs b = Inr b' \<longleftrightarrow>
     q_path_ok cls c pdata q_type xs \<and> (b' \<longleftrightarrow> b \<or> (\<exists>x \<in> set xs. strcaseeq x (c_username c)))"
proof (induction xs arbitrary: b)
  case Nil
  then show ?case by auto
next
  case (Cons x xs)
  note chk = check_if_validated_client_iff [OF assms, of x]
  show ?case
    unfolding q_path_ok_Cons
    by (cases "strcaseeq x (c_username c)") (auto simp: Let_def Cons.IH chk is_srccall_def)
qed

lemma q_dropcheck_Accept:
  assumes "q_dropcheck cfg cls c n proto ty (Some qs) o0 = Q_Accept r"
  shows "proto = q_protocol_id cfg \<or> \<not> disallow_other_protocol_id cfg"
    and "ty \<noteq> CHR ''Z''" and "\<not> (ty = CHR ''X'' \<and> disallow_unverified cfg)"
    and "qs + 4 \<le> qo_path_end o0"
    and "\<not> q_mycall cfg (qo_data o0) qs (qo_path_end o0)"
    and "\<exists>b. qcalls_loop cls c (qo_data o0) ty (qcalls (qo_data o0) qs (qo_path_end o0)) False = Inr b \<and>
           (if ty = CHR ''I'' then q_trace cfg c n qs b o0 = Q_Accept r else r = o0)"
  using assms by (auto simp: q_dropcheck_def split: if_splits sum.splits)

lemma q_dropcheck_None:
  "q_dropcheck cfg cls c n proto ty None o0 = Q_Accept r \<Longrightarrow> r = o0"
  by (auto simp: q_dropcheck_def split: if_splits)

lemma q_trace_Accept:
  assumes "q_trace cfg c n qs b o0 = Q_Accept r"
  shows "qo_path_end r = qo_path_end o0" and "qo_data r = qo_data o0" and "qo_start r = qo_start o0"
    and "qo_replace r = Some (qs + 1)"
    and "qo_len r \<le> qo_path_end o0 - qs - 1 + length (c_username c) + length (serverid cfg) + 2"
  using assms by (auto simp: q_trace_def Let_def split: if_splits)

lemma q_dropcheck_fault:
  "q_dropcheck cfg cls c n proto ty q_start o0 = Q_Fault \<Longrightarrow>
     \<exists>qs. q_start = Some qs \<and> qo_path_end o0 < qs + 4"
  by (auto simp: q_dropcheck_def q_trace_def Let_def split: if_splits option.splits sum.splits)

section \<open>The shape of the output\<close>

text \<open>What the caller relies on: the path only shrinks, never below the start of the digipeater
  path; a replacement starts inside it; the edit in place keeps the packet's length.\<close>

definition q_out_ok :: "string \<Rightarrow> nat \<Rightarrow> nat \<Rightarrow> q_out \<Rightarrow> bool" where
  "q_out_ok pdata via_start path_end r \<longleftrightarrow>
     via_start \<le> qo_path_end r \<and> qo_path_end r \<le> path_end \<and>
     (\<forall>p. qo_replace r = Some p \<longrightarrow> via_start \<le> p \<and> p \<le> qo_path_end r) \<and>
     length (qo_data r) = length pdata \<and> take via_start (qo_data r) = take via_start pdata \<and>
     drop path_end (qo_data r) = drop path_end pdata \<and>
     (\<forall>q p. qo_start r = Q_At q \<longrightarrow> qo_replace r = Some p \<longrightarrow> q \<le> p)"

lemma q_out_ok_dropcheck:
  assumes "q_dropcheck cfg cls c n proto ty q_start o0 = Q_Accept r"
    and "q_out_ok pdata via_start path_end o0"
    and "\<And>qs. q_start = Some qs \<Longrightarrow> via_start \<le> qs"
    and "\<And>qs q. q_start = Some qs \<Longrightarrow> qo_start o0 = Q_At q \<Longrightarrow> q = qs + 1"
  shows "q_out_ok pdata via_start path_end r"
proof (cases q_start)
  case None
  with assms show ?thesis using q_dropcheck_None by metis
next
  case (Some qs)
  note A = q_dropcheck_Accept [OF assms(1) [unfolded Some]]
  from A(6) obtain b where "if ty = CHR ''I'' then q_trace cfg c n qs b o0 = Q_Accept r else r = o0"
    by blast
  then show ?thesis
    using assms(2-4) Some A(4) q_trace_Accept [of cfg c n qs b o0 r]
    by (auto simp: q_out_ok_def split: if_splits)
qed

lemma q_find_start:
  assumes "q_find s via_start path_end = f" and "via_start \<le> path_end"
  shows "\<And>qs. qf_start f = Some qs \<Longrightarrow> via_start \<le> qs \<and> qs + 2 \<le> path_end"
    and "via_start \<le> qf_path_end f" and "qf_path_end f \<le> path_end"
    and "qf_start f = None \<Longrightarrow> qf_proto f = NUL \<and> qf_type f = NUL \<and> qf_path_end f = path_end"
    and "qf_proto f \<noteq> NUL \<Longrightarrow> \<exists>qs. qf_start f = Some qs \<and> qs + 5 \<le> path_end \<and>
           qf_path_end f = path_end \<and> qf_proto f = rd s (qs + 2) \<and> qf_type f = rd s (qs + 3) \<and>
           rd s (qs + 4) = CHR '','' \<and> qs + 5 < qf_nextcall_end f"
proof -
  have hit: "via_start \<le> qs \<and> qs + 2 \<le> path_end"
    if "memmem s via_start (path_end - via_start) '',q'' = Some qs" for qs
    using memmem_Some(1,2) [OF that] assms(2) by simp
  show "via_start \<le> qs \<and> qs + 2 \<le> path_end" if "qf_start f = Some qs" for qs
    using that assms(1) hit by (auto simp: q_find_def Let_def split: option.splits if_splits)
  show "via_start \<le> qf_path_end f" and "qf_path_end f \<le> path_end"
    using assms hit by (auto simp: q_find_def Let_def split: option.splits if_splits dest!: hit)
  show "qf_proto f = NUL \<and> qf_type f = NUL \<and> qf_path_end f = path_end" if "qf_start f = None"
    using that assms(1) by (auto simp: q_find_def Let_def split: option.splits if_splits)
  show "\<exists>qs. qf_start f = Some qs \<and> qs + 5 \<le> path_end \<and>
           qf_path_end f = path_end \<and> qf_proto f = rd s (qs + 2) \<and> qf_type f = rd s (qs + 3) \<and>
           rd s (qs + 4) = CHR '','' \<and> qs + 5 < qf_nextcall_end f"
    if "qf_proto f \<noteq> NUL"
  proof -
    from that assms(1) obtain qs nc where
      qs: "qf_start f = Some qs" and nc: "memchr s (qs + 1) (path_end - qs - 1) (CHR '','') = Some nc"
      and four: "nc - qs = 4" and pe: "qf_path_end f = path_end"
      and chars: "qf_proto f = rd s (qs + 2)" "qf_type f = rd s (qs + 3)"
      and ends: "qf_nextcall_end f = scan (\<lambda>ch. ch \<noteq> CHR '','' \<and> ch \<noteq> CHR '':'') s (nc + 1) path_end"
        "qf_nextcall_end f \<noteq> nc + 1"
      by (auto simp: q_find_def Let_def split: option.splits if_splits)
    note N = memchr_Some [OF nc]
    have "nc = qs + 4" using four N(1) by linarith
    moreover have "nc + 1 < qf_nextcall_end f"
      using ends scan_ge [of "nc + 1"] by (metis le_neq_implies_less)
    ultimately show ?thesis using qs pe chars N by auto
  qed
qed


text \<open>The header before the digipeater path (source and destination) holds no comma.\<close>

definition no_comma_before :: "string \<Rightarrow> nat \<Rightarrow> bool" where
  "no_comma_before s via_start \<longleftrightarrow> (\<forall>j < via_start. rd s j \<noteq> CHR '','')"

lemma back_to_comma_le: "back_to_comma s v p \<le> p"
  by (induction p) auto

lemma i_viacall_bounds:
  assumes "i_viacall s via_start pe = Some (p, prevcall)" and "no_comma_before s via_start"
  shows "via_start \<le> p" and "p \<le> pe" and "length prevcall \<le> pe"
  using assms back_to_comma_le [of s via_start "pe - 3"]
  by (auto simp: i_viacall_def Let_def no_comma_before_def not_less [symmetric] split: if_splits)

text \<open>Before the last block, the output is one of three: a construct was generated (the text,
  with an optional \<^verbatim>\<open>TCPIP*\<close> or \<^verbatim>\<open>TCPXX*\<close> element in front), an existing one is kept, possibly
  with its type letter edited, or neither.\<close>

definition q_gen_text :: "string \<Rightarrow> char \<Rightarrow> string \<Rightarrow> bool" where
  "q_gen_text txt ty call \<longleftrightarrow>
     (\<exists>pre p. pre \<in> {[], '',TCPIP*'', '',TCPXX*''} \<and> txt = pre @ '',q'' @ [p, ty] @ '','' @ call)"

definition q_base :: "string \<Rightarrow> nat \<Rightarrow> q_out" where
  "q_base pdata pe = \<lparr>qo_len = 0, qo_newq = [], qo_start = Q_Null, qo_replace = None,
                      qo_path_end = pe, qo_data = pdata\<rparr>"

inductive q_cand :: "config \<Rightarrow> client_t \<Rightarrow> string \<Rightarrow> nat \<Rightarrow> nat \<Rightarrow> q_found \<Rightarrow> char \<Rightarrow> q_out \<Rightarrow> bool"
  for cfg c pdata n via_start f where
  gen: "q_gen_text txt ty call \<Longrightarrow> ty \<noteq> CHR ''I'' \<Longrightarrow>
     call \<in> {serverid cfg, c_username c, c_addr_hex c} \<or> length call \<le> qf_path_end f \<Longrightarrow>
     via_start \<le> pe \<Longrightarrow> pe \<le> qf_path_end f \<Longrightarrow> rep = None \<or> rep = Some via_start \<Longrightarrow>
     q_cand cfg c pdata n via_start f ty (q_text n txt (q_base pdata pe\<lparr>qo_replace := rep\<rparr>))"
| keep: "qf_start f = Some qs \<Longrightarrow> qf_proto f \<noteq> NUL \<Longrightarrow>
     q_cand cfg c pdata n via_start f ty
       (q_base (pdata[qs + 3 := ty]) (qf_path_end f)\<lparr>qo_start := Q_At (qs + 1)\<rparr>)"
| bogus: "qf_proto f = NUL \<Longrightarrow> st = Q_NullPlus1 \<or> (\<exists>qs. qf_start f = Some qs \<and> st = Q_At (qs + 1)) \<Longrightarrow>
     \<not> has_flag (c_flags c) CLFLAGS_UPLINKPORT \<Longrightarrow>
     \<not> (c_state c = CSTATE_CONNECTED \<and> has_flag (c_flags c) CLFLAGS_INPORT) \<Longrightarrow>
     q_cand cfg c pdata n via_start f ty (q_base pdata (qf_path_end f)\<lparr>qo_start := st\<rparr>)"

lemma q_gen_textI:
  "q_gen_text ('',q'' @ [p] @ [ty, CHR '',''] @ call) ty call"
  "q_gen_text ('',TCPIP*,q'' @ [p] @ [ty, CHR '',''] @ call) ty call"
  "q_gen_text ('',TCPXX*,q'' @ [p] @ [ty, CHR '',''] @ call) ty call"
  "q_gen_text ((if b then [] else '',TCPIP*'') @ '',q'' @ [p] @ [ty, CHR '',''] @ call) ty call"
  "q_gen_text ((if b then [] else '',TCPIP*'') @ '',qAC,'' @ call) (CHR ''C'') call"
  unfolding q_gen_text_def by force+

text \<open>What an accepted or faulting run of the algorithm handed to its last block, or returned
  at once.\<close>

definition q_via_dropcheck ::
    "config \<Rightarrow> clientlist_t table \<Rightarrow> client_t \<Rightarrow> string \<Rightarrow> nat \<Rightarrow> nat \<Rightarrow> q_found \<Rightarrow> q_ret \<Rightarrow> bool" where
  "q_via_dropcheck cfg cls c pdata n via_start f ret \<longleftrightarrow>
     (\<exists>e. ret = Q_Drop e) \<or>
     (\<exists>ty o1. q_cand cfg c pdata n via_start f ty o1 \<and>
        (ret = Q_Accept o1 \<and> qo_start o1 = Q_Null \<or>
         (qo_start o1 = Q_Null \<longrightarrow> qf_proto f = NUL) \<and>
         (\<exists>proto. ret = q_dropcheck cfg cls c n proto ty (qf_start f) o1)))"

lemma q_via_drop: "q_via_dropcheck cfg cls c pdata n v f (Q_Drop e)"
  by (auto simp: q_via_dropcheck_def)

lemma q_text_sel [simp]:
  "qo_start (q_text n txt r) = qo_start r" "qo_replace (q_text n txt r) = qo_replace r"
  "qo_path_end (q_text n txt r) = qo_path_end r" "qo_data (q_text n txt r) = qo_data r"
  "qo_len (q_text n txt r) = length txt" "qo_newq (q_text n txt r) = snprintf_buf n txt"
  by (simp_all add: q_text_def)

lemma q_base_sel [simp]:
  "qo_start (q_base d pe) = Q_Null" "qo_replace (q_base d pe) = None"
  "qo_path_end (q_base d pe) = pe" "qo_data (q_base d pe) = d"
  "qo_len (q_base d pe) = 0" "qo_newq (q_base d pe) = []"
  by (simp_all add: q_base_def)

lemma q_base_upd [simp]:
  "(q_base d pe)\<lparr>qo_path_end := pe'\<rparr> = q_base d pe'"
  "(q_base d pe)\<lparr>qo_data := d'\<rparr> = q_base d' pe"
  by (simp_all add: q_base_def)

lemma q_cand_text:
  "q_gen_text txt ty call \<Longrightarrow> ty \<noteq> CHR ''I'' \<Longrightarrow>
   call \<in> {serverid cfg, c_username c, c_addr_hex c} \<or> length call \<le> qf_path_end f \<Longrightarrow>
   v \<le> pe \<Longrightarrow> pe \<le> qf_path_end f \<Longrightarrow> q_cand cfg c pdata n v f ty (q_text n txt (q_base pdata pe))"
  using q_cand.gen [where rep = None and pe = pe] by (simp add: q_base_def)

lemma q_via_text:
  "q_gen_text txt ty call \<Longrightarrow> ty \<noteq> CHR ''I'' \<Longrightarrow>
   call \<in> {serverid cfg, c_username c, c_addr_hex c} \<or> length call \<le> qf_path_end f \<Longrightarrow>
   v \<le> pe \<Longrightarrow> pe \<le> qf_path_end f \<Longrightarrow>
   q_via_dropcheck cfg cls c pdata n v f (Q_Accept (q_text n txt (q_base pdata pe)))"
  unfolding q_via_dropcheck_def using q_cand_text by fastforce

lemma q_via_text_replace:
  "q_gen_text txt ty (serverid cfg) \<Longrightarrow> ty \<noteq> CHR ''I'' \<Longrightarrow> v \<le> qf_path_end f \<Longrightarrow>
   q_via_dropcheck cfg cls c pdata n v f
     (Q_Accept (q_text n txt (q_base pdata (qf_path_end f)\<lparr>qo_replace := Some v\<rparr>)))"
  unfolding q_via_dropcheck_def
  using q_cand.gen [where rep = "Some v" and pe = "qf_path_end f" and call = "serverid cfg"] by fastforce

lemma q_via_drop_text:
  "q_gen_text txt ty call \<Longrightarrow> ty \<noteq> CHR ''I'' \<Longrightarrow>
   call \<in> {serverid cfg, c_username c, c_addr_hex c} \<or> length call \<le> qf_path_end f \<Longrightarrow>
   v \<le> pe \<Longrightarrow> pe \<le> qf_path_end f \<Longrightarrow> qf_proto f = NUL \<Longrightarrow>
   q_via_dropcheck cfg cls c pdata n v f
     (q_dropcheck cfg cls c n proto ty (qf_start f) (q_text n txt (q_base pdata pe)))"
  unfolding q_via_dropcheck_def using q_cand_text by blast

lemma q_via_drop_keep:
  "qf_proto f \<noteq> NUL \<Longrightarrow> qf_start f \<noteq> None \<Longrightarrow>
   q_via_dropcheck cfg cls c pdata n v f
     (q_dropcheck cfg cls c n proto ty (qf_start f)
        (q_base (pdata[the (qf_start f) + 3 := ty]) (qf_path_end f)
           \<lparr>qo_start := Q_At (the (qf_start f) + 1)\<rparr>))"
  unfolding q_via_dropcheck_def using q_cand.keep [of f "the (qf_start f)" cfg c pdata n v ty] by fastforce

lemma q_via_drop_bogus:
  "qf_proto f = NUL \<Longrightarrow> st = Q_NullPlus1 \<or> (\<exists>qs. qf_start f = Some qs \<and> st = Q_At (qs + 1)) \<Longrightarrow>
   \<not> has_flag (c_flags c) CLFLAGS_UPLINKPORT \<Longrightarrow>
   \<not> (c_state c = CSTATE_CONNECTED \<and> has_flag (c_flags c) CLFLAGS_INPORT) \<Longrightarrow>
   q_via_dropcheck cfg cls c pdata n v f
     (q_dropcheck cfg cls c n proto ty (qf_start f) (q_base pdata (qf_path_end f)\<lparr>qo_start := st\<rparr>))"
  unfolding q_via_dropcheck_def using q_cand.bogus [of f st c cfg pdata n v ty] by fastforce

lemma list_update_rd [simp]: "s[i := rd s i] = s"
  by (cases "i < length s") (simp_all add: list_update_beyond)

lemma q_via_drop_keep_same:
  assumes "q_find pdata v path_end = f" and "v \<le> path_end" and "qf_proto f \<noteq> NUL"
  shows "q_via_dropcheck cfg cls c pdata n v f
     (q_dropcheck cfg cls c n proto (qf_type f) (qf_start f)
        (q_base pdata (qf_path_end f)\<lparr>qo_start := Q_At (the (qf_start f) + 1)\<rparr>))"
proof -
  from q_find_start(5) [OF assms] obtain qs where
    qs: "qf_start f = Some qs" "qf_type f = rd pdata (qs + 3)" by blast
  then show ?thesis
    using q_via_drop_keep [OF assms(3), of cfg cls c pdata n v proto "qf_type f"] by simp
qed

lemma q_via_ifI:
  "(b \<Longrightarrow> q_via_dropcheck cfg cls c pdata n v f x) \<Longrightarrow> (\<not> b \<Longrightarrow> q_via_dropcheck cfg cls c pdata n v f y) \<Longrightarrow>
   q_via_dropcheck cfg cls c pdata n v f (if b then x else y)"
  by simp

lemma q_via_optI:
  "(opt = None \<Longrightarrow> q_via_dropcheck cfg cls c pdata n v f x) \<Longrightarrow>
   (\<And>p q. opt = Some (p, q) \<Longrightarrow> q_via_dropcheck cfg cls c pdata n v f (y p q)) \<Longrightarrow>
   q_via_dropcheck cfg cls c pdata n v f (case opt of None \<Rightarrow> x | Some (p, q) \<Rightarrow> y p q)"
  by (auto split: option.split)

lemmas q_via_intros = q_via_ifI q_via_optI q_via_drop q_via_text q_via_drop_text q_via_drop_keep
  q_gen_textI

lemma q_process_inport_via:
  assumes f: "q_find pdata via_start path_end = f" and via: "via_start \<le> path_end"
    and nc: "no_comma_before pdata via_start"
  shows "q_via_dropcheck cfg cls c pdata n via_start f
     (q_process_inport cfg cls c n via_start pathlen orig f (q_base pdata (qf_path_end f)))"
proof -
  note F = q_find_start [OF f via]
  have iv: "via_start \<le> p \<and> p \<le> qf_path_end f \<and> length q \<le> qf_path_end f"
    if "i_viacall pdata via_start (qf_path_end f) = Some (p, q)" for p q
    using i_viacall_bounds [OF that nc] by auto
  have le: "via_start \<le> qs \<and> qs \<le> qf_path_end f" if "qf_start f = Some qs" for qs
    using F(1) [OF that] that f by (auto simp: q_find_def Let_def split: option.splits if_splits)
  have q: "\<exists>qs. qf_start f = Some qs" if "qf_proto f \<noteq> NUL" using F(5) [OF that] by blast
  have pe1: "via_start \<le> (case qf_start f of None \<Rightarrow> via_start | Some qs \<Rightarrow> qs)"
      "(case qf_start f of None \<Rightarrow> via_start | Some qs \<Rightarrow> qs) \<le> qf_path_end f"
    using le F(2) by (auto split: option.split)
  show ?thesis
    unfolding q_process_inport_def Let_def q_base_upd q_base_sel
    by ((rule q_via_intros q_via_drop_keep_same [OF f via] |
         force simp: F(2) pe1 dest: iv le q split: option.split)+)
qed


lemma q_process_other_via:
  assumes f: "q_find pdata via_start path_end = f" and via: "via_start \<le> path_end"
    and nc: "no_comma_before pdata via_start"
    and not_in: "\<not> (c_state c = CSTATE_CONNECTED \<and> has_flag (c_flags c) CLFLAGS_INPORT)"
  shows "q_via_dropcheck cfg cls c pdata n via_start f
     (q_process_other cfg cls c n via_start pathlen f (q_base pdata (qf_path_end f)))"
proof -
  note F = q_find_start [OF f via]
  have iv: "via_start \<le> p \<and> p \<le> qf_path_end f \<and> length q \<le> qf_path_end f"
    if "i_viacall pdata via_start (qf_path_end f) = Some (p, q)" for p q
    using i_viacall_bounds [OF that nc] by auto
  have rest: "q_via_dropcheck cfg cls c pdata n via_start f
      (q_dropcheck cfg cls c n (qf_proto f) (qf_type f) (qf_start f)
        (q_base pdata (qf_path_end f)\<lparr>qo_start :=
           (case qf_start f of None \<Rightarrow> Q_NullPlus1 | Some qs \<Rightarrow> Q_At (qs + 1))\<rparr>))"
    if no: "\<not> (qf_proto f = NUL \<and> has_flag (c_flags c) CLFLAGS_UPLINKPORT)"
  proof (cases "qf_proto f = NUL")
    case True
    with no not_in show ?thesis by (intro q_via_drop_bogus) (auto split: option.split)
  next
    case False
    with F(5) obtain qs where "qf_start f = Some qs" by blast
    with q_via_drop_keep_same [OF f via False] show ?thesis by simp
  qed
  show ?thesis
    unfolding q_process_other_def Let_def q_base_upd q_base_sel
    by ((rule q_via_intros rest | force simp: F(2) dest: iv)+)
qed

text \<open>Every run of the algorithm either drops the packet or hands on one of the candidates.\<close>

lemma q_process_via:
  assumes "via_start \<le> path_end" and "no_comma_before pdata via_start"
  shows "q_via_dropcheck cfg cls c pdata n via_start (q_find pdata via_start path_end)
     (q_process cfg cls c pdata n via_start path_end pathlen orig)"
proof -
  note F = q_find_start(2) [OF refl assms(1), of pdata]
  have base: "\<lparr>qo_len = 0, qo_newq = [], qo_start = Q_Null, qo_replace = None,
      qo_path_end = pe, qo_data = pdata\<rparr> = q_base pdata pe" for pe
    by (simp add: q_base_def)
  show ?thesis
    unfolding q_process_def Let_def base
    by ((rule q_via_ifI q_via_text_replace q_gen_textI q_process_inport_via [OF refl assms]
          q_process_other_via [OF refl assms] | simp add: F)+)
qed


lemma q_process_Accept_cand:
  assumes "via_start \<le> path_end" and "no_comma_before pdata via_start"
    and "q_process cfg cls c pdata n via_start path_end pathlen orig = Q_Accept r"
  obtains ty o1 where "q_cand cfg c pdata n via_start (q_find pdata via_start path_end) ty o1"
    and "r = o1 \<and> qo_start o1 = Q_Null \<or>
      (\<exists>proto. q_dropcheck cfg cls c n proto ty (qf_start (q_find pdata via_start path_end)) o1 = Q_Accept r)"
proof -
  from q_process_via [OF assms(1,2), of cfg cls c n pathlen orig] assms(3) have
    "\<exists>ty o1. q_cand cfg c pdata n via_start (q_find pdata via_start path_end) ty o1 \<and>
      (r = o1 \<and> qo_start o1 = Q_Null \<or>
       (\<exists>proto. q_dropcheck cfg cls c n proto ty (qf_start (q_find pdata via_start path_end)) o1 = Q_Accept r))"
    unfolding q_via_dropcheck_def by (metis q_ret.distinct(5) q_ret.inject(2))
  then show ?thesis using that by blast
qed

section \<open>Properties of the algorithm\<close>

lemma q_cand_ok:
  assumes "q_cand cfg c pdata n via_start f ty o1" and "q_find pdata via_start path_end = f"
    and "via_start \<le> path_end"
  shows "q_out_ok pdata via_start path_end o1"
  using assms(1)
proof cases
  case (gen tx call pe rep)
  then show ?thesis using q_find_start(3) [OF assms(2,3)] by (auto simp: q_out_ok_def)
next
  case (keep qs)
  then show ?thesis using q_find_start(1-3,5) [OF assms(2,3)] by (auto simp: q_out_ok_def)
next
  case (bogus st)
  then show ?thesis using q_find_start(2,3) [OF assms(2,3)] by (auto simp: q_out_ok_def)
qed

lemma q_cand_start:
  "q_cand cfg c pdata n via_start f ty o1 \<Longrightarrow> qf_start f = Some qs \<Longrightarrow> qo_start o1 = Q_At q \<Longrightarrow> q = qs + 1"
  by (auto elim: q_cand.cases)

lemma q_process_out_ok:
  assumes "via_start \<le> path_end" and "no_comma_before pdata via_start"
    and "q_process cfg cls c pdata n via_start path_end pathlen orig = Q_Accept r"
  shows "q_out_ok pdata via_start path_end r"
proof -
  let ?f = "q_find pdata via_start path_end"
  from q_process_Accept_cand [OF assms] obtain ty o1 where
    cand: "q_cand cfg c pdata n via_start ?f ty o1" and
    res: "r = o1 \<and> qo_start o1 = Q_Null \<or>
      (\<exists>proto. q_dropcheck cfg cls c n proto ty (qf_start ?f) o1 = Q_Accept r)"
    by blast
  have "q_out_ok pdata via_start path_end o1" by (rule q_cand_ok [OF cand refl assms(1)])
  then show ?thesis
    using res q_out_ok_dropcheck q_find_start(1) [OF refl assms(1), of pdata] q_cand_start [OF cand] by blast
qed

text \<open>What the algorithm hands back stays inside the packet: the path end only moves
  towards the start of the digipeater path and not past it, a replacement begins inside the
  remaining path, and the packet keeps its length, its source and destination and what follows the path.\<close>

theorem q_process_in_bounds:
  assumes "via_start \<le> path_end" and "no_comma_before pdata via_start"
    and "q_process cfg cls c pdata n via_start path_end pathlen orig = Q_Accept r"
  shows "q_out_ok pdata via_start path_end r"
  using assms by (rule q_process_out_ok)

text \<open>Every buffer write of the algorithm fits, so the returned length is the length of the
  text in the buffer.\<close>

definition q_sized :: "q_out \<Rightarrow> nat \<Rightarrow> bool" where
  "q_sized r n \<longleftrightarrow> length (qo_newq r) = qo_len r \<and> qo_len r < n"

lemma q_trace_sized:
  assumes "q_trace cfg c n qs b o0 = Q_Accept r" and "length (serverid cfg) < 19"
    and "qo_path_end o0 \<le> length (qo_data o0)"
  shows "q_sized r n"
  using assms by (auto simp: q_trace_def Let_def q_sized_def snprintf_buf_def split: if_splits)

lemma q_dropcheck_sized:
  assumes "q_dropcheck cfg cls c n proto ty q_start o1 = Q_Accept r" and "q_sized o1 n"
    and "length (serverid cfg) < 19" and "qo_path_end o1 \<le> length (qo_data o1)"
  shows "q_sized r n"
proof (cases q_start)
  case None
  with assms q_dropcheck_None show ?thesis by metis
next
  case (Some qs)
  from q_dropcheck_Accept(6) [OF assms(1) [unfolded Some]] assms q_trace_sized
  show ?thesis by (auto split: if_splits)
qed

lemma q_gen_text_length: "q_gen_text txt ty call \<Longrightarrow> length txt \<le> length call + 12"
  by (auto simp: q_gen_text_def)

lemma q_cand_sized:
  assumes "q_cand cfg c pdata n via_start f ty o1"
    and "length (serverid cfg) + 12 < n" and "length (c_username c) + 12 < n"
    and "length (c_addr_hex c) + 12 < n" and "qf_path_end f + 12 < n"
  shows "q_sized o1 n"
  using assms(1)
proof cases
  case (gen tx call pe rep)
  have "length tx < n" using gen(2,4) assms(2-5) q_gen_text_length [OF gen(2)] by auto
  then show ?thesis by (simp add: gen(1) q_sized_def snprintf_buf_def)
qed (use assms(2) in \<open>simp_all add: q_sized_def\<close>)

lemma q_process_sized:
  assumes "via_start \<le> path_end" and "no_comma_before pdata via_start"
    and "q_process cfg cls c pdata 600 via_start path_end pathlen orig = Q_Accept r"
    and "path_end \<le> 510" and "path_end \<le> length pdata" and "length (c_username c) \<le> 15"
    and "length (serverid cfg) \<le> 9" and "length (c_addr_hex c) \<le> 35"
  shows "length (qo_newq r) = qo_len r \<and> qo_len r < 600"
proof -
  let ?f = "q_find pdata via_start path_end"
  from q_process_Accept_cand [OF assms(1-3)] obtain ty o1 where
    cand: "q_cand cfg c pdata 600 via_start ?f ty o1" and
    res: "r = o1 \<and> qo_start o1 = Q_Null \<or>
      (\<exists>proto. q_dropcheck cfg cls c 600 proto ty (qf_start ?f) o1 = Q_Accept r)"
    by blast
  have "q_sized o1 600"
    using q_find_start(3) [OF refl assms(1), of pdata] assms(4-8) by (intro q_cand_sized [OF cand]) auto
  moreover have "qo_path_end o1 \<le> length (qo_data o1)"
    using q_cand_ok [OF cand refl assms(1)] assms(5) by (auto simp: q_out_ok_def)
  moreover have "length (serverid cfg) < 19" using assms(7) by simp
  ultimately have "q_sized r 600"
    using res q_dropcheck_sized by blast
  then show ?thesis by (simp add: q_sized_def)
qed

text \<open>With the sizes the server uses (a path of at most 510 bytes, a login of at most 15, a
  server name of at most nine, a hexadecimal address of at most 35, a buffer of 600) no
  generated construct is ever cut short: the length returned is the length of what is in the
  buffer, and it is below the buffer's size.\<close>

theorem q_process_buffer_fits:
  assumes "via_start \<le> path_end" and "no_comma_before pdata via_start"
    and "q_process cfg cls c pdata 600 via_start path_end pathlen orig = Q_Accept r"
    and "path_end \<le> 510" and "path_end \<le> length pdata" and "length (c_username c) \<le> 15"
    and "length (serverid cfg) \<le> 9" and "length (c_addr_hex c) \<le> 35"
  shows "length (qo_newq r) = qo_len r \<and> qo_len r < 600"
  using assms by (rule q_process_sized)

text \<open>The header the caller assembles from the output.\<close>

definition q_header :: "q_out \<Rightarrow> string" where
  "q_header r =
     (case qo_replace r of Some p \<Rightarrow> take p (qo_data r) | None \<Rightarrow> take (qo_path_end r) (qo_data r)) @
     take (qo_len r) (qo_newq r)"

definition has_q_construct :: "string \<Rightarrow> bool" where
  "has_q_construct h \<longleftrightarrow> (\<exists>a p t b. h = a @ '',q'' @ [p, t] @ '','' @ b)"

lemma has_q_construct_append:
  "has_q_construct h \<Longrightarrow> has_q_construct (g @ h)" "has_q_construct h \<Longrightarrow> has_q_construct (h @ g)"
  unfolding has_q_construct_def by (metis append.assoc)+

lemma has_q_construct_gen: "q_gen_text txt ty call \<Longrightarrow> has_q_construct txt"
  unfolding q_gen_text_def has_q_construct_def by fastforce

lemma has_q_construct_at:
  assumes "qs + 5 \<le> length h" and "h ! qs = CHR '',''" and "h ! (qs + 1) = CHR ''q''"
    and "h ! (qs + 4) = CHR '',''"
  shows "has_q_construct h"
proof -
  have d: "drop k h = h ! k # drop (Suc k) h" if "k < qs + 5" for k
    using that assms(1) by (simp add: Cons_nth_drop_Suc)
  have "drop qs h = '',q'' @ [h ! (qs + 2), h ! (qs + 3)] @ '','' @ drop (qs + 5) h"
    using assms d [of qs] d [of "qs + 1"] d [of "qs + 2"] d [of "qs + 3"] d [of "qs + 4"]
    by (simp add: numeral_eq_Suc)
  then have "h = take qs h @ '',q'' @ [h ! (qs + 2), h ! (qs + 3)] @ '','' @ drop (qs + 5) h"
    by (metis append_take_drop_id)
  then show ?thesis unfolding has_q_construct_def by blast
qed

lemma q_find_bytes:
  assumes f: "q_find s via_start path_end = f" and via: "via_start \<le> path_end"
    and len: "path_end \<le> length s" and pr: "qf_proto f \<noteq> NUL"
  obtains qs where "qf_start f = Some qs" and "qs + 5 \<le> path_end" and "qf_path_end f = path_end"
    and "s ! qs = CHR '',''" and "s ! (qs + 1) = CHR ''q''" and "s ! (qs + 4) = CHR '',''"
    and "qf_proto f = s ! (qs + 2)" and "qf_type f = s ! (qs + 3)"
proof -
  from q_find_start(5) [OF f via pr] obtain qs where
    qs: "qf_start f = Some qs" "qs + 5 \<le> path_end" "qf_path_end f = path_end"
      "qf_proto f = rd s (qs + 2)" "qf_type f = rd s (qs + 3)" "rd s (qs + 4) = CHR '',''"
    by blast
  have "memmem s via_start (path_end - via_start) '',q'' = Some qs"
    using f qs(1) by (auto simp: q_find_def Let_def split: option.splits if_splits)
  from memmem_Some(3) [OF this] have t: "take 2 (drop qs s) = '',q''" by (simp add: numeral_eq_Suc)
  have "s ! qs = CHR '',''" "s ! (qs + 1) = CHR ''q''"
    using arg_cong [OF t, of "\<lambda>x. x ! 0"] arg_cong [OF t, of "\<lambda>x. x ! 1"] qs(2) len by auto
  then show ?thesis using that qs len by auto
qed

lemma q_cand_keep_header:
  assumes "q_find s via_start path_end = f" and "via_start \<le> path_end" and "path_end \<le> length s"
    and "qf_proto f \<noteq> NUL" and "qf_start f = Some qs"
  shows "has_q_construct (take (qf_path_end f) (s[qs + 3 := ty]))"
proof -
  from q_find_bytes [OF assms(1-4)] assms(5) have
    "qs + 5 \<le> path_end" "qf_path_end f = path_end" "s ! qs = CHR '',''"
    "s ! (qs + 1) = CHR ''q''" "s ! (qs + 4) = CHR '',''" by (metis option.inject)+
  then show ?thesis using assms(3) by (intro has_q_construct_at [of qs]) auto
qed

lemma q_trace_header:
  assumes "q_trace cfg c n qs b o1 = Q_Accept r" and "q_sized r n"
    and "qs + 4 \<le> qo_path_end o1" and "qo_path_end o1 \<le> length (qo_data o1)"
  shows "\<exists>g. q_header r = take (qo_path_end o1) (qo_data o1) @ g"
proof -
  let ?pe = "qo_path_end o1" and ?d = "qo_data o1"
  from assms(1) obtain g where g: "qo_newq r = sub ?d (qs + 1) ?pe @ g"
    by (auto simp: q_trace_def Let_def split: if_splits)
  have "take (qs + 1) ?d @ sub ?d (qs + 1) ?pe = take ?pe ?d"
    using assms(3) by (simp add: sub_def take_add [symmetric])
  moreover have "take (qo_len r) (qo_newq r) = qo_newq r" using assms(2) by (simp add: q_sized_def)
  ultimately have "q_header r = take ?pe ?d @ g"
    using q_trace_Accept [OF assms(1)] g unfolding q_header_def by (metis append.assoc option.simps(5))
  then show ?thesis ..
qed

text \<open>C7. Every packet the algorithm accepts, from a logged-in client on an inbound port or from
  an uplink, leaves with a q construct in its path.\<close>

theorem q_process_has_construct:
  assumes "via_start \<le> path_end" and "no_comma_before pdata via_start"
    and "q_process cfg cls c pdata 600 via_start path_end pathlen orig = Q_Accept r"
    and "path_end \<le> 510" and "path_end \<le> length pdata" and "length (c_username c) \<le> 15"
    and "length (serverid cfg) \<le> 9" and "length (c_addr_hex c) \<le> 35"
    and "c_state c = CSTATE_CONNECTED \<and> has_flag (c_flags c) CLFLAGS_INPORT \<or>
         has_flag (c_flags c) CLFLAGS_UPLINKPORT"
  shows "has_q_construct (q_header r)"
proof -
  let ?f = "q_find pdata via_start path_end"
  from q_process_Accept_cand [OF assms(1-3)] obtain ty o1 where
    cand: "q_cand cfg c pdata 600 via_start ?f ty o1" and
    res: "r = o1 \<and> qo_start o1 = Q_Null \<or>
      (\<exists>proto. q_dropcheck cfg cls c 600 proto ty (qf_start ?f) o1 = Q_Accept r)"
    by blast
  have fits: "q_sized o1 600"
    using q_find_start(3) [OF refl assms(1), of pdata] assms(4-8) by (intro q_cand_sized [OF cand]) auto
  have le: "qo_path_end o1 \<le> length (qo_data o1)"
    using q_cand_ok [OF cand refl assms(1)] assms(5) by (auto simp: q_out_ok_def)
  have o1: "has_q_construct (q_header o1) \<and>
      (ty = CHR ''I'' \<longrightarrow> has_q_construct (take (qo_path_end o1) (qo_data o1)))"
    using cand
  proof cases
    case (gen tx call pe rep)
    then have "take (qo_len o1) (qo_newq o1) = tx"
      using fits by (simp add: q_sized_def snprintf_buf_def)
    moreover have "has_q_construct tx" using gen(2) by (rule has_q_construct_gen)
    ultimately show ?thesis
      using gen(3) by (simp add: q_header_def has_q_construct_append(1))
  next
    case (keep qs)
    then show ?thesis
      using q_cand_keep_header [OF refl assms(1,5) keep(3,2)] by (simp add: q_header_def)
  next
    case (bogus st)
    then show ?thesis using assms(9) by blast
  qed
  from res show ?thesis
  proof
    assume "\<exists>proto. q_dropcheck cfg cls c 600 proto ty (qf_start ?f) o1 = Q_Accept r"
    then obtain proto where d: "q_dropcheck cfg cls c 600 proto ty (qf_start ?f) o1 = Q_Accept r" ..
    show ?thesis
    proof (cases "qf_start ?f")
      case None
      with d q_dropcheck_None o1 show ?thesis by metis
    next
      case (Some qs)
      note D = q_dropcheck_Accept [OF d [unfolded Some]]
      have "q_sized r 600" using q_dropcheck_sized [OF d fits _ le] assms(7) by simp
      with D(4,6) o1 q_trace_header le show ?thesis
        by (metis has_q_construct_append(2))
    qed
  qed (use o1 in blast)
qed

lemma qcall_scan_numeral:
  "qcall_scan (numeral k) s p path_end =
     (if p < path_end then
        (let p1 = scan (\<lambda>c. c = CHR '','') s p path_end
         in if p1 = path_end then ([], p1)
            else
              (let p2 = scan (\<lambda>c. c \<noteq> CHR '','') s p1 path_end;
                   (starts, pf) = qcall_scan (pred_numeral k) s p2 path_end
               in (p1 # starts, pf)))
      else ([], p))"
  by (simp add: numeral_eq_Suc)

lemma back_to_comma_numeral:
  "back_to_comma s v (numeral k) =
     (if v < numeral k \<and> rd s (numeral k) \<noteq> CHR '',''
      then back_to_comma s v (pred_numeral k) else numeral k)"
  by (simp add: numeral_eq_Suc)

lemma no_comma_before_iff:
  "v \<le> length s \<Longrightarrow> no_comma_before s v \<longleftrightarrow> CHR '','' \<notin> set (take v s)"
  by (fastforce simp: no_comma_before_def in_set_conv_nth)

text \<open>The callsigns after the construct are read off the path: elements that are neither empty
  nor contain a comma come back as they are.\<close>

definition path_text :: "string list \<Rightarrow> string" where
  "path_text xs = concat (map (\<lambda>x. CHR '','' # x) xs)"

lemma scan_append:
  "\<forall>c \<in> set x. P c \<Longrightarrow> (r \<noteq> [] \<Longrightarrow> \<not> P (hd r)) \<Longrightarrow> length (takeWhile P (x @ r)) = length x"
  by (cases r) (auto simp: takeWhile_append takeWhile_eq_all_conv [THEN iffD2])

lemma scan_text:
  assumes "\<forall>c \<in> set x. P c" and "r \<noteq> [] \<Longrightarrow> \<not> P (hd r)"
  shows "scan P (pre @ x @ r @ post) (length pre) (length pre + length x + length r) = length pre + length x"
proof -
  have "sub (pre @ x @ r @ post) (length pre) (length pre + length x + length r) = x @ r"
    by (simp add: sub_def)
  then show ?thesis using scan_append [OF assms] by (simp add: scan_def)
qed

lemma qcall_scan_path_text:
  assumes "length xs \<le> n" and "\<forall>x \<in> set xs. x \<noteq> [] \<and> CHR '','' \<notin> set x"
  shows "let s = pre @ path_text xs @ post; e = length pre + length (path_text xs);
             (starts, pf) = qcall_scan n s (length pre) e
         in map (\<lambda>(a, b). sub s a (b - 1)) (zip starts (tl (starts @ [pf + 1]))) = xs \<and> pf = e \<and>
            (\<forall>a \<in> set (take 1 starts). a = length pre + 1)"
  using assms
proof (induction xs arbitrary: n pre)
  case Nil
  then show ?case by (cases n) (simp_all add: path_text_def Let_def)
next
  case (Cons x xs)
  then obtain m where m: "n = Suc m" "length xs \<le> m" by (cases n) auto
  let ?rest = "path_text xs"
  let ?s = "pre @ path_text (x # xs) @ post"
  let ?e = "length pre + length (path_text (x # xs))"
  let ?pre = "pre @ CHR '','' # x"
  have s: "?s = ?pre @ ?rest @ post" and e: "?e = length ?pre + length ?rest"
    by (simp_all add: path_text_def)
  have x: "x \<noteq> []" "CHR '','' \<notin> set x" using Cons.prems by auto
  have p1: "scan (\<lambda>c. c = CHR '','') ?s (length pre) ?e = length pre + 1"
    using scan_text [of "[CHR '','']" "\<lambda>c. c = CHR '',''" "x @ ?rest" pre post] x
    by (cases x) (auto simp: path_text_def)
  have hd: "?rest \<noteq> [] \<Longrightarrow> hd ?rest = CHR '',''" by (cases xs) (auto simp: path_text_def)
  have p2: "scan (\<lambda>c. c \<noteq> CHR '','') ?s (length pre + 1) ?e = length ?pre"
    using scan_text [of x "\<lambda>c. c \<noteq> CHR '',''" ?rest "pre @ [CHR '','']" post] x hd
    by (fastforce simp: path_text_def add.assoc)
  have lt: "length pre + 1 < ?e" using x by (cases x) (auto simp: path_text_def)
  obtain starts pf where qs: "qcall_scan m ?s (length ?pre) ?e = (starts, pf)" by fastforce
  have IH: "map (\<lambda>(a, b). sub ?s a (b - 1)) (zip starts (tl (starts @ [pf + 1]))) = xs" "pf = ?e"
    "\<forall>a \<in> set (take 1 starts). a = length ?pre + 1"
    using Cons.IH [of m ?pre] m Cons.prems qs unfolding s [symmetric] e [symmetric] by auto
  have scan: "qcall_scan n ?s (length pre) ?e = ((length pre + 1) # starts, pf)"
    using lt p1 p2 qs by (auto simp: m(1) Let_def path_text_def)
  have first: "sub ?s (length pre + 1) (length ?pre) = x" by (simp add: s sub_def)
  have "starts = [] \<Longrightarrow> xs = []" using IH(1) by auto
  then have "map (\<lambda>(a, b). sub ?s a (b - 1)) (zip ((length pre + 1) # starts) (starts @ [pf + 1])) = x # xs"
    using IH first by (cases starts) (auto simp: e path_text_def)
  with scan IH(2) show ?case by (simp add: Let_def)
qed

lemma qcalls_path_text:
  assumes "length xs \<le> 64" and "\<forall>x \<in> set xs. x \<noteq> [] \<and> CHR '','' \<notin> set x" and "length pre = q_start + 4"
  shows "qcalls (pre @ path_text xs @ post) q_start (length pre + length (path_text xs)) = xs"
  using qcall_scan_path_text [OF assms(1,2), of pre post] assms(3)
  by (auto simp: qcalls_def MAX_Q_CALLS_def Let_def split: prod.splits)

lemma q_dropcheck_same:
  assumes "q_dropcheck cfg cls c n proto ty q_start o1 = Q_Accept r"
  shows "qo_start r = qo_start o1" and "qo_data r = qo_data o1" and "qo_path_end r = qo_path_end o1"
  using assms by (auto simp: q_dropcheck_def dest: q_trace_Accept split: if_splits option.splits sum.splits)


text \<open>The call of \<^verbatim>\<open>memmem\<close> in the last block stays inside the packet for every packet whose
  q construct, if it has one, is complete (three characters and a callsign after it).\<close>

theorem q_process_no_fault:
  assumes "via_start \<le> path_end" and "no_comma_before pdata via_start"
    and "qf_start (q_find pdata via_start path_end) \<noteq> None \<Longrightarrow>
         qf_proto (q_find pdata via_start path_end) \<noteq> NUL"
  shows "q_process cfg cls c pdata n via_start path_end pathlen orig \<noteq> Q_Fault"
proof
  let ?f = "q_find pdata via_start path_end"
  assume fault: "q_process cfg cls c pdata n via_start path_end pathlen orig = Q_Fault"
  with q_process_via [OF assms(1,2), of cfg cls c n pathlen orig] obtain ty o1 proto where
    cand: "q_cand cfg c pdata n via_start ?f ty o1" and
    d: "q_dropcheck cfg cls c n proto ty (qf_start ?f) o1 = Q_Fault" and
    null: "qo_start o1 = Q_Null \<longrightarrow> qf_proto ?f = NUL"
    unfolding q_via_dropcheck_def by (metis q_ret.distinct(1,3))
  from q_dropcheck_fault [OF d] obtain qs where qs: "qf_start ?f = Some qs" "qo_path_end o1 < qs + 4"
    by blast
  with assms(3) have pr: "qf_proto ?f \<noteq> NUL" by simp
  from cand show False
  proof cases
    case (gen tx call pe rep)
    with null pr show ?thesis by simp
  next
    case (keep qs')
    then show ?thesis using qs q_find_start(5) [OF refl assms(1) pr] by auto
  qed (use pr in simp)
qed

text \<open>A client's own packets. Whatever path a logged-in client writes, its own packet leaves
  with exactly one construct behind the destination: \<^verbatim>\<open>TCPIP*,qAC\<close> for a verified login,
  \<^verbatim>\<open>TCPXX*,qAX\<close> for an unverified one. An unverified client cannot pass for a verified one.\<close>

theorem q_process_own_packet:
  assumes "via_start \<le> path_end" and "path_end \<le> length pdata" and "length (serverid cfg) \<le> 9"
    and "c_state c = CSTATE_CONNECTED" and "has_flag (c_flags c) CLFLAGS_INPORT"
    and "\<not> has_flag (c_flags c) CLFLAGS_UDPSUBMIT"
    and "c_validated c \<noteq> 0 \<Longrightarrow> qf_type (q_find pdata via_start path_end) \<noteq> CHR ''I''"
    and "q_process cfg cls c pdata 600 via_start path_end pathlen True = Q_Accept r"
  shows "q_header r = take via_start pdata @
     (if c_validated c \<noteq> 0 then '',TCPIP*,q'' @ [q_protocol_id cfg] @ ''C,''
      else '',TCPXX*,q'' @ [q_protocol_id cfg] @ ''X,'') @ serverid cfg"
proof (cases "c_validated c = 0")
  case True
  with assms show ?thesis
    by (auto simp: q_process_def q_process_inport_def Let_def q_header_def q_text_def snprintf_buf_def
        split: if_splits)
next
  case False
  with assms show ?thesis
    by (auto simp: q_process_def Let_def q_header_def q_text_def snprintf_buf_def split: if_splits)
qed

text \<open>The gap in the range check: a verified client relays another station's packet whose
  path ends in a bare q construct. The construct is cut off the path, but its position is
  still handed to the last block, which searches from behind it with a length below zero.\<close>

theorem q_process_incomplete_faults:
  assumes "q_find pdata via_start path_end = f" and "qf_start f = Some qs" and "qf_path_end f = qs"
    and "qf_proto f = NUL"
    and "c_state c = CSTATE_CONNECTED" and "has_flag (c_flags c) CLFLAGS_INPORT"
    and "\<not> has_flag (c_flags c) CLFLAGS_UDPSUBMIT" and "c_validated c \<noteq> 0"
    and "\<not> path_ends_I pdata pathlen qs"
  shows "q_process cfg cls c pdata n via_start path_end pathlen False = Q_Fault"
  using assms by (simp add: q_process_def q_process_inport_def q_dropcheck_def Let_def)

section \<open>Concrete runs\<close>

lemma check_if_validated_empty [simp]: "clientlist_check_if_validated_client (\<lambda>_. []) u = -1"
  by (simp add: clientlist_check_if_validated_client_def check_if_validated_client_def Let_def)

lemmas q_eval = q_process_def q_process_inport_def q_process_other_def q_find_def q_dropcheck_def
  q_trace_def q_mycall_def qcalls_def MAX_Q_CALLS_def qcall_scan_numeral back_to_comma_numeral
  path_ends_I_def path_ends_TCPIP_def i_viacall_def q_text_def q_base_def cstr_simps
  has_flag_def clflag_defs VALIDATED_WEAK_def check_invalid_q_callsign_def len_defs
  no_comma_before_iff demo_config_def demo_client_def Let_def

text \<open>A packet gated by \<^verbatim>\<open>OH7LZB\<close> without a q construct, and one with a construct of its own.\<close>

lemma demo_run_qAS:
  "q_process demo_config (\<lambda>_. []) demo_client ''OH2A>APRS,WIDE:x'' 600 9 14 14 False =
     Q_Accept (q_text 600 '',qAS,OH7LZB'' (q_base ''OH2A>APRS,WIDE:x'' 14))"
  by (simp add: q_eval)

lemma demo_run_keep:
  "q_process demo_config (\<lambda>_. []) demo_client ''OH2A>APRS,qAR,OH7LZB:x'' 600 9 20 20 False =
     Q_Accept (q_base ''OH2A>APRS,qAR,OH7LZB:x'' 20\<lparr>qo_start := Q_At 10\<rparr>)"
  by (simp add: q_eval)

lemma demo_run_own:
  "q_process demo_config (\<lambda>_. []) demo_client ''OH7LZB>APRS,WIDE:x'' 600 11 16 16 True =
     Q_Accept (q_text 600 '',TCPIP*,qAC,T2FIN'' (q_base ''OH7LZB>APRS,WIDE:x'' 16\<lparr>qo_replace := Some 11\<rparr>))"
  by (simp add: q_eval)

lemmas demo_sizes = demo_config_def demo_client_def no_comma_before_iff

theorem q_process_in_bounds_witness:
  "q_out_ok ''OH2A>APRS,WIDE:x'' 9 14 (q_text 600 '',qAS,OH7LZB'' (q_base ''OH2A>APRS,WIDE:x'' 14))"
  by (rule q_process_in_bounds [OF _ _ demo_run_qAS]) (simp_all add: no_comma_before_iff)

theorem q_process_buffer_fits_witness:
  "length (qo_newq (q_text 600 '',qAS,OH7LZB'' (q_base ''OH2A>APRS,WIDE:x'' 14))) =
     qo_len (q_text 600 '',qAS,OH7LZB'' (q_base ''OH2A>APRS,WIDE:x'' 14)) \<and>
   qo_len (q_text 600 '',qAS,OH7LZB'' (q_base ''OH2A>APRS,WIDE:x'' 14)) < 600"
  by (rule q_process_buffer_fits [OF _ _ demo_run_qAS]) (simp_all add: demo_sizes)

theorem q_process_has_construct_witness:
  "has_q_construct (q_header (q_text 600 '',qAS,OH7LZB'' (q_base ''OH2A>APRS,WIDE:x'' 14)))"
  by (rule q_process_has_construct [OF _ _ demo_run_qAS])
    (simp_all add: demo_sizes has_flag_def clflag_defs)


theorem q_process_no_fault_witness:
  "q_process demo_config (\<lambda>_. []) demo_client ''OH2A>APRS,qAR,OH7LZB:x'' 600 9 20 20 False \<noteq> Q_Fault"
  by (rule q_process_no_fault) (simp_all add: no_comma_before_iff q_find_def cstr_simps Let_def)

theorem q_process_own_packet_witness:
  "q_header (q_text 600 '',TCPIP*,qAC,T2FIN'' (q_base ''OH7LZB>APRS,WIDE:x'' 16\<lparr>qo_replace := Some 11\<rparr>)) =
     ''OH7LZB>APRS,TCPIP*,qAC,T2FIN''"
  using q_process_own_packet [OF _ _ _ _ _ _ _ demo_run_own]
  by (simp add: demo_sizes has_flag_def clflag_defs VALIDATED_WEAK_def q_find_def cstr_simps)

theorem q_process_incomplete_faults_witness:
  "q_process demo_config (\<lambda>_. []) demo_client ''OH2A>APRS,qAR:x'' 600 9 13 13 False = Q_Fault"
proof (rule q_process_incomplete_faults [OF refl])
  let ?f = "q_find ''OH2A>APRS,qAR:x'' 9 13"
  show "qf_start ?f = Some 9" by (simp add: q_find_def cstr_simps Let_def)
  show "qf_path_end ?f = 9" by (simp add: q_find_def cstr_simps Let_def)
  show "qf_proto ?f = NUL" by (simp add: q_find_def cstr_simps Let_def)
  show "\<not> path_ends_I ''OH2A>APRS,qAR:x'' 13 9" by (simp add: path_ends_I_def numeral_eq_Suc)
qed (simp_all add: demo_client_def has_flag_def clflag_defs VALIDATED_WEAK_def)

text \<open>The test for the own server name looks at the first occurrence only: behind a longer
  name that begins with it, the server's own name passes, and a looped packet is accepted.\<close>

theorem q_process_misses_own_name:
  "\<exists>r. q_process demo_config (\<lambda>_. []) demo_client ''OH2A>APRS,qAR,T2FIN2,T2FIN:x'' 600 9 26 26 False =
         Q_Accept r \<and>
       serverid demo_config \<in> set (qcalls (qo_data r) 9 (qo_path_end r))"
  by (simp add: q_eval)

end
