(* ===== verification/Cellmalloc.thy ===== *)
theory Cellmalloc
  imports Aprsc_Prelude
begin

text \<open>
  \<^verbatim>\<open>src/src/cellmalloc.c\<close>: the cell allocator behind the packet buffers, the heard lists, the
  history database and the duplicate database. The free list is modelled at pointer level:
  an address is a \<^typ>\<open>nat\<close>, NULL is \<^const>\<open>None\<close>, and \<open>ca_next\<close> is the memory of the \<^verbatim>\<open>next\<close>
  words. \<^verbatim>\<open>mmap\<close> is the operating system's and is an argument of the operations: given the
  blocks already mapped and a length it returns a new block or fails. An operation returns
  \<^const>\<open>None\<close> when it would dereference a NULL pointer. The mutex makes an operation one atomic
  step; failures of the pthread calls are not modelled.
\<close>

section \<open>The arena\<close>

definition CELLBLOCKS_MAX :: nat where "CELLBLOCKS_MAX = 200"

definition CELLMALLOC_POLICY_FIFO :: u32 where "CELLMALLOC_POLICY_FIFO = 0"
definition CELLMALLOC_POLICY_LIFO :: u32 where "CELLMALLOC_POLICY_LIFO = 1"
definition CELLMALLOC_POLICY_NOMUTEX :: u32 where "CELLMALLOC_POLICY_NOMUTEX = 2"

lemmas cell_policies = CELLMALLOC_POLICY_FIFO_def CELLMALLOC_POLICY_LIFO_def
  CELLMALLOC_POLICY_NOMUTEX_def

record cellarena_t =
  ca_cellsize :: nat
  ca_alignment :: nat
  ca_increment :: nat
  ca_lifo_policy :: bool
  ca_minfree :: int
  ca_use_mutex :: bool
  ca_free_head :: "nat option"
  ca_free_tail :: "nat option"
  ca_freecount :: int
  ca_createsize :: nat
  ca_cellblocks :: "nat list" \<comment> \<open>the first \<^verbatim>\<open>cellblocks_count\<close> slots\<close>
  ca_next :: "nat \<Rightarrow> nat option"

type_synonym mmap = "nat list \<Rightarrow> nat \<Rightarrow> nat option"

text \<open>One round of the loop of \<^verbatim>\<open>new_cellblock\<close>: the cell goes to the tail.\<close>

definition link_cell :: "nat \<Rightarrow> cellarena_t \<Rightarrow> cellarena_t option" where
  "link_cell ch ca =
     (case ca_free_head ca of
        None \<Rightarrow>
          Some (ca\<lparr>ca_free_head := Some ch, ca_free_tail := Some ch,
                   ca_next := (ca_next ca)(ch := None), ca_freecount := ca_freecount ca + 1\<rparr>)
      | Some _ \<Rightarrow>
          (case ca_free_tail ca of
             None \<Rightarrow> None
           | Some t \<Rightarrow>
               Some (ca\<lparr>ca_free_tail := Some ch, ca_next := (ca_next ca)(t := Some ch, ch := None),
                        ca_freecount := ca_freecount ca + 1\<rparr>)))"

function carve :: "nat \<Rightarrow> nat \<Rightarrow> nat \<Rightarrow> nat \<Rightarrow> cellarena_t \<Rightarrow> cellarena_t option" where
  "carve inc sz cb i ca =
     (if 0 < inc \<and> i + inc \<le> sz then
        (case link_cell (cb + i) ca of None \<Rightarrow> None | Some ca' \<Rightarrow> carve inc sz cb (i + inc) ca')
      else Some ca)"
  by auto
termination by (relation "measure (\<lambda>(inc, sz, cb, i, ca). sz - i)") auto

declare carve.simps [simp del]

definition new_cellblock :: "mmap \<Rightarrow> cellarena_t \<Rightarrow> (int \<times> cellarena_t) option" where
  "new_cellblock mm ca =
     (if CELLBLOCKS_MAX \<le> length (ca_cellblocks ca) then Some (-1, ca)
      else
        case mm (ca_cellblocks ca) (ca_createsize ca) of
          None \<Rightarrow> Some (-1, ca)
        | Some cb \<Rightarrow>
            map_option (Pair 0)
              (carve (ca_increment ca) (ca_createsize ca) cb 0
                 (ca\<lparr>ca_cellblocks := ca_cellblocks ca @ [cb]\<rparr>)))"

lemma link_cell_keeps:
  "link_cell ch ca = Some ca' \<Longrightarrow>
     ca_cellblocks ca' = ca_cellblocks ca \<and> ca_increment ca' = ca_increment ca \<and>
     ca_createsize ca' = ca_createsize ca \<and> ca_lifo_policy ca' = ca_lifo_policy ca \<and>
     ca_minfree ca' = ca_minfree ca"
  by (auto simp: link_cell_def split: option.splits)

lemma carve_keeps:
  "carve inc sz cb i ca = Some ca' \<Longrightarrow>
     ca_cellblocks ca' = ca_cellblocks ca \<and> ca_increment ca' = ca_increment ca \<and>
     ca_createsize ca' = ca_createsize ca \<and> ca_lifo_policy ca' = ca_lifo_policy ca \<and>
     ca_minfree ca' = ca_minfree ca"
proof (induction inc sz cb i ca rule: carve.induct)
  case (1 inc sz cb i ca)
  then show ?case
    by (subst (asm) carve.simps) (auto split: if_splits option.splits dest!: link_cell_keeps)
qed

lemma new_cellblock_grows:
  "new_cellblock mm ca = Some (rc, ca') \<Longrightarrow> rc = 0 \<Longrightarrow>
     length (ca_cellblocks ca) < CELLBLOCKS_MAX \<and>
     length (ca_cellblocks ca') = Suc (length (ca_cellblocks ca))"
  by (auto simp: new_cellblock_def split: if_splits option.splits dest!: carve_keeps)

section \<open>Allocating\<close>

text \<open>\<^verbatim>\<open>while (!free_head || freecount < minfree)\<close>: the result of the last \<^verbatim>\<open>new_cellblock\<close>, or 0.
  Every round uses up one of the \<^verbatim>\<open>CELLBLOCKS_MAX\<close> slots.\<close>

function refill :: "mmap \<Rightarrow> cellarena_t \<Rightarrow> (int \<times> cellarena_t) option" where
  "refill mm ca =
     (if ca_free_head ca = None \<or> ca_freecount ca < ca_minfree ca then
        (case new_cellblock mm ca of
           None \<Rightarrow> None
         | Some (rc, ca') \<Rightarrow> if rc \<noteq> 0 then Some (rc, ca') else refill mm ca')
      else Some (0, ca))"
  by auto
termination
  by (relation "measure (\<lambda>(mm, ca). CELLBLOCKS_MAX - length (ca_cellblocks ca))")
    (auto dest!: new_cellblock_grows)

declare refill.simps [simp del]

text \<open>Picking a cell off \<^verbatim>\<open>free_head\<close>.\<close>

definition pick_cell :: "nat \<Rightarrow> cellarena_t \<Rightarrow> cellarena_t" where
  "pick_cell ch ca =
     ca\<lparr>ca_free_head := ca_next ca ch,
        ca_free_tail := (if ca_next ca ch = None then None else ca_free_tail ca),
        ca_next := (ca_next ca)(ch := None), ca_freecount := ca_freecount ca - 1\<rparr>"

definition cellmalloc :: "mmap \<Rightarrow> cellarena_t \<Rightarrow> (nat option \<times> cellarena_t) option" where
  "cellmalloc mm ca =
     (case refill mm ca of
        None \<Rightarrow> None
      | Some (rc, ca') \<Rightarrow>
          if rc \<noteq> 0 then Some (None, ca')
          else map_option (\<lambda>ch. (Some ch, pick_cell ch ca')) (ca_free_head ca'))"

fun cellmallocmany :: "mmap \<Rightarrow> nat \<Rightarrow> cellarena_t \<Rightarrow> (nat list \<times> cellarena_t) option" where
  "cellmallocmany mm 0 ca = Some ([], ca)"
| "cellmallocmany mm (Suc n) ca =
     (case refill mm ca of
        None \<Rightarrow> None
      | Some (rc, ca') \<Rightarrow>
          (case ca_free_head ca' of
             None \<Rightarrow> Some ([], ca')
           | Some ch \<Rightarrow> map_option (apfst ((#) ch)) (cellmallocmany mm n (pick_cell ch ca'))))"

section \<open>Freeing\<close>

definition cellfree :: "cellarena_t \<Rightarrow> nat \<Rightarrow> cellarena_t" where
  "cellfree ca ch =
     (if ca_lifo_policy ca then
        ca\<lparr>ca_next := (ca_next ca)(ch := ca_free_head ca), ca_free_head := Some ch,
           ca_freecount := ca_freecount ca + 1\<rparr>
      else
        ca\<lparr>ca_next := (case ca_free_tail ca of None \<Rightarrow> ca_next ca
                        | Some t \<Rightarrow> (ca_next ca)(t := Some ch)) (ch := None),
           ca_free_tail := Some ch,
           ca_free_head := (case ca_free_head ca of None \<Rightarrow> Some ch | Some h \<Rightarrow> Some h),
           ca_freecount := ca_freecount ca + 1\<rparr>)"

fun cellfreemany :: "cellarena_t \<Rightarrow> nat list \<Rightarrow> cellarena_t" where
  "cellfreemany ca [] = ca"
| "cellfreemany ca (ch # chs) = cellfreemany (cellfree ca ch) chs"

section \<open>Set-up and statistics\<close>

definition cell_increment :: "nat \<Rightarrow> nat \<Rightarrow> nat" where
  "cell_increment cellsize alignment =
     (if cellsize mod alignment \<noteq> 0 then cellsize + (alignment - cellsize mod alignment) else cellsize)"

text \<open>The loop of \<^verbatim>\<open>cellinit\<close> ignores the result of \<^verbatim>\<open>new_cellblock\<close>, so it need not end.\<close>

partial_function (option) cellinit_fill :: "mmap \<Rightarrow> cellarena_t \<Rightarrow> cellarena_t option" where
  "cellinit_fill mm ca =
     (if ca_freecount ca < ca_minfree ca
      then Option.bind (new_cellblock mm ca) (\<lambda>r. cellinit_fill mm (snd r))
      else Some ca)"

definition cellinit :: "mmap \<Rightarrow> nat \<Rightarrow> nat \<Rightarrow> u32 \<Rightarrow> nat \<Rightarrow> int \<Rightarrow> cellarena_t option" where
  "cellinit mm cellsize alignment policy createkb minfree =
     cellinit_fill mm
       \<lparr>ca_cellsize = cellsize, ca_alignment = alignment,
        ca_increment = cell_increment cellsize alignment,
        ca_lifo_policy = has_flag policy CELLMALLOC_POLICY_LIFO, ca_minfree = minfree,
        ca_use_mutex = (\<not> has_flag policy CELLMALLOC_POLICY_NOMUTEX),
        ca_free_head = None, ca_free_tail = None, ca_freecount = 0,
        ca_createsize = createkb * 1024, ca_cellblocks = [], ca_next = (\<lambda>_. None)\<rparr>"

record cellstatus_t =
  cs_cellsize :: nat
  cs_alignment :: nat
  cs_cellsize_aligned :: nat
  cs_cellcount :: nat
  cs_freecount :: int
  cs_blocks :: nat
  cs_blocks_max :: nat
  cs_block_size :: nat

definition cellstatus :: "cellarena_t \<Rightarrow> cellstatus_t" where
  "cellstatus ca =
     \<lparr>cs_cellsize = ca_cellsize ca, cs_alignment = ca_alignment ca,
      cs_cellsize_aligned = ca_increment ca,
      cs_cellcount = (ca_createsize ca div ca_increment ca) * length (ca_cellblocks ca),
      cs_freecount = ca_freecount ca, cs_blocks = length (ca_cellblocks ca),
      cs_blocks_max = CELLBLOCKS_MAX, cs_block_size = ca_createsize ca\<rparr>"

section \<open>The free list as a queue\<close>

fun chain :: "(nat \<Rightarrow> nat option) \<Rightarrow> nat option \<Rightarrow> nat list \<Rightarrow> bool" where
  "chain nx p [] \<longleftrightarrow> p = None"
| "chain nx p (x # xs) \<longleftrightarrow> p = Some x \<and> chain nx (nx x) xs"

lemma chain_None [simp]: "chain nx None xs \<longleftrightarrow> xs = []"
  by (cases xs) auto

lemma chain_upd [simp]: "a \<notin> set xs \<Longrightarrow> chain (nx(a := v)) p xs = chain nx p xs"
  by (induction xs arbitrary: p) auto

lemma chain_snoc:
  "chain nx p xs \<Longrightarrow> distinct xs \<Longrightarrow> c \<notin> set xs \<Longrightarrow> xs \<noteq> [] \<Longrightarrow>
     chain (nx(last xs := Some c, c := None)) p (xs @ [c])"
proof (induction xs arbitrary: p)
  case (Cons x xs)
  then show ?case by (cases "xs = []") auto
qed simp

lemma chain_head_None: "chain nx p xs \<Longrightarrow> p = None \<longleftrightarrow> xs = []"
  by (cases xs) auto

text \<open>The addresses \<^verbatim>\<open>new_cellblock\<close> cuts out of a block.\<close>

function block_cells :: "nat \<Rightarrow> nat \<Rightarrow> nat \<Rightarrow> nat \<Rightarrow> nat list" where
  "block_cells inc sz cb i =
     (if 0 < inc \<and> i + inc \<le> sz then (cb + i) # block_cells inc sz cb (i + inc) else [])"
  by auto
termination by (relation "measure (\<lambda>(inc, sz, cb, i). sz - i)") auto

declare block_cells.simps [simp del]

lemma block_cells_range:
  "x \<in> set (block_cells inc sz cb i) \<Longrightarrow> cb + i \<le> x \<and> x + inc \<le> cb + sz"
proof (induction inc sz cb i rule: block_cells.induct)
  case (1 inc sz cb i)
  then show ?case by (subst (asm) block_cells.simps) (auto split: if_splits)
qed

text \<open>Two cells of a block do not overlap.\<close>

lemma block_cells_apart:
  "x \<in> set (block_cells inc sz cb i) \<Longrightarrow> y \<in> set (block_cells inc sz cb i) \<Longrightarrow>
     x = y \<or> x + inc \<le> y \<or> y + inc \<le> x"
proof (induction inc sz cb i rule: block_cells.induct)
  case (1 inc sz cb i)
  show ?case
  proof (cases "0 < inc \<and> i + inc \<le> sz")
    case True
    then have "z + inc \<le> w" if "z = cb + i" "w \<in> set (block_cells inc sz cb (i + inc))" for z w
      using block_cells_range [OF that(2)] that(1) by simp
    with 1 True show ?thesis by (auto simp: block_cells.simps [of inc sz cb i])
  qed (use 1 in \<open>auto simp: block_cells.simps [of inc sz cb i]\<close>)
qed

lemma distinct_block_cells: "distinct (block_cells inc sz cb i)"
proof (induction inc sz cb i rule: block_cells.induct)
  case (1 inc sz cb i)
  then show ?case
    by (subst block_cells.simps) (auto dest!: block_cells_range)
qed

lemma length_block_cells: "length (block_cells inc sz cb i) = (sz - i) div inc"
proof (induction inc sz cb i rule: block_cells.induct)
  case (1 inc sz cb i)
  show ?case
  proof (cases "0 < inc \<and> i + inc \<le> sz")
    case True
    then have "sz - i = (sz - (i + inc)) + inc" by simp
    then have "(sz - i) div inc = Suc ((sz - (i + inc)) div inc)"
      using True by (metis div_add_self2 less_not_refl Suc_eq_plus1)
    with 1 True show ?thesis by (simp add: block_cells.simps [of inc sz cb i])
  qed (cases "inc = 0", simp_all add: block_cells.simps [of _ sz cb i])
qed

lemma carve_chain:
  assumes "chain (ca_next ca) (ca_free_head ca) xs" and "distinct (xs @ block_cells inc sz cb i)"
    and "xs \<noteq> [] \<Longrightarrow> ca_free_tail ca = Some (last xs)"
  shows "\<exists>ca'. carve inc sz cb i ca = Some ca' \<and>
     chain (ca_next ca') (ca_free_head ca') (xs @ block_cells inc sz cb i) \<and>
     ca_freecount ca' = ca_freecount ca + int (length (block_cells inc sz cb i)) \<and>
     ca_free_tail ca' = (if block_cells inc sz cb i = [] then ca_free_tail ca
                         else Some (last (block_cells inc sz cb i)))"
  using assms
proof (induction inc sz cb i ca arbitrary: xs rule: carve.induct)
  case (1 inc sz cb i ca)
  show ?case
  proof (cases "0 < inc \<and> i + inc \<le> sz")
    case True
    let ?c = "cb + i"
    have cells: "block_cells inc sz cb i = ?c # block_cells inc sz cb (i + inc)"
      using True by (subst block_cells.simps) simp
    obtain ca1 where link: "link_cell ?c ca = Some ca1"
      and ch: "chain (ca_next ca1) (ca_free_head ca1) (xs @ [?c])"
      and tail: "ca_free_tail ca1 = Some ?c" and fc: "ca_freecount ca1 = ca_freecount ca + 1"
    proof (cases "xs = []")
      case True
      then show thesis using "1.prems"(1) by (intro that) (auto simp: link_cell_def)
    next
      case False
      then obtain h where "ca_free_head ca = Some h" "ca_free_tail ca = Some (last xs)"
        using "1.prems" chain_head_None by blast
      with False show thesis
        using chain_snoc [OF "1.prems"(1)] "1.prems"(2) cells by (intro that) (auto simp: link_cell_def)
    qed
    have "\<exists>ca'. carve inc sz cb (i + inc) ca1 = Some ca' \<and>
       chain (ca_next ca') (ca_free_head ca') ((xs @ [?c]) @ block_cells inc sz cb (i + inc)) \<and>
       ca_freecount ca' = ca_freecount ca1 + int (length (block_cells inc sz cb (i + inc))) \<and>
       ca_free_tail ca' = (if block_cells inc sz cb (i + inc) = [] then ca_free_tail ca1
                           else Some (last (block_cells inc sz cb (i + inc))))"
      using "1.prems"(2) ch tail cells by (intro "1.IH" [OF True link]) auto
    then show ?thesis
      using True link tail fc cells by (subst carve.simps) (auto split: if_splits simp: algebra_simps)
  next
    case False
    then have "block_cells inc sz cb i = []" by (subst block_cells.simps) auto
    with False 1 show ?thesis by (subst carve.simps) auto
  qed
qed
section \<open>Free and live cells\<close>

text \<open>What the operating system promises: a new mapping does not overlap an earlier one.\<close>

definition mmap_fresh :: "mmap \<Rightarrow> bool" where
  "mmap_fresh mm \<longleftrightarrow>
     (\<forall>bs sz b b'. mm bs sz = Some b \<longrightarrow> b' \<in> set bs \<longrightarrow> b + sz \<le> b' \<or> b' + sz \<le> b)"

definition all_cells :: "cellarena_t \<Rightarrow> nat list" where
  "all_cells ca =
     concat (map (\<lambda>cb. block_cells (ca_increment ca) (ca_createsize ca) cb 0) (ca_cellblocks ca))"

text \<open>Blocks are disjoint pieces of memory. The arena invariant, for the list of free cells and the list of cells handed out: the
  linked list is the free list, with its tail and its length right, and the two lists
  together are the cells of the blocks, each once. A LIFO arena does not maintain its tail and
  has to have no minimum of free cells.\<close>

definition blocks_apart :: "cellarena_t \<Rightarrow> bool" where
  "blocks_apart ca \<longleftrightarrow>
     sorted_wrt (\<lambda>b b'. b + ca_createsize ca \<le> b' \<or> b' + ca_createsize ca \<le> b) (ca_cellblocks ca)"

definition arena_inv :: "cellarena_t \<Rightarrow> nat list \<Rightarrow> nat list \<Rightarrow> bool" where
  "arena_inv ca free live \<longleftrightarrow>
     chain (ca_next ca) (ca_free_head ca) free \<and> ca_freecount ca = int (length free) \<and>
     distinct (free @ live) \<and> set (free @ live) = set (all_cells ca) \<and> distinct (all_cells ca) \<and>
     0 < ca_increment ca \<and> blocks_apart ca \<and>
     (if ca_lifo_policy ca then ca_minfree ca \<le> 0
      else ca_free_tail ca = (if free = [] then None else Some (last free)))"

lemma fresh_block_cells:
  assumes "mmap_fresh mm" and "mm (ca_cellblocks ca) (ca_createsize ca) = Some cb" and "0 < ca_increment ca"
  shows "set (block_cells (ca_increment ca) (ca_createsize ca) cb 0) \<inter> set (all_cells ca) = {}"
proof -
  have "x \<noteq> y" if "x \<in> set (block_cells (ca_increment ca) (ca_createsize ca) cb 0)"
    "y \<in> set (block_cells (ca_increment ca) (ca_createsize ca) b 0)" "b \<in> set (ca_cellblocks ca)" for x y b
  proof -
    have "cb + ca_createsize ca \<le> b \<or> b + ca_createsize ca \<le> cb"
      using assms(1,2) that(3) unfolding mmap_fresh_def by blast
    then show ?thesis
      using block_cells_range [OF that(1)] block_cells_range [OF that(2)] assms(3) by auto
  qed
  then show ?thesis by (fastforce simp: all_cells_def)
qed

lemma new_cellblock_inv:
  assumes inv: "arena_inv ca free live" and fresh: "mmap_fresh mm"
    and call: "free = [] \<or> \<not> ca_lifo_policy ca"
  shows "new_cellblock mm ca = Some (-1, ca) \<or>
    (\<exists>ca' cells. new_cellblock mm ca = Some (0, ca') \<and> arena_inv ca' (free @ cells) live)"
proof (cases "CELLBLOCKS_MAX \<le> length (ca_cellblocks ca) \<or>
    mm (ca_cellblocks ca) (ca_createsize ca) = None")
  case False
  then obtain cb where cb: "mm (ca_cellblocks ca) (ca_createsize ca) = Some cb" by auto
  let ?ca = "ca\<lparr>ca_cellblocks := ca_cellblocks ca @ [cb]\<rparr>"
  let ?cells = "block_cells (ca_increment ca) (ca_createsize ca) cb 0"
  have disj: "set ?cells \<inter> set (free @ live) = {}"
    using fresh_block_cells [OF fresh cb] inv by (simp add: arena_inv_def)
  have "chain (ca_next ?ca) (ca_free_head ?ca) free" "distinct (free @ ?cells)"
    "free \<noteq> [] \<Longrightarrow> ca_free_tail ?ca = Some (last free)"
    using inv disj call by (auto simp: arena_inv_def distinct_block_cells)
  from carve_chain [OF this] obtain ca' where car: "carve (ca_increment ca) (ca_createsize ca) cb 0 ?ca = Some ca'"
    and ch: "chain (ca_next ca') (ca_free_head ca') (free @ ?cells)"
    and fc: "ca_freecount ca' = ca_freecount ca + int (length ?cells)"
    and tail: "ca_free_tail ca' = (if ?cells = [] then ca_free_tail ca else Some (last ?cells))"
    by auto
  note keeps = carve_keeps [OF car]
  have "all_cells ca' = all_cells ca @ ?cells" using keeps by (simp add: all_cells_def)
  moreover have "blocks_apart ca'"
    using keeps inv fresh cb by (auto simp: arena_inv_def blocks_apart_def sorted_wrt_append mmap_fresh_def)
  moreover have "set ?cells \<inter> set free = {}" "set ?cells \<inter> set live = {}" using disj by auto
  ultimately have "arena_inv ca' (free @ ?cells) live"
    using inv ch fc tail keeps fresh_block_cells [OF fresh cb]
    by (auto simp: arena_inv_def distinct_block_cells)
  then show ?thesis using False cb car by (auto simp: new_cellblock_def)
qed (auto simp: new_cellblock_def)

lemma refill_inv:
  assumes "arena_inv ca free live" and "mmap_fresh mm"
  shows "\<exists>rc ca' cells. refill mm ca = Some (rc, ca') \<and> arena_inv ca' (free @ cells) live \<and>
     (rc = 0 \<longrightarrow> free @ cells \<noteq> [])"
  using assms
proof (induction mm ca arbitrary: free rule: refill.induct)
  case (1 mm ca)
  note head = chain_head_None [of "ca_next ca" "ca_free_head ca" free]
  show ?case
  proof (cases "ca_free_head ca = None \<or> ca_freecount ca < ca_minfree ca")
    case True
    then have call: "free = [] \<or> \<not> ca_lifo_policy ca"
      using "1.prems"(1) head by (auto simp: arena_inv_def split: if_splits)
    from new_cellblock_inv [OF "1.prems" call] show ?thesis
    proof
      assume "new_cellblock mm ca = Some (-1, ca)"
      with True "1.prems"(1) show ?thesis
        by (subst refill.simps) (auto intro: exI [of _ "[]"])
    next
      assume "\<exists>ca' cells. new_cellblock mm ca = Some (0, ca') \<and> arena_inv ca' (free @ cells) live"
      then obtain ca' cells where N: "new_cellblock mm ca = Some (0, ca')" "arena_inv ca' (free @ cells) live"
        by blast
      from "1.IH" [OF True N(1) refl _ N(2) "1.prems"(2)] obtain rc ca2 cells2
        where "refill mm ca' = Some (rc, ca2)" "arena_inv ca2 (free @ cells @ cells2) live"
          "rc = 0 \<longrightarrow> free @ cells @ cells2 \<noteq> []"
        by auto
      with True N(1) show ?thesis by (subst refill.simps) auto
    qed
  next
    case False
    then show ?thesis
      using "1.prems"(1) head by (subst refill.simps) (auto simp: arena_inv_def intro: exI [of _ "[]"])
  qed
qed

lemma pick_cell_inv:
  "arena_inv ca (c # free) live \<Longrightarrow> arena_inv (pick_cell c ca) free (c # live)"
  using chain_head_None [of "ca_next ca" "ca_next ca c" free]
  by (auto simp: arena_inv_def pick_cell_def all_cells_def blocks_apart_def)

lemma cellmalloc_inv:
  assumes "arena_inv ca free live" and "mmap_fresh mm"
  shows "(\<exists>ca' free'. cellmalloc mm ca = Some (None, ca') \<and> arena_inv ca' free' live) \<or>
    (\<exists>c ca' free'. cellmalloc mm ca = Some (Some c, ca') \<and> arena_inv ca' free' (c # live) \<and>
       (free \<noteq> [] \<longrightarrow> c = hd free))"
proof -
  obtain rc ca' cells where R: "refill mm ca = Some (rc, ca')" "arena_inv ca' (free @ cells) live"
    "rc = 0 \<longrightarrow> free @ cells \<noteq> []"
    using refill_inv [OF assms] by blast
  show ?thesis
  proof (cases "rc = 0")
    case True
    then obtain c rest where cr: "free @ cells = c # rest" using R(3) by (cases "free @ cells") auto
    then have "ca_free_head ca' = Some c" using R(2) by (simp add: arena_inv_def)
    moreover have "free \<noteq> [] \<longrightarrow> c = hd free" using cr by (cases free) auto
    ultimately show ?thesis
      using R True cr pick_cell_inv [of ca' c rest live] by (auto simp: cellmalloc_def)
  qed (use R in \<open>auto simp: cellmalloc_def\<close>)
qed

lemma cellmallocmany_inv:
  assumes "arena_inv ca free live" and "mmap_fresh mm"
  shows "\<exists>cs ca' free'. cellmallocmany mm n ca = Some (cs, ca') \<and> length cs \<le> n \<and>
     arena_inv ca' free' (rev cs @ live)"
  using assms
proof (induction n arbitrary: ca free live)
  case (Suc n)
  obtain rc ca' cells where R: "refill mm ca = Some (rc, ca')" "arena_inv ca' (free @ cells) live"
    using refill_inv [OF Suc.prems] by blast
  show ?case
  proof (cases "free @ cells")
    case Nil
    then show ?thesis using R by (auto simp: arena_inv_def)
  next
    case (Cons c rest)
    then have head: "ca_free_head ca' = Some c" using R(2) by (simp add: arena_inv_def)
    have "arena_inv (pick_cell c ca') rest (c # live)" using R(2) Cons pick_cell_inv by simp
    from Suc.IH [OF this Suc.prems(2)] show ?thesis using R(1) head by auto
  qed
qed auto

lemma cellfree_inv:
  assumes inv: "arena_inv ca free live" and c: "c \<in> set live"
  shows "arena_inv (cellfree ca c) (if ca_lifo_policy ca then c # free else free @ [c]) (remove1 c live)"
proof -
  have cf: "c \<notin> set free" using assms by (auto simp: arena_inv_def)
  have "chain (ca_next (cellfree ca c)) (ca_free_head (cellfree ca c))
      (if ca_lifo_policy ca then c # free else free @ [c])"
  proof (cases "ca_lifo_policy ca \<or> free = []")
    case True
    then show ?thesis using inv cf by (auto simp: arena_inv_def cellfree_def split: option.split)
  next
    case False
    then have "ca_free_tail ca = Some (last free)" and "ca_free_head ca \<noteq> None"
      using inv chain_head_None by (auto simp: arena_inv_def)
    with False show ?thesis
      using chain_snoc [of "ca_next ca" "ca_free_head ca" free c] inv cf
      by (auto simp: arena_inv_def cellfree_def)
  qed
  moreover have "set (remove1 c live) = set live - {c}" "distinct (remove1 c live)"
    using inv by (auto simp: arena_inv_def)
  ultimately show ?thesis
    using inv c cf by (auto simp: arena_inv_def cellfree_def all_cells_def blocks_apart_def)
qed
text \<open>Two different cells, free or live, are disjoint pieces of memory.\<close>

lemma all_cells_apart:
  assumes "blocks_apart ca" and "x \<in> set (all_cells ca)" and "y \<in> set (all_cells ca)"
  shows "x = y \<or> x + ca_increment ca \<le> y \<or> y + ca_increment ca \<le> x"
proof -
  let ?cells = "\<lambda>b. block_cells (ca_increment ca) (ca_createsize ca) b 0"
  obtain a b where ab: "a \<in> set (ca_cellblocks ca)" "x \<in> set (?cells a)"
    "b \<in> set (ca_cellblocks ca)" "y \<in> set (?cells b)"
    using assms(2,3) by (auto simp: all_cells_def)
  have "a = b \<or> a + ca_createsize ca \<le> b \<or> b + ca_createsize ca \<le> a"
  proof -
    obtain i j where ij: "i < length (ca_cellblocks ca)" "ca_cellblocks ca ! i = a"
      "j < length (ca_cellblocks ca)" "ca_cellblocks ca ! j = b"
      using ab(1,3) by (auto simp: in_set_conv_nth)
    consider "i = j" | "i < j" | "j < i" by linarith
    then show ?thesis
      using assms(1) ij by cases (auto simp: blocks_apart_def sorted_wrt_iff_nth_less)
  qed
  then show ?thesis
  proof (elim disjE)
    assume "a = b" with ab block_cells_apart show ?thesis by blast
  qed (use block_cells_range [OF ab(2)] block_cells_range [OF ab(4)] in auto)
qed

lemma arena_conserves:
  assumes "arena_inv ca free live"
  shows "cs_cellcount (cellstatus ca) = length live + length free"
proof -
  have "card (set (free @ live)) = card (set (all_cells ca))"
    using assms by (simp add: arena_inv_def)
  then have "length (free @ live) = length (all_cells ca)"
    using assms distinct_card [of "free @ live"] distinct_card [of "all_cells ca"]
    by (simp add: arena_inv_def)
  also have "\<dots> = (ca_createsize ca div ca_increment ca) * length (ca_cellblocks ca)"
    by (simp add: all_cells_def length_concat comp_def length_block_cells sum_list_triv mult.commute)
  finally show ?thesis by (simp add: cellstatus_def)
qed

section \<open>The allocator's contract\<close>

text \<open>What the clients of an allocator rely on, whatever its free list looks like. \<open>holds s live\<close>
  says that exactly the cells \<open>live\<close> are handed out in state \<open>s\<close>.\<close>

datatype 'c cell_op = Op_alloc | Op_free 'c

locale cell_allocator =
  fixes alloc :: "'s \<Rightarrow> ('c option \<times> 's) option"
    and release :: "'s \<Rightarrow> 'c \<Rightarrow> 's"
    and holds :: "'s \<Rightarrow> 'c list \<Rightarrow> bool"
  assumes holds_distinct: "holds s live \<Longrightarrow> distinct live"
    and alloc_law: "holds s live \<Longrightarrow>
      (\<exists>s'. alloc s = Some (None, s') \<and> holds s' live) \<or>
      (\<exists>c s'. alloc s = Some (Some c, s') \<and> holds s' (c # live))"
    and release_law: "holds s live \<Longrightarrow> c \<in> set live \<Longrightarrow> holds (release s c) (remove1 c live)"
begin

text \<open>A client run: the state and the cells it holds. It only releases what it holds.\<close>

inductive client_run :: "'s \<Rightarrow> 'c list \<Rightarrow> 'c cell_op list \<Rightarrow> 's \<Rightarrow> 'c list \<Rightarrow> bool" where
  run_nil: "client_run s live [] s live"
| run_alloc: "alloc s = Some (Some c, s') \<Longrightarrow> client_run s' (c # live) ops s2 live2 \<Longrightarrow>
    client_run s live (Op_alloc # ops) s2 live2"
| run_fail: "alloc s = Some (None, s') \<Longrightarrow> client_run s' live ops s2 live2 \<Longrightarrow>
    client_run s live (Op_alloc # ops) s2 live2"
| run_free: "c \<in> set live \<Longrightarrow> client_run (release s c) (remove1 c live) ops s2 live2 \<Longrightarrow>
    client_run s live (Op_free c # ops) s2 live2"

lemma client_run_holds: "client_run s live ops s2 live2 \<Longrightarrow> holds s live \<Longrightarrow> holds s2 live2"
proof (induction rule: client_run.induct)
  case (run_alloc s c s' live ops s2 live2)
  then show ?case using alloc_law [of s live] by auto
next
  case (run_fail s s' live ops s2 live2)
  then show ?case using alloc_law [of s live] by auto
qed (auto intro: release_law)

text \<open>A cell handed out is not one the client holds already.\<close>

lemma alloc_not_live: "holds s live \<Longrightarrow> alloc s = Some (Some c, s') \<Longrightarrow> c \<notin> set live"
  using alloc_law [of s live] holds_distinct [of s' "c # live"] by auto

text \<open>No run gets stuck: another allocation never hits a NULL pointer.\<close>

lemma client_run_alloc: "client_run s live ops s2 live2 \<Longrightarrow> holds s live \<Longrightarrow> alloc s2 \<noteq> None"
  using client_run_holds alloc_law by (metis option.distinct(1))

end

definition arena_holds :: "mmap \<Rightarrow> cellarena_t \<Rightarrow> nat list \<Rightarrow> bool" where
  "arena_holds mm ca live \<longleftrightarrow> mmap_fresh mm \<and> (\<exists>free. arena_inv ca free live)"

interpretation arena: cell_allocator "cellmalloc mm" cellfree "arena_holds mm" for mm
proof unfold_locales
  show "distinct live" if "arena_holds mm s live" for s live
    using that by (auto simp: arena_holds_def arena_inv_def)
next
  fix s live
  assume "arena_holds mm s live"
  then obtain free where "mmap_fresh mm" "arena_inv s free live" by (auto simp: arena_holds_def)
  with cellmalloc_inv [of s free live mm]
  show "(\<exists>s'. cellmalloc mm s = Some (None, s') \<and> arena_holds mm s' live) \<or>
      (\<exists>c s'. cellmalloc mm s = Some (Some c, s') \<and> arena_holds mm s' (c # live))"
    unfolding arena_holds_def by blast
next
  show "arena_holds mm (cellfree s c) (remove1 c live)" if "arena_holds mm s live" "c \<in> set live" for s live c
    using that cellfree_inv unfolding arena_holds_def by blast
qed
lemma cellinit_no_minfree:
  "cellinit mm cellsize alignment policy createkb 0 =
     Some \<lparr>ca_cellsize = cellsize, ca_alignment = alignment,
        ca_increment = cell_increment cellsize alignment,
        ca_lifo_policy = has_flag policy CELLMALLOC_POLICY_LIFO, ca_minfree = 0,
        ca_use_mutex = (\<not> has_flag policy CELLMALLOC_POLICY_NOMUTEX),
        ca_free_head = None, ca_free_tail = None, ca_freecount = 0,
        ca_createsize = createkb * 1024, ca_cellblocks = [], ca_next = (\<lambda>_. None)\<rparr>"
  by (simp add: cellinit_def cellinit_fill.simps)

lemma cellinit_inv:
  "cellinit mm cellsize alignment policy createkb 0 = Some ca \<Longrightarrow> 0 < cellsize \<Longrightarrow> arena_inv ca [] []"
  by (auto simp: cellinit_no_minfree arena_inv_def all_cells_def blocks_apart_def cell_increment_def)

lemma cellinit_holds:
  "mmap_fresh mm \<Longrightarrow> cellinit mm cellsize alignment policy createkb 0 = Some ca \<Longrightarrow> 0 < cellsize \<Longrightarrow>
     arena_holds mm ca []"
  using cellinit_inv unfolding arena_holds_def by blast

section \<open>Properties\<close>

text \<open>C32. Allocator safety. Start from \<^verbatim>\<open>cellinit\<close> with no minimum of free cells, as every arena of
  aprsc does, and let the clients allocate and free in any order, freeing only what they
  hold. No NULL pointer is dereferenced, no two cells handed out overlap, and no cell is
  lost: the cells of the statistics are those handed out and those counted free.\<close>

theorem cell_clients_safe:
  assumes "mmap_fresh mm" and "cellinit mm cellsize alignment policy createkb 0 = Some ca0"
    and "0 < cellsize" and "arena.client_run mm ca0 [] ops ca live"
  shows "cellmalloc mm ca \<noteq> None \<and> distinct live \<and>
     (\<forall>x \<in> set live. \<forall>y \<in> set live. x \<noteq> y \<longrightarrow>
        x + ca_increment ca \<le> y \<or> y + ca_increment ca \<le> x) \<and>
     int (cs_cellcount (cellstatus ca)) = int (length live) + cs_freecount (cellstatus ca)"
proof -
  note init = cellinit_holds [OF assms(1-3)]
  note run = assms(4)
  obtain free where inv: "arena_inv ca free live"
    using arena.client_run_holds [OF run init] by (auto simp: arena_holds_def)
  then have "set live \<subseteq> set (all_cells ca)" "blocks_apart ca" "distinct live"
    by (auto simp: arena_inv_def)
  moreover have "int (cs_cellcount (cellstatus ca)) = int (length live) + cs_freecount (cellstatus ca)"
    using inv arena_conserves [OF inv] by (simp add: arena_inv_def cellstatus_def)
  ultimately show ?thesis
    using arena.client_run_alloc [OF run init] all_cells_apart [of ca] by blast
qed

text \<open>C33. A FIFO arena is a queue: \<^verbatim>\<open>cellfree\<close> appends at the end, \<^verbatim>\<open>cellmalloc\<close> takes from the
  front, so that a freed packet buffer is the last to be used again.\<close>

theorem cell_fifo_queue:
  assumes "arena_inv ca free live" and "\<not> ca_lifo_policy ca" and "c \<in> set live"
    and "free \<noteq> []" and "ca_minfree ca \<le> 0"
  shows "arena_inv (cellfree ca c) (free @ [c]) (remove1 c live) \<and>
     cellmalloc mm ca = Some (Some (hd free), pick_cell (hd free) ca) \<and>
     arena_inv (pick_cell (hd free) ca) (tl free) (hd free # live)"
proof -
  obtain h rest where free: "free = h # rest" using assms(4) by (cases free) auto
  have "ca_free_head ca = Some h" "\<not> ca_freecount ca < ca_minfree ca"
    using assms(1,5) free by (auto simp: arena_inv_def)
  then have "cellmalloc mm ca = Some (Some h, pick_cell h ca)"
    by (simp add: cellmalloc_def refill.simps)
  then show ?thesis
    using cellfree_inv [OF assms(1,3)] pick_cell_inv [of ca h rest live] assms(1,2) free by simp
qed

section \<open>Concrete runs\<close>

text \<open>A mapping that always goes above the blocks there are, and an arena of two cells a block.\<close>

definition demo_mmap :: mmap where
  "demo_mmap bs sz = Some (foldr max bs 0 + sz)"

definition demo_arena :: cellarena_t where
  "demo_arena = the (cellinit demo_mmap 500 8 CELLMALLOC_POLICY_FIFO 1 0)"

lemma demo_mmap_fresh: "mmap_fresh demo_mmap"
proof -
  have "b \<le> foldr max bs 0" if "b \<in> set bs" for b and bs :: "nat list"
    using that by (induction bs) auto
  then show ?thesis by (auto simp: mmap_fresh_def demo_mmap_def)
qed

lemmas cell_eval = cellmalloc_def refill.simps new_cellblock_def carve.simps link_cell_def
  pick_cell_def cellinit_no_minfree cell_increment_def demo_mmap_def demo_arena_def
  CELLBLOCKS_MAX_def cell_policies has_flag_def

definition demo_arena2 :: cellarena_t where
  "demo_arena2 = snd (the (cellmalloc demo_mmap demo_arena))"

lemma demo_cellmalloc: "cellmalloc demo_mmap demo_arena = Some (Some 1024, demo_arena2)"
  by (simp add: demo_arena2_def cell_eval)

lemma demo_cellmalloc2:
  "cellmalloc demo_mmap demo_arena2 = Some (Some 1528, pick_cell 1528 demo_arena2)"
  by (simp add: demo_arena2_def cell_eval)

lemma demo_cellinit: "cellinit demo_mmap 500 8 CELLMALLOC_POLICY_FIFO 1 0 = Some demo_arena"
  by (simp add: demo_arena_def cellinit_no_minfree)

theorem cell_clients_safe_witness:
  "cellmalloc demo_mmap (pick_cell 1528 demo_arena2) \<noteq> None \<and> distinct [1528::nat, 1024]"
  using cell_clients_safe [OF demo_mmap_fresh demo_cellinit _
      arena.run_alloc [OF demo_cellmalloc arena.run_alloc [OF demo_cellmalloc2 arena.run_nil]]]
  by simp

lemma demo_arena2_inv: "arena_inv demo_arena2 [1528] [1024]"
  by (simp add: demo_arena2_def cell_eval arena_inv_def all_cells_def blocks_apart_def
      block_cells.simps)
    (simp add: insert_commute)

theorem cell_fifo_queue_witness:
  "cellmalloc demo_mmap demo_arena2 = Some (Some 1528, pick_cell 1528 demo_arena2)"
proof -
  have "\<not> ca_lifo_policy demo_arena2" "ca_minfree demo_arena2 \<le> 0"
    by (simp_all add: demo_arena2_def cell_eval)
  with cell_fifo_queue [OF demo_arena2_inv, of 1024] show ?thesis by simp
qed

end
