(* ===== verification/Client_Heard.thy ===== *)
theory Client_Heard
  imports Worker_Types Keyhash
begin

text \<open>
  \<^verbatim>\<open>src/src/client_heard.c\<close>: the callsigns heard behind a client (for routing messages to it) and
  the senders of messages to it (for courtesy positions), two hash tables of 32 chains in
  every client, touched by its own worker thread only. \<^verbatim>\<open>cellmalloc\<close> hands a new entry out with the
  bytes its last user left in it; the ten bytes of its callsign field are an argument.
\<close>

definition CLIENT_HEARD_BUCKETS :: nat where "CLIENT_HEARD_BUCKETS = 32"
definition MAX_HEARD_PER_CLIENT :: int where "MAX_HEARD_PER_CLIENT = 2000"

definition heard_bucket :: "u32 \<Rightarrow> nat" where
  "heard_bucket hash = unat (hash XOR drop_bit 16 hash) mod CLIENT_HEARD_BUCKETS"

definition heard_matches :: "u32 \<Rightarrow> string \<Rightarrow> client_heard_t \<Rightarrow> bool" where
  "heard_matches hash call h \<longleftrightarrow>
     h_hash h = hash \<and> length call = h_call_len h \<and> strncaseeq (h_call_len h) call (h_callsign h)"

text \<open>\<^verbatim>\<open>strncpy(h->callsign, call, call_len)\<close> copies no terminator; the last byte is set to NUL.\<close>

definition heard_entry :: "string \<Rightarrow> u32 \<Rightarrow> string \<Rightarrow> ctime \<Rightarrow> client_heard_t" where
  "heard_entry old hash call t =
     \<lparr>h_hash = hash, h_call_len = length call, h_last_heard = t,
      h_callsign = take CALLSIGNLEN_MAX (call @ drop (length call) old) @ [NUL]\<rparr>"

text \<open>\<open>cell\<close>: the old callsign bytes of the cell \<^verbatim>\<open>cellmalloc\<close> returns, None when it fails.\<close>

definition heard_list_update ::
    "string option \<Rightarrow> string \<Rightarrow> ctime \<Rightarrow> client_heard_t table \<times> int \<Rightarrow> client_heard_t table \<times> int" where
  "heard_list_update cell call t lc =
     (let (list, entrycount) = lc;
          hash = keyhashuc call 0;
          i = heard_bucket hash
      in case find (heard_matches hash call) (list i) of
           Some h \<Rightarrow> (list(i := h\<lparr>h_last_heard := t\<rparr> # remove1 h (list i)), entrycount)
         | None \<Rightarrow>
             if MAX_HEARD_PER_CLIENT \<le> entrycount then (list, entrycount)
             else
               case cell of
                 None \<Rightarrow> (list, entrycount)
               | Some old \<Rightarrow> (list(i := heard_entry old hash call t # list i), entrycount + 1))"

definition client_heard_update :: "string option \<Rightarrow> pbuf_t \<Rightarrow> client_t \<Rightarrow> client_t" where
  "client_heard_update cell pb c =
     (let (list, n) = heard_list_update cell (take (pb_srccall_end pb) (pb_data pb)) (pb_t pb)
                        (c_heard c, c_heard_count c)
      in c\<lparr>c_heard := list, c_heard_count := n\<rparr>)"

definition client_courtesy_update :: "string option \<Rightarrow> pbuf_t \<Rightarrow> client_t \<Rightarrow> client_t" where
  "client_courtesy_update cell pb c =
     (let (list, n) = heard_list_update cell (take (pb_srccall_end pb) (pb_data pb)) (pb_t pb)
                        (c_courtesy c, c_courtesy_count c)
      in c\<lparr>c_courtesy := list, c_courtesy_count := n\<rparr>)"

definition heard_find ::
    "string \<Rightarrow> u32 \<Rightarrow> bool \<Rightarrow> client_heard_t table \<times> int \<Rightarrow> int \<times> client_heard_t table \<times> int" where
  "heard_find callsign hash drop_if_found lc =
     (let (list, entrycount) = lc; i = heard_bucket hash
      in case find (heard_matches hash callsign) (list i) of
           None \<Rightarrow> (0, list, entrycount)
         | Some h \<Rightarrow>
             if drop_if_found then (1, list(i := remove1 h (list i)), entrycount - 1)
             else (1, list, entrycount))"

definition client_heard_check :: "client_t \<Rightarrow> string \<Rightarrow> u32 \<Rightarrow> int" where
  "client_heard_check c callsign hash = fst (heard_find callsign hash False (c_heard c, c_heard_count c))"

definition client_courtesy_needed :: "pbuf_t \<Rightarrow> client_t \<Rightarrow> int \<times> client_t" where
  "client_courtesy_needed pb c =
     (let (r, list, n) = heard_find (pb_srcname pb) (pb_srcname_hash pb) True (c_courtesy c, c_courtesy_count c)
      in (r, c\<lparr>c_courtesy := list, c_courtesy_count := n\<rparr>))"

definition heard_free_single :: "client_heard_t table \<Rightarrow> client_heard_t table" where
  "heard_free_single list = (\<lambda>i. if i < CLIENT_HEARD_BUCKETS then [] else list i)"

definition client_heard_free :: "client_t \<Rightarrow> client_t" where
  "client_heard_free c =
     c\<lparr>c_heard := heard_free_single (c_heard c), c_courtesy := heard_free_single (c_courtesy c),
       c_heard_count := 0, c_courtesy_count := 0\<rparr>"

definition heard_expired :: "ctime \<Rightarrow> int \<Rightarrow> client_heard_t \<Rightarrow> bool" where
  "heard_expired tick storetime h \<longleftrightarrow> h_last_heard h < tick - storetime \<or> tick < h_last_heard h"

definition heard_expire_single ::
    "ctime \<Rightarrow> int \<Rightarrow> client_heard_t table \<times> int \<Rightarrow> client_heard_t table \<times> int" where
  "heard_expire_single tick storetime lc =
     (let (list, entrycount) = lc;
          old = filter (heard_expired tick storetime) (entries CLIENT_HEARD_BUCKETS list)
      in (\<lambda>i. if i < CLIENT_HEARD_BUCKETS then filter (\<lambda>h. \<not> heard_expired tick storetime h) (list i)
              else list i,
          entrycount - int (length old)))"

definition client_heard_expire :: "ctime \<Rightarrow> int \<Rightarrow> int \<Rightarrow> client_t \<Rightarrow> client_t" where
  "client_heard_expire tick heard_list_storetime courtesy_list_storetime c =
     (let (hl, hn) = heard_expire_single tick heard_list_storetime (c_heard c, c_heard_count c);
          (cl, cn) = heard_expire_single tick courtesy_list_storetime (c_courtesy c, c_courtesy_count c)
      in c\<lparr>c_heard := hl, c_heard_count := hn, c_courtesy := cl, c_courtesy_count := cn\<rparr>)"

text \<open>The JSON dump of a live upgrade, as the list of its strings, and its load. The strings are
  C strings: they end at the first NUL.\<close>

definition client_heard_json :: "client_heard_t table \<Rightarrow> string list" where
  "client_heard_json list =
     map (\<lambda>h. takeWhile (\<lambda>c. c \<noteq> NUL) (h_callsign h)) (entries CLIENT_HEARD_BUCKETS list)"

fun client_heard_json_load ::
    "(nat \<Rightarrow> string option) \<Rightarrow> ctime \<Rightarrow> string list \<Rightarrow> client_heard_t table \<times> int \<Rightarrow> client_heard_t table \<times> int" where
  "client_heard_json_load cells tick [] lc = lc"
| "client_heard_json_load cells tick (s # ss) lc =
     client_heard_json_load cells tick ss (heard_list_update (cells (length ss)) s tick lc)"

section \<open>The table as a map\<close>

definition heard_name :: "client_heard_t \<Rightarrow> string" where
  "heard_name h = map toupper (take (h_call_len h) (h_callsign h))"

interpretation heard: keyed_table CLIENT_HEARD_BUCKETS h_hash heard_bucket heard_name "\<lambda>n. keyhash n 0"
  by unfold_locales (simp add: heard_bucket_def CLIENT_HEARD_BUCKETS_def)

text \<open>When a callsign, in capitals, was last heard.\<close>

definition heard_at :: "client_heard_t table \<Rightarrow> string \<Rightarrow> ctime option" where
  "heard_at list n = map_option h_last_heard (heard.lookup list n)"

definition heard_wf :: "client_heard_t \<Rightarrow> bool" where
  "heard_wf h \<longleftrightarrow> length (h_callsign h) = 10 \<and> h_call_len h \<le> CALLSIGNLEN_MAX"

definition heard_inv :: "client_heard_t table \<times> int \<Rightarrow> bool" where
  "heard_inv lc \<longleftrightarrow> heard.table_ok (fst lc) \<and>
     (\<forall>h \<in> set (entries CLIENT_HEARD_BUCKETS (fst lc)). heard_wf h) \<and>
     snd lc = int (length (entries CLIENT_HEARD_BUCKETS (fst lc))) \<and> snd lc \<le> MAX_HEARD_PER_CLIENT"

lemma heard_inv_empty: "heard_inv (\<lambda>_. [], 0)"
  by (simp add: heard_inv_def heard.table_ok_empty entries_def MAX_HEARD_PER_CLIENT_def)

lemma heard_matches_iff:
  assumes "heard_wf h" and "h_hash h = keyhash (heard_name h) 0" and "NUL \<notin> set call"
  shows "heard_matches (keyhashuc call 0) call h \<longleftrightarrow> heard_name h = map toupper call"
proof -
  have len: "length (heard_name h) = h_call_len h"
    using assms(1) by (simp add: heard_wf_def heard_name_def len_defs)
  have "strncaseeq (h_call_len h) call (h_callsign h) \<longleftrightarrow> heard_name h = map toupper call"
    if "length call = h_call_len h"
    using strncaseeq_no_NUL [OF assms(3) that] assms(1)
    by (auto simp: heard_wf_def strcaseeq_def heard_name_def len_defs)
  then show ?thesis
    using len assms(2) keyhashuc_map unfolding heard_matches_def by (metis length_map)
qed

lemma find_heard:
  assumes inv: "heard_inv (list, n)" and call: "NUL \<notin> set call"
  shows "find (heard_matches (keyhashuc call 0) call) (list (heard_bucket (keyhashuc call 0))) =
     heard.lookup list (map toupper call)"
proof -
  have "heard_matches (keyhashuc call 0) call h \<longleftrightarrow> heard_name h = map toupper call"
    if "h \<in> set (list (heard_bucket (keyhashuc call 0)))" for h
  proof (rule heard_matches_iff [OF _ _ call])
    show "heard_wf h"
      using inv set_bucket_entries [of _ CLIENT_HEARD_BUCKETS h list, OF heard.bkt_less that]
      by (simp add: heard_inv_def)
    show "h_hash h = keyhash (heard_name h) 0"
      using inv that by (simp add: heard_inv_def heard.table_ok_def)
  qed
  then show ?thesis
    by (simp add: heard.lookup_def keyhashuc_map cong: find_cong)
qed

lemma heard_entry_name:
  assumes "length call \<le> CALLSIGNLEN_MAX" and "length old = 10"
  shows "heard_name (heard_entry old hash call t) = map toupper call"
    and "heard_wf (heard_entry old hash call t)"
  using assms by (auto simp: heard_name_def heard_entry_def heard_wf_def len_defs min_def)

lemma heard_inv_lookup_wf:
  assumes "heard_inv (list, n)" and "heard.lookup list u = Some h"
  shows "heard_wf h" and "heard_name h = u" and "h_hash h = keyhash u 0"
    and "h \<in> set (list (heard_bucket (keyhash u 0)))"
proof -
  have ok: "heard.table_ok list" using assms(1) by (simp add: heard_inv_def)
  show "heard_name h = u" "h \<in> set (list (heard_bucket (keyhash u 0)))"
    using assms(2) heard.lookup_Some_bucket [OF ok] by auto
  then show "h_hash h = keyhash u 0" using ok by (auto simp: heard.table_ok_def)
  show "heard_wf h" using assms heard.lookup_Some_iff [OF ok] by (auto simp: heard_inv_def)
qed

lemma heard_move:
  assumes inv: "heard_inv (list, n)" and h: "heard.lookup list u = Some h" and i: "i = heard_bucket (keyhash u 0)"
  shows "heard_inv (list(i := h\<lparr>h_last_heard := t\<rparr> # remove1 h (list i)), n)"
    and "heard_at (list(i := h\<lparr>h_last_heard := t\<rparr> # remove1 h (list i))) = (heard_at list)(u \<mapsto> t)"
proof -
  let ?h = "h\<lparr>h_last_heard := t\<rparr>"
  let ?l = "list(i := ?h # remove1 h (list i))"
  note H = heard_inv_lookup_wf [OF inv h]
  have ok: "heard.table_ok list" using inv by (simp add: heard_inv_def)
  have nm: "heard_name ?h = u" "h_hash ?h = keyhash u 0" "heard_wf ?h"
    using H by (simp_all add: heard_name_def heard_wf_def)
  note laws = heard.move_laws [OF ok h i nm(1,2)]
  have lt: "i < CLIENT_HEARD_BUCKETS" using i heard.bkt_less by simp
  have "length (?h # remove1 h (list i)) = length (list i)"
    using H(4) i length_pos_if_in_set [of h "list i"] by (simp add: length_remove1)
  then have len: "length (entries CLIENT_HEARD_BUCKETS ?l) = length (entries CLIENT_HEARD_BUCKETS list)"
    using length_entries_upd [OF lt, of list "?h # remove1 h (list i)"] by linarith
  have "set (entries CLIENT_HEARD_BUCKETS ?l) \<subseteq> insert ?h (set (entries CLIENT_HEARD_BUCKETS list))"
    using set_entries_upd_subset [OF lt, of list "?h # remove1 h (list i)"] set_remove1_subset [of h "list i"]
      set_bucket_entries [OF lt, of _ list] by fastforce
  then show "heard_inv (?l, n)" using inv laws(1) len nm(3) by (auto simp: heard_inv_def)
  show "heard_at ?l = (heard_at list)(u \<mapsto> t)" using laws(2) by (auto simp: heard_at_def)
qed

lemma heard_insert:
  assumes inv: "heard_inv (list, n)" and none: "heard.lookup list u = None" and i: "i = heard_bucket (keyhash u 0)"
    and e: "heard_name e = u" "h_hash e = keyhash u 0" "heard_wf e" and n: "n < MAX_HEARD_PER_CLIENT"
  shows "heard_inv (list(i := e # list i), n + 1)"
    and "heard_at (list(i := e # list i)) = (heard_at list)(u \<mapsto> h_last_heard e)"
proof -
  have ok: "heard.table_ok list" using inv by (simp add: heard_inv_def)
  have lt: "i < CLIENT_HEARD_BUCKETS" using i heard.bkt_less by simp
  have "heard.table_ok (list(i := e # list i))"
    using ok none e i by (intro heard.table_ok_insert) auto
  moreover have "length (entries CLIENT_HEARD_BUCKETS (list(i := e # list i))) =
      Suc (length (entries CLIENT_HEARD_BUCKETS list))"
    using length_entries_upd [OF lt, of list "e # list i"] by simp
  ultimately show "heard_inv (list(i := e # list i), n + 1)"
    using inv e(3) n set_entries_insert [OF lt, of list e] by (simp add: heard_inv_def)
  show "heard_at (list(i := e # list i)) = (heard_at list)(u \<mapsto> h_last_heard e)"
    using e i heard.lookup_insert [of i e list] by (auto simp: heard_at_def)
qed

section \<open>Properties\<close>

text \<open>C34. Hearing a station. The update keeps the table well formed, at most 2000 entries and
  their count right, and on the map it stands for sets the time of the callsign; only when the
  callsign is new and the list full does nothing change.\<close>

theorem heard_list_update_refines:
  assumes "heard_inv (list, n)" and "length call \<le> CALLSIGNLEN_MAX" and "NUL \<notin> set call"
    and "length old = 10"
  shows "heard_inv (heard_list_update (Some old) call t (list, n)) \<and>
    heard_at (fst (heard_list_update (Some old) call t (list, n))) =
      (if heard_at list (map toupper call) = None \<and> MAX_HEARD_PER_CLIENT \<le> n then heard_at list
       else (heard_at list)(map toupper call \<mapsto> t))"
proof -
  let ?u = "map toupper call"
  note find = find_heard [OF assms(1,3)]
  show ?thesis
  proof (cases "heard.lookup list ?u")
    case None
    note E = heard_entry_name [OF assms(2,4), of "keyhash ?u 0" t]
    show ?thesis
      using find None assms(1) heard_insert [OF assms(1) None refl E(1) _ E(2)]
      by (auto simp: heard_list_update_def Let_def heard_at_def keyhashuc_map heard_entry_def)
  next
    case (Some h)
    then show ?thesis
      using find heard_move [OF assms(1) Some refl, of t]
      by (simp add: heard_list_update_def Let_def heard_at_def keyhashuc_map)
  qed
qed

text \<open>Looking a station up answers exactly whether the map has the callsign, upper or lower
  case alike.\<close>

theorem client_heard_check_iff:
  assumes "heard_inv (c_heard c, c_heard_count c)" and "NUL \<notin> set call"
  shows "client_heard_check c call (keyhashuc call 0) = 1 \<longleftrightarrow> map toupper call \<in> dom (heard_at (c_heard c))"
  using find_heard [OF assms]
  by (auto simp: client_heard_check_def heard_find_def heard_at_def Let_def split: option.splits)

text \<open>A courtesy position is sent once: the test says whether the sender is on the list, and
  takes it off.\<close>

theorem client_courtesy_once:
  assumes "heard_inv (c_courtesy c, c_courtesy_count c)" and "NUL \<notin> set (pb_srcname pb)"
    and "pb_srcname_hash pb = keyhashuc (pb_srcname pb) 0"
    and "client_courtesy_needed pb c = (r, c')"
  shows "(r = 1 \<longleftrightarrow> map toupper (pb_srcname pb) \<in> dom (heard_at (c_courtesy c))) \<and>
    heard_at (c_courtesy c') = (heard_at (c_courtesy c))(map toupper (pb_srcname pb) := None) \<and>
    heard_inv (c_courtesy c', c_courtesy_count c') \<and>
    fst (client_courtesy_needed pb c') = 0"
proof -
  let ?u = "map toupper (pb_srcname pb)"
  let ?i = "heard_bucket (keyhash ?u 0)"
  have hash: "pb_srcname_hash pb = keyhash ?u 0" using assms(3) keyhashuc_map by simp
  have find: "find (heard_matches (keyhash ?u 0) (pb_srcname pb)) (l ?i) = heard.lookup l ?u"
    if "heard_inv (l, n)" for l n
    using find_heard [OF that assms(2)] by (simp add: keyhashuc_map)
  have ok: "heard.table_ok (c_courtesy c)" using assms(1) by (simp add: heard_inv_def)
  show ?thesis
  proof (cases "heard.lookup (c_courtesy c) ?u")
    case None
    then have "r = 0" and "c' = c" using assms(4) find [OF assms(1)]
      by (auto simp: client_courtesy_needed_def heard_find_def hash Let_def)
    then show ?thesis using None assms(1,4) by (auto simp: heard_at_def)
  next
    case (Some h)
    let ?l = "(c_courtesy c)(?i := remove1 h (c_courtesy c ?i))"
    have c': "r = 1" "c' = c\<lparr>c_courtesy := ?l, c_courtesy_count := c_courtesy_count c - 1\<rparr>"
      using assms(4) Some find [OF assms(1)]
      by (auto simp: client_courtesy_needed_def heard_find_def hash Let_def)
    note H = heard_inv_lookup_wf [OF assms(1) Some]
    note length_entries_remove [of ?i CLIENT_HEARD_BUCKETS h "c_courtesy c", OF heard.bkt_less H(4)]
    moreover have "set (entries CLIENT_HEARD_BUCKETS ?l) \<subseteq> set (entries CLIENT_HEARD_BUCKETS (c_courtesy c))"
      by (rule set_entries_remove)
    ultimately have inv: "heard_inv (?l, c_courtesy_count c - 1)"
      using assms(1) heard.table_ok_remove [OF ok] by (auto simp: heard_inv_def)
    have gone: "heard.lookup ?l ?u = None" using heard.lookup_remove [OF ok Some refl] by simp
    then have "fst (client_courtesy_needed pb c') = 0"
      using find [OF inv] by (simp add: c' client_courtesy_needed_def heard_find_def hash Let_def)
    then show ?thesis
      using c' inv Some heard.lookup_remove [OF ok Some refl] by (auto simp: heard_at_def fun_eq_iff)
  qed
qed

text \<open>Expiry drops exactly the stations not heard for the storage time, and those dated in the
  future, and keeps the count right.\<close>

theorem heard_expire_exact:
  assumes "heard_inv (list, n)" and "heard_expire_single tick storetime (list, n) = (list', n')"
  shows "heard_inv (list', n') \<and>
    (\<forall>u. heard_at list' u = (case heard_at list u of
        Some t \<Rightarrow> if tick - storetime \<le> t \<and> t \<le> tick then Some t else None | None \<Rightarrow> None))"
proof -
  let ?P = "\<lambda>h. \<not> heard_expired tick storetime h"
  let ?f = "\<lambda>i. filter ?P (list i)"
  have ok: "heard.table_ok list" using assms(1) by (simp add: heard_inv_def)
  have list': "list' = (\<lambda>i. if i < CLIENT_HEARD_BUCKETS then ?f i else list i)"
    and n': "n' = n - int (length (filter (heard_expired tick storetime) (entries CLIENT_HEARD_BUCKETS list)))"
    using assms(2) by (auto simp: heard_expire_single_def)
  have ent: "entries CLIENT_HEARD_BUCKETS list' = filter ?P (entries CLIENT_HEARD_BUCKETS list)"
    by (subst entries_filter [symmetric], rule entries_cong) (simp add: list')
  have "heard.table_ok list'"
    using ok by (rule heard.table_ok_subset)
      (use ok in \<open>auto simp: list' heard.table_ok_def distinct_map inj_on_def\<close>)
  moreover have "n' = int (length (filter ?P (entries CLIENT_HEARD_BUCKETS list)))"
    using assms(1) sum_length_filter_compl [of "heard_expired tick storetime" "entries CLIENT_HEARD_BUCKETS list"]
    by (simp add: n' heard_inv_def)
  moreover have "n' \<le> MAX_HEARD_PER_CLIENT" using assms(1) by (simp add: n' heard_inv_def)
  ultimately have inv: "heard_inv (list', n')" using assms(1) by (simp add: heard_inv_def ent)
  have "heard.lookup list' u = heard.lookup ?f u" for u
    using heard.bkt_less by (simp add: heard.lookup_def list')
  then have "heard_at list' u = map_option h_last_heard
      (case heard.lookup list u of None \<Rightarrow> None | Some e \<Rightarrow> if ?P e then Some e else None)" for u
    using heard.lookup_filter [OF ok, of ?P u] by (simp add: heard_at_def)
  then show ?thesis using inv by (auto simp: heard_at_def heard_expired_def split: option.splits)
qed

text \<open>A dump for a live upgrade writes the whole callsign field up to the first NUL: behind a
  short name in a recycled cell stand the bytes of its previous user, so a station nobody heard
  is loaded in place of the one that was.\<close>

theorem client_heard_json_stale:
  "client_heard_json (fst (heard_list_update (Some (''OH7LZB-12'' @ [NUL])) ''OH2A'' 5 (\<lambda>_. [], 0))) =
     [''OH2AZB-12'']"
proof -
  let ?i = "heard_bucket (keyhashuc ''OH2A'' 0)"
  let ?e = "heard_entry (''OH7LZB-12'' @ [NUL]) (keyhashuc ''OH2A'' 0) ''OH2A'' 5"
  have "set (entries CLIENT_HEARD_BUCKETS ((\<lambda>_. [])(?i := [?e]))) = {?e}"
    using set_entries_insert [of ?i CLIENT_HEARD_BUCKETS "\<lambda>_. []" ?e] heard.bkt_less
    by (simp add: set_entries)
  moreover have "length (entries CLIENT_HEARD_BUCKETS ((\<lambda>_. [])(?i := [?e]))) = 1"
    using length_entries_upd [of ?i CLIENT_HEARD_BUCKETS "\<lambda>_. []" "[?e]"] heard.bkt_less
    by (simp add: entries_def)
  ultimately have "entries CLIENT_HEARD_BUCKETS ((\<lambda>_. [])(?i := [?e])) = [?e]"
    by (cases "entries CLIENT_HEARD_BUCKETS ((\<lambda>_. [])(?i := [?e]))") auto
  then show ?thesis
    by (simp add: heard_list_update_def Let_def MAX_HEARD_PER_CLIENT_def client_heard_json_def)
      (simp add: heard_entry_def len_defs)
qed

section \<open>Concrete runs\<close>

theorem heard_list_update_refines_witness:
  "heard_inv (heard_list_update (Some (replicate 10 NUL)) ''oh2a'' 5 (\<lambda>_. [], 0)) \<and>
   heard_at (fst (heard_list_update (Some (replicate 10 NUL)) ''oh2a'' 5 (\<lambda>_. [], 0))) ''OH2A'' = Some 5"
  using heard_list_update_refines [OF heard_inv_empty, of "''oh2a''" "replicate 10 NUL" 5]
  by (simp add: len_defs MAX_HEARD_PER_CLIENT_def byte_eval)

definition demo_heard :: "client_heard_t table \<times> int" where
  "demo_heard = heard_list_update (Some (replicate 10 NUL)) ''OH2A'' 5 (\<lambda>_. [], 0)"

lemma demo_heard_inv: "heard_inv demo_heard"
  and demo_heard_at: "heard_at (fst demo_heard) ''OH2A'' = Some 5"
proof -
  have "heard_inv demo_heard \<and> heard_at (fst demo_heard) ''OH2A'' = Some 5"
    unfolding demo_heard_def
    using find_heard [OF heard_inv_empty, of "''OH2A''"]
      heard_insert [OF heard_inv_empty _ refl heard_entry_name(1) _ heard_entry_name(2),
        of "''OH2A''" "replicate 10 NUL" "keyhash ''OH2A'' 0" 5]
    by (simp add: heard_list_update_def Let_def keyhashuc_map byte_eval len_defs
        MAX_HEARD_PER_CLIENT_def heard_entry_def)
  then show "heard_inv demo_heard" "heard_at (fst demo_heard) ''OH2A'' = Some 5" by simp_all
qed

definition demo_igate :: client_t where
  "demo_igate = demo_client\<lparr>c_heard := fst demo_heard, c_heard_count := snd demo_heard,
     c_courtesy := fst demo_heard, c_courtesy_count := snd demo_heard\<rparr>"

theorem client_heard_check_iff_witness:
  "client_heard_check demo_igate ''oh2a'' (keyhashuc ''oh2a'' 0) = 1"
  using client_heard_check_iff [of demo_igate "''oh2a''"] demo_heard_inv demo_heard_at
  by (simp add: demo_igate_def byte_eval dom_def)

theorem client_courtesy_once_witness:
  "fst (client_courtesy_needed ((pbuf_zero 0 100)\<lparr>pb_srcname := ''OH2A'', pb_srcname_hash := keyhashuc ''OH2A'' 0\<rparr>)
     demo_igate) = 1"
  using client_courtesy_once [of demo_igate "(pbuf_zero 0 100)\<lparr>pb_srcname := ''OH2A'',
      pb_srcname_hash := keyhashuc ''OH2A'' 0\<rparr>", OF _ _ _ prod.collapse [symmetric]] demo_heard_inv demo_heard_at
  by (simp add: demo_igate_def byte_eval dom_def)

theorem heard_expire_exact_witness:
  "heard_at (fst (heard_expire_single 100 50 demo_heard)) ''OH2A'' = None"
  using heard_expire_exact [of "fst demo_heard" "snd demo_heard" 100 50, OF _ prod.collapse [symmetric]]
    demo_heard_inv demo_heard_at by simp

end
