(* ===== verification/Historydb.thy ===== *)
theory Historydb
  imports Worker_Types Keyhash
begin

text \<open>
  \<^verbatim>\<open>src/src/historydb.c\<close>: the last known position of every station, object and item, for the
  range filters and for packets without a position of their own. A hash table of chains, new
  entries at the end of a chain. Times are seconds; \<open>storetime\<close> is \<^verbatim>\<open>lastposition_storetime\<close>.
  Floats are real numbers. The lock makes an operation one step.
\<close>

record history_cell_t =
  hc_arrivaltime :: ctime
  hc_key :: string \<comment> \<open>the first \<^verbatim>\<open>keylen\<close> bytes\<close>
  hc_hash1 :: u32
  hc_lat :: real
  hc_coslat :: real
  hc_lon :: real
  hc_packettype :: u16
  hc_flags :: u16

definition HISTORYDB_HASH_MODULO :: nat where "HISTORYDB_HASH_MODULO = 8192"

definition historydb_bucket :: "u32 \<Rightarrow> nat" where
  "historydb_bucket h1 = unat (h1 XOR drop_bit 13 h1 XOR drop_bit 26 h1) mod HISTORYDB_HASH_MODULO"

section \<open>The key of a packet\<close>

definition cstr :: "string \<Rightarrow> string" where
  "cstr s = takeWhile (\<lambda>c. c \<noteq> NUL) s"

text \<open>An object or item name of at most ten bytes: cut at the first live marker, or else at the first
  kill marker. The loop meant to strip trailing spaces of object names starts at the terminator,
  where it stops.\<close>

definition marked_name :: "char \<Rightarrow> string \<Rightarrow> string \<times> bool" where
  "marked_name live name =
     (let s = cstr name
      in if live \<in> set s then (takeWhile (\<lambda>c. c \<noteq> live) s, False)
         else if CHR ''_'' \<in> set s then (takeWhile (\<lambda>c. c \<noteq> CHR ''_'') s, True)
         else (s, False))"

definition historydb_key :: "pbuf_t \<Rightarrow> (string \<times> bool) option" where
  "historydb_key pb =
     (let name = take (CALLSIGNLEN_MAX + 1) (drop (pb_info_start pb + 1) (pb_data pb))
      in if has_flag (pb_packettype pb) T_OBJECT then Some (marked_name (CHR ''*'') name)
         else if has_flag (pb_packettype pb) T_ITEM then Some (marked_name (CHR ''!'') name)
         else if has_flag (pb_packettype pb) T_POSITION then
           Some (takeWhile (\<lambda>c. c \<noteq> CHR ''>'') (cstr (take CALLSIGNLEN_MAX (pb_data pb))), False)
         else None)"

section \<open>Operations\<close>

definition hc_fill :: "pbuf_t \<Rightarrow> history_cell_t \<Rightarrow> history_cell_t" where
  "hc_fill pb cp =
     cp\<lparr>hc_lat := pb_lat pb, hc_coslat := pb_cos_lat pb, hc_lon := pb_lng pb,
        hc_arrivaltime := pb_t pb, hc_packettype := pb_packettype pb, hc_flags := pb_flags pb\<rparr>"

definition hc_new :: "string \<Rightarrow> pbuf_t \<Rightarrow> history_cell_t" where
  "hc_new k pb =
     \<lparr>hc_arrivaltime = pb_t pb, hc_key = k, hc_hash1 = keyhash k 0, hc_lat = pb_lat pb,
      hc_coslat = pb_cos_lat pb, hc_lon = pb_lng pb, hc_packettype = pb_packettype pb,
      hc_flags = pb_flags pb\<rparr>"

text \<open>The walk along the chain: expired cells and, for a killed object, matching ones are freed;
  otherwise matching ones are updated. The second result says whether one was.\<close>

fun historydb_walk ::
    "ctime \<Rightarrow> string \<Rightarrow> bool \<Rightarrow> pbuf_t \<Rightarrow> history_cell_t list \<Rightarrow> history_cell_t list \<times> bool" where
  "historydb_walk expirytime k isdead pb [] = ([], False)"
| "historydb_walk expirytime k isdead pb (cp # cps) =
     (let (rest, found) = historydb_walk expirytime k isdead pb cps
      in if hc_arrivaltime cp < expirytime then (rest, found)
         else if hc_hash1 cp = keyhash k 0 \<and> hc_key cp = k then
           (if isdead then (rest, found) else (hc_fill pb cp # rest, True))
         else (cp # rest, found))"

text \<open>\<open>alloc_ok\<close>: whether \<^verbatim>\<open>cellmalloc\<close> finds room.\<close>

definition historydb_insert ::
    "bool \<Rightarrow> ctime \<Rightarrow> int \<Rightarrow> pbuf_t \<Rightarrow> history_cell_t table \<Rightarrow> int \<times> history_cell_t table" where
  "historydb_insert alloc_ok tick storetime pb db =
     (if \<not> has_flag (pb_flags pb) F_HASPOS then (-1, db)
      else
        case historydb_key pb of
          None \<Rightarrow> (-1, db)
        | Some (k, isdead) \<Rightarrow>
            let i = historydb_bucket (keyhash k 0);
                (chain, found) = historydb_walk (tick - storetime) k isdead pb (db i)
            in if \<not> found \<and> \<not> isdead \<and> alloc_ok then (1, db(i := chain @ [hc_new k pb]))
               else (1, db(i := chain)))"

definition historydb_lookup ::
    "ctime \<Rightarrow> int \<Rightarrow> string \<Rightarrow> history_cell_t table \<Rightarrow> history_cell_t option" where
  "historydb_lookup tick storetime k db =
     (let validitytime = tick - storetime + 5 * 60; h1 = keyhash k 0
      in find (\<lambda>cp. hc_hash1 cp = h1 \<and> hc_key cp = k \<and> validitytime < hc_arrivaltime cp)
           (db (historydb_bucket h1)))"

definition historydb_cleanup :: "ctime \<Rightarrow> int \<Rightarrow> history_cell_t table \<Rightarrow> history_cell_t table" where
  "historydb_cleanup tick storetime db =
     (\<lambda>i. if i < HISTORYDB_HASH_MODULO
          then filter (\<lambda>cp. \<not> hc_arrivaltime cp < tick - storetime) (db i) else db i)"

text \<open>The dump of a live upgrade, as the list of its records, and the load of one: too old ones are
  skipped, others go to the head of their chain.\<close>

definition historydb_dump :: "ctime \<Rightarrow> int \<Rightarrow> history_cell_t table \<Rightarrow> history_cell_t list" where
  "historydb_dump tick storetime db =
     map (\<lambda>hp. hp\<lparr>hc_key := take CALLSIGNLEN_MAX (hc_key hp)\<rparr>)
       (filter (\<lambda>hp. tick - storetime < hc_arrivaltime hp) (entries HISTORYDB_HASH_MODULO db))"

definition historydb_load_entry ::
    "ctime \<Rightarrow> int \<Rightarrow> history_cell_t \<Rightarrow> history_cell_t table \<Rightarrow> history_cell_t table" where
  "historydb_load_entry tick storetime j db =
     (if hc_arrivaltime j < tick - storetime then db
      else
        let h1 = keyhash (hc_key j) 0;
            i = historydb_bucket h1;
            cp = j\<lparr>hc_hash1 := h1, hc_coslat := cos (hc_lat j)\<rparr>
        in db(i := cp # db i))"

fun historydb_load ::
    "ctime \<Rightarrow> int \<Rightarrow> history_cell_t list \<Rightarrow> history_cell_t table \<Rightarrow> history_cell_t table" where
  "historydb_load tick storetime [] db = db"
| "historydb_load tick storetime (j # js) db =
     historydb_load tick storetime js (historydb_load_entry tick storetime j db)"

text \<open>\<^verbatim>\<open>filter_postprocess_dupefilter\<close> of \<^verbatim>\<open>filter.c\<close>: a packet without a position gets the last known one
  of its source.\<close>

definition filter_postprocess_dupefilter ::
    "ctime \<Rightarrow> int \<Rightarrow> history_cell_t table \<Rightarrow> pbuf_t \<Rightarrow> pbuf_t" where
  "filter_postprocess_dupefilter tick storetime db pb =
     (if has_flag (pb_flags pb) F_HASPOS then pb
      else
        case historydb_lookup tick storetime (pb_srcname pb) db of
          None \<Rightarrow> pb
        | Some hist \<Rightarrow>
            pb\<lparr>pb_lat := hc_lat hist, pb_lng := hc_lon hist, pb_cos_lat := hc_coslat hist,
               pb_flags := pb_flags pb OR F_HASPOS\<rparr>)"

section \<open>The table as a map\<close>

interpretation hist: keyed_table HISTORYDB_HASH_MODULO hc_hash1 historydb_bucket hc_key "\<lambda>k. keyhash k 0"
  by unfold_locales (simp add: historydb_bucket_def HISTORYDB_HASH_MODULO_def)

lemma find_distinct:
  "distinct (map f xs) \<Longrightarrow> (\<And>x. P x \<Longrightarrow> f x = n) \<Longrightarrow> find P xs = Some e \<longleftrightarrow> e \<in> set xs \<and> P e"
  by (induction xs) auto

lemma historydb_lookup_map:
  assumes "hist.table_ok db"
  shows "historydb_lookup tick storetime k db =
    (case hist.lookup db k of
       None \<Rightarrow> None
     | Some e \<Rightarrow> if tick - storetime + 5 * 60 < hc_arrivaltime e then Some e else None)"
proof (rule option_eqI)
  fix x
  have dist: "distinct (map hc_key (db (historydb_bucket (keyhash k 0))))"
    using assms by (simp add: hist.table_ok_def)
  have "historydb_lookup tick storetime k db = Some x \<longleftrightarrow>
      x \<in> set (db (historydb_bucket (keyhash k 0))) \<and>
      hc_hash1 x = keyhash k 0 \<and> hc_key x = k \<and> tick - storetime + 5 * 60 < hc_arrivaltime x"
    unfolding historydb_lookup_def Let_def by (rule find_distinct [OF dist]) simp
  also have "\<dots> \<longleftrightarrow> hist.lookup db k = Some x \<and> tick - storetime + 5 * 60 < hc_arrivaltime x"
    using assms hist.lookup_Some_bucket [OF assms] by (auto simp: hist.table_ok_def)
  finally show "historydb_lookup tick storetime k db = Some x \<longleftrightarrow>
      (case hist.lookup db k of None \<Rightarrow> None
       | Some e \<Rightarrow> if tick - storetime + 5 * 60 < hc_arrivaltime e then Some e else None) = Some x"
    by (auto split: option.split)
qed

lemma hc_fill_key [simp]:
  "hc_key (hc_fill pb cp) = hc_key cp" "hc_hash1 (hc_fill pb cp) = hc_hash1 cp"
  "hc_arrivaltime (hc_fill pb cp) = pb_t pb"
  by (simp_all add: hc_fill_def)

lemma hc_fill_new: "hc_key cp = k \<Longrightarrow> hc_hash1 cp = keyhash k 0 \<Longrightarrow> hc_fill pb cp = hc_new k pb"
  by (simp add: hc_fill_def hc_new_def)

lemma historydb_walk_eq:
  assumes "\<forall>cp \<in> set cps. hc_hash1 cp = keyhash (hc_key cp) 0"
  shows "historydb_walk e k dead pb cps =
    (map (\<lambda>cp. if hc_key cp = k then hc_new k pb else cp)
       (filter (\<lambda>cp. \<not> hc_arrivaltime cp < e \<and> \<not> (dead \<and> hc_key cp = k)) cps),
     \<not> dead \<and> (\<exists>cp \<in> set cps. \<not> hc_arrivaltime cp < e \<and> hc_key cp = k))"
  using assms by (induction cps) (auto simp: Let_def hc_fill_new)

text \<open>The chain after an insertion, and what is found in it.\<close>

definition historydb_chain :: "ctime \<Rightarrow> string \<Rightarrow> bool \<Rightarrow> pbuf_t \<Rightarrow> history_cell_t list \<Rightarrow> history_cell_t list" where
  "historydb_chain e k dead pb cps =
     (let (chain, found) = historydb_walk e k dead pb cps
      in if \<not> found \<and> \<not> dead then chain @ [hc_new k pb] else chain)"

lemma hc_new_sel [simp]:
  "hc_key (hc_new k pb) = k" "hc_hash1 (hc_new k pb) = keyhash k 0" "hc_arrivaltime (hc_new k pb) = pb_t pb"
  by (simp_all add: hc_new_def)

lemma historydb_chain_props:
  assumes hash: "\<forall>cp \<in> set cps. hc_hash1 cp = keyhash (hc_key cp) 0" and dist: "distinct (map hc_key cps)"
  shows "distinct (map hc_key (historydb_chain e k dead pb cps))"
    and "cp \<in> set (historydb_chain e k dead pb cps) \<longleftrightarrow>
      (if hc_key cp = k then \<not> dead \<and> cp = hc_new k pb else cp \<in> set cps \<and> \<not> hc_arrivaltime cp < e)"
proof -
  let ?keep = "filter (\<lambda>cp. \<not> hc_arrivaltime cp < e \<and> \<not> (dead \<and> hc_key cp = k)) cps"
  let ?upd = "\<lambda>cp. if hc_key cp = k then hc_new k pb else cp"
  have keys: "map hc_key (map ?upd ?keep) = map hc_key ?keep" by (auto simp: comp_def)
  have dk: "distinct (map hc_key ?keep)" using dist by (simp add: distinct_map_filter)
  show "distinct (map hc_key (historydb_chain e k dead pb cps))"
    unfolding historydb_chain_def historydb_walk_eq [OF hash] Let_def prod.case
    using dk keys by (auto simp del: map_map)
  show "cp \<in> set (historydb_chain e k dead pb cps) \<longleftrightarrow>
      (if hc_key cp = k then \<not> dead \<and> cp = hc_new k pb else cp \<in> set cps \<and> \<not> hc_arrivaltime cp < e)"
    unfolding historydb_chain_def historydb_walk_eq [OF hash] Let_def prod.case
    by (auto split: if_splits)
qed

lemma historydb_insert_chain:
  assumes "has_flag (pb_flags pb) F_HASPOS" and "historydb_key pb = Some (k, dead)"
  shows "historydb_insert True tick storetime pb db =
    (1, db(historydb_bucket (keyhash k 0) :=
             historydb_chain (tick - storetime) k dead pb (db (historydb_bucket (keyhash k 0)))))"
  using assms by (auto simp: historydb_insert_def historydb_chain_def Let_def split: prod.split)

text \<open>An object packet, for the concrete runs.\<close>

definition demo_object :: pbuf_t where
  "demo_object = (pbuf_zero 1 PACKETLEN_MAX_SMALL)
     \<lparr>pb_packettype := T_OBJECT OR T_POSITION, pb_flags := F_HASPOS, pb_t := 1000, pb_info_start := 12,
      pb_data := ''OH7LZB>APRS:;LEADER   *092345z4903.50N/07201.75W>''\<rparr>"

definition demo_third_party :: pbuf_t where
  "demo_third_party = (pbuf_zero 1 PACKETLEN_MAX_SMALL)
     \<lparr>pb_packettype := T_3RDPARTY OR T_POSITION,
      pb_data := ''OH2GW>APRS:}OH7LZB>APRS,TCPIP,OH2GW*:!6028.51N/02505.68E#''\<rparr>"

lemma demo_object_name:
  "take 10 (drop (pb_info_start demo_object + 1) (pb_data demo_object)) = ''LEADER   *''"
  by (simp add: demo_object_def)

lemma demo_object_key:
  "has_flag (pb_packettype demo_object) T_OBJECT" "has_flag (pb_flags demo_object) F_HASPOS"
  "historydb_key demo_object = Some (''LEADER   '', False)" "pb_t demo_object = 1000" "hist.table_ok (\<lambda>_. [])"
  by (simp_all add: demo_object_def historydb_key_def has_flag_def ptype_defs pflag_defs len_defs
      marked_name_def cstr_def hist.table_ok_empty)

section \<open>Properties\<close>

text \<open>C35. Storing a position. The table stays a map, and for every name the answer is as before, but
  for the one stored: it is the new position, or nothing once the object is killed. Dropping
  old cells on the way changes no answer.\<close>

theorem historydb_insert_lookup:
  assumes "hist.table_ok db" and "has_flag (pb_flags pb) F_HASPOS" and "historydb_key pb = Some (k, dead)"
    and "tick - storetime + 5 * 60 < pb_t pb"
    and "historydb_insert True tick storetime pb db = (rc, db')"
  shows "hist.table_ok db' \<and> rc = 1 \<and>
    historydb_lookup tick storetime n db' =
      (if n \<noteq> k then historydb_lookup tick storetime n db
       else if dead then None else Some (hc_new k pb))"
proof -
  let ?i = "historydb_bucket (keyhash k 0)"
  let ?c = "historydb_chain (tick - storetime) k dead pb (db ?i)"
  have db': "db' = db(?i := ?c)" "rc = 1" using assms(5) historydb_insert_chain [OF assms(2,3)] by auto
  have hash: "\<forall>cp \<in> set (db ?i). hc_hash1 cp = keyhash (hc_key cp) 0" and dist: "distinct (map hc_key (db ?i))"
    using assms(1) by (auto simp: hist.table_ok_def)
  note C = historydb_chain_props [OF hash dist, where e = "tick - storetime" and k = k and dead = dead and pb = pb]
  have ok: "hist.table_ok db'"
    unfolding db'
  proof (rule hist.table_ok_chain [OF assms(1) C(1)])
    fix e assume "e \<in> set ?c"
    then have "e = hc_new k pb \<and> hc_key e = k \<or> e \<in> set (db ?i)" unfolding C(2) by (auto split: if_splits)
    then show "hc_hash1 e = keyhash (hc_key e) 0 \<and> historydb_bucket (keyhash (hc_key e) 0) = ?i"
      using hash hist.table_ok_bucket [OF assms(1), of e ?i] by auto
  qed
  have "historydb_lookup tick storetime n db' = Some x \<longleftrightarrow>
      (if n \<noteq> k then historydb_lookup tick storetime n db
       else if dead then None else Some (hc_new k pb)) = Some x" for x
  proof -
    have L: "historydb_lookup tick storetime n d = Some x \<longleftrightarrow>
        x \<in> set (d (historydb_bucket (keyhash n 0))) \<and> hc_key x = n \<and> tick - storetime + 5 * 60 < hc_arrivaltime x"
      if "hist.table_ok d" for d
      using historydb_lookup_map [OF that, of tick storetime n] hist.lookup_Some_bucket [OF that, of n x]
      by (auto split: option.splits if_splits)
    show ?thesis
    proof (cases "historydb_bucket (keyhash n 0) = ?i")
      case True
      then show ?thesis unfolding L [OF ok] using L [OF assms(1)] C(2) [where cp = x] assms(4) by (auto simp: db') (metis hc_new_sel(3))+
    next
      case False
      then have "n \<noteq> k" by auto
      with False show ?thesis unfolding L [OF ok] using L [OF assms(1)] by (simp add: db')
    qed
  qed
  then show ?thesis using ok db'(2) by (intro conjI option_eqI) auto
qed

theorem historydb_insert_lookup_witness:
  "hist.table_ok (snd (historydb_insert True 1000 86400 demo_object (\<lambda>_. []))) \<and>
   historydb_lookup 1000 86400 ''LEADER   '' (snd (historydb_insert True 1000 86400 demo_object (\<lambda>_. []))) =
     Some (hc_new ''LEADER   '' demo_object)"
  using historydb_insert_lookup [of "\<lambda>_. []" demo_object "''LEADER   ''" False 1000 86400 _ _ "''LEADER   ''"]
    demo_object_key by (cases "historydb_insert True 1000 86400 demo_object (\<lambda>_. [])") auto

text \<open>The cleaning thread never changes an answer: what it throws out was not found any more.\<close>

theorem historydb_cleanup_invisible:
  assumes "hist.table_ok db"
  shows "hist.table_ok (historydb_cleanup tick storetime db) \<and>
    historydb_lookup tick storetime n (historydb_cleanup tick storetime db) = historydb_lookup tick storetime n db"
proof -
  let ?P = "\<lambda>cp. \<not> hc_arrivaltime cp < tick - storetime"
  have ok: "hist.table_ok (historydb_cleanup tick storetime db)"
    using assms by (rule hist.table_ok_subset)
      (use assms in \<open>auto simp: historydb_cleanup_def hist.table_ok_def distinct_map_filter\<close>)
  have "hist.lookup (historydb_cleanup tick storetime db) n = hist.lookup (\<lambda>i. filter ?P (db i)) n"
    using hist.bkt_less by (simp add: hist.lookup_def historydb_cleanup_def)
  then show ?thesis
    using ok unfolding historydb_lookup_map [OF ok] historydb_lookup_map [OF assms]
    by (auto simp: hist.lookup_filter [OF assms] split: option.split)
qed

theorem historydb_cleanup_invisible_witness:
  "historydb_lookup 1000 86400 ''LEADER'' (historydb_cleanup 1000 86400 (\<lambda>_. [])) =
     historydb_lookup 1000 86400 ''LEADER'' (\<lambda>_. [])"
  using historydb_cleanup_invisible [OF hist.table_ok_empty] by blast

text \<open>An object whose name is shorter than nine characters is stored under its name with the
  padding spaces, since the loop that should strip them does nothing; looking the name up as
  the parser delivers it finds nothing.\<close>

theorem historydb_object_padding:
  assumes "has_flag (pb_packettype pb) T_OBJECT" and "has_flag (pb_flags pb) F_HASPOS"
    and "take 10 (drop (pb_info_start pb + 1) (pb_data pb)) = ''LEADER   *''"
    and "historydb_insert True tick storetime pb (\<lambda>_. []) = (rc, db)"
    and "tick - storetime + 5 * 60 < pb_t pb"
  shows "historydb_lookup tick storetime ''LEADER'' db = None \<and>
    historydb_lookup tick storetime ''LEADER   '' db = Some (hc_new ''LEADER   '' pb)"
proof -
  have key: "historydb_key pb = Some (''LEADER   '', False)"
    using assms(1,3) by (simp add: historydb_key_def len_defs marked_name_def cstr_def)
  have db: "db = (\<lambda>_. [])(historydb_bucket (keyhash ''LEADER   '' 0) := [hc_new ''LEADER   '' pb])"
    using historydb_insert_chain [OF assms(2) key, of tick storetime "\<lambda>_. []"] assms(4)
    by (simp add: historydb_chain_def)
  show ?thesis using assms(5) by (simp add: historydb_lookup_def db Let_def)
qed

theorem historydb_object_padding_witness:
  "historydb_lookup 1000 86400 ''LEADER'' (snd (historydb_insert True 1000 86400 demo_object (\<lambda>_. []))) = None"
  using historydb_object_padding [of demo_object 1000 86400] demo_object_key demo_object_name
  by (cases "historydb_insert True 1000 86400 demo_object (\<lambda>_. [])") auto

text \<open>A third-party position is stored under the name of the gateway that sent it: the key is
  always the outer source callsign, although the parsed position and the source name are those of
  the inner packet.\<close>

theorem historydb_third_party_key:
  assumes "has_flag (pb_packettype pb) T_3RDPARTY" and "has_flag (pb_packettype pb) T_POSITION"
    and "\<not> has_flag (pb_packettype pb) T_OBJECT" and "\<not> has_flag (pb_packettype pb) T_ITEM"
    and "pb_data pb = gateway @ CHR ''>'' # rest" and "\<forall>c \<in> set gateway. isalnum c \<or> c = CHR ''-''"
    and "length gateway \<le> CALLSIGNLEN_MAX"
  shows "historydb_key pb = Some (gateway, False)"
proof -
  have no: "\<forall>c \<in> set gateway. c \<noteq> NUL \<and> c \<noteq> CHR ''>''"
  proof
    fix c assume "c \<in> set gateway"
    with assms(6) consider "isalnum c" | "c = CHR ''-''" by blast
    then show "c \<noteq> NUL \<and> c \<noteq> CHR ''>''" by cases auto
  qed
  have "takeWhile (\<lambda>c. c \<noteq> CHR ''>'') (cstr (take CALLSIGNLEN_MAX (gateway @ CHR ''>'' # rest))) = gateway"
  proof (cases "length gateway = CALLSIGNLEN_MAX")
    case True
    then show ?thesis using no by (simp add: cstr_def takeWhile_eq_all_conv [THEN iffD2])
  next
    case False
    then have "take CALLSIGNLEN_MAX (gateway @ CHR ''>'' # rest) =
        gateway @ CHR ''>'' # take (CALLSIGNLEN_MAX - length gateway - 1) rest"
      using assms(7) by (simp add: take_Cons')
    then show ?thesis using no by (simp add: cstr_def)
  qed
  then show ?thesis using assms(2-5) by (simp add: historydb_key_def)
qed

theorem historydb_third_party_key_witness: "historydb_key demo_third_party = Some (''OH2GW'', False)"
  by (rule historydb_third_party_key
        [where rest = "''APRS:}OH7LZB>APRS,TCPIP,OH2GW*:!6028.51N/02505.68E#''"])
    (simp_all add: demo_third_party_def has_flag_def ptype_defs len_defs byte_eval)

section \<open>The dump of a live upgrade\<close>

lemma historydb_lookup_Some:
  "hist.table_ok db \<Longrightarrow> historydb_lookup tick storetime k db = Some e \<longleftrightarrow>
     hist.lookup db k = Some e \<and> tick - storetime + 5 * 60 < hc_arrivaltime e"
  by (auto simp: historydb_lookup_map split: option.splits)

lemma historydb_load_laws:
  assumes "hist.table_ok db" and "distinct (map hc_key js)" and "\<forall>j \<in> set js. hist.lookup db (hc_key j) = None"
  shows "hist.table_ok (historydb_load tick st js db) \<and>
    hist.lookup (historydb_load tick st js db) n =
      (case find (\<lambda>j. hc_key j = n \<and> \<not> hc_arrivaltime j < tick - st) js of
         Some j \<Rightarrow> Some (j\<lparr>hc_hash1 := keyhash (hc_key j) 0, hc_coslat := cos (hc_lat j)\<rparr>)
       | None \<Rightarrow> hist.lookup db n)"
  using assms
proof (induction js arbitrary: db)
  case (Cons j js)
  let ?cp = "j\<lparr>hc_hash1 := keyhash (hc_key j) 0, hc_coslat := cos (hc_lat j)\<rparr>"
  let ?i = "historydb_bucket (keyhash (hc_key ?cp) 0)"
  let ?db = "historydb_load_entry tick st j db"
  have entry: "?db = (if hc_arrivaltime j < tick - st then db else db(?i := ?cp # db ?i))"
    by (simp add: historydb_load_entry_def Let_def)
  have look: "hist.lookup ?db m = (if m = hc_key j \<and> \<not> hc_arrivaltime j < tick - st then Some ?cp else hist.lookup db m)" for m
    unfolding entry using hist.lookup_insert [OF refl, of db ?cp m] by auto
  have ok: "hist.table_ok ?db"
    unfolding entry using Cons.prems hist.table_ok_insert [of db ?cp ?i] by auto
  have "\<forall>j' \<in> set js. hist.lookup ?db (hc_key j') = None" using Cons.prems(2,3) by (auto simp: look) (metis image_eqI)
  note IH = Cons.IH [OF ok _ this]
  have none: "find (\<lambda>j'. hc_key j' = hc_key j \<and> \<not> hc_arrivaltime j' < tick - st) js = None"
    using Cons.prems by (auto simp: find_None_iff image_iff)
  show ?case using IH Cons.prems none by (auto simp: look split: option.split)
qed simp



end
