(* ===== verification/Pbuf_Pool.thy ===== *)
theory Pbuf_Pool
  imports Worker_Types Cellmalloc "HOL-Library.Multiset"
begin

text \<open>
  The packet buffer pools of \<^verbatim>\<open>src/src/incoming.c\<close>: three size classes, each with a global arena
  and a free list local to every worker. A worker takes buffers in bunches from the arena
  and returns single ones to its own list; whoever has no worker returns them to the arena.
\<close>

definition PBUF_ALLOCATE_BUNCH_SMALL :: nat where "PBUF_ALLOCATE_BUNCH_SMALL = 2000"
definition PBUF_ALLOCATE_BUNCH_MEDIUM :: nat where "PBUF_ALLOCATE_BUNCH_MEDIUM = 2000"
definition PBUF_ALLOCATE_BUNCH_LARGE :: nat where "PBUF_ALLOCATE_BUNCH_LARGE = 50"

record pbuf_arenas =
  pbuf_cells_small :: cellarena_t
  pbuf_cells_medium :: cellarena_t
  pbuf_cells_large :: cellarena_t

text \<open>\<^verbatim>\<open>pbuf_init\<close>; \<open>hdr\<close> and \<open>algn\<close> are the size and the alignment of \<^verbatim>\<open>struct pbuf_t\<close>.\<close>

definition pbuf_cells_kb :: nat where "pbuf_cells_kb = 2048"

definition pbuf_init :: "mmap \<Rightarrow> nat \<Rightarrow> nat \<Rightarrow> pbuf_arenas option" where
  "pbuf_init mm hdr algn =
     Option.bind (cellinit mm (hdr + PACKETLEN_MAX_SMALL) algn CELLMALLOC_POLICY_FIFO pbuf_cells_kb 0)
       (\<lambda>s. Option.bind (cellinit mm (hdr + PACKETLEN_MAX_MEDIUM) algn CELLMALLOC_POLICY_FIFO pbuf_cells_kb 0)
         (\<lambda>m. Option.bind (cellinit mm (hdr + PACKETLEN_MAX_LARGE) algn CELLMALLOC_POLICY_FIFO pbuf_cells_kb 0)
           (\<lambda>l. Some \<lparr>pbuf_cells_small = s, pbuf_cells_medium = m, pbuf_cells_large = l\<rparr>)))"

text \<open>One size class of \<^verbatim>\<open>pbuf_get\<close>: the local list, or a bunch from the arena whose first cell is
  returned and whose others go to the local list, the last on top.\<close>

definition pbuf_get_class ::
    "mmap \<Rightarrow> nat \<Rightarrow> nat \<Rightarrow> pbuf_t list \<Rightarrow> cellarena_t \<Rightarrow> (pbuf_t option \<times> pbuf_t list \<times> cellarena_t) option" where
  "pbuf_get_class mm len bunchlen pool ca =
     (case pool of
        pb # rest \<Rightarrow> Some (Some (pbuf_zero (pb_addr pb) len), rest, ca)
      | [] \<Rightarrow>
          (case cellmallocmany mm bunchlen ca of
             None \<Rightarrow> None
           | Some ([], ca') \<Rightarrow> Some (None, [], ca')
           | Some (a # as, ca') \<Rightarrow>
               Some (Some (pbuf_zero a len), rev (map (\<lambda>b. pbuf_zero b len) as), ca')))"

definition pbuf_get ::
    "mmap \<Rightarrow> nat \<Rightarrow> worker_t \<Rightarrow> pbuf_arenas \<Rightarrow> (pbuf_t option \<times> worker_t \<times> pbuf_arenas) option" where
  "pbuf_get mm len w g =
     (if len \<le> PACKETLEN_MAX_SMALL then
        map_option (\<lambda>(r, pool, ca). (r, w\<lparr>w_pbuf_free_small := pool\<rparr>, g\<lparr>pbuf_cells_small := ca\<rparr>))
          (pbuf_get_class mm PACKETLEN_MAX_SMALL PBUF_ALLOCATE_BUNCH_SMALL
             (w_pbuf_free_small w) (pbuf_cells_small g))
      else if len \<le> PACKETLEN_MAX_MEDIUM then
        map_option (\<lambda>(r, pool, ca). (r, w\<lparr>w_pbuf_free_medium := pool\<rparr>, g\<lparr>pbuf_cells_medium := ca\<rparr>))
          (pbuf_get_class mm PACKETLEN_MAX_MEDIUM PBUF_ALLOCATE_BUNCH_MEDIUM
             (w_pbuf_free_medium w) (pbuf_cells_medium g))
      else if len \<le> PACKETLEN_MAX_LARGE then
        map_option (\<lambda>(r, pool, ca). (r, w\<lparr>w_pbuf_free_large := pool\<rparr>, g\<lparr>pbuf_cells_large := ca\<rparr>))
          (pbuf_get_class mm PACKETLEN_MAX_LARGE PBUF_ALLOCATE_BUNCH_LARGE
             (w_pbuf_free_large w) (pbuf_cells_large g))
      else Some (None, w, g))"

text \<open>\<^verbatim>\<open>pbuf_free(self, p)\<close> with a worker, and with NULL in its place.\<close>

definition pbuf_free :: "worker_t \<Rightarrow> pbuf_t \<Rightarrow> worker_t" where
  "pbuf_free w p =
     (if pb_buf_len p = PACKETLEN_MAX_SMALL then w\<lparr>w_pbuf_free_small := p # w_pbuf_free_small w\<rparr>
      else if pb_buf_len p = PACKETLEN_MAX_MEDIUM then w\<lparr>w_pbuf_free_medium := p # w_pbuf_free_medium w\<rparr>
      else if pb_buf_len p = PACKETLEN_MAX_LARGE then w\<lparr>w_pbuf_free_large := p # w_pbuf_free_large w\<rparr>
      else w)"

definition pbuf_free_global :: "pbuf_arenas \<Rightarrow> pbuf_t \<Rightarrow> pbuf_arenas" where
  "pbuf_free_global g p =
     (if pb_buf_len p = PACKETLEN_MAX_SMALL then g\<lparr>pbuf_cells_small := cellfree (pbuf_cells_small g) (pb_addr p)\<rparr>
      else if pb_buf_len p = PACKETLEN_MAX_MEDIUM then g\<lparr>pbuf_cells_medium := cellfree (pbuf_cells_medium g) (pb_addr p)\<rparr>
      else if pb_buf_len p = PACKETLEN_MAX_LARGE then g\<lparr>pbuf_cells_large := cellfree (pbuf_cells_large g) (pb_addr p)\<rparr>
      else g)"

text \<open>The addresses of one class in an array of buffers: \<^verbatim>\<open>arraysmall\<close> and its siblings.\<close>

definition pbuf_class :: "nat \<Rightarrow> pbuf_t list \<Rightarrow> nat list" where
  "pbuf_class len ps = map pb_addr (filter (\<lambda>p. pb_buf_len p = len) ps)"

definition pbuf_free_many :: "pbuf_t list \<Rightarrow> pbuf_arenas \<Rightarrow> pbuf_arenas" where
  "pbuf_free_many ps g =
     \<lparr>pbuf_cells_small = cellfreemany (pbuf_cells_small g) (pbuf_class PACKETLEN_MAX_SMALL ps),
      pbuf_cells_medium = cellfreemany (pbuf_cells_medium g) (pbuf_class PACKETLEN_MAX_MEDIUM ps),
      pbuf_cells_large = cellfreemany (pbuf_cells_large g) (pbuf_class PACKETLEN_MAX_LARGE ps)\<rparr>"

text \<open>\<^verbatim>\<open>incoming_flush\<close>; \<open>got_lock\<close> is the outcome of \<^verbatim>\<open>pthread_mutex_trylock\<close>.\<close>

definition incoming_flush :: "bool \<Rightarrow> worker_t \<Rightarrow> worker_t" where
  "incoming_flush got_lock w =
     (if got_lock then
        w\<lparr>w_pbuf_incoming := w_pbuf_incoming w @ w_pbuf_incoming_local w,
          w_pbuf_incoming_count := w_pbuf_incoming_count w + w_pbuf_incoming_local_count w,
          w_pbuf_incoming_local := [], w_pbuf_incoming_local_count := 0\<rparr>
      else w)"

section \<open>Ownership\<close>

text \<open>Where the buffers of one class are: the cells the arena handed out are the free ones of
  the worker and the ones in use, each once. Buffers on other workers' lists count as in use.\<close>

definition class_inv :: "mmap \<Rightarrow> nat \<Rightarrow> pbuf_t list \<Rightarrow> cellarena_t \<Rightarrow> pbuf_t list \<Rightarrow> bool" where
  "class_inv mm len pool ca used \<longleftrightarrow>
     (\<forall>p \<in> set pool. pb_buf_len p = len) \<and>
     arena_holds mm ca (map pb_addr pool @ pbuf_class len used)"

definition pool_inv :: "mmap \<Rightarrow> worker_t \<times> pbuf_arenas \<Rightarrow> pbuf_t list \<Rightarrow> bool" where
  "pool_inv mm wg used \<longleftrightarrow>
     class_inv mm PACKETLEN_MAX_SMALL (w_pbuf_free_small (fst wg)) (pbuf_cells_small (snd wg)) used \<and>
     class_inv mm PACKETLEN_MAX_MEDIUM (w_pbuf_free_medium (fst wg)) (pbuf_cells_medium (snd wg)) used \<and>
     class_inv mm PACKETLEN_MAX_LARGE (w_pbuf_free_large (fst wg)) (pbuf_cells_large (snd wg)) used \<and>
     (\<forall>p \<in> set used. pb_buf_len p \<in> {PACKETLEN_MAX_SMALL, PACKETLEN_MAX_MEDIUM, PACKETLEN_MAX_LARGE})"

lemma arena_holds_perm:
  assumes "mset xs = mset ys"
  shows "arena_holds mm ca xs \<longleftrightarrow> arena_holds mm ca ys"
proof -
  have "set xs = set ys" using assms by (rule mset_eq_setD)
  moreover have "distinct xs = distinct ys" using assms by (rule mset_eq_imp_distinct_iff)
  ultimately show ?thesis by (simp add: arena_holds_def arena_inv_def)
qed

lemma pbuf_class_simps [simp]:
  "pbuf_class len [] = []"
  "pbuf_class len (p # ps) = (if pb_buf_len p = len then pb_addr p # pbuf_class len ps else pbuf_class len ps)"
  by (simp_all add: pbuf_class_def)

lemma pbuf_zero_simps [simp]: "pb_addr (pbuf_zero a len) = a" "pb_buf_len (pbuf_zero a len) = len"
  by (simp_all add: pbuf_zero_def)

lemma class_inv_other: "pb_buf_len p \<noteq> len \<Longrightarrow> class_inv mm len pool ca (p # used) = class_inv mm len pool ca used"
  by (simp add: class_inv_def)

lemma map_addr_zero [simp]: "map (pb_addr \<circ> (\<lambda>b. pbuf_zero b len)) as = as"
  by (simp add: comp_def)

lemma pbuf_get_class_inv:
  assumes "class_inv mm len pool ca used"
  shows "\<exists>r pool' ca'. pbuf_get_class mm len n pool ca = Some (r, pool', ca') \<and>
    (case r of None \<Rightarrow> class_inv mm len pool' ca' used
     | Some pb \<Rightarrow> pb_buf_len pb = len \<and> class_inv mm len pool' ca' (pb # used))"
proof (cases pool)
  case Nil
  obtain free where inv: "arena_inv ca free (pbuf_class len used)" and fresh: "mmap_fresh mm"
    using assms Nil by (auto simp: class_inv_def arena_holds_def)
  obtain cs ca' free' where C: "cellmallocmany mm n ca = Some (cs, ca')"
    "arena_inv ca' free' (rev cs @ pbuf_class len used)"
    using cellmallocmany_inv [OF inv fresh] by blast
  then have H: "arena_holds mm ca' (rev cs @ pbuf_class len used)"
    using fresh by (auto simp: arena_holds_def)
  show ?thesis
  proof (cases cs)
    case (Cons a as)
    have "arena_holds mm ca' (rev as @ a # pbuf_class len used)" using H Cons by simp
    then show ?thesis using C(1) Nil Cons
      by (simp add: pbuf_get_class_def class_inv_def rev_map [symmetric])
  qed (use C(1) Nil H in \<open>simp add: pbuf_get_class_def class_inv_def\<close>)
next
  case (Cons pb rest)
  have "arena_holds mm ca (map pb_addr rest @ pb_addr pb # pbuf_class len used) =
      arena_holds mm ca (map pb_addr pool @ pbuf_class len used)"
    using Cons by (intro arena_holds_perm) simp
  with assms Cons show ?thesis by (simp add: pbuf_get_class_def class_inv_def)
qed

lemma class_inv_free:
  assumes "class_inv mm len pool ca used" and "p \<in> set used" and "pb_buf_len p = len"
  shows "class_inv mm len (p # pool) ca (remove1 p used)"
proof -
  have "mset (pbuf_class len used) = add_mset (pb_addr p) (mset (pbuf_class len (remove1 p used)))"
    using assms(2,3) by (induction used) auto
  then have "mset (map pb_addr (p # pool) @ pbuf_class len (remove1 p used)) =
      mset (map pb_addr pool @ pbuf_class len used)" by simp
  from arena_holds_perm [OF this] show ?thesis using assms by (simp add: class_inv_def)
qed

lemma class_inv_remove_other:
  "pb_buf_len p \<noteq> len \<Longrightarrow> class_inv mm len pool ca (remove1 p used) = class_inv mm len pool ca used"
proof -
  assume "pb_buf_len p \<noteq> len"
  then have "pbuf_class len (remove1 p used) = pbuf_class len used" by (induction used) auto
  then show ?thesis by (simp add: class_inv_def)
qed

lemma class_inv_distinct:
  assumes "class_inv mm len pool ca used"
  shows "distinct (pbuf_class len used)"
  using assms by (auto simp: class_inv_def dest: arena.holds_distinct)

text \<open>Distinct cells in every class make distinct buffers.\<close>

lemma distinct_used:
  assumes "\<And>len. len \<in> L \<Longrightarrow> distinct (pbuf_class len used)" and "\<forall>p \<in> set used. pb_buf_len p \<in> L"
  shows "distinct used"
  using assms
proof (induction used)
  case (Cons p used)
  have "distinct (pbuf_class len used)" if "len \<in> L" for len
    using Cons.prems(1) [OF that] by (auto split: if_splits)
  then have "distinct used" using Cons by simp
  moreover have "p \<notin> set used"
    using Cons.prems(1) [of "pb_buf_len p"] Cons.prems(2) by (auto simp: pbuf_class_def)
  ultimately show ?case by simp
qed simp

lemmas class_lens = PACKETLEN_MAX_SMALL_def PACKETLEN_MAX_MEDIUM_def PACKETLEN_MAX_LARGE_def PACKETLEN_MAX_def

lemma pbuf_get_inv:
  assumes "pool_inv mm (w, g) used"
  shows "\<exists>r w' g'. pbuf_get mm len w g = Some (r, w', g') \<and>
    (case r of None \<Rightarrow> pool_inv mm (w', g') used
     | Some pb \<Rightarrow> len \<le> pb_buf_len pb \<and> pool_inv mm (w', g') (pb # used))"
proof -
  note S = pbuf_get_class_inv [of mm PACKETLEN_MAX_SMALL "w_pbuf_free_small w" "pbuf_cells_small g" used PBUF_ALLOCATE_BUNCH_SMALL]
  note M = pbuf_get_class_inv [of mm PACKETLEN_MAX_MEDIUM "w_pbuf_free_medium w" "pbuf_cells_medium g" used PBUF_ALLOCATE_BUNCH_MEDIUM]
  note L = pbuf_get_class_inv [of mm PACKETLEN_MAX_LARGE "w_pbuf_free_large w" "pbuf_cells_large g" used PBUF_ALLOCATE_BUNCH_LARGE]
  consider "len \<le> PACKETLEN_MAX_SMALL" | "\<not> len \<le> PACKETLEN_MAX_SMALL" "len \<le> PACKETLEN_MAX_MEDIUM"
    | "\<not> len \<le> PACKETLEN_MAX_MEDIUM" "len \<le> PACKETLEN_MAX_LARGE" | "\<not> len \<le> PACKETLEN_MAX_LARGE"
    by linarith
  then show ?thesis
  proof cases
    case 1
    with S assms show ?thesis
      by (fastforce simp: pool_inv_def pbuf_get_def class_inv_other class_lens split: option.splits)
  next
    case 2
    with M assms show ?thesis
      by (fastforce simp: pool_inv_def pbuf_get_def class_inv_other class_lens split: option.splits)
  next
    case 3
    with L assms show ?thesis
      by (fastforce simp: pool_inv_def pbuf_get_def class_inv_other class_lens split: option.splits)
  next
    case 4
    with assms show ?thesis by (simp add: pbuf_get_def class_lens)
  qed
qed
lemma pbuf_free_inv:
  assumes "pool_inv mm (w, g) used" and "p \<in> set used"
  shows "pool_inv mm (pbuf_free w p, g) (remove1 p used)"
proof -
  have len: "pb_buf_len p \<in> {PACKETLEN_MAX_SMALL, PACKETLEN_MAX_MEDIUM, PACKETLEN_MAX_LARGE}"
    using assms by (auto simp: pool_inv_def)
  have sub: "\<forall>q \<in> set (remove1 p used). pb_buf_len q \<in> {PACKETLEN_MAX_SMALL, PACKETLEN_MAX_MEDIUM, PACKETLEN_MAX_LARGE}"
    using assms(1) notin_set_remove1 by (fastforce simp: pool_inv_def)
  from len consider "pb_buf_len p = 100" | "pb_buf_len p = 180" | "pb_buf_len p = 512"
    by (auto simp: class_lens)
  then show ?thesis
    using assms sub class_inv_free [OF _ assms(2)]
    by cases (auto simp: pool_inv_def pbuf_free_def class_inv_remove_other class_lens)
qed

text \<open>The pools meet the contract of an allocator again: the state is a worker's lists together
  with the arenas, a cell is a packet buffer.\<close>

definition pool_alloc ::
    "mmap \<Rightarrow> nat \<Rightarrow> worker_t \<times> pbuf_arenas \<Rightarrow> (pbuf_t option \<times> worker_t \<times> pbuf_arenas) option" where
  "pool_alloc mm len wg = pbuf_get mm len (fst wg) (snd wg)"

definition pool_release :: "worker_t \<times> pbuf_arenas \<Rightarrow> pbuf_t \<Rightarrow> worker_t \<times> pbuf_arenas" where
  "pool_release wg p = (pbuf_free (fst wg) p, snd wg)"

interpretation pool: cell_allocator "pool_alloc mm len" pool_release "pool_inv mm" for mm len
proof unfold_locales
  fix s used
  assume inv: "pool_inv mm s used"
  let ?L = "{PACKETLEN_MAX_SMALL, PACKETLEN_MAX_MEDIUM, PACKETLEN_MAX_LARGE}"
  have "distinct (pbuf_class l used)" if "l \<in> ?L" for l
    using inv that class_inv_distinct by (auto simp: pool_inv_def)
  then show "distinct used" using distinct_used [of ?L used] inv by (simp add: pool_inv_def)
next
  fix s used
  assume inv: "pool_inv mm s used"
  then show "(\<exists>s'. pool_alloc mm len s = Some (None, s') \<and> pool_inv mm s' used) \<or>
      (\<exists>c s'. pool_alloc mm len s = Some (Some c, s') \<and> pool_inv mm s' (c # used))"
    using pbuf_get_inv [of mm "fst s" "snd s" used len]
    by (auto simp: pool_alloc_def split: option.splits)
next
  show "pool_inv mm (pool_release s p) (remove1 p used)" if "pool_inv mm s used" "p \<in> set used" for s used p
    using that pbuf_free_inv [of mm "fst s" "snd s"] by (simp add: pool_release_def)
qed

lemma cellfreemany_holds:
  "arena_holds mm ca live \<Longrightarrow> mset live = mset (as @ rest) \<Longrightarrow> arena_holds mm (cellfreemany ca as) rest"
proof (induction as arbitrary: ca live)
  case Nil
  then show ?case using arena_holds_perm [of live rest] by simp
next
  case (Cons a as)
  have "arena_holds mm (cellfree ca a) (remove1 a live)"
    using Cons.prems(1) mset_eq_setD [OF Cons.prems(2)] by (intro arena.release_law) auto
  then show ?case using Cons.IH [of "cellfree ca a" "remove1 a live"] Cons.prems by simp
qed

lemma pbuf_class_append [simp]: "pbuf_class len (xs @ ys) = pbuf_class len xs @ pbuf_class len ys"
  by (simp add: pbuf_class_def)

lemma class_inv_free_many:
  "class_inv mm len pool ca (ps @ rest) \<Longrightarrow> class_inv mm len pool (cellfreemany ca (pbuf_class len ps)) rest"
  by (auto simp: class_inv_def intro!: cellfreemany_holds)

lemma pbuf_class_mset: "mset us = mset vs \<Longrightarrow> mset (pbuf_class len us) = mset (pbuf_class len vs)"
  by (metis mset_filter mset_map pbuf_class_def)

lemma pool_inv_perm: "mset us = mset vs \<Longrightarrow> pool_inv mm wg us \<longleftrightarrow> pool_inv mm wg vs"
proof -
  assume eq: "mset us = mset vs"
  have "class_inv mm len p ca us \<longleftrightarrow> class_inv mm len p ca vs" for len p ca
    unfolding class_inv_def using pbuf_class_mset [OF eq] by (metis arena_holds_perm mset_append)
  moreover have "set us = set vs" using eq by (rule mset_eq_setD)
  ultimately show ?thesis by (simp add: pool_inv_def)
qed

text \<open>A packet buffer is big enough and owned once. Whatever is in use, \<^verbatim>\<open>pbuf_get\<close> does not
  dereference NULL, the buffer it returns has room for the length asked for, and it is none
  of those in use; \<^verbatim>\<open>pbuf_free\<close> puts it back.\<close>

theorem pbuf_get_fits:
  assumes "pool_inv mm (w, g) used"
  shows "\<exists>r w' g'. pbuf_get mm len w g = Some (r, w', g') \<and>
    (case r of
       None \<Rightarrow> pool_inv mm (w', g') used
     | Some pb \<Rightarrow> len \<le> pb_buf_len pb \<and> pb_addr pb \<notin> set (pbuf_class (pb_buf_len pb) used) \<and>
         pool_inv mm (w', g') (pb # used) \<and> pool_inv mm (pbuf_free w' pb, g') used)"
proof -
  obtain r w' g' where G: "pbuf_get mm len w g = Some (r, w', g')"
    "case r of None \<Rightarrow> pool_inv mm (w', g') used
     | Some pb \<Rightarrow> len \<le> pb_buf_len pb \<and> pool_inv mm (w', g') (pb # used)"
    using pbuf_get_inv [OF assms] by blast
  show ?thesis
  proof (cases r)
    case (Some pb)
    then have inv: "pool_inv mm (w', g') (pb # used)" using G(2) by simp
    let ?l = "pb_buf_len pb"
    have "?l \<in> {PACKETLEN_MAX_SMALL, PACKETLEN_MAX_MEDIUM, PACKETLEN_MAX_LARGE}"
      using inv by (simp add: pool_inv_def)
    then have "distinct (pbuf_class ?l (pb # used))"
      using inv class_inv_distinct by (auto simp only: pool_inv_def insert_iff empty_iff)
    then show ?thesis using G Some inv pbuf_free_inv [OF inv, of pb] by simp
  qed (use G in auto)
qed

text \<open>The duplicate check returns buffers wholesale: \<^verbatim>\<open>pbuf_free_many\<close> gives each buffer back
  to the arena of its size, and only those.\<close>

theorem pbuf_free_many_returns:
  assumes "pool_inv mm (w, g) (ps @ rest)"
  shows "pool_inv mm (w, pbuf_free_many ps g) rest"
  using assms class_inv_free_many by (auto simp: pool_inv_def pbuf_free_many_def)

text \<open>Handing over. \<^verbatim>\<open>incoming_flush\<close> moves the parsed packets to the inbox of the duplicate
  check in the order they came, or leaves them when the lock is taken; no packet is lost
  or repeated, and the counters keep in step with the queues.\<close>

theorem incoming_flush_order:
  assumes "w_pbuf_incoming_count w = int (length (w_pbuf_incoming w))"
    and "w_pbuf_incoming_local_count w = int (length (w_pbuf_incoming_local w))"
    and "incoming_flush got_lock w = w'"
  shows "w_pbuf_incoming w' @ w_pbuf_incoming_local w' = w_pbuf_incoming w @ w_pbuf_incoming_local w \<and>
     (got_lock \<longrightarrow> w_pbuf_incoming_local w' = []) \<and>
     w_pbuf_incoming_count w' = int (length (w_pbuf_incoming w')) \<and>
     w_pbuf_incoming_local_count w' = int (length (w_pbuf_incoming_local w'))"
  using assms by (auto simp: incoming_flush_def)

section \<open>Concrete runs\<close>

definition demo_worker :: worker_t where
  "demo_worker = \<lparr>w_clients = [], w_clients_dupe = [], w_clients_ro = [], w_clients_ups = [], w_clients_other = [],
     w_pbuf_free_small = [], w_pbuf_free_medium = [], w_pbuf_free_large = [],
     w_pbuf_incoming_local = [], w_pbuf_incoming_local_count = 0, w_pbuf_incoming = [],
     w_pbuf_incoming_count = 0, w_pbuf_global_prevp = None, w_pbuf_global_dupe_prevp = None,
     w_last_pbuf_seqnum = 0, w_last_pbuf_dupe_seqnum = 0, w_internal_packet_drops = 0\<rparr>"

definition demo_arenas :: pbuf_arenas where
  "demo_arenas = the (pbuf_init demo_mmap 200 8)"

lemma cellinit_the_holds:
  "0 < sz \<Longrightarrow> arena_holds demo_mmap (the (cellinit demo_mmap sz al po kb 0)) []"
  using cellinit_holds [OF demo_mmap_fresh] cellinit_no_minfree by (metis option.sel)

lemma demo_pool_inv: "pool_inv demo_mmap (demo_worker, demo_arenas) []"
  using cellinit_the_holds [of "200 + PACKETLEN_MAX_SMALL" 8 CELLMALLOC_POLICY_FIFO pbuf_cells_kb]
    cellinit_the_holds [of "200 + PACKETLEN_MAX_MEDIUM" 8 CELLMALLOC_POLICY_FIFO pbuf_cells_kb]
    cellinit_the_holds [of "200 + PACKETLEN_MAX_LARGE" 8 CELLMALLOC_POLICY_FIFO pbuf_cells_kb]
  by (simp add: pool_inv_def class_inv_def demo_worker_def demo_arenas_def pbuf_init_def cellinit_no_minfree)

theorem pbuf_get_fits_witness:
  "pool_inv demo_mmap (demo_worker, demo_arenas) [] \<and> pbuf_get demo_mmap 97 demo_worker demo_arenas \<noteq> None"
  using pbuf_get_fits [OF demo_pool_inv, of 97] demo_pool_inv by auto

lemma demo_pool_used:
  "pool_inv demo_mmap (demo_worker, demo_arenas\<lparr>pbuf_cells_small := demo_arena2\<rparr>) [pbuf_zero 1024 100]"
proof -
  have "arena_holds demo_mmap demo_arena2 [1024]"
    using demo_mmap_fresh demo_arena2_inv by (auto simp: arena_holds_def)
  with demo_pool_inv show ?thesis by (simp add: pool_inv_def class_inv_def demo_worker_def class_lens)
qed

theorem pbuf_free_many_returns_witness:
  "pool_inv demo_mmap
     (demo_worker, pbuf_free_many [pbuf_zero 1024 100] (demo_arenas\<lparr>pbuf_cells_small := demo_arena2\<rparr>)) []"
  using pbuf_free_many_returns [of demo_mmap demo_worker _ "[pbuf_zero 1024 100]" "[]"] demo_pool_used by simp

theorem incoming_flush_order_witness:
  "w_pbuf_incoming (incoming_flush True (demo_worker
     \<lparr>w_pbuf_incoming_local := [pbuf_zero 1 100, pbuf_zero 2 100], w_pbuf_incoming_local_count := 2\<rparr>)) =
   [pbuf_zero 1 100, pbuf_zero 2 100]"
  using incoming_flush_order [of "demo_worker
      \<lparr>w_pbuf_incoming_local := [pbuf_zero 1 100, pbuf_zero 2 100], w_pbuf_incoming_local_count := 2\<rparr>" True, OF _ _ refl]
  by (auto simp: demo_worker_def)


end
