(* ===== verification/Incoming.thy ===== *)
theory Incoming
  imports Parse_QC Pbuf_Pool Client_Heard
begin

text \<open>
  \<^verbatim>\<open>src/src/incoming.c\<close>: what happens to a line from a client. The header is checked, the q
  construct algorithm is run, the packet is rebuilt in a buffer from the pool, parsed and put
  into the worker's queue.

  \<^verbatim>\<open>fnmatch\<close> of the C library, the information field parser of \<^verbatim>\<open>parse_aprs.c\<close>, the handler of
  messages to SERVER and the hash preparation of \<^verbatim>\<open>filter.c\<close> are the fields of an environment
  record, an argument of the functions that call them.
\<close>

section \<open>Drop reasons as text\<close>

definition inerr_labels :: "string list" where
  "inerr_labels =
     [''unknown'', ''no_colon'', ''no_dst'', ''no_path'', ''inv_srccall'', ''no_body'', ''inv_dstcall'',
      ''disallow_unverified'', ''disallow_unverified_path'', ''path_nogate'', ''party_3rd_ip'',
      ''party_3rd_inv'', ''general_query'', ''aprsc_oom_pbuf'', ''aprsc_class_fail'', ''aprsc_q_bug'',
      ''q_drop'', ''short_packet'', ''long_packet'', ''inv_path_call'', ''q_qax'', ''q_qaz'',
      ''q_path_mycall'', ''q_path_call_twice'', ''q_path_login_not_last'', ''q_path_call_is_local'',
      ''q_path_call_inv'', ''q_qau_path_call_srccall'', ''q_newq_buffer_small'',
      ''q_nonval_multi_q_calls'', ''q_i_no_viacall'', ''q_disallow_protocol'', ''inerr_empty'',
      ''disallow_srccall'', ''disallow_dx'', ''disallow_msg_dst'', ''disallow_igatecall'']"

definition incoming_strerror :: "int \<Rightarrow> string" where
  "incoming_strerror i =
     (if i \<le> 0 \<and> INERR_MIN \<le> i then inerr_labels ! nat (i * -1) else inerr_labels ! 0)"

definition disallow_srccalls :: "string list" where
  "disallow_srccalls = [''N0CALL'', ''NOCALL'', ''SERVER'']"

section \<open>Searching\<close>

text \<open>\<^verbatim>\<open>memcasestr\<close>: \<open>np\<close> is the position in the needle, \<open>hp\<close> the one in the haystack. A mismatch
  clears the state and goes on to the next byte.\<close>

fun memcasestr_loop :: "string \<Rightarrow> nat \<Rightarrow> nat option \<Rightarrow> nat \<Rightarrow> string \<Rightarrow> nat option" where
  "memcasestr_loop needle np match_start hp [] = None"
| "memcasestr_loop needle np match_start hp (h # hay) =
     (let (np', ms') =
            (if toupper h = toupper (rd needle np)
             then (Suc np, case match_start of None \<Rightarrow> Some hp | Some m \<Rightarrow> Some m)
             else (0, None))
      in if rd needle np' = NUL \<and> ms' \<noteq> None then ms'
         else memcasestr_loop needle np' ms' (Suc hp) hay)"

definition memcasestr :: "string \<Rightarrow> string \<Rightarrow> nat option" where
  "memcasestr needle haystack = memcasestr_loop needle 0 None 0 haystack"

definition digi_path_drop :: "string \<Rightarrow> nat \<Rightarrow> nat \<Rightarrow> bool" where
  "digi_path_drop s via_start via_len \<longleftrightarrow>
     memmem s via_start via_len '',NOGATE'' \<noteq> None \<or> memmem s via_start via_len '',RFONLY'' \<noteq> None"

section \<open>Callsigns\<close>

text \<open>The body of a callsign up to the hyphen, and what \<open>ssid\<close> says of the rest behind it.\<close>

fun call_body :: "(string \<Rightarrow> int) \<Rightarrow> string \<Rightarrow> int" where
  "call_body ssid [] = 0"
| "call_body ssid (c # cs) =
     (if c = CHR ''-'' then ssid cs else if \<not> isalnum c then -1 else call_body ssid cs)"

fun all_alnum :: "string \<Rightarrow> int" where
  "all_alnum [] = 0"
| "all_alnum (c # cs) = (if \<not> isalnum c then -1 else all_alnum cs)"

definition check_invalid_src_dst :: "string \<Rightarrow> int" where
  "check_invalid_src_dst call =
     (if length call < 1 \<or> CALLSIGNLEN_MAX < length call then -1
      else call_body (\<lambda>ssid. if ssid = [] then -1 else all_alnum ssid) call)"

definition check_invalid_path_callsign :: "string \<Rightarrow> bool \<Rightarrow> int" where
  "check_invalid_path_callsign call0 after_q =
     (let call = (if 1 < length call0 \<and> last call0 = CHR ''*'' then butlast call0 else call0);
          len = length call
      in if len < 1 then -1
         else if CALLSIGNLEN_MAX < len \<and> \<not> (len = 32 \<and> after_q) then -1
         else call_body (\<lambda>ssid. if 2 < length ssid \<or> ssid = [] then -1
                                else if hd ssid = CHR ''0'' then -1 else all_alnum ssid) call)"

definition check_call_match :: "string list \<Rightarrow> string \<Rightarrow> int" where
  "check_call_match calls call = (if call \<in> set calls then -1 else 0)"

definition check_call_prefix_match :: "string list \<Rightarrow> string \<Rightarrow> int" where
  "check_call_prefix_match calls call =
     (if \<exists>p \<in> set calls. length p \<le> length call \<and> take (length p) call = p then -1 else 0)"

definition MAX_TEST_CALL_LEN :: nat where "MAX_TEST_CALL_LEN = 32"

text \<open>\<open>fnm\<close> stands for \<^verbatim>\<open>fnmatch(pattern, string, FNM_CASEFOLD) == 0\<close>; the copy in \<^verbatim>\<open>ts\<close> is a C
  string and ends at the first NUL.\<close>

definition check_call_glob_match :: "(string \<Rightarrow> string \<Rightarrow> bool) \<Rightarrow> string list \<Rightarrow> string \<Rightarrow> int" where
  "check_call_glob_match fnm pats call =
     (if MAX_TEST_CALL_LEN < length call then 0
      else if \<exists>p \<in> set pats. fnm p (takeWhile (\<lambda>c. c \<noteq> NUL) call) then -1 else 0)"

text \<open>The loop over the comma-separated fields: the number of fields, or -1.\<close>

function check_path_loop :: "string \<Rightarrow> nat \<Rightarrow> nat \<Rightarrow> bool \<Rightarrow> int \<Rightarrow> int" where
  "check_path_loop s p path_end after_q calls =
     (if p < path_end then
        (let e = scan (\<lambda>c. c \<noteq> CHR '','') s p path_end
         in if rd s p = CHR ''q'' \<and> e - p = 3 then check_path_loop s (e + 1) path_end True (calls + 1)
            else if check_invalid_path_callsign (sub s p e) after_q \<noteq> 0 then -1
            else check_path_loop s (e + 1) path_end after_q (calls + 1))
      else calls)"
  by auto
termination
  by (relation "measure (\<lambda>(s, p, path_end, after_q, calls). path_end - p)")
    (auto intro!: diff_less_mono2 simp: le_imp_less_Suc)

declare check_path_loop.simps [simp del]

definition check_path_calls :: "string \<Rightarrow> nat \<Rightarrow> nat \<Rightarrow> int" where
  "check_path_calls s via_start path_end = check_path_loop s (via_start + 1) path_end False 0"

function check_igate_calls ::
    "(string \<Rightarrow> string \<Rightarrow> bool) \<Rightarrow> string list \<Rightarrow> string \<Rightarrow> nat \<Rightarrow> nat \<Rightarrow> int" where
  "check_igate_calls fnm pats s p path_end =
     (if p < path_end then
        (let e = scan (\<lambda>c. c \<noteq> CHR '','') s p path_end
         in if check_call_glob_match fnm pats (sub s p e) \<noteq> 0 then -1
            else check_igate_calls fnm pats s (e + 1) path_end)
      else 0)"
  by auto
termination
  by (relation "measure (\<lambda>(fnm, pats, s, p, path_end). path_end - p)")
    (auto intro!: diff_less_mono2 simp: le_imp_less_Suc)

declare check_igate_calls.simps [simp del]

section \<open>Quirky clients\<close>

text \<open>The rewriting of the path: the elements without trailing spaces, and the rest of the packet
  from the colon on.\<close>

function quirk_path :: "string \<Rightarrow> inerr + string \<times> string" where
  "quirk_path p =
     (if p = [] \<or> hd p = CHR '':'' then Inr ([], p)
      else
        let stop = (\<lambda>c. c \<noteq> CHR '','' \<and> c \<noteq> CHR '':'' \<and> c \<noteq> CHR '' '');
            elem = takeWhile stop p;
            rest = dropWhile (\<lambda>c. c = CHR '' '') (dropWhile stop p)
        in case rest of
             [] \<Rightarrow> Inl INERR_INV_PATH_CALL
           | c # r \<Rightarrow>
               if c = CHR '','' then
                 (case quirk_path r of
                    Inl e \<Rightarrow> Inl e
                  | Inr (out, tail) \<Rightarrow> Inr (elem @ CHR '','' # out, tail))
               else if c = CHR '':'' then Inr (elem, rest)
               else Inl INERR_INV_PATH_CALL)"
  by auto
termination
proof (relation "measure length", goal_cases)
  case (2 p stop elem rest c r)
  have "length rest \<le> length p"
    unfolding 2 by (meson length_dropWhile_le order_trans)
  moreover have "rest = c # r" using 2(5) by simp
  ultimately show ?case by simp
qed simp

declare quirk_path.simps [simp del]

definition quirk_rewrite :: "string \<Rightarrow> inerr + string" where
  "quirk_rewrite s =
     (let p = dropWhile (\<lambda>c. c = CHR '' '' \<or> c = NUL) s;
          stop = (\<lambda>c. c \<noteq> CHR ''>'' \<and> c \<noteq> CHR '' '');
          src = takeWhile stop p;
          p2 = dropWhile (\<lambda>c. c = CHR '' '') (dropWhile stop p)
      in if p = [] then Inl INERR_EMPTY
         else if p2 = [] \<or> hd p2 \<noteq> CHR ''>'' then Inl INERR_NO_DST
         else
           case quirk_path p2 of
             Inl e \<Rightarrow> Inl e
           | Inr (path, rest) \<Rightarrow> Inr (src @ path @ rest))"

section \<open>The header\<close>

record in_env =
  env_fnmatch :: "string \<Rightarrow> string \<Rightarrow> bool"
  env_parse_aprs :: "pbuf_t \<Rightarrow> int \<times> pbuf_t"
  env_server_message :: "client_t \<Rightarrow> pbuf_t \<Rightarrow> int \<times> client_t"
  env_filter_preprocess_dupefilter :: "pbuf_t \<Rightarrow> pbuf_t"

text \<open>What the header check finds: offsets into the line.\<close>

record in_hdr =
  ih_src_len :: nat
  ih_path_end :: nat \<comment> \<open>the colon, \<^verbatim>\<open>pathlen\<close>\<close>
  ih_dstcall_end_or_ssid :: nat
  ih_via_start :: nat \<comment> \<open>also \<^verbatim>\<open>dstcall_end\<close>\<close>
  ih_originated :: bool

text \<open>A third-party packet whose own header went over the internet.\<close>

definition third_party_ip :: "string \<Rightarrow> nat \<Rightarrow> bool" where
  "third_party_ip s path_end \<longleftrightarrow>
     rd s (path_end + 1) = CHR ''}'' \<and>
     (case memchr s (path_end + 2) (length s - path_end - 2) (CHR '':'') of
        None \<Rightarrow> False
      | Some hdr_end \<Rightarrow>
          memmem s (path_end + 2) (hdr_end - (path_end + 2)) '',TCPIP'' \<noteq> None \<or>
          memmem s (path_end + 2) (hdr_end - (path_end + 2)) '',TCPXX'' \<noteq> None)"

definition incoming_header :: "in_env \<Rightarrow> config \<Rightarrow> client_t \<Rightarrow> string \<Rightarrow> inerr + in_hdr" where
  "incoming_header env cfg c s =
     (if length s < PACKETLEN_MIN - 2 then Inl INERR_SHORT_PACKET
      else
        case memchr s 0 (length s) (CHR '':'') of
          None \<Rightarrow> Inl INERR_NO_COLON
        | Some path_end \<Rightarrow>
            (case memchr s 0 (if path_end < CALLSIGNLEN_MAX + 1 then path_end else CALLSIGNLEN_MAX + 1) (CHR ''>'') of
               None \<Rightarrow> Inl INERR_NO_DST
             | Some src_len \<Rightarrow>
                 let path_start = src_len + 1;
                     src = take src_len s;
                     ssid = scan (\<lambda>ch. ch \<noteq> CHR ''-'' \<and> ch \<noteq> CHR '','' \<and> ch \<noteq> CHR '':'') s path_start path_end;
                     via_start = scan (\<lambda>ch. ch \<noteq> CHR '','' \<and> ch \<noteq> CHR '':'') s ssid path_end
                 in if length s \<le> path_start then Inl INERR_NO_PATH
                    else if check_invalid_src_dst src \<noteq> 0 then Inl INERR_INV_SRCCALL
                    else if check_call_prefix_match disallow_srccalls src \<noteq> 0 then Inl INERR_DIS_SRCCALL
                    else if (case disallow_srccall_glob cfg of None \<Rightarrow> False
                             | Some pats \<Rightarrow> check_call_glob_match (env_fnmatch env) pats src \<noteq> 0)
                    then Inl INERR_DIS_SRCCALL
                    else if length s \<le> path_end + 1 then Inl INERR_NO_BODY
                    else if check_invalid_src_dst (sub s path_start via_start) \<noteq> 0 then Inl INERR_INV_DSTCALL
                    else if digi_path_drop s via_start (path_end - via_start) then Inl INERR_NOGATE
                    else if check_path_calls s via_start path_end = -1 then Inl INERR_INV_PATH_CALL
                    else if third_party_ip s path_end then Inl INERR_3RD_PARTY_IP
                    else Inr \<lparr>ih_src_len = src_len, ih_path_end = path_end,
                              ih_dstcall_end_or_ssid = ssid, ih_via_start = via_start,
                              ih_originated = (c_username c = src)\<rparr>))"

section \<open>What the callsign checks accept\<close>

lemma all_alnum_eq: "all_alnum cs = (if \<forall>c \<in> set cs. isalnum c then 0 else -1)"
  by (induction cs) auto

lemma call_body_append: "\<forall>c \<in> set b. isalnum c \<Longrightarrow> call_body ssid (b @ r) = call_body ssid r"
  by (induction b) auto

lemma call_body_0D:
  "call_body ssid cs = 0 \<Longrightarrow>
     (\<forall>c \<in> set cs. isalnum c) \<or>
     (\<exists>b r. cs = b @ CHR ''-'' # r \<and> (\<forall>c \<in> set b. isalnum c) \<and> ssid r = 0)"
proof (induction cs)
  case (Cons c cs)
  show ?case
  proof (cases "c = CHR ''-''")
    case True
    with Cons.prems have "c # cs = [] @ CHR ''-'' # cs \<and> (\<forall>x \<in> set []. isalnum x) \<and> ssid cs = 0" by simp
    then show ?thesis by blast
  next
    case False
    with Cons.prems have c: "isalnum c" "call_body ssid cs = 0" by (auto split: if_splits)
    from Cons.IH [OF c(2)] show ?thesis
    proof
      assume "\<exists>b r. cs = b @ CHR ''-'' # r \<and> (\<forall>x \<in> set b. isalnum x) \<and> ssid r = 0"
      then obtain b r where "cs = b @ CHR ''-'' # r" "\<forall>x \<in> set b. isalnum x" "ssid r = 0" by blast
      with c(1) have "c # cs = (c # b) @ CHR ''-'' # r \<and> (\<forall>x \<in> set (c # b). isalnum x) \<and> ssid r = 0" by simp
      then show ?thesis by blast
    qed (use c(1) in simp)
  qed
qed simp

lemma call_body_iff:
  "call_body ssid cs = 0 \<longleftrightarrow>
     (\<forall>c \<in> set cs. isalnum c) \<or>
     (\<exists>b r. cs = b @ CHR ''-'' # r \<and> (\<forall>c \<in> set b. isalnum c) \<and> ssid r = 0)"
  using call_body_0D [of ssid cs] call_body_append [of cs ssid "[]"] by (auto simp: call_body_append)

text \<open>An APRS-IS callsign: letters and digits, and optionally a hyphen and an SSID accepted by \<open>P\<close>.
  With an SSID the base may be empty.\<close>

definition callsign_shape :: "(string \<Rightarrow> bool) \<Rightarrow> string \<Rightarrow> bool" where
  "callsign_shape P call \<longleftrightarrow>
     (\<forall>c \<in> set call. isalnum c) \<or>
     (\<exists>b r. call = b @ CHR ''-'' # r \<and> (\<forall>c \<in> set b. isalnum c) \<and> (\<forall>c \<in> set r. isalnum c) \<and> P r)"

definition valid_call :: "string \<Rightarrow> bool" where
  "valid_call call \<longleftrightarrow> 1 \<le> length call \<and> length call \<le> CALLSIGNLEN_MAX \<and> callsign_shape (\<lambda>r. r \<noteq> []) call"

lemma valid_call_chars: "valid_call call \<Longrightarrow> c \<in> set call \<Longrightarrow> isalnum c \<or> c = CHR ''-''"
  by (auto simp: valid_call_def callsign_shape_def)

lemma check_invalid_src_dst_valid: "check_invalid_src_dst call = 0 \<longleftrightarrow> valid_call call"
  unfolding check_invalid_src_dst_def valid_call_def callsign_shape_def call_body_iff
  by (auto simp: call_body_iff all_alnum_eq Suc_le_eq)

text \<open>Source and destination callsigns are one to nine letters, digits and at most one hyphen,
  which something follows.\<close>

theorem check_invalid_src_dst_iff: "check_invalid_src_dst call = 0 \<longleftrightarrow> valid_call call"
  by (rule check_invalid_src_dst_valid)

lemma check_invalid_path_callsign_iff:
  "check_invalid_path_callsign call after_q = 0 \<longleftrightarrow>
     (let body = (if 1 < length call \<and> last call = CHR ''*'' then butlast call else call)
      in 1 \<le> length body \<and> (length body \<le> CALLSIGNLEN_MAX \<or> length body = 32 \<and> after_q) \<and>
         callsign_shape (\<lambda>r. 1 \<le> length r \<and> length r \<le> 2 \<and> hd r \<noteq> CHR ''0'') body)"
proof -
  define body where "body = (if 1 < length call \<and> last call = CHR ''*'' then butlast call else call)"
  have "call_body (\<lambda>ssid. if 2 < length ssid \<or> ssid = [] then -1
           else if hd ssid = CHR ''0'' then -1 else all_alnum ssid) body = 0 \<longleftrightarrow>
        callsign_shape (\<lambda>r. 1 \<le> length r \<and> length r \<le> 2 \<and> hd r \<noteq> CHR ''0'') body"
    unfolding call_body_iff callsign_shape_def
    by (intro disj_cong refl ex_cong1) (auto simp: all_alnum_eq Suc_le_eq)
  then show ?thesis
    unfolding check_invalid_path_callsign_def body_def [symmetric] Let_def by (auto simp: Suc_le_eq)
qed

section \<open>Paths as lists of fields\<close>

function comma_fields :: "string \<Rightarrow> string list" where
  "comma_fields xs =
     (if xs = [] then []
      else takeWhile (\<lambda>c. c \<noteq> CHR '','') xs # comma_fields (drop 1 (dropWhile (\<lambda>c. c \<noteq> CHR '','') xs)))"
  by auto
termination
proof (relation "measure length", goal_cases)
  case (2 xs)
  have "length (drop 1 (dropWhile (\<lambda>c. c \<noteq> CHR '','') xs)) \<le> length xs - 1"
    using length_dropWhile_le [of "\<lambda>c. c \<noteq> CHR '',''" xs] by simp
  with 2 show ?case by (cases xs) auto
qed simp

declare comma_fields.simps [simp del]

definition is_q_field :: "string \<Rightarrow> bool" where
  "is_q_field f \<longleftrightarrow> length f = 3 \<and> hd f = CHR ''q''"

fun check_fields :: "bool \<Rightarrow> int \<Rightarrow> string list \<Rightarrow> int" where
  "check_fields after_q n [] = n"
| "check_fields after_q n (f # fs) =
     (if is_q_field f then check_fields True (n + 1) fs
      else if check_invalid_path_callsign f after_q \<noteq> 0 then -1
      else check_fields after_q (n + 1) fs)"

lemma sub_split_scan:
  assumes "p \<le> e" and "e \<le> length s"
  shows "takeWhile P (sub s p e) = sub s p (scan P s p e)"
    and "dropWhile P (sub s p e) = sub s (scan P s p e) e"
proof -
  let ?k = "length (takeWhile P (sub s p e))"
  have k: "?k \<le> e - p" using length_takeWhile_le [of P "sub s p e"] assms by simp
  show "takeWhile P (sub s p e) = sub s p (scan P s p e)"
    using k by (subst takeWhile_eq_take) (simp add: scan_def sub_def min_def)
  show "dropWhile P (sub s p e) = sub s (scan P s p e) e"
    using k assms by (subst dropWhile_eq_drop) (simp add: scan_def sub_def drop_take add.commute)
qed

lemma check_path_loop_fields:
  "path_end \<le> length s \<Longrightarrow>
     check_path_loop s p path_end after_q n = check_fields after_q n (comma_fields (sub s p path_end))"
proof (induction s p path_end after_q n rule: check_path_loop.induct)
  case (1 s p path_end after_q n)
  show ?case
  proof (cases "p < path_end")
    case True
    let ?e = "scan (\<lambda>c. c \<noteq> CHR '','') s p path_end"
    have ne: "sub s p path_end \<noteq> []" using True "1.prems" by (simp add: sub_def)
    have tail: "drop 1 (dropWhile (\<lambda>c. c \<noteq> CHR '','') (sub s p path_end)) = sub s (?e + 1) path_end"
      unfolding sub_split_scan [OF less_imp_le [OF True] "1.prems"] by (simp add: sub_def drop_take)
    have fields: "comma_fields (sub s p path_end) = sub s p ?e # comma_fields (sub s (?e + 1) path_end)"
      using ne tail True "1.prems" by (subst comma_fields.simps) (simp add: sub_split_scan)
    have e: "?e \<le> path_end" using True by (simp add: scan_le)
    have "is_q_field (sub s p ?e) \<longleftrightarrow> rd s p = CHR ''q'' \<and> ?e - p = 3"
    proof -
      have "length (sub s p ?e) = ?e - p" using e "1.prems" by simp
      moreover have "hd (sub s p ?e) = rd s p" if "?e - p = 3"
        using that True "1.prems" by (simp add: sub_def hd_drop_conv_nth hd_take)
      ultimately show ?thesis by (auto simp: is_q_field_def)
    qed
    then show ?thesis
      using True 1 fields by (subst check_path_loop.simps) (simp add: Let_def)
  next
    case False
    then show ?thesis by (subst check_path_loop.simps) (simp add: comma_fields.simps)
  qed
qed

text \<open>Every field a q construct or a valid callsign; behind a q construct a field of 32 characters
  passes too.\<close>

definition path_fields_ok :: "string list \<Rightarrow> bool" where
  "path_fields_ok fs \<longleftrightarrow>
     (\<forall>i < length fs. is_q_field (fs ! i) \<or>
        check_invalid_path_callsign (fs ! i) (\<exists>j < i. is_q_field (fs ! j)) = 0)"

lemma check_fields_eq:
  "0 \<le> n \<Longrightarrow> check_fields after_q n fs =
     (if \<forall>i < length fs. is_q_field (fs ! i) \<or>
           check_invalid_path_callsign (fs ! i) (after_q \<or> (\<exists>j < i. is_q_field (fs ! j))) = 0
      then n + int (length fs) else -1)"
proof (induction fs arbitrary: after_q n)
  case (Cons f fs)
  then show ?case
    by (auto simp: All_less_Suc2 Ex_less_Suc2)
qed simp

lemma check_path_calls_eq:
  assumes "path_end \<le> length s"
  shows "check_path_calls s via_start path_end =
     (if path_fields_ok (comma_fields (sub s (via_start + 1) path_end))
      then int (length (comma_fields (sub s (via_start + 1) path_end))) else -1)"
  using assms by (simp add: check_path_calls_def check_path_loop_fields check_fields_eq path_fields_ok_def)

text \<open>The path check counts the fields of the path, or rejects it when one of them is neither a q
  construct nor a valid callsign.\<close>

theorem check_path_calls_fields:
  assumes "path_end \<le> length s"
  shows "check_path_calls s via_start path_end =
     (if path_fields_ok (comma_fields (sub s (via_start + 1) path_end))
      then int (length (comma_fields (sub s (via_start + 1) path_end))) else -1)"
  using assms by (rule check_path_calls_eq)

section \<open>The header grammar\<close>

definition header_line :: "string \<Rightarrow> string \<Rightarrow> string \<Rightarrow> string \<Rightarrow> string" where
  "header_line src dst via info = src @ CHR ''>'' # dst @ via @ CHR '':'' # info"

definition third_party_info :: "string \<Rightarrow> bool" where
  "third_party_info info \<longleftrightarrow>
     (\<exists>hdr rest. info = CHR ''}'' # hdr @ CHR '':'' # rest \<and> CHR '':'' \<notin> set hdr \<and>
        (find_sub '',TCPIP'' hdr \<noteq> None \<or> find_sub '',TCPXX'' hdr \<noteq> None))"

definition src_allowed :: "in_env \<Rightarrow> config \<Rightarrow> string \<Rightarrow> bool" where
  "src_allowed env cfg src \<longleftrightarrow>
     check_call_prefix_match disallow_srccalls src = 0 \<and>
     (case disallow_srccall_glob cfg of None \<Rightarrow> True
      | Some pats \<Rightarrow> check_call_glob_match (env_fnmatch env) pats src = 0)"

text \<open>The packets the header check lets through.\<close>

definition header_ok :: "in_env \<Rightarrow> config \<Rightarrow> string \<Rightarrow> string \<Rightarrow> string \<Rightarrow> string \<Rightarrow> bool" where
  "header_ok env cfg src dst via info \<longleftrightarrow>
     PACKETLEN_MIN - 2 \<le> length (header_line src dst via info) \<and>
     valid_call src \<and> src_allowed env cfg src \<and> valid_call dst \<and>
     (via = [] \<or> hd via = CHR '','') \<and> CHR '':'' \<notin> set via \<and>
     find_sub '',NOGATE'' via = None \<and> find_sub '',RFONLY'' via = None \<and>
     path_fields_ok (comma_fields (drop 1 via)) \<and>
     info \<noteq> [] \<and> \<not> third_party_info info"

definition header_of :: "client_t \<Rightarrow> string \<Rightarrow> string \<Rightarrow> string \<Rightarrow> in_hdr" where
  "header_of c src dst via =
     \<lparr>ih_src_len = length src, ih_path_end = length src + 1 + length dst + length via,
      ih_dstcall_end_or_ssid = length src + 1 + length (takeWhile (\<lambda>ch. ch \<noteq> CHR ''-'') dst),
      ih_via_start = length src + 1 + length dst, ih_originated = (c_username c = src)\<rparr>"

lemma find_index_take: "find_index P xs = Some i \<Longrightarrow> i < n \<Longrightarrow> find_index P (take n xs) = Some i"
  by (induction xs arbitrary: i n) (auto simp: take_Cons' split: if_splits)

lemma valid_call_no:
  assumes "valid_call call"
  shows "CHR '':'' \<notin> set call" and "CHR ''>'' \<notin> set call" and "CHR '','' \<notin> set call"
  using valid_call_chars [OF assms] by force+

lemma takeWhile_dst_via:
  assumes "valid_call dst" and "via = [] \<or> hd via = CHR '',''"
  shows "takeWhile (\<lambda>ch. ch \<noteq> CHR ''-'' \<and> ch \<noteq> CHR '','' \<and> ch \<noteq> CHR '':'') (dst @ via) =
      takeWhile (\<lambda>ch. ch \<noteq> CHR ''-'') dst"
    and "takeWhile (\<lambda>ch. ch \<noteq> CHR '','' \<and> ch \<noteq> CHR '':'') (drop k dst @ via) = drop k dst"
proof -
  have chars: "ch \<noteq> CHR '','' \<and> ch \<noteq> CHR '':''" if "ch \<in> set dst" for ch
    using valid_call_no [OF assms(1)] that by auto
  show "takeWhile (\<lambda>ch. ch \<noteq> CHR ''-'' \<and> ch \<noteq> CHR '','' \<and> ch \<noteq> CHR '':'') (dst @ via) =
      takeWhile (\<lambda>ch. ch \<noteq> CHR ''-'') dst"
  proof -
    have "takeWhile (\<lambda>ch. ch \<noteq> CHR ''-'' \<and> ch \<noteq> CHR '','' \<and> ch \<noteq> CHR '':'') (d @ via) =
        takeWhile (\<lambda>ch. ch \<noteq> CHR ''-'') d" if "\<forall>ch \<in> set d. ch \<noteq> CHR '','' \<and> ch \<noteq> CHR '':''" for d
      using that
    proof (induction d)
      case Nil
      show ?case using assms(2) by (cases via) auto
    qed auto
    then show ?thesis using chars by blast
  qed
  have "\<forall>ch \<in> set (drop k dst). ch \<noteq> CHR '','' \<and> ch \<noteq> CHR '':''"
    using chars set_drop_subset [of k dst] by blast
  then show "takeWhile (\<lambda>ch. ch \<noteq> CHR '','' \<and> ch \<noteq> CHR '':'') (drop k dst @ via) = drop k dst"
    using assms(2) takeWhile_append2 [of "drop k dst"] by (cases via) auto
qed

lemma memmem_middle:
  assumes "s = a @ b @ r"
  shows "memmem s (length a) (length b) ndl = map_option ((+) (length a)) (find_sub ndl b)"
  using assms by (simp add: memmem_def)

lemma find_index_colon_iff:
  "find_index ((=) c) xs = Some i \<longleftrightarrow> (\<exists>a b. xs = a @ c # b \<and> c \<notin> set a \<and> length a = i)"
proof
  assume "find_index ((=) c) xs = Some i"
  then have F: "i < length xs" "xs ! i = c" "\<forall>j < i. xs ! j \<noteq> c" using find_index_Some by fastforce+
  have "xs = take i xs @ c # drop (Suc i) xs" using id_take_nth_drop [OF F(1)] unfolding F(2) .
  moreover have "c \<notin> set (take i xs)" using F by (auto simp: in_set_conv_nth)
  ultimately show "\<exists>a b. xs = a @ c # b \<and> c \<notin> set a \<and> length a = i"
    using F(1) by (intro exI [of _ "take i xs"] exI [of _ "drop (Suc i) xs"]) simp
qed (auto intro!: find_index_append_hit)

lemma third_party_ip_info:
  assumes "s = hd0 @ CHR '':'' # info" and "info \<noteq> []"
  shows "third_party_ip s (length hd0) \<longleftrightarrow> third_party_info info"
proof -
  obtain x body where info: "info = x # body" using assms(2) by (cases info) auto
  have rdx: "rd s (length hd0 + 1) = x" using assms(1) info by (simp add: rd_def nth_append)
  have drop2: "drop (length hd0 + 2) s = body" using assms(1) info by simp
  have mc: "memchr s (length hd0 + 2) (length s - length hd0 - 2) (CHR '':'') =
      map_option ((+) (length hd0 + 2)) (find_index ((=) (CHR '':'')) body)"
    using assms(1) info drop2 by (simp add: memchr_def)
  show ?thesis
  proof (cases "find_index ((=) (CHR '':'')) body")
    case None
    then have "CHR '':'' \<notin> set body" by (auto simp: find_index_None)
    then show ?thesis using mc None info by (auto simp: third_party_ip_def third_party_info_def)
  next
    case (Some k)
    then obtain h r where hr: "body = h @ CHR '':'' # r" "CHR '':'' \<notin> set h" "length h = k"
      using find_index_colon_iff by metis
    have uniq: "h' = h" if "body = h' @ CHR '':'' # r'" "CHR '':'' \<notin> set h'" for h' r'
    proof -
      have "find_index ((=) (CHR '':'')) body = Some (length h')" using that find_index_colon_iff by metis
      then have "length h' = length h" using Some hr(3) by simp
      then show ?thesis using that(1) hr(1) by simp
    qed
    have mm: "memmem s (length hd0 + 2) k ndl = map_option ((+) (length hd0 + 2)) (find_sub ndl h)" for ndl
      using hr drop2 by (simp add: memmem_def)
    have "third_party_ip s (length hd0) \<longleftrightarrow>
        x = CHR ''}'' \<and> (find_sub '',TCPIP'' h \<noteq> None \<or> find_sub '',TCPXX'' h \<noteq> None)"
      using mc Some rdx mm by (simp add: third_party_ip_def)
    also have "\<dots> \<longleftrightarrow> third_party_info info"
    proof
      assume "third_party_info info"
      then obtain h' r' where "x = CHR ''}''" "body = h' @ CHR '':'' # r'" "CHR '':'' \<notin> set h'"
        "find_sub '',TCPIP'' h' \<noteq> None \<or> find_sub '',TCPXX'' h' \<noteq> None"
        unfolding third_party_info_def info by blast
      with uniq show "x = CHR ''}'' \<and> (find_sub '',TCPIP'' h \<noteq> None \<or> find_sub '',TCPXX'' h \<noteq> None)"
        by metis
    qed (use hr in \<open>auto simp: third_party_info_def info\<close>)
    finally show ?thesis .
  qed
qed

lemma header_complete:
  assumes "header_ok env cfg src dst via info" and s: "s = header_line src dst via info"
  shows "incoming_header env cfg c s = Inr (header_of c src dst via)"
proof -
  note ok = assms(1) [unfolded header_ok_def]
  let ?pe = "length src + 1 + length dst + length via"
  have vs: "valid_call src" "valid_call dst" "via = [] \<or> hd via = CHR '',''" "CHR '':'' \<notin> set via"
    using ok by auto
  have s1: "s = (src @ CHR ''>'' # dst @ via) @ CHR '':'' # info" by (simp add: s header_line_def)
  have pe: "memchr s 0 (length s) (CHR '':'') = Some ?pe"
  proof -
    have "\<forall>x \<in> set (src @ CHR ''>'' # dst @ via). CHR '':'' \<noteq> x"
      using vs(4) valid_call_no(1) [OF vs(1)] valid_call_no(1) [OF vs(2)] by auto
    then have "find_index ((=) (CHR '':'')) s = Some (length (src @ CHR ''>'' # dst @ via))"
      unfolding s1 by (rule find_index_append_hit) simp
    then show ?thesis by (simp add: memchr_def)
  qed
  have len: "1 \<le> length src" "length src \<le> 9" "1 \<le> length dst"
    using vs by (auto simp: valid_call_def len_defs)
  have "find_index ((=) (CHR ''>'')) s = Some (length src)"
    using valid_call_no [OF vs(1)] unfolding s header_line_def by (intro find_index_append_hit) auto
  then have se: "memchr s 0 (if ?pe < CALLSIGNLEN_MAX + 1 then ?pe else CALLSIGNLEN_MAX + 1) (CHR ''>'') = Some (length src)"
    using len by (auto simp: memchr_def len_defs intro!: find_index_take)
  have sub1: "sub s (length src + 1) ?pe = dst @ via" by (simp add: s header_line_def sub_def)
  define k where "k = length (takeWhile (\<lambda>ch. ch \<noteq> CHR ''-'') dst)"
  have k: "k \<le> length dst" by (simp add: k_def length_takeWhile_le)
  have ssid: "scan (\<lambda>ch. ch \<noteq> CHR ''-'' \<and> ch \<noteq> CHR '','' \<and> ch \<noteq> CHR '':'') s (length src + 1) ?pe =
      length src + 1 + k"
    by (simp add: scan_def sub1 [simplified] takeWhile_dst_via [OF vs(2,3)] k_def)
  have sub2: "sub s (length src + 1 + k) ?pe = drop k dst @ via"
    using k by (simp add: s header_line_def sub_def add.commute [of k])
  have vstart: "scan (\<lambda>ch. ch \<noteq> CHR '','' \<and> ch \<noteq> CHR '':'') s (length src + 1 + k) ?pe =
      length src + 1 + length dst"
    using k takeWhile_dst_via(2) [OF vs(2,3), of k] sub2 by (simp add: scan_def)
  have dst: "sub s (length src + 1) (length src + 1 + length dst) = dst" by (simp add: s header_line_def sub_def)
  have fields: "check_path_calls s (length src + 1 + length dst) ?pe \<noteq> -1"
  proof -
    have "sub s (length src + 1 + length dst + 1) ?pe = drop 1 via"
      by (cases via) (simp_all add: s header_line_def sub_def)
    then show ?thesis
      using ok check_path_calls_eq [of ?pe s "length src + 1 + length dst"]
      by (simp add: s header_line_def)
  qed
  have nogate: "\<not> digi_path_drop s (length src + 1 + length dst) (?pe - (length src + 1 + length dst))"
    using ok memmem_middle [of s "src @ CHR ''>'' # dst" via "CHR '':'' # info"]
    by (simp add: digi_path_drop_def s header_line_def)
  have tp: "\<not> third_party_ip s ?pe"
    using ok third_party_ip_info [OF s1] by (simp add: add.assoc)
  have src: "take (length src) s = src" and lens: "length s = ?pe + 1 + length info"
    by (simp_all add: s header_line_def)
  have more: "\<not> length s < PACKETLEN_MIN - 2" "info \<noteq> []" "src_allowed env cfg src" using ok s by auto
  obtain pe ps vst ss where eqs: "pe = ?pe" "ps = length src + 1" "vst = length src + 1 + length dst"
    "ss = length src + 1 + k" by blast
  have hdr: "header_of c src dst via = \<lparr>ih_src_len = length src, ih_path_end = pe,
      ih_dstcall_end_or_ssid = ss, ih_via_start = vst, ih_originated = (c_username c = src)\<rparr>"
    by (simp add: header_of_def eqs k_def)
  have body: "\<not> length s \<le> ps" "\<not> length s \<le> pe + 1" using lens more(2) by (auto simp: eqs Suc_le_eq)
  have calls: "check_invalid_src_dst src = 0" "check_invalid_src_dst (sub s ps vst) = 0"
    using vs dst check_invalid_src_dst_valid by (simp_all add: eqs)
  have glob: "\<not> (case disallow_srccall_glob cfg of None \<Rightarrow> False
      | Some pats \<Rightarrow> check_call_glob_match (env_fnmatch env) pats (take (length src) s) \<noteq> 0)"
    and prefix: "check_call_prefix_match disallow_srccalls src = 0"
    using more(3) src by (auto simp: src_allowed_def split: option.splits)
  note facts = pe se ssid vstart fields nogate tp
  note facts' = facts [folded eqs(1), folded eqs(3,4), folded eqs(2)]
  show ?thesis
    unfolding incoming_header_def hdr Let_def
    using more(1) facts' body calls glob prefix by (simp add: src eqs(2) [symmetric] del: One_nat_def)
qed
lemma header_sound:
  assumes "incoming_header env cfg c s = Inr h"
  shows "\<exists>src dst via info. s = header_line src dst via info \<and> header_ok env cfg src dst via info"
proof -
  let ?n = "\<lambda>pe. if pe < CALLSIGNLEN_MAX + 1 then pe else CALLSIGNLEN_MAX + 1"
  let ?ss = "\<lambda>ps pe. scan (\<lambda>ch. ch \<noteq> CHR ''-'' \<and> ch \<noteq> CHR '','' \<and> ch \<noteq> CHR '':'') s ps pe"
  let ?vs = "\<lambda>ps pe. scan (\<lambda>ch. ch \<noteq> CHR '','' \<and> ch \<noteq> CHR '':'') s (?ss ps pe) pe"
  obtain pe sl where pe: "memchr s 0 (length s) (CHR '':'') = Some pe"
    and sl: "memchr s 0 (?n pe) (CHR ''>'') = Some sl"
    using assms by (auto simp: incoming_header_def split: if_splits option.splits)
  define vs where "vs = ?vs (sl + 1) pe"
  have R: "PACKETLEN_MIN - 2 \<le> length s" "check_invalid_src_dst (take sl s) = 0" "src_allowed env cfg (take sl s)"
    "pe + 1 < length s" "check_invalid_src_dst (sub s (sl + 1) vs) = 0"
    "\<not> digi_path_drop s vs (pe - vs)" "check_path_calls s vs pe \<noteq> -1" "\<not> third_party_ip s pe"
    using assms unfolding incoming_header_def pe option.case sl Let_def vs_def [symmetric]
    by (auto simp: src_allowed_def split: if_splits option.split)
  have slt: "sl < pe" using memchr_Some(2) [OF sl] by (auto split: if_splits)
  have order: "sl + 1 \<le> vs" "vs \<le> pe"
  proof -
    have "sl + 1 \<le> ?ss (sl + 1) pe" "?ss (sl + 1) pe \<le> pe" using slt by (simp_all add: scan_le)
    then show "sl + 1 \<le> vs" "vs \<le> pe" unfolding vs_def using scan_ge scan_le order_trans by blast+
  qed
  note peS = memchr_Some [OF pe] and slS = memchr_Some [OF sl]
  let ?src = "take sl s" and ?dst = "sub s (sl + 1) vs" and ?via = "sub s vs pe" and ?info = "drop (pe + 1) s"
  have split: "s = header_line ?src ?dst ?via ?info"
  proof -
    have "drop (sl + 1) s = ?dst @ drop vs s"
      using order(1) by (simp add: sub_def) (metis add_Suc_right append_take_drop_id drop_drop le_add_diff_inverse plus_1_eq_Suc add.commute)
    moreover have "drop vs s = ?via @ drop pe s"
      using order(2) by (simp add: sub_def) (metis append_take_drop_id drop_drop le_add_diff_inverse2)
    moreover have "drop pe s = CHR '':'' # ?info" using peS(3,4) Cons_nth_drop_Suc [of pe s] by simp
    moreover have "drop sl s = CHR ''>'' # drop (sl + 1) s" using slS(3,4) Cons_nth_drop_Suc [of sl s] by simp
    ultimately show ?thesis unfolding header_line_def by (metis append_take_drop_id)
  qed
  have no_colon: "CHR '':'' \<notin> set ?via"
    using peS(5) order R(4) by (auto simp: in_set_conv_nth nth_sub)
  have via: "?via = [] \<or> hd ?via = CHR '',''"
  proof (cases "vs = pe")
    case False
    then have "vs < pe" using order by simp
    then have "\<not> (s ! vs \<noteq> CHR '','' \<and> s ! vs \<noteq> CHR '':'')"
      using R(4) unfolding vs_def by (intro scan_stop) auto
    moreover have "s ! vs \<noteq> CHR '':''" using peS(5) \<open>vs < pe\<close> by simp
    ultimately show ?thesis using \<open>vs < pe\<close> R(4) by (simp add: sub_def hd_drop_conv_nth)
  qed simp
  have "path_fields_ok (comma_fields (drop 1 ?via))"
    using R(7) check_path_calls_eq [of pe s vs] R(4) by (auto simp: sub_def drop_take split: if_splits)
  moreover have "find_sub '',NOGATE'' ?via = None \<and> find_sub '',RFONLY'' ?via = None"
    using R(6) by (simp add: digi_path_drop_def memmem_def sub_def)
  moreover have "\<not> third_party_info ?info"
  proof -
    have "s = take pe s @ CHR '':'' # ?info"
      using peS(3,4) id_take_nth_drop [of pe s] by simp
    from third_party_ip_info [OF this] show ?thesis using R(4,8) by simp
  qed
  ultimately have "header_ok env cfg ?src ?dst ?via ?info"
    using R split no_colon via check_invalid_src_dst_valid unfolding header_ok_def by auto
  with split show ?thesis by blast
qed

text \<open>C31. The header check accepts exactly the lines \<^verbatim>\<open>SRC>DST,PATH:INFO\<close> of the grammar: valid and
  allowed source and destination, a path of valid callsigns without NOGATE or RFONLY, a
  non-empty information field that is not an internet third-party packet; and the offsets it
  finds are those of the parts.\<close>

theorem incoming_header_grammar:
  "incoming_header env cfg c s = Inr h \<longleftrightarrow>
     (\<exists>src dst via info. s = header_line src dst via info \<and> header_ok env cfg src dst via info \<and>
        h = header_of c src dst via)"
  using header_sound [of env cfg c s h] header_complete [of env cfg _ _ _ _ s c]
  by (metis sum.inject(2))

section \<open>Searching and rewriting\<close>

lemma rd_NUL_iff: "NUL \<notin> set s \<Longrightarrow> rd s i = NUL \<longleftrightarrow> length s \<le> i"
  by (metis linorder_not_le nth_mem rd_in rd_out)

lemma memcasestr_loop_sound:
  assumes "NUL \<notin> set needle" and "needle \<noteq> []" and "hp \<le> length hay"
    and "memcasestr_loop needle np ms hp (drop hp hay) = Some i"
    and "ms = None \<and> np = 0 \<or>
      (\<exists>m. ms = Some m \<and> m + np = hp \<and> np < length needle \<and>
         strcaseeq (take np (drop m hay)) (take np needle))"
  shows "i + length needle \<le> length hay \<and> strcaseeq (take (length needle) (drop i hay)) needle"
  using assms(3-)
proof (induction "length hay - hp" arbitrary: np ms hp)
  case (Suc k)
  then have hp: "hp < length hay" by simp
  then have d: "drop hp hay = hay ! hp # drop (Suc hp) hay" by (simp add: Cons_nth_drop_Suc)
  have np: "np < length needle" using Suc.prems(3) assms(2) by auto
  show ?case
  proof (cases "toupper (hay ! hp) = toupper (needle ! np)")
    case True
    obtain m where m: "(case ms of None \<Rightarrow> Some hp | Some m \<Rightarrow> Some m) = Some m" "m + np = hp"
      "strcaseeq (take np (drop m hay)) (take np needle)"
      using Suc.prems(3) by (auto simp: strcaseeq_def)
    have grow: "strcaseeq (take (Suc np) (drop m hay)) (take (Suc np) needle)"
      using m True np hp by (auto simp: strcaseeq_def take_Suc_conv_app_nth add.commute)
    show ?thesis
    proof (cases "Suc np = length needle")
      case True
      then have "i = m" using Suc.prems(2) m(1) np assms(1) \<open>toupper (hay ! hp) = toupper (needle ! np)\<close>
        by (simp add: d rd_NUL_iff)
      then show ?thesis using grow True m(2) hp by simp
    next
      case False
      then have "memcasestr_loop needle (Suc np) (Some m) (Suc hp) (drop (Suc hp) hay) = Some i"
        using Suc.prems(2) m(1) np assms(1) True by (simp add: d rd_NUL_iff)
      with Suc.hyps(2) hp m(2) False np grow show ?thesis by (intro Suc.hyps(1)) auto
    qed
  next
    case False
    then have "memcasestr_loop needle 0 None (Suc hp) (drop (Suc hp) hay) = Some i"
      using Suc.prems(2) np by (simp add: d)
    with Suc.hyps(2) hp show ?thesis by (intro Suc.hyps(1)) auto
  qed
qed simp

text \<open>A filter command is found where \<^verbatim>\<open>memcasestr\<close> says. The search is not complete: after a
  mismatch it does not look at the mismatching byte again, and misses the word behind a
  repetition of its first letter.\<close>

theorem memcasestr_sound:
  "(memcasestr ''filter'' s = Some i \<longrightarrow>
      i + 6 \<le> length s \<and> strcaseeq (take 6 (drop i s)) ''filter'') \<and>
   memcasestr ''filter'' ''#ffilter m/100'' = None"
proof
  show "memcasestr ''filter'' s = Some i \<longrightarrow>
      i + 6 \<le> length s \<and> strcaseeq (take 6 (drop i s)) ''filter''"
    using memcasestr_loop_sound [of "''filter''" 0 s 0 None i]
    by (simp add: memcasestr_def eval_nat_numeral)
  show "memcasestr ''filter'' ''#ffilter m/100'' = None"
    by (simp add: memcasestr_def byte_eval rd_def)
qed

theorem memcasestr_sound_witness: "strcaseeq (take 6 (drop 2 ''# FILTER m/100'')) ''filter''"
proof -
  have "memcasestr ''filter'' ''# FILTER m/100'' = Some 2" by (simp add: memcasestr_def byte_eval rd_def)
  with memcasestr_sound [of "''# FILTER m/100''" 2] show ?thesis by blast
qed

lemma quirk_path_length: "quirk_path p = Inr (out, rest) \<Longrightarrow> length out + length rest \<le> length p"
proof (induction p arbitrary: out rest rule: quirk_path.induct)
  case (1 p)
  let ?stop = "\<lambda>c. c \<noteq> CHR '','' \<and> c \<noteq> CHR '':'' \<and> c \<noteq> CHR '' ''"
  let ?rest = "dropWhile (\<lambda>c. c = CHR '' '') (dropWhile ?stop p)"
  have "length (takeWhile ?stop p) + length (dropWhile ?stop p) = length p"
    by (metis length_append takeWhile_dropWhile_id)
  then have len: "length (takeWhile ?stop p) + length ?rest \<le> length p"
    using length_dropWhile_le [of "\<lambda>c. c = CHR '' ''" "dropWhile ?stop p"] by linarith
  show ?case
  proof (cases "p = [] \<or> hd p = CHR '':''")
    case True
    then show ?thesis using 1(2) by (subst (asm) quirk_path.simps) auto
  next
    case False
    with 1(2) obtain c r where cr: "?rest = c # r"
      by (subst (asm) quirk_path.simps) (auto simp: Let_def split: list.splits)
    show ?thesis
    proof (cases "c = CHR '',''")
      case True
      with 1(2) False cr obtain out' where out': "quirk_path r = Inr (out', rest)"
        "out = takeWhile ?stop p @ CHR '','' # out'"
        by (subst (asm) quirk_path.simps) (auto simp: Let_def split: sum.splits prod.splits)
      have "length out' + length rest \<le> length r"
        using 1(1) [OF False refl refl refl cr True out'(1)] .
      then show ?thesis using len cr out'(2) by simp
    next
      case False
      then have "out = takeWhile ?stop p" "rest = ?rest"
        using 1(2) \<open>\<not> (p = [] \<or> hd p = CHR '':'')\<close> cr
        by (subst (asm) quirk_path.simps, auto simp: Let_def split: if_splits)+
      then show ?thesis using len by simp
    qed
  qed
qed

lemma quirk_path_clean:
  assumes "CHR '':'' \<notin> set p" and "CHR '' '' \<notin> set p"
  shows "quirk_path (p @ CHR '':'' # info) = Inr (p, CHR '':'' # info)"
  using assms
proof (induction "length p" arbitrary: p rule: less_induct)
  case less
  let ?stop = "\<lambda>c. c \<noteq> CHR '','' \<and> c \<noteq> CHR '':'' \<and> c \<noteq> CHR '' ''"
  show ?case
  proof (cases "CHR '','' \<in> set p")
    case False
    then have all: "\<forall>c \<in> set p. ?stop c" using less.prems by auto
    show ?thesis
    proof (cases p)
      case (Cons x xs)
      then show ?thesis using all takeWhile_append2 [of p ?stop] dropWhile_append2 [of p ?stop]
        by (subst quirk_path.simps) (simp add: Let_def)
    qed (subst quirk_path.simps, simp)
  next
    case True
    then obtain a b where ab: "p = a @ CHR '','' # b" "CHR '','' \<notin> set a" by (meson split_list_first)
    then have all: "\<forall>c \<in> set a. ?stop c" using less.prems by auto
    have IH: "quirk_path (b @ CHR '':'' # info) = Inr (b, CHR '':'' # info)"
      using less.prems ab by (intro less.hyps) auto
    have "hd (p @ CHR '':'' # info) \<noteq> CHR '':''" using less.prems ab by (cases a) auto
    then show ?thesis
      using all ab IH takeWhile_append2 [of a ?stop] dropWhile_append2 [of a ?stop]
      by (subst quirk_path.simps) (simp add: Let_def)
  qed
qed

lemma quirk_rewrite_length:
  assumes "quirk_rewrite s = Inr t"
  shows "length t \<le> length s"
proof -
  let ?tr = "\<lambda>c. c = CHR '' '' \<or> c = NUL" and ?stop = "\<lambda>c. c \<noteq> CHR ''>'' \<and> c \<noteq> CHR '' ''"
    and ?sp = "\<lambda>c. c = CHR '' ''"
  let ?p = "dropWhile ?tr s"
  obtain path rest where Q: "quirk_path (dropWhile ?sp (dropWhile ?stop ?p)) = Inr (path, rest)"
    "t = takeWhile ?stop ?p @ path @ rest"
    using assms by (auto simp: quirk_rewrite_def Let_def split: if_splits sum.splits prod.splits)
  have "length (takeWhile ?stop ?p) + length (dropWhile ?stop ?p) = length ?p"
    by (metis length_append takeWhile_dropWhile_id)
  moreover have "length ?p \<le> length s" by (rule length_dropWhile_le)
  moreover have "length (dropWhile ?sp (dropWhile ?stop ?p)) \<le> length (dropWhile ?stop ?p)"
    by (rule length_dropWhile_le)
  ultimately show ?thesis using Q(2) quirk_path_length [OF Q(1)] by simp
qed

text \<open>The rewriting for quirky clients never makes a packet longer, so that the buffer of 514
  bytes holds it with its terminator; and a packet without stray spaces in its header passes
  unchanged.\<close>

theorem quirk_rewrite_safe:
  "(quirk_rewrite s = Inr t \<and> length s \<le> PACKETLEN_MAX - 2 \<longrightarrow> length t + 1 \<le> PACKETLEN_MAX + 2) \<and>
   (src \<noteq> [] \<and> (\<forall>c \<in> set src. isalnum c \<or> c = CHR ''-'') \<and> CHR '':'' \<notin> set path \<and> CHR '' '' \<notin> set path \<longrightarrow>
      quirk_rewrite (src @ CHR ''>'' # path @ CHR '':'' # info) =
      Inr (src @ CHR ''>'' # path @ CHR '':'' # info))"
proof (intro conjI impI)
  assume "quirk_rewrite s = Inr t \<and> length s \<le> PACKETLEN_MAX - 2"
  then show "length t + 1 \<le> PACKETLEN_MAX + 2" using quirk_rewrite_length [of s t] by (simp add: len_defs)
next
  let ?stop = "\<lambda>c. c \<noteq> CHR ''>'' \<and> c \<noteq> CHR '' ''"
  assume A: "src \<noteq> [] \<and> (\<forall>c \<in> set src. isalnum c \<or> c = CHR ''-'') \<and> CHR '':'' \<notin> set path \<and> CHR '' '' \<notin> set path"
  have sp: "\<not> isalnum (CHR '' '')" by (simp add: ctype_defs byte_code_def)
  have all: "\<forall>c \<in> set src. ?stop c \<and> c \<noteq> NUL"
  proof
    fix c assume "c \<in> set src"
    then consider "isalnum c" | "c = CHR ''-''" using A by blast
    then show "?stop c \<and> c \<noteq> NUL" using sp by cases auto
  qed
  obtain x xs where src: "src = x # xs" using A by (cases src) auto
  have P: "quirk_path (CHR ''>'' # path @ CHR '':'' # info) = Inr (CHR ''>'' # path, CHR '':'' # info)"
    using quirk_path_clean [of "CHR ''>'' # path" info] A by simp
  have "dropWhile (\<lambda>c. c = CHR '' '' \<or> c = NUL) (src @ r) = src @ r" for r using src all by simp
  moreover have "takeWhile ?stop (src @ CHR ''>'' # r) = src" "dropWhile ?stop (src @ CHR ''>'' # r) = CHR ''>'' # r" for r
    using all takeWhile_append2 [of src ?stop] dropWhile_append2 [of src ?stop] by simp_all
  ultimately show "quirk_rewrite (src @ CHR ''>'' # path @ CHR '':'' # info) =
      Inr (src @ CHR ''>'' # path @ CHR '':'' # info)"
    using P src by (simp add: quirk_rewrite_def Let_def)
qed

theorem quirk_rewrite_safe_witness:
  "quirk_rewrite ''  OH2A >APRS ,WIDE :x'' = Inr ''OH2A>APRS,WIDE:x'' \<and>
   length ''OH2A>APRS,WIDE:x'' + 1 \<le> PACKETLEN_MAX + 2 \<and>
   quirk_rewrite ''OH2A>APRS,WIDE:x'' = Inr ''OH2A>APRS,WIDE:x''"
proof -
  have "quirk_rewrite ''  OH2A >APRS ,WIDE :x'' = Inr ''OH2A>APRS,WIDE:x''"
    by (simp add: quirk_rewrite_def Let_def quirk_path.simps)
  moreover have "quirk_rewrite ''OH2A>APRS,WIDE:x'' = Inr ''OH2A>APRS,WIDE:x''"
    using quirk_rewrite_safe [of _ _ "''OH2A''" "''APRS,WIDE''" "''x''"] by (simp add: byte_eval)
  ultimately show ?thesis
    using quirk_rewrite_safe [of "''  OH2A >APRS ,WIDE :x''" "''OH2A>APRS,WIDE:x''"] by (simp add: len_defs)
qed

theorem check_path_calls_fields_witness:
  "check_path_calls ''OH2A>APRS,WIDE,qAR,OH7LZB:x'' 9 25 = 3"
proof -
  have "comma_fields (sub ''OH2A>APRS,WIDE,qAR,OH7LZB:x'' (9 + 1) 25) = [''WIDE'', ''qAR'', ''OH7LZB'']"
    by (simp add: sub_def comma_fields.simps)
  moreover have "path_fields_ok [''WIDE'', ''qAR'', ''OH7LZB'']"
    by (simp add: path_fields_ok_def All_less_Suc2 is_q_field_def check_invalid_path_callsign_def Let_def
        len_defs byte_eval)
  ultimately show ?thesis using check_path_calls_fields [of 25 "''OH2A>APRS,WIDE,qAR,OH7LZB:x''" 9] by simp
qed

end
