(* ===== verification/Incoming_Parse.thy ===== *)
theory Incoming_Parse
  imports Incoming
begin

text \<open>
  \<^verbatim>\<open>incoming_parse\<close> and \<^verbatim>\<open>incoming_handler\<close> of \<^verbatim>\<open>src/src/incoming.c\<close>: from the line to the packet
  buffer in the worker's queue.
\<close>

definition PATH_APPEND_LEN :: nat where "PATH_APPEND_LEN = 600"

section \<open>Rebuilding the packet\<close>

definition incoming_new_len :: "nat \<Rightarrow> q_out \<Rightarrow> int" where
  "incoming_new_len len r =
     (case qo_replace r of
        Some q_replace \<Rightarrow> int len + int (qo_len r) - (int (qo_path_end r) - int q_replace) + 3
      | None \<Rightarrow> int len + int (qo_len r) + 3)"

text \<open>The number of bytes of the old header that are kept, \<^verbatim>\<open>p - pb->data\<close> after the first copy.\<close>

definition incoming_keep :: "q_out \<Rightarrow> nat" where
  "incoming_keep r = (case qo_replace r of Some q_replace \<Rightarrow> q_replace | None \<Rightarrow> qo_path_end r)"

definition incoming_data :: "nat \<Rightarrow> q_out \<Rightarrow> string" where
  "incoming_data pathlen r =
     take (incoming_keep r) (qo_data r) @ take (qo_len r) (qo_newq r) @ drop pathlen (qo_data r) @ CRLF"

text \<open>Where the q construct is: in the appended text, in the old header, or nowhere.\<close>

definition incoming_qconst :: "q_out \<Rightarrow> nat option" where
  "incoming_qconst r =
     (if qo_start r = Q_Null \<and> 0 < qo_len r then Some (incoming_keep r + 1)
      else case qo_start r of
             Q_At q \<Rightarrow> if 0 < q \<and> q < qo_path_end r then Some q else None
           | _ \<Rightarrow> None)"

text \<open>Upstream, downstream, or a return code with which the packet is freed.\<close>

definition incoming_class :: "client_t \<Rightarrow> int + u16" where
  "incoming_class c =
     (if c_state c = CSTATE_COREPEER \<or> has_flag (c_flags c) CLFLAGS_UPLINKPORT then Inr F_FROM_UPSTR
      else if has_flag (c_flags c) CLFLAGS_DUPEFEED then Inl 0
      else if has_flag (c_flags c) CLFLAGS_INPORT then Inr F_FROM_DOWNSTR
      else Inl (inerr_code INERR_CLASS_FAIL))"

definition incoming_fill ::
    "clientlist_t table \<Rightarrow> ctime \<Rightarrow> client_t \<Rightarrow> in_hdr \<Rightarrow> q_out \<Rightarrow> u16 \<Rightarrow> nat \<Rightarrow> pbuf_t \<Rightarrow> pbuf_t" where
  "incoming_fill cls tick c h r flags qconst pb0 =
     (let data = incoming_data (ih_path_end h) r;
          dupe = \<not> ih_originated h \<and>
                 clientlist_check_if_validated_client cls (take (ih_src_len h) (qo_data r)) \<noteq> -1
      in pb0\<lparr>pb_origin := c_id c, pb_t := tick,
             pb_flags := pb_flags pb0 OR flags OR (if dupe then F_DUPE else 0),
             pb_qconst_start := qconst, pb_data := data, pb_packet_len := length data,
             pb_srcname := take (ih_src_len h) data, pb_srccall_end := ih_src_len h,
             pb_dstcall_end_or_ssid := ih_dstcall_end_or_ssid h, pb_dstcall_end := ih_via_start h,
             pb_dstcall_len := ih_via_start h - ih_src_len h - 1,
             pb_info_start := incoming_keep r + qo_len r + 1\<rparr>)"

definition client_loc_update :: "client_t \<Rightarrow> pbuf_t \<Rightarrow> client_t" where
  "client_loc_update c pb =
     c\<lparr>c_lat := pb_lat pb, c_lng := pb_lng pb, c_cos_lat := pb_cos_lat pb, c_loc_known := True\<rparr>"

section \<open>After the parser\<close>

text \<open>What becomes of a filled buffer: the return code, the buffer, the client, and whether the
  buffer goes to the queue or back to the pool.\<close>

definition incoming_finish ::
    "in_env \<Rightarrow> config \<Rightarrow> string option \<Rightarrow> client_t \<Rightarrow> in_hdr \<Rightarrow> string \<Rightarrow> pbuf_t \<Rightarrow> int \<times> pbuf_t \<times> client_t \<times> bool" where
  "incoming_finish env cfg cell c h s pb1 =
     (let (rc, pb) = env_parse_aprs env pb1
      in if rc < 0 then (rc, pb, c, False)
         else if rc = 0 \<and> has_flag (pb_packettype pb) T_MESSAGE \<and> length (dstname_text pb) = 6 \<and>
                 strcaseeq (dstname_text pb) ''SERVER'' then
           (if \<not> ih_originated h then (rc, pb, c, False)
            else let (rc', c') = env_server_message env c pb in (rc', pb, c', False))
         else if has_flag (pb_packettype pb) T_QUERY then (inerr_code INERR_GENERAL_QUERY, pb, c, False)
         else
           let c1 = (if ih_originated h \<and> has_flag (pb_packettype pb) T_POSITION
                     then client_loc_update c pb else c)
           in if disallow_unverified cfg \<and> c_validated c1 = 0
              then (inerr_code INERR_DISALLOW_UNVERIFIED, pb, c1, False)
              else if disallow_unverified cfg \<and>
                      memmem s (ih_via_start h) (ih_path_end h - ih_via_start h) '',TCPXX'' \<noteq> None
              then (inerr_code INERR_DISALLOW_UNVERIFIED_PATH, pb, c1, False)
              else
                let pb2 = env_filter_preprocess_dupefilter env pb;
                    c2 = (if has_flag (c_flags c1) CLFLAGS_IGATE then client_heard_update cell pb2 c1 else c1)
                in (rc, pb2, c2, True))"

section \<open>The whole function\<close>

record in_state =
  is_worker :: worker_t
  is_arenas :: pbuf_arenas
  is_client :: client_t

definition igate_disallowed :: "in_env \<Rightarrow> config \<Rightarrow> q_out \<Rightarrow> bool" where
  "igate_disallowed env cfg r \<longleftrightarrow>
     (case disallow_igate_glob cfg of
        None \<Rightarrow> False
      | Some pats \<Rightarrow>
          (case qo_start r of
             Q_At q \<Rightarrow> q < qo_path_end r \<and>
               check_igate_calls (env_fnmatch env) pats (qo_data r) q (qo_path_end r) = -1
           | _ \<Rightarrow> False))"

text \<open>From the accepted q construct on: buffer, contents, parser, queue. None when a NULL pointer
  would be dereferenced.\<close>

definition incoming_packet ::
    "in_env \<Rightarrow> mmap \<Rightarrow> config \<Rightarrow> clientlist_t table \<Rightarrow> ctime \<Rightarrow> string option \<Rightarrow> in_hdr \<Rightarrow> q_out \<Rightarrow> nat \<Rightarrow>
     in_state \<Rightarrow> (int \<times> in_state) option" where
  "incoming_packet env mm cfg cls tick cell h r len st =
     (if igate_disallowed env cfg r then Some (inerr_code INERR_DIS_IGATECALL, st)
      else if int PACKETLEN_MAX_LARGE < incoming_new_len len r then Some (inerr_code INERR_LONG_PACKET, st)
      else
        case pbuf_get mm (nat (incoming_new_len len r)) (is_worker st) (is_arenas st) of
          None \<Rightarrow> None
        | Some (None, w, g) \<Rightarrow>
            Some (inerr_code INERR_OUT_OF_PBUFS, st\<lparr>is_worker := w, is_arenas := g\<rparr>)
        | Some (Some pb0, w, g) \<Rightarrow>
            let st1 = st\<lparr>is_worker := w, is_arenas := g\<rparr>;
                free = (\<lambda>rc pb c. Some (rc, st1\<lparr>is_worker := pbuf_free w pb, is_client := c\<rparr>))
            in (case incoming_class (is_client st) of
                  Inl rc \<Rightarrow> free rc pb0 (is_client st)
                | Inr flags \<Rightarrow>
                    (case incoming_qconst r of
                       None \<Rightarrow> free (inerr_code INERR_Q_BUG) pb0 (is_client st)
                     | Some qconst \<Rightarrow>
                         let pb1 = incoming_fill cls tick (is_client st) h r flags qconst pb0;
                             (rc, pb2, c', queued) = incoming_finish env cfg cell (is_client st) h (qo_data r) pb1
                         in if queued then
                              Some (rc, st1\<lparr>is_client := c',
                                 is_worker := w\<lparr>w_pbuf_incoming_local := w_pbuf_incoming_local w @ [pb2],
                                   w_pbuf_incoming_local_count := w_pbuf_incoming_local_count w + 1\<rparr>\<rparr>)
                            else free rc pb2 c')))"

definition incoming_parse ::
    "in_env \<Rightarrow> mmap \<Rightarrow> config \<Rightarrow> clientlist_t table \<Rightarrow> ctime \<Rightarrow> string option \<Rightarrow> in_state \<Rightarrow> string \<Rightarrow>
     (int \<times> in_state) option" where
  "incoming_parse env mm cfg cls tick cell st s0 =
     (let c = is_client st
      in case (if c_quirks_mode c then quirk_rewrite s0 else Inr s0) of
           Inl e \<Rightarrow> Some (inerr_code e, st)
         | Inr s \<Rightarrow>
             (case incoming_header env cfg c s of
                Inl e \<Rightarrow> Some (inerr_code e, st)
              | Inr h \<Rightarrow>
                  (case q_process cfg cls c s PATH_APPEND_LEN (ih_via_start h) (ih_path_end h)
                          (ih_path_end h) (ih_originated h) of
                     Q_Fault \<Rightarrow> None
                   | Q_Drop e \<Rightarrow> Some (inerr_code e, st)
                   | Q_Accept r \<Rightarrow> incoming_packet env mm cfg cls tick cell h r (length s) st)))"

text \<open>\<^verbatim>\<open>incoming_handler\<close>: too long lines, comments and filter commands first. \<open>filter_cmd\<close> is
  \<^verbatim>\<open>filter_commands\<close>; the result is the error to account for the packet, None when it is no packet.\<close>

definition incoming_handler ::
    "in_env \<Rightarrow> mmap \<Rightarrow> config \<Rightarrow> clientlist_t table \<Rightarrow> ctime \<Rightarrow> string option \<Rightarrow>
     (string \<Rightarrow> in_state \<Rightarrow> in_state) \<Rightarrow> bool \<Rightarrow> in_state \<Rightarrow> string \<Rightarrow> (int option \<times> in_state) option" where
  "incoming_handler env mm cfg cls tick cell filter_cmd is_udp st s =
     (if PACKETLEN_MAX - 2 < length s then Some (Some (inerr_code INERR_LONG_PACKET), st)
      else if rd s 0 = CHR ''#'' then
        (if \<not> is_udp \<and> has_flag (c_flags (is_client st)) CLFLAGS_USERFILTEROK then
           (case memcasestr ''filter'' s of
              None \<Rightarrow> Some (None, st)
            | Some i \<Rightarrow> Some (None, filter_cmd (drop i s) st))
         else Some (None, st))
      else
        case incoming_parse env mm cfg cls tick cell st s of
          None \<Rightarrow> None
        | Some (e, st') \<Rightarrow> Some (Some (if e < 0 then e else 0), st'))"

section \<open>The buffer is large enough\<close>

lemma header_of_bounds:
  assumes "header_ok env cfg src dst via info" and "s = header_line src dst via info"
    and "h = header_of c src dst via"
  shows "ih_via_start h \<le> ih_path_end h" and "ih_path_end h + 1 < length s"
    and "no_comma_before s (ih_via_start h)" and "s ! ih_path_end h = CHR '':''"
    and "ih_src_len h + 1 < ih_via_start h" and "ih_src_len h \<le> CALLSIGNLEN_MAX"
proof -
  have calls: "valid_call src" "valid_call dst" "info \<noteq> []" using assms(1) by (auto simp: header_ok_def)
  show "ih_via_start h \<le> ih_path_end h" by (simp add: assms(3) header_of_def)
  show "ih_path_end h + 1 < length s" using calls by (simp add: assms(2,3) header_of_def header_line_def)
  show "ih_src_len h + 1 < ih_via_start h" "ih_src_len h \<le> CALLSIGNLEN_MAX"
    using calls by (auto simp: assms(3) header_of_def valid_call_def)
  show "s ! ih_path_end h = CHR '':''"
    by (simp add: assms(2,3) header_of_def header_line_def nth_append)
  show "no_comma_before s (ih_via_start h)"
    unfolding no_comma_before_def
  proof (intro allI impI)
    fix j assume j: "j < ih_via_start h"
    have "CHR '','' \<notin> set (src @ CHR ''>'' # dst)"
      using valid_call_no [OF calls(1)] valid_call_no [OF calls(2)] by simp
    moreover have "s ! j \<in> set (src @ CHR ''>'' # dst)"
    proof -
      have "j < length (src @ CHR ''>'' # dst)" using j by (simp add: assms(3) header_of_def)
      moreover have "s = (src @ CHR ''>'' # dst) @ via @ CHR '':'' # info"
        by (simp add: assms(2) header_line_def)
      ultimately show ?thesis by (metis nth_append nth_mem)
    qed
    moreover have "j < length s" using j by (simp add: assms(2,3) header_of_def header_line_def)
    ultimately show "rd s j \<noteq> CHR '',''" by (metis rd_in)
  qed
qed

lemma header_bounds:
  assumes "incoming_header env cfg c s = Inr h"
  shows "ih_via_start h \<le> ih_path_end h" and "ih_path_end h + 1 < length s"
    and "no_comma_before s (ih_via_start h)" and "s ! ih_path_end h = CHR '':''"
    and "ih_src_len h + 1 < ih_via_start h" and "ih_src_len h \<le> CALLSIGNLEN_MAX"
proof -
  obtain src dst via info where H: "header_ok env cfg src dst via info" "s = header_line src dst via info"
    using header_sound [OF assms] by blast
  have "h = header_of c src dst via" using header_complete [OF H, of c] assms by simp
  note B = header_of_bounds [OF H this]
  from B show "ih_via_start h \<le> ih_path_end h" "ih_path_end h + 1 < length s"
    "no_comma_before s (ih_via_start h)" "s ! ih_path_end h = CHR '':''"
    "ih_src_len h + 1 < ih_via_start h" "ih_src_len h \<le> CALLSIGNLEN_MAX" by auto
qed

text \<open>The limits on the names the server and its clients go by.\<close>

definition names_ok :: "config \<Rightarrow> client_t \<Rightarrow> bool" where
  "names_ok cfg c \<longleftrightarrow> length (serverid cfg) \<le> 9 \<and> length (c_username c) \<le> 15 \<and> length (c_addr_hex c) \<le> 35"

lemma incoming_q:
  assumes "incoming_header env cfg c s = Inr h" and "length s \<le> PACKETLEN_MAX - 2" and "names_ok cfg c"
    and "q_process cfg cls c s PATH_APPEND_LEN (ih_via_start h) (ih_path_end h) (ih_path_end h) orig = Q_Accept r"
  shows "q_out_ok s (ih_via_start h) (ih_path_end h) r" and "length (qo_newq r) = qo_len r"
    and "qo_len r < PATH_APPEND_LEN"
proof -
  note B = header_bounds [OF assms(1)]
  note q = assms(4) [unfolded PATH_APPEND_LEN_def]
  show "q_out_ok s (ih_via_start h) (ih_path_end h) r" by (rule q_process_out_ok [OF B(1,3) q])
  have "length (qo_newq r) = qo_len r \<and> qo_len r < 600"
    using B(2) assms(2,3) by (intro q_process_sized [OF B(1,3) q]) (auto simp: names_ok_def len_defs)
  then show "length (qo_newq r) = qo_len r" "qo_len r < PATH_APPEND_LEN" by (auto simp: PATH_APPEND_LEN_def)
qed

lemma incoming_keep_bounds:
  assumes "q_out_ok s via path_end r"
  shows "via \<le> incoming_keep r" and "incoming_keep r \<le> qo_path_end r" and "qo_path_end r \<le> path_end"
    and "length (qo_data r) = length s"
  using assms by (auto simp: q_out_ok_def incoming_keep_def split: option.splits)

lemma incoming_data_len:
  assumes "q_out_ok s via path_end r" and "length (qo_newq r) = qo_len r" and "path_end \<le> length s"
  shows "length (incoming_data path_end r) = incoming_keep r + qo_len r + (length s - path_end) + 2"
  using assms incoming_keep_bounds [OF assms(1)] by (simp add: incoming_data_def)

text \<open>C28. No buffer overrun. For every line the handler lets through, the rebuilt packet with its CR,
  LF and NUL is at most the length the buffer is asked for, and the bytes copied from the q
  construct buffer are bytes written there.\<close>

theorem incoming_data_fits:
  assumes "incoming_header env cfg c s = Inr h" and "length s \<le> PACKETLEN_MAX - 2" and "names_ok cfg c"
    and "q_process cfg cls c s PATH_APPEND_LEN (ih_via_start h) (ih_path_end h) (ih_path_end h) orig = Q_Accept r"
  shows "int (length (incoming_data (ih_path_end h) r)) + 1 \<le> incoming_new_len (length s) r \<and>
    qo_len r \<le> length (qo_newq r) \<and> qo_len r < PATH_APPEND_LEN"
proof -
  note Q = incoming_q [OF assms] and B = header_bounds [OF assms(1)]
  note K = incoming_keep_bounds [OF Q(1)]
  have "length (incoming_data (ih_path_end h) r) = incoming_keep r + qo_len r + (length s - ih_path_end h) + 2"
    using Q B(2) by (intro incoming_data_len) auto
  then show ?thesis
    using Q(2,3) K B(2) by (auto simp: incoming_new_len_def incoming_keep_def split: option.splits)
qed

section \<open>The packet in the buffer\<close>

text \<open>A packet buffer is well formed: the text fits with its NUL and ends in CR LF, and the pointers
  go through source, destination, path and information field in this order.\<close>

definition packet_wf :: "pbuf_t \<Rightarrow> bool" where
  "packet_wf pb \<longleftrightarrow>
     pb_packet_len pb = length (pb_data pb) \<and> length (pb_data pb) + 1 \<le> pb_buf_len pb \<and>
     drop (pb_packet_len pb - 2) (pb_data pb) = CRLF \<and>
     0 < pb_srccall_end pb \<and> pb_srccall_end pb \<le> CALLSIGNLEN_MAX \<and>
     pb_data pb ! pb_srccall_end pb = CHR ''>'' \<and>
     pb_srccall_end pb < pb_dstcall_end_or_ssid pb \<and> pb_dstcall_end_or_ssid pb \<le> pb_dstcall_end pb \<and>
     pb_dstcall_end pb < pb_info_start pb \<and> pb_info_start pb < pb_packet_len pb - 2 \<and>
     pb_data pb ! (pb_info_start pb - 1) = CHR '':'' \<and> pb_qconst_start pb < pb_info_start pb"

lemma header_src:
  assumes "incoming_header env cfg c s = Inr h"
  shows "0 < ih_src_len h" and "s ! ih_src_len h = CHR ''>''"
    and "ih_src_len h < ih_dstcall_end_or_ssid h" and "ih_dstcall_end_or_ssid h \<le> ih_via_start h"
proof -
  obtain src dst via info where H: "header_ok env cfg src dst via info" "s = header_line src dst via info"
    using header_sound [OF assms] by blast
  have h: "h = header_of c src dst via" using header_complete [OF H, of c] assms by simp
  have "src \<noteq> []" using H(1) by (auto simp: header_ok_def valid_call_def)
  then show "0 < ih_src_len h" "s ! ih_src_len h = CHR ''>''"
    by (simp_all add: h header_of_def H(2) header_line_def nth_append)
  show "ih_src_len h < ih_dstcall_end_or_ssid h" "ih_dstcall_end_or_ssid h \<le> ih_via_start h"
    by (simp_all add: h header_of_def length_takeWhile_le)
qed

lemma incoming_fill_wf:
  assumes hdr: "incoming_header env cfg c s = Inr h" and "length s \<le> PACKETLEN_MAX - 2" and "names_ok cfg c"
    and "q_process cfg cls c s PATH_APPEND_LEN (ih_via_start h) (ih_path_end h) (ih_path_end h) orig = Q_Accept r"
    and "incoming_qconst r = Some q" and "incoming_new_len (length s) r \<le> int (pb_buf_len pb0)"
  shows "packet_wf (incoming_fill cls tick c h r flags q pb0)"
    and "take (ih_via_start h) (pb_data (incoming_fill cls tick c h r flags q pb0)) = take (ih_via_start h) s"
proof -
  note Q = incoming_q [OF assms(1-4)] and B = header_bounds [OF hdr] and S = header_src [OF hdr]
  note K = incoming_keep_bounds [OF Q(1)]
  let ?d = "incoming_data (ih_path_end h) r"
  let ?k = "incoming_keep r"
  have dlen: "length ?d = ?k + qo_len r + (length s - ih_path_end h) + 2"
    using Q B(2) by (intro incoming_data_len) auto
  have fit: "length ?d + 1 \<le> pb_buf_len pb0"
    using dlen assms(6) K B(2) by (auto simp: incoming_new_len_def incoming_keep_def split: option.splits)
  have keep: "take (ih_via_start h) ?d = take (ih_via_start h) s"
    using K B(1,2) Q(1) by (simp add: incoming_data_def q_out_ok_def take_take min_def)
  have src: "?d ! ih_src_len h = CHR ''>''"
  proof -
    have "ih_src_len h < ih_via_start h" using B(5) by simp
    then show ?thesis using keep S(2) by (metis nth_take)
  qed
  have colon: "?d ! (?k + qo_len r) = CHR '':''"
  proof -
    have "drop (ih_path_end h) (qo_data r) = CHR '':'' # drop (ih_path_end h + 1) s"
      using Q(1) B(2,4) Cons_nth_drop_Suc [of "ih_path_end h" s] by (simp add: q_out_ok_def)
    then have "?d = (take ?k (qo_data r) @ take (qo_len r) (qo_newq r)) @ CHR '':'' # drop (ih_path_end h + 1) s @ CRLF"
      by (simp add: incoming_data_def)
    moreover have "length (take ?k (qo_data r) @ take (qo_len r) (qo_newq r)) = ?k + qo_len r"
      using K B(2) Q(2) by simp
    ultimately show ?thesis by (metis nth_append_length)
  qed
  have crlf: "drop (length ?d - 2) ?d = CRLF" by (simp add: incoming_data_def)
  have qc: "q < ?k + qo_len r + 1"
  proof -
    have "q = ?k + 1 \<and> 0 < qo_len r \<or> q < qo_path_end r \<and> qo_start r = Q_At q"
      using assms(5) by (auto simp: incoming_qconst_def split: if_splits q_ptr.splits)
    then show ?thesis using Q(1) by (auto simp: q_out_ok_def incoming_keep_def split: option.splits)
  qed
  have "pb_buf_len (incoming_fill cls tick c h r flags q pb0) = pb_buf_len pb0"
    by (simp add: incoming_fill_def Let_def)
  then show "packet_wf (incoming_fill cls tick c h r flags q pb0)"
    using S B K fit crlf src colon qc dlen unfolding packet_wf_def by (auto simp: incoming_fill_def Let_def)
  show "take (ih_via_start h) (pb_data (incoming_fill cls tick c h r flags q pb0)) = take (ih_via_start h) s"
    using keep by (simp add: incoming_fill_def Let_def)
qed
section \<open>Buffers are neither lost nor shared\<close>

lemma pool_inv_same:
  assumes "pb_addr p = pb_addr q" and "pb_buf_len p = pb_buf_len q" and "pool_inv mm s (p # used)"
  shows "pool_inv mm s (q # used)"
proof -
  have "pbuf_class len (q # used) = pbuf_class len (p # used)" for len using assms(1,2) by simp
  moreover have "class_inv mm len pool ca (q # used) = class_inv mm len pool ca (p # used)" for len pool ca
    unfolding class_inv_def calculation ..
  ultimately show ?thesis using assms by (simp add: pool_inv_def)
qed

lemma pbuf_get_keeps:
  "pbuf_get mm n w g = Some (r, w', g') \<Longrightarrow>
     w_pbuf_incoming_local w' = w_pbuf_incoming_local w \<and>
     w_pbuf_incoming_local_count w' = w_pbuf_incoming_local_count w"
  by (auto simp: pbuf_get_def split: if_splits)

lemma pbuf_free_keeps [simp]:
  "w_pbuf_incoming_local (pbuf_free w p) = w_pbuf_incoming_local w"
  by (simp add: pbuf_free_def)

lemma pool_inv_queue [simp]:
  "pool_inv mm (w\<lparr>w_pbuf_incoming_local := q, w_pbuf_incoming_local_count := n\<rparr>, g) used = pool_inv mm (w, g) used"
  by (simp add: pool_inv_def)

text \<open>The functions called on the way keep a packet where it is: they set its type, its names, its
  position and its hashes.\<close>

definition same_frame :: "pbuf_t \<Rightarrow> pbuf_t \<Rightarrow> bool" where
  "same_frame p q \<longleftrightarrow>
     pb_addr q = pb_addr p \<and> pb_buf_len q = pb_buf_len p \<and> pb_data q = pb_data p \<and>
     pb_packet_len q = pb_packet_len p \<and> pb_srccall_end q = pb_srccall_end p \<and>
     pb_dstcall_end_or_ssid q = pb_dstcall_end_or_ssid p \<and> pb_dstcall_end q = pb_dstcall_end p \<and>
     pb_qconst_start q = pb_qconst_start p \<and> pb_info_start q = pb_info_start p \<and>
     pb_origin q = pb_origin p \<and> pb_t q = pb_t p"

definition env_ok :: "in_env \<Rightarrow> bool" where
  "env_ok env \<longleftrightarrow>
     (\<forall>pb. same_frame pb (snd (env_parse_aprs env pb))) \<and>
     (\<forall>pb. same_frame pb (env_filter_preprocess_dupefilter env pb))"

lemma same_frame_trans: "same_frame p q \<Longrightarrow> same_frame q r \<Longrightarrow> same_frame p r"
  by (simp add: same_frame_def)

lemma same_frame_wf: "same_frame p q \<Longrightarrow> packet_wf p \<Longrightarrow> packet_wf q"
  by (auto simp: same_frame_def packet_wf_def)

lemma incoming_finish_frame:
  assumes "env_ok env" and "incoming_finish env cfg cell c h s pb1 = (rc, pb2, c', queued)"
  shows "same_frame pb1 pb2" and "queued \<Longrightarrow> 0 \<le> rc"
proof -
  obtain rc0 pb where P: "env_parse_aprs env pb1 = (rc0, pb)" by fastforce
  have 1: "same_frame pb1 pb" using assms(1) P by (metis env_ok_def snd_conv)
  have 2: "same_frame pb1 (env_filter_preprocess_dupefilter env pb)"
    using 1 assms(1) same_frame_trans by (auto simp: env_ok_def)
  show "same_frame pb1 pb2" "queued \<Longrightarrow> 0 \<le> rc"
    using assms(2) 1 2 by (auto simp: incoming_finish_def P Let_def split: if_splits prod.splits)
qed

lemma incoming_fill_frame [simp]:
  "pb_addr (incoming_fill cls tick c h r flags q pb0) = pb_addr pb0"
  "pb_buf_len (incoming_fill cls tick c h r flags q pb0) = pb_buf_len pb0"
  by (simp_all add: incoming_fill_def Let_def)

text \<open>What a call may do to the worker's queue, and that every buffer stays accounted for.\<close>

definition in_step_ok :: "mmap \<Rightarrow> pbuf_t list \<Rightarrow> in_state \<Rightarrow> int \<Rightarrow> in_state \<Rightarrow> bool" where
  "in_step_ok mm others st rc st' \<longleftrightarrow>
     pool_inv mm (is_worker st', is_arenas st') (w_pbuf_incoming_local (is_worker st') @ others) \<and>
     (w_pbuf_incoming_local (is_worker st') = w_pbuf_incoming_local (is_worker st) \<or>
      0 \<le> rc \<and> (\<exists>pb. packet_wf pb \<and>
        w_pbuf_incoming_local (is_worker st') = w_pbuf_incoming_local (is_worker st) @ [pb]))"

lemma in_step_free:
  assumes "pool_inv mm (w, g) (pb # w_pbuf_incoming_local (is_worker st) @ others)"
    and "pb_addr pb' = pb_addr pb" and "pb_buf_len pb' = pb_buf_len pb"
    and "w_pbuf_incoming_local w = w_pbuf_incoming_local (is_worker st)"
    and "is_worker st' = pbuf_free w pb'" and "is_arenas st' = g"
  shows "in_step_ok mm others st rc st'"
proof -
  have "pool_inv mm (w, g) (pb' # w_pbuf_incoming_local (is_worker st) @ others)"
    using assms(1-3) pool_inv_same [of pb pb'] by simp
  from pbuf_free_inv [OF this, of pb'] show ?thesis using assms(4-6) by (simp add: in_step_ok_def)
qed

lemma in_step_queue:
  assumes "pool_inv mm (w, g) (pb # w_pbuf_incoming_local (is_worker st) @ others)"
    and "pb_addr pb' = pb_addr pb" and "pb_buf_len pb' = pb_buf_len pb"
    and "w_pbuf_incoming_local w = w_pbuf_incoming_local (is_worker st)"
    and "packet_wf pb'" and "0 \<le> rc"
    and "is_worker st' = w\<lparr>w_pbuf_incoming_local := w_pbuf_incoming_local w @ [pb'], w_pbuf_incoming_local_count := n\<rparr>"
    and "is_arenas st' = g"
  shows "in_step_ok mm others st rc st'"
proof -
  have "pool_inv mm (w, g) (pb' # w_pbuf_incoming_local (is_worker st) @ others)"
    using assms(1-3) pool_inv_same [of pb pb'] by simp
  then have "pool_inv mm (w, g) ((w_pbuf_incoming_local (is_worker st) @ [pb']) @ others)"
    by (rule pool_inv_perm [THEN iffD1, rotated]) simp
  then show ?thesis using assms(4-8) by (simp add: in_step_ok_def)
qed

lemma in_step_refl:
  "pool_inv mm (is_worker st, is_arenas st) (w_pbuf_incoming_local (is_worker st) @ others) \<Longrightarrow>
     in_step_ok mm others st rc st"
  by (simp add: in_step_ok_def)

lemma incoming_packet_ok:
  assumes env: "env_ok env" and hdr: "incoming_header env cfg (is_client st) s = Inr h"
    and len: "length s \<le> PACKETLEN_MAX - 2" and names: "names_ok cfg (is_client st)"
    and q: "q_process cfg cls (is_client st) s PATH_APPEND_LEN (ih_via_start h) (ih_path_end h) (ih_path_end h) orig = Q_Accept r"
    and inv: "pool_inv mm (is_worker st, is_arenas st) (w_pbuf_incoming_local (is_worker st) @ others)"
  shows "\<exists>rc st'. incoming_packet env mm cfg cls tick cell h r (length s) st = Some (rc, st') \<and>
    in_step_ok mm others st rc st'"
proof (cases "igate_disallowed env cfg r \<or> int PACKETLEN_MAX_LARGE < incoming_new_len (length s) r")
  case True
  then show ?thesis using in_step_refl [OF inv] by (auto simp: incoming_packet_def)
next
  case False
  obtain r0 w g where G: "pbuf_get mm (nat (incoming_new_len (length s) r)) (is_worker st) (is_arenas st) = Some (r0, w, g)"
    and R: "case r0 of None \<Rightarrow> pool_inv mm (w, g) (w_pbuf_incoming_local (is_worker st) @ others)
     | Some pb \<Rightarrow> nat (incoming_new_len (length s) r) \<le> pb_buf_len pb \<and>
         pool_inv mm (w, g) (pb # w_pbuf_incoming_local (is_worker st) @ others)"
    using pbuf_get_inv [OF inv] by blast
  note K = pbuf_get_keeps [OF G]
  show ?thesis
  proof (cases r0)
    case None
    then show ?thesis using False G R K by (auto simp: incoming_packet_def in_step_ok_def)
  next
    case (Some pb0)
    have P: "nat (incoming_new_len (length s) r) \<le> pb_buf_len pb0"
      "pool_inv mm (w, g) (pb0 # w_pbuf_incoming_local (is_worker st) @ others)"
      using R Some by auto
    have free: "in_step_ok mm others st rc st'"
      if "pb_addr pb' = pb_addr pb0" "pb_buf_len pb' = pb_buf_len pb0"
        "is_worker st' = pbuf_free w pb'" "is_arenas st' = g" for rc pb' st'
      using in_step_free [OF P(2) that(1,2) _ that(3,4)] K by simp
    show ?thesis
    proof (cases "\<exists>flags qc. incoming_class (is_client st) = Inr flags \<and> incoming_qconst r = Some qc")
      case False
      then show ?thesis
        using \<open>\<not> (igate_disallowed env cfg r \<or> _)\<close> G Some free [of pb0]
        by (auto simp: incoming_packet_def Let_def split: sum.splits option.splits)
    next
      case True
      then obtain flags qc where C: "incoming_class (is_client st) = Inr flags" "incoming_qconst r = Some qc" by blast
      let ?pb1 = "incoming_fill cls tick (is_client st) h r flags qc pb0"
      obtain rc pb2 c' queued where F: "incoming_finish env cfg cell (is_client st) h (qo_data r) ?pb1 = (rc, pb2, c', queued)"
        by (metis prod_cases4)
      note fr = incoming_finish_frame [OF env F]
      have wf: "packet_wf ?pb1" using P(1) by (intro incoming_fill_wf(1) [OF hdr len names q C(2)]) simp
      have same: "pb_addr pb2 = pb_addr pb0" "pb_buf_len pb2 = pb_buf_len pb0"
        using fr(1) by (auto simp: same_frame_def)
      show ?thesis
        using False G Some C F free [OF same] in_step_queue [OF P(2) same _ same_frame_wf [OF fr(1) wf] fr(2)] K
        by (cases queued) (auto simp: incoming_packet_def Let_def)
    qed
  qed
qed


section \<open>Policies\<close>

text \<open>Every drop reason has a label of its own: the table of labels is as long as the error codes
  need, and no two reasons share one.\<close>

theorem incoming_strerror_labels:
  "length inerr_labels = INERR_BUCKETS \<and>
   (\<forall>e e'. incoming_strerror (inerr_code e) = incoming_strerror (inerr_code e') \<longleftrightarrow> e = e') \<and>
   (\<forall>e. incoming_strerror (inerr_code e) \<noteq> ''unknown'')"
proof -
  have len: "length inerr_labels = INERR_BUCKETS"
    by (simp add: inerr_labels_def INERR_BUCKETS_def INERR_MIN_def)
  have dist: "distinct inerr_labels" by (simp add: inerr_labels_def)
  have idx: "incoming_strerror (inerr_code e) = inerr_labels ! nat (- inerr_code e)"
    "0 < nat (- inerr_code e)" "nat (- inerr_code e) < length inerr_labels" for e
    using inerr_code_range [of e] len
    by (auto simp: incoming_strerror_def INERR_BUCKETS_def INERR_MIN_def)
  have inj: "inerr_code e = inerr_code e' \<longleftrightarrow> e = e'" for e e'
    by (cases e; cases e') simp_all
  have "incoming_strerror (inerr_code e) = incoming_strerror (inerr_code e') \<longleftrightarrow> e = e'" for e e'
    using idx [of e] idx [of e'] dist inj [of e e'] by (auto simp: nth_eq_iff_index_eq)
  moreover have "incoming_strerror (inerr_code e) \<noteq> ''unknown''" for e
  proof -
    have "inerr_labels ! 0 = ''unknown''" by (simp add: inerr_labels_def)
    then show ?thesis using idx [of e] dist by (metis gr_implies_not0 le0 le_less_trans nth_eq_iff_index_eq)
  qed
  ultimately show ?thesis using len by blast
qed

text \<open>With unverified logins disallowed, nothing an unverified client sends reaches the queue.\<close>

theorem incoming_unverified_dropped:
  assumes "disallow_unverified cfg" and "c_validated (is_client st) = 0"
    and "incoming_parse env mm cfg cls tick cell st s = Some (rc, st')"
  shows "w_pbuf_incoming_local (is_worker st') = w_pbuf_incoming_local (is_worker st)"
proof -
  have "\<not> snd (snd (snd (incoming_finish env cfg cell (is_client st) h s1 pb)))" for h s1 pb
    using assms(1,2) by (auto simp: incoming_finish_def client_loc_update_def Let_def split: prod.split)
  then have never: "incoming_finish env cfg cell (is_client st) h s1 pb \<noteq> (rc', pb2, c', True)" for h s1 pb rc' pb2 c'
    by (metis snd_conv)
  show ?thesis
    using assms(3)
    by (auto simp: incoming_parse_def incoming_packet_def Let_def never
        split: if_splits sum.splits q_ret.splits option.splits prod.splits dest!: pbuf_get_keeps)
qed

text \<open>Packets of a locally logged-in station that come in from anywhere else are marked as
  duplicates, and no others are: this is how a loop through another server is cut.\<close>

theorem incoming_marks_local_source:
  assumes "clientlist_inv cls" and "incoming_class c = Inr flags" and "pb_flags pb0 = 0"
  shows "has_flag (pb_flags (incoming_fill cls tick c h r flags q pb0)) F_DUPE \<longleftrightarrow>
     \<not> ih_originated h \<and> logged_in cls (take (ih_src_len h) (qo_data r))"
proof -
  have "flags = F_FROM_UPSTR \<or> flags = F_FROM_DOWNSTR"
    using assms(2) by (auto simp: incoming_class_def split: if_splits)
  then have "\<not> has_flag (flags OR 0) F_DUPE" "has_flag (flags OR F_DUPE) F_DUPE"
    by (auto simp: has_flag_def pflag_defs)
  then show ?thesis
    using assms(3) check_if_validated_client_iff [OF assms(1)] by (auto simp: incoming_fill_def Let_def)
qed

text \<open>The pointer to the q construct of a client's own packet does not point to it: the generated
  text begins with \<^verbatim>\<open>,TCPIP*\<close>, and the pointer is set to the byte after its first comma.\<close>

theorem incoming_qconst_misses:
  "(case q_process demo_config (\<lambda>_. []) demo_client ''OH7LZB>APRS,WIDE:x'' PATH_APPEND_LEN 11 16 16 True of
      Q_Accept r \<Rightarrow> (case incoming_qconst r of
         Some q \<Rightarrow> take 6 (drop q (incoming_data 16 r)) = ''TCPIP*'' | None \<Rightarrow> False)
    | _ \<Rightarrow> False)"
  by (simp add: PATH_APPEND_LEN_def demo_run_own incoming_qconst_def incoming_keep_def incoming_data_def
      snprintf_buf_def)

section \<open>Concrete runs\<close>

definition demo_env :: in_env where
  "demo_env = \<lparr>env_fnmatch = (\<lambda>_ _. False), env_parse_aprs = (\<lambda>pb. (0, pb)),
     env_server_message = (\<lambda>c _. (0, c)), env_filter_preprocess_dupefilter = (\<lambda>pb. pb)\<rparr>"

definition demo_state :: in_state where
  "demo_state = \<lparr>is_worker = demo_worker, is_arenas = demo_arenas, is_client = demo_client\<rparr>"

lemma demo_env_ok: "env_ok demo_env"
  by (simp add: env_ok_def demo_env_def same_frame_def)

lemma demo_header:
  "incoming_header demo_env demo_config demo_client ''OH2A>APRS,WIDE:x'' =
     Inr \<lparr>ih_src_len = 4, ih_path_end = 14, ih_dstcall_end_or_ssid = 9, ih_via_start = 9, ih_originated = False\<rparr>"
  by (simp add: incoming_header_def cstr_simps len_defs Let_def check_invalid_src_dst_def
      check_call_prefix_match_def disallow_srccalls_def demo_config_def digi_path_drop_def
      check_path_calls_def check_path_loop.simps check_invalid_path_callsign_def third_party_ip_def
      demo_client_def)

lemma demo_q:
  "q_process demo_config (\<lambda>_. []) demo_client ''OH2A>APRS,WIDE:x'' PATH_APPEND_LEN 9 14 14 False =
     Q_Accept (q_text 600 '',qAS,OH7LZB'' (q_base ''OH2A>APRS,WIDE:x'' 14))"
  by (simp add: PATH_APPEND_LEN_def demo_run_qAS)

lemma demo_names: "names_ok demo_config demo_client"
  by (simp add: names_ok_def demo_config_def demo_client_def)

theorem incoming_data_fits_witness:
  "int (length (incoming_data 14 (q_text 600 '',qAS,OH7LZB'' (q_base ''OH2A>APRS,WIDE:x'' 14)))) + 1 \<le>
     incoming_new_len (length ''OH2A>APRS,WIDE:x'') (q_text 600 '',qAS,OH7LZB'' (q_base ''OH2A>APRS,WIDE:x'' 14))"
  using incoming_data_fits [OF demo_header _ demo_names, of "\<lambda>_. []" False
      "q_text 600 '',qAS,OH7LZB'' (q_base ''OH2A>APRS,WIDE:x'' 14)"] demo_q
  by (simp add: len_defs)


theorem incoming_unverified_dropped_witness:
  "incoming_parse demo_env demo_mmap (demo_config\<lparr>disallow_unverified := True\<rparr>) (\<lambda>_. []) 5 None
     (demo_state\<lparr>is_client := demo_client\<lparr>c_validated := 0\<rparr>\<rparr>) ''OH2A'' =
     Some (inerr_code INERR_SHORT_PACKET, demo_state\<lparr>is_client := demo_client\<lparr>c_validated := 0\<rparr>\<rparr>) \<and>
   w_pbuf_incoming_local (is_worker (demo_state\<lparr>is_client := demo_client\<lparr>c_validated := 0\<rparr>\<rparr>)) =
     w_pbuf_incoming_local (is_worker demo_state)"
proof
  show run: "incoming_parse demo_env demo_mmap (demo_config\<lparr>disallow_unverified := True\<rparr>) (\<lambda>_. []) 5 None
     (demo_state\<lparr>is_client := demo_client\<lparr>c_validated := 0\<rparr>\<rparr>) ''OH2A'' =
     Some (inerr_code INERR_SHORT_PACKET, demo_state\<lparr>is_client := demo_client\<lparr>c_validated := 0\<rparr>\<rparr>)"
    by (simp add: incoming_parse_def demo_client_def incoming_header_def len_defs)
  from incoming_unverified_dropped [OF _ _ run]
  show "w_pbuf_incoming_local (is_worker (demo_state\<lparr>is_client := demo_client\<lparr>c_validated := 0\<rparr>\<rparr>)) =
     w_pbuf_incoming_local (is_worker demo_state)" by simp
qed

theorem incoming_marks_local_source_witness:
  "has_flag (pb_flags (incoming_fill (snd (clientlist_add demo_client (\<lambda>_. []))) 5 demo_client
      \<lparr>ih_src_len = 6, ih_path_end = 11, ih_dstcall_end_or_ssid = 11, ih_via_start = 11, ih_originated = False\<rparr>
      (q_base ''OH7LZB>APRS:x'' 11) F_FROM_DOWNSTR 0 (pbuf_zero 0 100))) F_DUPE"
proof -
  have add: "addable demo_client" by (simp add: addable_def demo_client_def)
  have inv: "clientlist_inv (snd (clientlist_add demo_client (\<lambda>_. [])))"
    by (rule clientlist_inv_add [OF clientlist_inv_empty add])
  have cl: "incoming_class demo_client = Inr F_FROM_DOWNSTR"
    by (simp add: incoming_class_def demo_client_def has_flag_def clflag_defs)
  have "logged_in (snd (clientlist_add demo_client (\<lambda>_. []))) ''OH7LZB''"
    unfolding logged_in_add [OF add] by (simp add: demo_client_def VALIDATED_WEAK_def)
  then show ?thesis
    using incoming_marks_local_source [OF inv cl, of "pbuf_zero 0 100"] by (simp add: pbuf_zero_def)
qed

end
