(* ===== verification/Dupecheck.thy ===== *)
theory Dupecheck
  imports Historydb Pbuf_Pool
begin

text \<open>
  \<^verbatim>\<open>src/src/dupecheck.c\<close>: the thread between the workers' inboxes and the global queues. It keeps
  the texts of recent packets, and of the variants that broken software makes of them, in a hash
  table; a packet whose text is in the table goes to the queue of duplicates, any other to the main
  queue. \<open>mm\<close> is the system's \<^verbatim>\<open>mmap\<close>; an outer \<^const>\<open>None\<close> is a NULL dereference in the
  allocator. A record is the \<^verbatim>\<open>len\<close> bytes at \<^verbatim>\<open>packet\<close>, whether they are in \<^verbatim>\<open>packetbuf\<close> or in
  memory of their own.
\<close>

record dupe_record_t =
  dr_addr :: nat
  dr_hash :: u32
  dr_t :: ctime
  dr_dtype :: nat
  dr_packet :: string

definition DTYPE_SPACE_TRIM :: nat where "DTYPE_SPACE_TRIM = 1"
definition DTYPE_STRIP_8BIT :: nat where "DTYPE_STRIP_8BIT = 2"
definition DTYPE_CLEAR_8BIT :: nat where "DTYPE_CLEAR_8BIT = 3"
definition DTYPE_SPACED_8BIT :: nat where "DTYPE_SPACED_8BIT = 4"
definition DTYPE_LOWDATA_STRIP :: nat where "DTYPE_LOWDATA_STRIP = 5"
definition DTYPE_LOWDATA_SPACED :: nat where "DTYPE_LOWDATA_SPACED = 6"
definition DTYPE_DEL_STRIP :: nat where "DTYPE_DEL_STRIP = 7"
definition DTYPE_DEL_SPACED :: nat where "DTYPE_DEL_SPACED = 8"
definition DTYPE_MAX :: nat where "DTYPE_MAX = 8"

lemmas dtype_defs = DTYPE_SPACE_TRIM_def DTYPE_STRIP_8BIT_def DTYPE_CLEAR_8BIT_def DTYPE_SPACED_8BIT_def
  DTYPE_LOWDATA_STRIP_def DTYPE_LOWDATA_SPACED_def DTYPE_DEL_STRIP_def DTYPE_DEL_SPACED_def DTYPE_MAX_def

definition DUPECHECK_DB_SIZE :: nat where "DUPECHECK_DB_SIZE = 8192"

definition dupecheck_bucket :: "u32 \<Rightarrow> nat" where
  "dupecheck_bucket hash =
     (let idx = hash; idx = idx XOR drop_bit 13 idx; idx = idx XOR drop_bit 26 idx
      in unat idx mod DUPECHECK_DB_SIZE)"

section \<open>Records\<close>

text \<open>The free chain \<^verbatim>\<open>dupecheck_free\<close> by address, the arena behind it, the gauge of records in use.\<close>

record dupe_cells =
  dc_free :: "nat list"
  dc_cells :: cellarena_t
  dc_gauge :: int

definition dupecheck_db_alloc :: "mmap \<Rightarrow> dupe_cells \<Rightarrow> (nat option \<times> dupe_cells) option" where
  "dupecheck_db_alloc mm dc =
     (case dc_free dc of
        a # rest \<Rightarrow> Some (Some a, dc\<lparr>dc_free := rest, dc_gauge := dc_gauge dc + 1\<rparr>)
      | [] \<Rightarrow>
          (case cellmalloc mm (dc_cells dc) of
             None \<Rightarrow> None
           | Some (None, ca) \<Rightarrow> Some (None, dc\<lparr>dc_cells := ca\<rparr>)
           | Some (Some a, ca) \<Rightarrow> Some (Some a, dc\<lparr>dc_cells := ca, dc_gauge := dc_gauge dc + 1\<rparr>)))"

definition dupecheck_db_free :: "dupe_cells \<Rightarrow> nat \<Rightarrow> dupe_cells" where
  "dupecheck_db_free dc a = dc\<lparr>dc_free := a # dc_free dc, dc_gauge := dc_gauge dc - 1\<rparr>"

text \<open>\<^verbatim>\<open>dupecheck_init\<close>; \<open>recsize\<close> and \<open>algn\<close> are the size and alignment of a record.\<close>

definition dupecheck_init :: "mmap \<Rightarrow> nat \<Rightarrow> nat \<Rightarrow> dupe_cells option" where
  "dupecheck_init mm recsize algn =
     map_option (\<lambda>ca. \<lparr>dc_free = [], dc_cells = ca, dc_gauge = 0\<rparr>)
       (cellinit mm recsize algn (CELLMALLOC_POLICY_LIFO OR CELLMALLOC_POLICY_NOMUTEX) 2048 0)"

section \<open>The table\<close>

record dupe_db =
  dd_table :: "dupe_record_t table"
  dd_cells :: dupe_cells
  dd_types :: "int list" \<comment> \<open>\<^verbatim>\<open>dupecheck_dupetypes\<close>\<close>

text \<open>One chain of \<^verbatim>\<open>dupecheck_cleanup\<close>: what is kept, and the cells with the others freed in turn.\<close>

definition dupe_expired :: "ctime \<Rightarrow> int \<Rightarrow> dupe_record_t \<Rightarrow> bool" where
  "dupe_expired tick storetime dp \<longleftrightarrow> dr_t dp < tick - storetime \<or> tick + storetime < dr_t dp"

fun cleanup_chain ::
    "ctime \<Rightarrow> int \<Rightarrow> dupe_record_t list \<Rightarrow> dupe_cells \<Rightarrow> dupe_record_t list \<times> dupe_cells" where
  "cleanup_chain tick storetime [] dc = ([], dc)"
| "cleanup_chain tick storetime (dp # dps) dc =
     (if dupe_expired tick storetime dp
      then cleanup_chain tick storetime dps (dupecheck_db_free dc (dr_addr dp))
      else let (keep, dc') = cleanup_chain tick storetime dps dc in (dp # keep, dc'))"

fun cleanup_buckets :: "ctime \<Rightarrow> int \<Rightarrow> nat list \<Rightarrow> dupe_db \<Rightarrow> dupe_db" where
  "cleanup_buckets tick storetime [] d = d"
| "cleanup_buckets tick storetime (i # js) d =
     (let (keep, dc) = cleanup_chain tick storetime (dd_table d i) (dd_cells d)
      in cleanup_buckets tick storetime js (d\<lparr>dd_table := (dd_table d)(i := keep), dd_cells := dc\<rparr>))"

definition dupecheck_cleanup :: "ctime \<Rightarrow> int \<Rightarrow> dupe_db \<Rightarrow> dupe_db" where
  "dupecheck_cleanup tick storetime d =
     cleanup_buckets tick storetime [0..<DUPECHECK_DB_SIZE] d"

text \<open>A new record at the tail of chain \<open>i\<close>, as \<^verbatim>\<open>dupecheck_append\<close> and the end of
  \<^verbatim>\<open>dupecheck_add_buf\<close> put it there; -1 when there is no memory.\<close>

definition dupe_put ::
    "mmap \<Rightarrow> ctime \<Rightarrow> nat \<Rightarrow> u32 \<Rightarrow> nat \<Rightarrow> string \<Rightarrow> dupe_db \<Rightarrow> (int \<times> dupe_db) option" where
  "dupe_put mm tick i hash dtype s d =
     (case dupecheck_db_alloc mm (dd_cells d) of
        None \<Rightarrow> None
      | Some (None, dc) \<Rightarrow> Some (-1, d\<lparr>dd_cells := dc\<rparr>)
      | Some (Some a, dc) \<Rightarrow>
          Some (0, d\<lparr>dd_cells := dc,
             dd_table := (dd_table d)(i := dd_table d i @
               [\<lparr>dr_addr = a, dr_hash = hash, dr_t = tick, dr_dtype = dtype, dr_packet = s\<rparr>])\<rparr>))"

definition dupecheck_append ::
    "mmap \<Rightarrow> ctime \<Rightarrow> u32 \<Rightarrow> string \<Rightarrow> string \<Rightarrow> dupe_db \<Rightarrow> (int \<times> dupe_db) option" where
  "dupecheck_append mm tick hash addr data d =
     dupe_put mm tick (dupecheck_bucket hash) hash 0 (addr @ data) d"

text \<open>The walk of \<^verbatim>\<open>dupecheck_add_buf\<close>: the chain with the first matching record renewed.\<close>

fun dupe_renew :: "ctime \<Rightarrow> u32 \<Rightarrow> string \<Rightarrow> dupe_record_t list \<Rightarrow> dupe_record_t list option" where
  "dupe_renew tick hash s [] = None"
| "dupe_renew tick hash s (dp # dps) =
     (if dr_hash dp = hash \<and> dr_packet dp = s then Some (dp\<lparr>dr_t := tick\<rparr> # dps)
      else map_option ((#) dp) (dupe_renew tick hash s dps))"

definition dupecheck_add_buf :: "mmap \<Rightarrow> ctime \<Rightarrow> string \<Rightarrow> nat \<Rightarrow> dupe_db \<Rightarrow> dupe_db option" where
  "dupecheck_add_buf mm tick s dtype d =
     (let hash = keyhash s 0; i = dupecheck_bucket hash
      in case dupe_renew tick hash s (dd_table d i) of
           Some dps \<Rightarrow> Some (d\<lparr>dd_table := (dd_table d)(i := dps)\<rparr>)
         | None \<Rightarrow> map_option snd (dupe_put mm tick i hash dtype s d))"

section \<open>Mangled variants\<close>

definition is_del :: "char \<Rightarrow> bool" where "is_del c \<longleftrightarrow> byte_code c = 0x7F"
definition is_low :: "char \<Rightarrow> bool" where "is_low c \<longleftrightarrow> schar c < 0x20 \<and> 0 < schar c"
definition clear_8bit :: "char \<Rightarrow> char" where "clear_8bit c = char_of (byte_code c mod 128)"

definition trim_spaces :: "string \<Rightarrow> string" where
  "trim_spaces ib = rev (dropWhile (\<lambda>c. c = CHR '' '') (rev ib))"

text \<open>The first scan: the three 8-bit variants, and whether there are DEL and low bytes.\<close>

fun mangle_8bit :: "string \<Rightarrow> string \<times> string \<times> string \<times> bool \<times> bool" where
  "mangle_8bit [] = ([], [], [], False, False)"
| "mangle_8bit (b # bs) =
     (let (tb1, tb2, tb3, have_del, have_low) = mangle_8bit bs;
          c = clear_8bit b
      in if b \<noteq> c then (tb1, c # tb2, CHR '' '' # tb3, is_del b \<or> have_del, is_low b \<or> have_low)
         else (c # tb1, c # tb2, c # tb3, is_del b \<or> have_del, is_low b \<or> have_low))"

text \<open>The later scans: selected bytes deleted, or replaced with a space.\<close>

fun mangle_sel :: "(char \<Rightarrow> bool) \<Rightarrow> string \<Rightarrow> string \<times> string" where
  "mangle_sel P [] = ([], [])"
| "mangle_sel P (c # cs) =
     (let (tb1, tb2) = mangle_sel P cs in if P c then (tb1, CHR '' '' # tb2) else (c # tb1, c # tb2))"

text \<open>A run of calls of \<^verbatim>\<open>dupecheck_add_buf\<close>, whose results are ignored.\<close>

fun add_bufs :: "mmap \<Rightarrow> ctime \<Rightarrow> (string \<times> nat) list \<Rightarrow> dupe_db \<Rightarrow> dupe_db option" where
  "add_bufs mm tick [] d = Some d"
| "add_bufs mm tick ((s, dtype) # rest) d =
     (case dupecheck_add_buf mm tick s dtype d of None \<Rightarrow> None | Some d' \<Rightarrow> add_bufs mm tick rest d')"

text \<open>The calls \<^verbatim>\<open>dupecheck_mangle_store\<close> makes for the packet \<open>ib\<close>, in their order.\<close>

definition mangle_bufs :: "string \<Rightarrow> (string \<times> nat) list" where
  "mangle_bufs ib =
     (let ilen = length ib;
          trimmed = trim_spaces ib;
          (tb1, tb2, tb3, have_del, have_low) = mangle_8bit ib;
          (low1, low2) = mangle_sel is_low ib;
          (del1, del2) = mangle_sel is_del ib
      in (if length trimmed \<noteq> ilen then [(trimmed, DTYPE_SPACE_TRIM)] else []) @
         (if length tb1 \<noteq> ilen
          then [(tb1, DTYPE_STRIP_8BIT), (tb2, DTYPE_CLEAR_8BIT), (tb3, DTYPE_SPACED_8BIT)] else []) @
         (if have_low \<and> length low1 \<noteq> ilen
          then [(low1, DTYPE_LOWDATA_STRIP), (low2, DTYPE_LOWDATA_SPACED)] else []) @
         (if have_del \<and> length del1 \<noteq> ilen
          then [(del1, DTYPE_DEL_STRIP), (del2, DTYPE_DEL_SPACED)] else []))"

definition dupecheck_mangle_store ::
    "mmap \<Rightarrow> ctime \<Rightarrow> string \<Rightarrow> string \<Rightarrow> dupe_db \<Rightarrow> (int \<times> dupe_db) option" where
  "dupecheck_mangle_store mm tick addr data d =
     (let ib = addr @ data
      in if PACKETLEN_MAX < length ib then Some (-1, d)
         else map_option (\<lambda>d'. (0, d')) (add_bufs mm tick (mangle_bufs ib) d))"

section \<open>One packet\<close>

text \<open>The globals the thread reads: the clock, \<^verbatim>\<open>dupefilter_storetime\<close>, \<^verbatim>\<open>lastposition_storetime\<close>,
  \<^verbatim>\<open>have_filtered_listeners\<close>, the queue expiration times, and whether the position database has
  room for a new cell.\<close>

record dupe_env =
  de_tick :: ctime
  de_storetime :: int
  de_lastpos :: int
  de_filtered :: bool
  de_expiration :: int
  de_dupe_expiration :: int
  de_hist_alloc :: bool

text \<open>The canonic form of a packet: the address up to the SSID of the destination, and the payload
  without its CRLF.\<close>

definition dupe_addr :: "pbuf_t \<Rightarrow> string" where
  "dupe_addr pb = take (pb_dstcall_end_or_ssid pb) (pb_data pb)"

definition dupe_data :: "pbuf_t \<Rightarrow> string" where
  "dupe_data pb = sub (pb_data pb) (pb_info_start pb) (pb_packet_len pb - 2)"

definition dupe_match :: "u32 \<Rightarrow> ctime \<Rightarrow> string \<Rightarrow> dupe_record_t \<Rightarrow> bool" where
  "dupe_match hash expiretime s dp \<longleftrightarrow> dr_hash dp = hash \<and> expiretime \<le> dr_t dp \<and> dr_packet dp = s"

definition dupecheck ::
    "mmap \<Rightarrow> dupe_env \<Rightarrow> history_cell_t table \<Rightarrow> pbuf_t \<Rightarrow> dupe_db \<Rightarrow> (int \<times> pbuf_t \<times> dupe_db) option" where
  "dupecheck mm env hist pb d =
     (let addr = dupe_addr pb; data = dupe_data pb;
          hash = keyhash data (keyhash addr 0);
          i = dupecheck_bucket hash
      in case find (dupe_match hash (de_tick env - de_storetime env) (addr @ data)) (dd_table d i) of
           Some dp \<Rightarrow>
             Some (int (unat F_DUPE),
                   filter_postprocess_dupefilter (de_tick env) (de_lastpos env) hist
                     (pb\<lparr>pb_flags := pb_flags pb OR F_DUPE\<rparr>),
                   if dr_dtype dp < DTYPE_MAX
                   then d\<lparr>dd_types := (dd_types d)[dr_dtype dp := dd_types d ! dr_dtype dp + 1]\<rparr> else d)
         | None \<Rightarrow>
             (case dupecheck_append mm (de_tick env) hash addr data d of
                None \<Rightarrow> None
              | Some (rc, d') \<Rightarrow>
                  if rc = -1 then Some (-1, pb, d')
                  else map_option (\<lambda>(_, d''). (0, pb, d''))
                         (dupecheck_mangle_store mm (de_tick env) addr data d')))"

section \<open>Sequence numbers\<close>

definition pbuf_seqnum_lag :: "u32 \<Rightarrow> u32 \<Rightarrow> int" where
  "pbuf_seqnum_lag seqnum pbuf_seq =
     (if pbuf_seq = 0 then 2000000000 else sint (seqnum - pbuf_seq))"

text \<open>\<^verbatim>\<open>outgoing_lag_report\<close>: the two lags and the higher one.\<close>

definition outgoing_lag_report :: "u32 \<Rightarrow> u32 \<Rightarrow> worker_t \<Rightarrow> int \<times> int \<times> int" where
  "outgoing_lag_report seqnum dupe_seqnum self =
     (let lag = pbuf_seqnum_lag seqnum (w_last_pbuf_seqnum self);
          dupelag = pbuf_seqnum_lag dupe_seqnum (w_last_pbuf_dupe_seqnum self);
          lag1 = (if lag = 2000000000 then 0 else lag);
          lag2 = (if dupelag = 2000000000 then 0 else dupelag)
      in (if lag1 < lag2 then lag2 else lag1, lag, dupelag))"

section \<open>The global queues\<close>

record dupe_state =
  ds_db :: dupe_db
  ds_hist :: "history_cell_t table"
  ds_arenas :: pbuf_arenas
  ds_seqnum :: u32
  ds_dupe_seqnum :: u32
  ds_global :: "pbuf_t list"
  ds_global_count :: int
  ds_global_dupe :: "pbuf_t list"
  ds_global_dupe_count :: int
  ds_count_limit :: int
  ds_dupe_count_limit :: int
  ds_outcount :: int
  ds_dupecount :: int
  ds_cleanup_tick :: ctime

text \<open>One of the two loops of \<^verbatim>\<open>global_pbuf_purger\<close>: \<open>n\<close> is how many buffers \<^verbatim>\<open>freeset\<close> holds, newest
  first; full sets of 2000 are freed on the way. The results are the rest of the queue, the count
  and the arenas.\<close>

fun purge_loop ::
    "ctime \<Rightarrow> int \<Rightarrow> int \<Rightarrow> u32 \<Rightarrow> int \<Rightarrow> pbuf_t list \<Rightarrow> pbuf_t list \<Rightarrow> pbuf_arenas \<Rightarrow>
     pbuf_t list \<times> int \<times> pbuf_arenas" where
  "purge_loop expire limit pbuf_lag seqnum cnt freeset [] g =
     ([], cnt, if freeset \<noteq> [] then pbuf_free_many (rev freeset) g else g)"
| "purge_loop expire limit pbuf_lag seqnum cnt freeset (pb # q) g =
     (if limit < cnt \<and> pb_t pb < expire \<and> pbuf_lag < pbuf_seqnum_lag seqnum (pb_seqnum pb) then
        (if 2000 \<le> length (pb # freeset)
         then purge_loop expire limit pbuf_lag seqnum (cnt - 1) [] q (pbuf_free_many (rev (pb # freeset)) g)
         else purge_loop expire limit pbuf_lag seqnum (cnt - 1) (pb # freeset) q g)
      else (pb # q, cnt, if freeset \<noteq> [] then pbuf_free_many (rev freeset) g else g))"

definition global_pbuf_purger :: "dupe_env \<Rightarrow> bool \<Rightarrow> int \<Rightarrow> int \<Rightarrow> dupe_state \<Rightarrow> dupe_state" where
  "global_pbuf_purger env all pbuf_lag pbuf_dupe_lag s =
     (let s1 = (if all then s\<lparr>ds_count_limit := 0, ds_dupe_count_limit := 0\<rparr> else s);
          expire1 = (if all then de_tick env + 10 else de_tick env - de_expiration env);
          expire2 = (if all then de_tick env + 10 else de_tick env - de_dupe_expiration env);
          (q1, n1, g1) = purge_loop expire1 (ds_count_limit s1) pbuf_lag (ds_seqnum s1)
                           (ds_global_count s1) [] (ds_global s1) (ds_arenas s1);
          (q2, n2, g2) = purge_loop expire2 (ds_dupe_count_limit s1) pbuf_dupe_lag (ds_dupe_seqnum s1)
                           (ds_global_dupe_count s1) [] (ds_global_dupe s1) g1
      in s1\<lparr>ds_global := q1, ds_global_count := n1, ds_global_dupe := q2, ds_global_dupe_count := n2,
            ds_arenas := g2\<rparr>)"

section \<open>Draining the workers\<close>

text \<open>The loop over the packets of one worker, with the two lists \<^verbatim>\<open>pb_out\<close> and \<^verbatim>\<open>pb_out_dupe\<close> it
  extends.\<close>

fun drain_loop ::
    "mmap \<Rightarrow> dupe_env \<Rightarrow> pbuf_t list \<Rightarrow> dupe_state \<times> pbuf_t list \<times> pbuf_t list \<Rightarrow>
     (dupe_state \<times> pbuf_t list \<times> pbuf_t list) option" where
  "drain_loop mm env [] so = Some so"
| "drain_loop mm env (pb # pbs) (s, out, dupes) =
     (case dupecheck mm env (ds_hist s) pb (ds_db s) of
        None \<Rightarrow> None
      | Some (rc, pb1, db) \<Rightarrow>
          if rc = 0 then
            (let (hist, pb2) =
                   (if de_filtered env then
                      (let hist = snd (historydb_insert (de_hist_alloc env) (de_tick env) (de_lastpos env) pb1 (ds_hist s))
                       in (hist, filter_postprocess_dupefilter (de_tick env) (de_lastpos env) hist pb1))
                    else (ds_hist s, pb1));
                 n = ds_seqnum s + 1
             in drain_loop mm env pbs
                  (s\<lparr>ds_db := db, ds_hist := hist, ds_seqnum := n\<rparr>, out @ [pb2\<lparr>pb_seqnum := n\<rparr>], dupes))
          else
            (let n = ds_dupe_seqnum s + 1
             in drain_loop mm env pbs
                  (s\<lparr>ds_db := db, ds_dupe_seqnum := n\<rparr>, out, dupes @ [pb1\<lparr>pb_seqnum := n\<rparr>])))"

definition dupecheck_drain_worker ::
    "mmap \<Rightarrow> dupe_env \<Rightarrow> worker_t \<Rightarrow> dupe_state \<times> pbuf_t list \<times> pbuf_t list \<Rightarrow>
     (worker_t \<times> dupe_state \<times> pbuf_t list \<times> pbuf_t list) option" where
  "dupecheck_drain_worker mm env w so =
     map_option (\<lambda>so'. (w\<lparr>w_pbuf_incoming := [], w_pbuf_incoming_count := 0\<rparr>, so'))
       (drain_loop mm env (w_pbuf_incoming w) so)"

text \<open>The workers one after the other, those with an empty inbox skipped. The HTTP and UDP workers
  stand at the end of the list.\<close>

fun drain_workers ::
    "mmap \<Rightarrow> dupe_env \<Rightarrow> worker_t list \<Rightarrow> dupe_state \<times> pbuf_t list \<times> pbuf_t list \<Rightarrow>
     (worker_t list \<times> dupe_state \<times> pbuf_t list \<times> pbuf_t list) option" where
  "drain_workers mm env [] so = Some ([], so)"
| "drain_workers mm env (w # ws) so =
     (if w_pbuf_incoming w = [] then map_option (\<lambda>(ws', r). (w # ws', r)) (drain_workers mm env ws so)
      else
        case dupecheck_drain_worker mm env w so of
          None \<Rightarrow> None
        | Some (w', so') \<Rightarrow> map_option (\<lambda>(ws', r). (w' # ws', r)) (drain_workers mm env ws so'))"

definition max_lag :: "int list \<Rightarrow> int" where
  "max_lag = foldl max (-1)"

text \<open>The chains of a turn appended to the global queues.\<close>

definition dupe_publish :: "pbuf_t list \<Rightarrow> pbuf_t list \<Rightarrow> dupe_state \<Rightarrow> dupe_state" where
  "dupe_publish out dupes s =
     s\<lparr>ds_global := ds_global s @ out, ds_global_count := ds_global_count s + int (length out),
       ds_global_dupe := ds_global_dupe s @ dupes,
       ds_global_dupe_count := ds_global_dupe_count s + int (length dupes),
       ds_outcount := ds_outcount s + int (length out),
       ds_dupecount := ds_dupecount s + int (length dupes)\<rparr>"

text \<open>The periodic part: the highest lags of the workers, the purger, the clean-up.\<close>

definition dupe_housekeeping :: "dupe_env \<Rightarrow> worker_t list \<Rightarrow> dupe_state \<Rightarrow> dupe_state" where
  "dupe_housekeeping env ws s =
     (if ds_cleanup_tick s \<le> de_tick env then
        (let lag = max_lag (map (\<lambda>w. pbuf_seqnum_lag (ds_seqnum s) (w_last_pbuf_seqnum w)) ws);
             dupe_lag = max_lag (map (\<lambda>w. pbuf_seqnum_lag (ds_dupe_seqnum s) (w_last_pbuf_dupe_seqnum w)) ws);
             p = global_pbuf_purger env False lag dupe_lag (s\<lparr>ds_cleanup_tick := de_tick env + 10\<rparr>)
         in p\<lparr>ds_db := dupecheck_cleanup (de_tick env) (de_storetime env) (ds_db p)\<rparr>)
      else s)"

text \<open>One turn of \<^verbatim>\<open>dupecheck_thread\<close> up to its sleep. \<open>ws\<close> are the worker threads, \<open>extra\<close> the HTTP and UDP
  pseudo workers that exist; only the former count for the lag.\<close>

definition dupecheck_thread ::
    "mmap \<Rightarrow> dupe_env \<Rightarrow> worker_t list \<Rightarrow> worker_t list \<Rightarrow> dupe_state \<Rightarrow>
     (worker_t list \<times> worker_t list \<times> dupe_state) option" where
  "dupecheck_thread mm env ws extra s =
     (case drain_workers mm env (ws @ extra) (s, [], []) of
        None \<Rightarrow> None
      | Some (all', s1, out, dupes) \<Rightarrow>
          let ws' = take (length ws) all'; extra' = drop (length ws) all'
          in Some (ws', extra', dupe_housekeeping env ws' (dupe_publish out dupes s1)))"

text \<open>\<^verbatim>\<open>dupecheck_atend\<close>: every record is freed, bucket by bucket, and the queues are emptied.\<close>

fun atend_buckets :: "nat list \<Rightarrow> dupe_db \<Rightarrow> dupe_db" where
  "atend_buckets [] d = d"
| "atend_buckets (i # js) d =
     atend_buckets js
       (d\<lparr>dd_table := (dd_table d)(i := []),
          dd_cells := foldl dupecheck_db_free (dd_cells d) (map dr_addr (dd_table d i))\<rparr>)"

definition dupecheck_atend :: "dupe_env \<Rightarrow> dupe_state \<Rightarrow> dupe_state" where
  "dupecheck_atend env s =
     global_pbuf_purger env True (-1) (-1) (s\<lparr>ds_db := atend_buckets [0..<DUPECHECK_DB_SIZE] (ds_db s)\<rparr>)"

section \<open>The records are owned once\<close>

text \<open>The free chain and the arena together are an allocator again: what the arena handed out is
  the free chain and the records in use.\<close>

definition dupe_holds :: "mmap \<Rightarrow> dupe_cells \<Rightarrow> nat list \<Rightarrow> bool" where
  "dupe_holds mm dc live \<longleftrightarrow> arena_holds mm (dc_cells dc) (dc_free dc @ live)"

lemma dupe_holds_perm: "mset xs = mset ys \<Longrightarrow> dupe_holds mm dc xs \<longleftrightarrow> dupe_holds mm dc ys"
  unfolding dupe_holds_def by (rule arena_holds_perm) simp

interpretation recs: cell_allocator "dupecheck_db_alloc mm" dupecheck_db_free "dupe_holds mm" for mm
proof unfold_locales
  show "distinct live" if "dupe_holds mm s live" for s live
    using that arena.holds_distinct [of mm "dc_cells s" "dc_free s @ live"] by (simp add: dupe_holds_def)
next
  fix s live
  assume H: "dupe_holds mm s live"
  show "(\<exists>s'. dupecheck_db_alloc mm s = Some (None, s') \<and> dupe_holds mm s' live) \<or>
      (\<exists>c s'. dupecheck_db_alloc mm s = Some (Some c, s') \<and> dupe_holds mm s' (c # live))"
  proof (cases "dc_free s")
    case Nil
    then show ?thesis
      using H arena.alloc_law [of mm "dc_cells s" live] by (auto simp: dupe_holds_def dupecheck_db_alloc_def)
  next
    case (Cons a rest)
    have "arena_holds mm (dc_cells s) (rest @ a # live) = arena_holds mm (dc_cells s) (dc_free s @ live)"
      using Cons by (intro arena_holds_perm) simp
    with H Cons show ?thesis by (simp add: dupe_holds_def dupecheck_db_alloc_def)
  qed
next
  fix s live c
  assume H: "dupe_holds mm s live" and c: "c \<in> set live"
  have "arena_holds mm (dc_cells s) ((c # dc_free s) @ remove1 c live) = arena_holds mm (dc_cells s) (dc_free s @ live)"
    using c by (intro arena_holds_perm) simp
  with H show "dupe_holds mm (dupecheck_db_free s c) (remove1 c live)"
    by (simp add: dupe_holds_def dupecheck_db_free_def)
qed

lemma foldl_db_free [simp]:
  "dc_free (foldl dupecheck_db_free dc as) = rev as @ dc_free dc"
  "dc_cells (foldl dupecheck_db_free dc as) = dc_cells dc"
  by (induction as arbitrary: dc) (simp_all add: dupecheck_db_free_def)

lemma dupe_holds_free_all:
  "dupe_holds mm dc live \<Longrightarrow> mset live = mset (as @ rest) \<Longrightarrow> dupe_holds mm (foldl dupecheck_db_free dc as) rest"
proof -
  assume "dupe_holds mm dc live" "mset live = mset (as @ rest)"
  then have "dupe_holds mm dc (as @ rest)" using dupe_holds_perm by blast
  moreover have "mset (rev as @ dc_free dc @ rest) = mset (dc_free dc @ as @ rest)" by simp
  ultimately show ?thesis
    using arena_holds_perm [of "(rev as @ dc_free dc) @ rest" "dc_free dc @ as @ rest"] by (simp add: dupe_holds_def)
qed

section \<open>The table as a memory of texts\<close>

interpretation dupes: bucket_table DUPECHECK_DB_SIZE dr_hash dupecheck_bucket
  by unfold_locales (simp add: dupecheck_bucket_def DUPECHECK_DB_SIZE_def Let_def)

abbreviation dupe_entries :: "dupe_db \<Rightarrow> dupe_record_t list" where
  "dupe_entries d \<equiv> entries DUPECHECK_DB_SIZE (dd_table d)"

definition dupe_inv :: "mmap \<Rightarrow> ctime \<Rightarrow> dupe_db \<Rightarrow> bool" where
  "dupe_inv mm tick d \<longleftrightarrow>
     dupes.placed (dd_table d) \<and>
     (\<forall>e \<in> set (dupe_entries d). dr_hash e = keyhash (dr_packet e) 0 \<and> dr_t e \<le> tick) \<and>
     dupe_holds mm (dd_cells d) (map dr_addr (dupe_entries d))"

text \<open>The abstract state: which text was last seen at time \<open>t\<close> or later.\<close>

definition knows :: "dupe_db \<Rightarrow> string \<Rightarrow> ctime \<Rightarrow> bool" where
  "knows d s t \<longleftrightarrow> (\<exists>e \<in> set (dupe_entries d). dr_packet e = s \<and> t \<le> dr_t e)"

lemma mset_entries_upd:
  assumes "i < nb"
  shows "mset (entries nb (tbl(i := xs))) + mset (tbl i) = mset (entries nb tbl) + mset xs"
  using assms
proof (induction nb)
  case (Suc nb)
  show ?case
  proof (cases "i = nb")
    case True
    then show ?thesis using entries_upd_beyond [of nb nb tbl xs] by (simp add: entries_Suc del: fun_upd_apply) simp
  next
    case False
    with Suc show ?thesis by (simp add: entries_Suc ac_simps)
  qed
qed simp

lemma mset_entries_snoc: "i < nb \<Longrightarrow> mset (entries nb (tbl(i := tbl i @ [r]))) = add_mset r (mset (entries nb tbl))"
  using mset_entries_upd [of i nb tbl "tbl i @ [r]"] by simp

lemma set_entries_snoc: "i < nb \<Longrightarrow> set (entries nb (tbl(i := tbl i @ [r]))) = insert r (set (entries nb tbl))"
  by (metis mset_entries_snoc set_mset_add_mset_insert set_mset_mset)

lemma dupe_put_ok:
  assumes inv: "dupe_inv mm tick d" and i: "i = dupecheck_bucket (keyhash s 0)"
  shows "\<exists>rc d'. dupe_put mm tick i (keyhash s 0) dtype s d = Some (rc, d') \<and> dupe_inv mm tick d' \<and>
    dd_types d' = dd_types d \<and> length (dc_free (dd_cells d)) \<le> Suc (length (dc_free (dd_cells d'))) \<and>
    (rc = -1 \<and> dc_free (dd_cells d) = [] \<and> dd_table d' = dd_table d \<or>
     rc = 0 \<and> (\<forall>s' t. knows d' s' t \<longleftrightarrow> knows d s' t \<or> s' = s \<and> t \<le> tick))"
proof -
  have lt: "i < DUPECHECK_DB_SIZE" unfolding i by (rule dupes.bkt_less)
  have H: "dupe_holds mm (dd_cells d) (map dr_addr (dupe_entries d))" using inv by (simp add: dupe_inv_def)
  have free: "length (dc_free (dd_cells d)) \<le> Suc (length (dc_free dc))" "r = None \<Longrightarrow> dc_free (dd_cells d) = []"
    if "dupecheck_db_alloc mm (dd_cells d) = Some (r, dc)" for r dc
    using that by (auto simp: dupecheck_db_alloc_def split: list.splits option.splits)
  from recs.alloc_law [OF H] show ?thesis
  proof (elim disjE exE conjE)
    fix dc assume "dupecheck_db_alloc mm (dd_cells d) = Some (None, dc)" "dupe_holds mm dc (map dr_addr (dupe_entries d))"
    then show ?thesis using inv free by (auto simp: dupe_put_def dupe_inv_def)
  next
    fix a dc
    assume A: "dupecheck_db_alloc mm (dd_cells d) = Some (Some a, dc)"
      and H': "dupe_holds mm dc (a # map dr_addr (dupe_entries d))"
    let ?r = "\<lparr>dr_addr = a, dr_hash = keyhash s 0, dr_t = tick, dr_dtype = dtype, dr_packet = s\<rparr>"
    let ?d = "d\<lparr>dd_cells := dc, dd_table := (dd_table d)(i := dd_table d i @ [?r])\<rparr>"
    have set: "set (dupe_entries ?d) = insert ?r (set (dupe_entries d))"
      using set_entries_snoc [OF lt] by simp
    have "mset (map dr_addr (dupe_entries ?d)) = mset (a # map dr_addr (dupe_entries d))"
      using mset_entries_snoc [OF lt, of "dd_table d" ?r] by simp
    then have "dupe_holds mm dc (map dr_addr (dupe_entries ?d))" using H' dupe_holds_perm by blast
    moreover have "dupes.placed (dd_table ?d)"
      using inv i by (auto simp: dupe_inv_def dupes.placed_def)
    ultimately have inv': "dupe_inv mm tick ?d" using inv set by (simp add: dupe_inv_def)
    have "knows ?d s' t \<longleftrightarrow> knows d s' t \<or> s' = s \<and> t \<le> tick" for s' t
      unfolding knows_def set by auto
    then show ?thesis using A inv' free [OF A] by (auto simp: dupe_put_def)
  qed
qed

lemma set_entries_split:
  assumes "i < nb"
  obtains R where "\<And>xs. set (entries nb (tbl(i := xs))) = set xs \<union> R" "set (entries nb tbl) = set (tbl i) \<union> R"
proof
  let ?R = "\<Union>j \<in> {..<nb} - {i}. set (tbl j)"
  show U: "set (entries nb (tbl(i := xs))) = set xs \<union> ?R" for xs
    using assms by (auto simp: set_entries split: if_splits)
  show "set (entries nb tbl) = set (tbl i) \<union> ?R" using U [of "tbl i"] by simp
qed

lemma dupe_renew_Some:
  "dupe_renew tick hash s dps = Some dps' \<Longrightarrow>
     \<exists>xs dp ys. dps = xs @ dp # ys \<and> dps' = xs @ dp\<lparr>dr_t := tick\<rparr> # ys \<and> dr_hash dp = hash \<and> dr_packet dp = s"
proof (induction dps arbitrary: dps')
  case (Cons dp dps)
  show ?case
  proof (cases "dr_hash dp = hash \<and> dr_packet dp = s")
    case True
    with Cons.prems have "dp # dps = [] @ dp # dps \<and> dps' = [] @ dp\<lparr>dr_t := tick\<rparr> # dps \<and> dr_hash dp = hash \<and> dr_packet dp = s"
      by simp
    then show ?thesis by blast
  next
    case False
    then obtain r where r: "dupe_renew tick hash s dps = Some r" "dps' = dp # r" using Cons.prems by auto
    from Cons.IH [OF r(1)] r(2) show ?thesis by (metis append_Cons)
  qed
qed simp

lemma dupe_renew_ok:
  assumes inv: "dupe_inv mm tick d" and i: "i = dupecheck_bucket (keyhash s 0)"
    and R: "dupe_renew tick (keyhash s 0) s (dd_table d i) = Some dps"
    and d': "d' = d\<lparr>dd_table := (dd_table d)(i := dps)\<rparr>"
  shows "dupe_inv mm tick d' \<and> (\<forall>s' t. knows d' s' t \<longleftrightarrow> knows d s' t \<or> s' = s \<and> t \<le> tick)"
proof -
  from dupe_renew_Some [OF R] obtain xs dp ys where C: "dd_table d i = xs @ dp # ys"
    "dps = xs @ dp\<lparr>dr_t := tick\<rparr> # ys" "dr_hash dp = keyhash s 0" "dr_packet dp = s" by blast
  let ?dp = "dp\<lparr>dr_t := tick\<rparr>"
  have lt: "i < DUPECHECK_DB_SIZE" unfolding i by (rule dupes.bkt_less)
  have mem: "dp \<in> set (dupe_entries d)" "?dp \<in> set (dupe_entries d')"
    using lt C by (auto simp: d' set_entries intro!: bexI [of _ i])
  have sub: "set (dupe_entries d') \<subseteq> insert ?dp (set (dupe_entries d))" "set (dupe_entries d) \<subseteq> insert dp (set (dupe_entries d'))"
  proof -
    obtain R where R: "\<And>xs. set (entries DUPECHECK_DB_SIZE ((dd_table d)(i := xs))) = set xs \<union> R"
      "set (dupe_entries d) = set (dd_table d i) \<union> R"
      using set_entries_split [OF lt] by metis
    show "set (dupe_entries d') \<subseteq> insert ?dp (set (dupe_entries d))" "set (dupe_entries d) \<subseteq> insert dp (set (dupe_entries d'))"
      unfolding d' R(2) C(1) using R(1) [of dps] C(2) by (auto simp del: fun_upd_apply)
  qed
  have "mset (dupe_entries d') + mset (dd_table d i) = mset (dupe_entries d) + mset dps"
    using mset_entries_upd [OF lt, of "dd_table d" dps] by (simp add: d')
  from arg_cong [OF this, of "image_mset dr_addr"]
  have "mset (map dr_addr (dupe_entries d')) = mset (map dr_addr (dupe_entries d))" by (simp add: C)
  then have "dupe_holds mm (dd_cells d') (map dr_addr (dupe_entries d'))"
    using inv dupe_holds_perm by (fastforce simp: dupe_inv_def d')
  moreover have "dupes.placed (dd_table d')"
    unfolding d' using inv C i by (auto simp: dupe_inv_def intro!: dupes.placed_updI) (auto simp: dupes.placed_def)
  moreover have "\<forall>e \<in> set (dupe_entries d'). dr_hash e = keyhash (dr_packet e) 0 \<and> dr_t e \<le> tick"
    using sub(1) inv C by (auto simp: dupe_inv_def)
  ultimately have "dupe_inv mm tick d'" by (simp add: dupe_inv_def)
  moreover have "knows d' s' t \<longleftrightarrow> knows d s' t \<or> s' = s \<and> t \<le> tick" for s' t
  proof
    assume "knows d' s' t"
    then show "knows d s' t \<or> s' = s \<and> t \<le> tick" using sub(1) C(4) by (auto simp: knows_def)
  next
    have "dr_t dp \<le> tick" using mem(1) inv by (simp add: dupe_inv_def)
    moreover assume "knows d s' t \<or> s' = s \<and> t \<le> tick"
    ultimately have "s' = s \<and> t \<le> tick \<or> (\<exists>e \<in> set (dupe_entries d'). dr_packet e = s' \<and> t \<le> dr_t e)"
      using sub(2) C(4) by (auto simp: knows_def)
    moreover have "knows d' s t" if "t \<le> tick"
      unfolding knows_def using mem(2) C(4) that by (intro bexI [of _ ?dp]) auto
    ultimately show "knows d' s' t" by (auto simp: knows_def)
  qed
  ultimately show ?thesis by blast
qed

lemma dupecheck_add_buf_ok:
  assumes "dupe_inv mm tick d"
  shows "\<exists>d' stored. dupecheck_add_buf mm tick s dtype d = Some d' \<and> dupe_inv mm tick d' \<and> dd_types d' = dd_types d \<and>
    length (dc_free (dd_cells d)) \<le> Suc (length (dc_free (dd_cells d'))) \<and>
    (dc_free (dd_cells d) \<noteq> [] \<longrightarrow> stored) \<and>
    (\<forall>s' t. knows d' s' t \<longleftrightarrow> knows d s' t \<or> stored \<and> s' = s \<and> t \<le> tick)"
proof -
  let ?i = "dupecheck_bucket (keyhash s 0)"
  show ?thesis
  proof (cases "dupe_renew tick (keyhash s 0) s (dd_table d ?i)")
    case None
    obtain rc d' where P: "dupe_put mm tick ?i (keyhash s 0) dtype s d = Some (rc, d')" "dupe_inv mm tick d'"
      "dd_types d' = dd_types d" "length (dc_free (dd_cells d)) \<le> Suc (length (dc_free (dd_cells d')))"
      "rc = -1 \<and> dc_free (dd_cells d) = [] \<and> dd_table d' = dd_table d \<or>
       rc = 0 \<and> (\<forall>s' t. knows d' s' t \<longleftrightarrow> knows d s' t \<or> s' = s \<and> t \<le> tick)"
      using dupe_put_ok [OF assms refl, of s dtype] by blast
    have "dupecheck_add_buf mm tick s dtype d = Some d'"
      using None P(1) by (simp add: dupecheck_add_buf_def Let_def)
    moreover have "\<exists>stored. (dc_free (dd_cells d) \<noteq> [] \<longrightarrow> stored) \<and>
      (\<forall>s' t. knows d' s' t \<longleftrightarrow> knows d s' t \<or> stored \<and> s' = s \<and> t \<le> tick)"
      using P(5) by (elim disjE) (rule exI [of _ False], simp add: knows_def, rule exI [of _ True], simp)
    ultimately show ?thesis using P(2-4) by blast
  next
    case (Some dps)
    let ?d = "d\<lparr>dd_table := (dd_table d)(?i := dps)\<rparr>"
    have "dupecheck_add_buf mm tick s dtype d = Some ?d"
      using Some by (simp add: dupecheck_add_buf_def Let_def)
    moreover note dupe_renew_ok [OF assms refl Some refl]
    ultimately show ?thesis by (intro exI [of _ ?d] exI [of _ True]) simp
  qed
qed

lemma add_bufs_ok:
  assumes "dupe_inv mm tick d"
  shows "\<exists>d' S. add_bufs mm tick bufs d = Some d' \<and> dupe_inv mm tick d' \<and> dd_types d' = dd_types d \<and>
    S \<subseteq> fst ` set bufs \<and> (length bufs \<le> length (dc_free (dd_cells d)) \<longrightarrow> S = fst ` set bufs) \<and>
    (\<forall>s' t. knows d' s' t \<longleftrightarrow> knows d s' t \<or> s' \<in> S \<and> t \<le> tick)"
  using assms
proof (induction bufs arbitrary: d)
  case (Cons b bufs)
  obtain s dtype where b: "b = (s, dtype)" by fastforce
  obtain d1 stored where A: "dupecheck_add_buf mm tick s dtype d = Some d1" "dupe_inv mm tick d1" "dd_types d1 = dd_types d"
    "length (dc_free (dd_cells d)) \<le> Suc (length (dc_free (dd_cells d1)))" "dc_free (dd_cells d) \<noteq> [] \<longrightarrow> stored"
    "\<forall>s' t. knows d1 s' t \<longleftrightarrow> knows d s' t \<or> stored \<and> s' = s \<and> t \<le> tick"
    using dupecheck_add_buf_ok [OF Cons.prems, of s dtype] by blast
  obtain d2 S where B: "add_bufs mm tick bufs d1 = Some d2" "dupe_inv mm tick d2" "dd_types d2 = dd_types d1"
    "S \<subseteq> fst ` set bufs" "length bufs \<le> length (dc_free (dd_cells d1)) \<longrightarrow> S = fst ` set bufs"
    "\<forall>s' t. knows d2 s' t \<longleftrightarrow> knows d1 s' t \<or> s' \<in> S \<and> t \<le> tick"
    using Cons.IH [OF A(2)] by blast
  have "add_bufs mm tick (b # bufs) d = Some d2" using A(1) B(1) by (simp add: b)
  moreover have "length (b # bufs) \<le> length (dc_free (dd_cells d)) \<longrightarrow>
      (if stored then {s} else {}) \<union> S = fst ` set (b # bufs)"
    using A(4,5) B(5) by (auto simp: b)
  moreover have "(if stored then {s} else {}) \<union> S \<subseteq> fst ` set (b # bufs)" using B(4) by (auto simp: b)
  moreover have "\<forall>s' t. knows d2 s' t \<longleftrightarrow> knows d s' t \<or> s' \<in> (if stored then {s} else {}) \<union> S \<and> t \<le> tick"
    using A(6) B(6) by auto
  ultimately show ?case using A(3) B(2,3) by (metis (no_types, lifting))
qed simp

section \<open>The variants\<close>

text \<open>The texts that count as repetitions of a text: itself; without trailing spaces; with 8-bit bytes
  removed, reduced to seven bits, or blanked; with control bytes removed or blanked; with DEL bytes
  removed or blanked.\<close>

definition blank_if :: "(char \<Rightarrow> bool) \<Rightarrow> string \<Rightarrow> string" where
  "blank_if P s = map (\<lambda>c. if P c then CHR '' '' else c) s"

definition is_8bit :: "char \<Rightarrow> bool" where "is_8bit c \<longleftrightarrow> 128 \<le> byte_code c"

definition dupe_texts :: "string \<Rightarrow> string set" where
  "dupe_texts s =
     {s, trim_spaces s,
      filter (\<lambda>c. \<not> is_8bit c) s, map clear_8bit s, blank_if is_8bit s,
      filter (\<lambda>c. \<not> is_low c) s, blank_if is_low s,
      filter (\<lambda>c. \<not> is_del c) s, blank_if is_del s}"

lemma clear_8bit_eq: "clear_8bit b = b \<longleftrightarrow> \<not> is_8bit b"
proof -
  have "clear_8bit b = b \<longleftrightarrow> byte_code b mod 128 = byte_code b"
    unfolding clear_8bit_def byte_code_eq_iff [symmetric] by simp
  also have "\<dots> \<longleftrightarrow> \<not> is_8bit b" using mod_less_divisor [of 128 "byte_code b"] by (auto simp: is_8bit_def)
  finally show ?thesis .
qed

lemma mangle_8bit_eq:
  "mangle_8bit ib = (filter (\<lambda>c. \<not> is_8bit c) ib, map clear_8bit ib, blank_if is_8bit ib,
     \<exists>c \<in> set ib. is_del c, \<exists>c \<in> set ib. is_low c)"
proof (induction ib)
  case (Cons b bs)
  have "b \<noteq> clear_8bit b \<longleftrightarrow> is_8bit b" using clear_8bit_eq [of b] by (metis (full_types))
  then show ?case using Cons clear_8bit_eq [of b] by (cases "is_8bit b") (simp_all add: blank_if_def Let_def)
qed (simp add: blank_if_def)

lemma mangle_sel_eq: "mangle_sel P ib = (filter (\<lambda>c. \<not> P c) ib, blank_if P ib)"
  by (induction ib) (auto simp: blank_if_def)

lemma length_trim: "length (trim_spaces ib) = length ib \<Longrightarrow> trim_spaces ib = ib"
proof -
  assume L: "length (trim_spaces ib) = length ib"
  have "takeWhile (\<lambda>c. c = CHR '' '') (rev ib) @ dropWhile (\<lambda>c. c = CHR '' '') (rev ib) = rev ib"
    by (rule takeWhile_dropWhile_id)
  with L have "dropWhile (\<lambda>c. c = CHR '' '') (rev ib) = rev ib"
    by (metis append_eq_append_conv append_Nil length_rev trim_spaces_def)
  then show ?thesis by (simp add: trim_spaces_def)
qed

lemma no_variant:
  assumes "length (filter (\<lambda>c. \<not> P c) ib) = length ib \<or> (\<forall>c \<in> set ib. \<not> P c)"
  shows "filter (\<lambda>c. \<not> P c) ib = ib" and "blank_if P ib = ib"
proof -
  have all: "\<forall>c \<in> set ib. \<not> P c"
    using assms length_filter_less [of _ ib "\<lambda>c. \<not> P c"] by fastforce
  then show "filter (\<lambda>c. \<not> P c) ib = ib" "blank_if P ib = ib"
    by (auto simp: blank_if_def intro: map_idI)
qed

lemma no_8bit_clear: "length (filter (\<lambda>c. \<not> is_8bit c) ib) = length ib \<Longrightarrow> map clear_8bit ib = ib"
  using length_filter_less [of _ ib "\<lambda>c. \<not> is_8bit c"] by (intro map_idI) (fastforce simp: clear_8bit_eq)

lemma mangle_bufs_texts: "insert ib (fst ` set (mangle_bufs ib)) = dupe_texts ib"
proof -
  note defs = mangle_bufs_def Let_def mangle_8bit_eq mangle_sel_eq prod.case
  have sub: "fst ` set (mangle_bufs ib) \<subseteq> dupe_texts ib" unfolding defs by (auto simp: dupe_texts_def)
  let ?M = "insert ib (fst ` set (mangle_bufs ib))"
  have "trim_spaces ib \<in> ?M"
    unfolding defs using length_trim [of ib] by (cases "length (trim_spaces ib) = length ib") auto
  moreover have "filter (\<lambda>c. \<not> is_8bit c) ib \<in> ?M \<and> blank_if is_8bit ib \<in> ?M \<and> map clear_8bit ib \<in> ?M"
    unfolding defs using no_variant [of is_8bit ib] no_8bit_clear [of ib]
    by (cases "length (filter (\<lambda>c. \<not> is_8bit c) ib) = length ib") auto
  moreover have "filter (\<lambda>c. \<not> is_low c) ib \<in> ?M \<and> blank_if is_low ib \<in> ?M"
    unfolding defs using no_variant [of is_low ib]
    by (cases "length (filter (\<lambda>c. \<not> is_low c) ib) = length ib \<or> (\<forall>c \<in> set ib. \<not> is_low c)") auto
  moreover have "filter (\<lambda>c. \<not> is_del c) ib \<in> ?M \<and> blank_if is_del ib \<in> ?M"
    unfolding defs using no_variant [of is_del ib]
    by (cases "length (filter (\<lambda>c. \<not> is_del c) ib) = length ib \<or> (\<forall>c \<in> set ib. \<not> is_del c)") auto
  ultimately have "dupe_texts ib \<subseteq> ?M" unfolding dupe_texts_def by blast
  moreover have "?M \<subseteq> dupe_texts ib" using sub by (auto simp: dupe_texts_def)
  ultimately show ?thesis by (rule equalityI [rotated])
qed

lemma length_mangle_bufs: "length (mangle_bufs ib) \<le> 8"
  unfolding mangle_bufs_def Let_def mangle_8bit_eq mangle_sel_eq prod.case by simp

lemma dupecheck_mangle_store_ok:
  assumes "dupe_inv mm tick d"
  shows "\<exists>rc d' S. dupecheck_mangle_store mm tick addr data d = Some (rc, d') \<and> dupe_inv mm tick d' \<and>
    dd_types d' = dd_types d \<and> insert (addr @ data) S \<subseteq> dupe_texts (addr @ data) \<and>
    (8 \<le> length (dc_free (dd_cells d)) \<and> length (addr @ data) \<le> PACKETLEN_MAX \<longrightarrow>
       insert (addr @ data) S = dupe_texts (addr @ data)) \<and>
    (\<forall>s' t. knows d' s' t \<longleftrightarrow> knows d s' t \<or> s' \<in> S \<and> t \<le> tick)"
proof (cases "PACKETLEN_MAX < length (addr @ data)")
  case True
  then show ?thesis using assms
    by (intro exI [of _ "-1"] exI [of _ d] exI [of _ "{}"])
      (simp add: dupecheck_mangle_store_def dupe_texts_def)
next
  case False
  obtain d' S where A: "add_bufs mm tick (mangle_bufs (addr @ data)) d = Some d'" "dupe_inv mm tick d'"
    "dd_types d' = dd_types d" "S \<subseteq> fst ` set (mangle_bufs (addr @ data))"
    "length (mangle_bufs (addr @ data)) \<le> length (dc_free (dd_cells d)) \<longrightarrow> S = fst ` set (mangle_bufs (addr @ data))"
    "\<forall>s' t. knows d' s' t \<longleftrightarrow> knows d s' t \<or> s' \<in> S \<and> t \<le> tick"
    using add_bufs_ok [OF assms, of "mangle_bufs (addr @ data)"] by blast
  have "insert (addr @ data) S \<subseteq> dupe_texts (addr @ data)"
    using A(4) unfolding mangle_bufs_texts [symmetric] by blast
  moreover have "8 \<le> length (dc_free (dd_cells d)) \<longrightarrow> insert (addr @ data) S = dupe_texts (addr @ data)"
    using A(5) length_mangle_bufs [of "addr @ data"] mangle_bufs_texts by (metis order_trans)
  ultimately show ?thesis using A(1-3,6) False
    by (intro exI [of _ 0] exI [of _ d'] exI [of _ S]) (simp add: dupecheck_mangle_store_def)
qed

section \<open>The verdict\<close>

abbreviation dupe_canon :: "pbuf_t \<Rightarrow> string" where
  "dupe_canon pb \<equiv> dupe_addr pb @ dupe_data pb"

lemma dupe_found_iff:
  assumes "dupe_inv mm tick d"
  shows "(\<exists>dp \<in> set (dd_table d (dupecheck_bucket (keyhash s 0))). dupe_match (keyhash s 0) t s dp) \<longleftrightarrow> knows d s t"
proof -
  have "dupes.placed (dd_table d)" using assms by (simp add: dupe_inv_def)
  from dupes.bucket_ex_iff_entries [OF this, of "keyhash s 0" "\<lambda>dp. t \<le> dr_t dp \<and> dr_packet dp = s"]
  have "(\<exists>dp \<in> set (dd_table d (dupecheck_bucket (keyhash s 0))). dupe_match (keyhash s 0) t s dp) \<longleftrightarrow>
      (\<exists>e \<in> set (dupe_entries d). dr_hash e = keyhash s 0 \<and> t \<le> dr_t e \<and> dr_packet e = s)"
    by (simp add: dupe_match_def)
  also have "\<dots> \<longleftrightarrow> knows d s t" using assms by (auto simp: knows_def dupe_inv_def)
  finally show ?thesis .
qed

lemma dupe_inv_types [simp]: "dupe_inv mm tick (d\<lparr>dd_types := x\<rparr>) = dupe_inv mm tick d"
  and knows_types [simp]: "knows (d\<lparr>dd_types := x\<rparr>) = knows d"
  by (simp_all add: dupe_inv_def knows_def fun_eq_iff)

lemma knows_table: "dd_table d' = dd_table d \<Longrightarrow> knows d' = knows d"
  by (intro ext) (simp add: knows_def)

text \<open>What the check of one packet does to the memory, and what it says. The texts it remembers are
  the packet's own and variants of it, all of them when nine records are free.\<close>

definition dupe_step :: "dupe_env \<Rightarrow> pbuf_t \<Rightarrow> dupe_db \<Rightarrow> int \<Rightarrow> dupe_db \<Rightarrow> bool" where
  "dupe_step env pb d rc d' \<longleftrightarrow>
     (if knows d (dupe_canon pb) (de_tick env - de_storetime env) then rc = 1 \<and> knows d' = knows d
      else if rc = -1 then dc_free (dd_cells d) = [] \<and> knows d' = knows d
      else rc = 0 \<and>
        (\<exists>S. dupe_canon pb \<in> S \<and> S \<subseteq> dupe_texts (dupe_canon pb) \<and>
           (9 \<le> length (dc_free (dd_cells d)) \<and> length (dupe_canon pb) \<le> PACKETLEN_MAX \<longrightarrow>
              S = dupe_texts (dupe_canon pb)) \<and>
           (\<forall>s t. knows d' s t \<longleftrightarrow> knows d s t \<or> s \<in> S \<and> t \<le> de_tick env)))"

lemma dupecheck_ok:
  assumes inv: "dupe_inv mm (de_tick env) d" and hash: "keyhash (dupe_addr pb) 0 \<noteq> 0"
  shows "\<exists>rc pb' d'. dupecheck mm env hist pb d = Some (rc, pb', d') \<and> dupe_inv mm (de_tick env) d' \<and>
    dupe_step env pb d rc d' \<and>
    pb' = (if rc = 1 then filter_postprocess_dupefilter (de_tick env) (de_lastpos env) hist
                            (pb\<lparr>pb_flags := pb_flags pb OR F_DUPE\<rparr>) else pb)"
proof -
  let ?s = "dupe_canon pb" and ?t = "de_tick env - de_storetime env"
  have H: "keyhash (dupe_data pb) (keyhash (dupe_addr pb) 0) = keyhash ?s 0"
    by (rule keyhash_append [OF hash, symmetric])
  let ?find = "find (dupe_match (keyhash ?s 0) ?t ?s) (dd_table d (dupecheck_bucket (keyhash ?s 0)))"
  show ?thesis
  proof (cases ?find)
    case (Some dp)
    then have "knows d ?s ?t"
      using dupe_found_iff [OF inv, of ?s ?t] find_None_iff [of "dupe_match (keyhash ?s 0) ?t ?s"] by force
    moreover have "unat F_DUPE = 1" by (simp add: F_DUPE_def)
    ultimately show ?thesis using Some inv
      by (simp add: dupecheck_def Let_def H dupe_step_def)
  next
    case None
    then have unknown: "\<not> knows d ?s ?t" using dupe_found_iff [OF inv, of ?s ?t] by (auto simp: find_None_iff)
    obtain rc d1 where P: "dupe_put mm (de_tick env) (dupecheck_bucket (keyhash ?s 0)) (keyhash ?s 0) 0 ?s d = Some (rc, d1)"
      "dupe_inv mm (de_tick env) d1" "length (dc_free (dd_cells d)) \<le> Suc (length (dc_free (dd_cells d1)))"
      "rc = -1 \<and> dc_free (dd_cells d) = [] \<and> dd_table d1 = dd_table d \<or>
       rc = 0 \<and> (\<forall>s' t. knows d1 s' t \<longleftrightarrow> knows d s' t \<or> s' = ?s \<and> t \<le> de_tick env)"
      using dupe_put_ok [OF inv refl, of ?s 0] by blast
    have D: "dupecheck mm env hist pb d =
        (if rc = -1 then Some (-1, pb, d1)
         else map_option (\<lambda>(_, d''). (0, pb, d'')) (dupecheck_mangle_store mm (de_tick env) (dupe_addr pb) (dupe_data pb) d1))"
      using None P(1) by (simp add: dupecheck_def Let_def H dupecheck_append_def)
    from P(4) show ?thesis
    proof (elim disjE conjE)
      assume "rc = -1" "dc_free (dd_cells d) = []" and tbl: "dd_table d1 = dd_table d"
      then show ?thesis using unknown P(2) knows_table [OF tbl] by (simp add: D dupe_step_def)
    next
      assume rc: "rc = 0" and K: "\<forall>s' t. knows d1 s' t \<longleftrightarrow> knows d s' t \<or> s' = ?s \<and> t \<le> de_tick env"
      obtain r d2 S where M: "dupecheck_mangle_store mm (de_tick env) (dupe_addr pb) (dupe_data pb) d1 = Some (r, d2)"
        "dupe_inv mm (de_tick env) d2" "insert ?s S \<subseteq> dupe_texts ?s"
        "8 \<le> length (dc_free (dd_cells d1)) \<and> length ?s \<le> PACKETLEN_MAX \<longrightarrow> insert ?s S = dupe_texts ?s"
        "\<forall>s' t. knows d2 s' t \<longleftrightarrow> knows d1 s' t \<or> s' \<in> S \<and> t \<le> de_tick env"
        using dupecheck_mangle_store_ok [OF P(2), of "dupe_addr pb" "dupe_data pb"] by blast
      have "dupe_step env pb d 0 d2"
        unfolding dupe_step_def using unknown M(3-5) P(3) K
        by (simp del: length_append) (intro exI [of _ "insert ?s S"], auto)
      then show ?thesis using M(1,2) rc by (simp add: D)
    qed
  qed
qed

section \<open>Cleaning\<close>

lemma cleanup_chain_eq:
  "cleanup_chain tick st dps dc =
     (filter (\<lambda>dp. \<not> dupe_expired tick st dp) dps,
      foldl dupecheck_db_free dc (map dr_addr (filter (dupe_expired tick st) dps)))"
  by (induction dps arbitrary: dc) auto

lemma cleanup_buckets_eq:
  assumes "distinct js"
  shows "cleanup_buckets tick st js d =
    d\<lparr>dd_table := (\<lambda>i. if i \<in> set js then filter (\<lambda>dp. \<not> dupe_expired tick st dp) (dd_table d i) else dd_table d i),
      dd_cells := foldl dupecheck_db_free (dd_cells d)
        (map dr_addr (filter (dupe_expired tick st) (concat (map (dd_table d) js))))\<rparr>"
  using assms
proof (induction js arbitrary: d)
  case (Cons j js)
  have "map ((dd_table d)(j := x)) js = map (dd_table d) js" for x using Cons.prems by auto
  then show ?case using Cons by (auto simp: cleanup_chain_eq fun_eq_iff simp del: map_eq_conv intro!: dupe_db.equality)
qed (auto intro: dupe_db.equality)

lemma dupecheck_cleanup_ok:
  assumes inv: "dupe_inv mm tick d"
  shows "dupe_inv mm tick (dupecheck_cleanup tick st d)"
    and "set (dupe_entries (dupecheck_cleanup tick st d)) = {e \<in> set (dupe_entries d). \<not> dupe_expired tick st e}"
proof -
  let ?d = "dupecheck_cleanup tick st d"
  have E: "dupe_entries ?d = filter (\<lambda>dp. \<not> dupe_expired tick st dp) (dupe_entries d)"
    unfolding dupecheck_cleanup_def cleanup_buckets_eq [OF distinct_upt] entries_filter [symmetric]
    by (rule entries_cong) simp
  then show S: "set (dupe_entries ?d) = {e \<in> set (dupe_entries d). \<not> dupe_expired tick st e}" by simp
  have C: "dd_cells ?d = foldl dupecheck_db_free (dd_cells d) (map dr_addr (filter (dupe_expired tick st) (dupe_entries d)))"
    by (simp add: dupecheck_cleanup_def cleanup_buckets_eq entries_def)
  have "mset (map dr_addr (dupe_entries d)) = mset (map dr_addr (filter (dupe_expired tick st) (dupe_entries d)) @ map dr_addr (dupe_entries ?d))"
    unfolding E by (simp flip: image_mset_union)
  then have "dupe_holds mm (dd_cells ?d) (map dr_addr (dupe_entries ?d))"
    unfolding C using inv dupe_holds_free_all by (auto simp: dupe_inv_def)
  moreover have "dupes.placed (dd_table ?d)"
    by (rule dupes.placed_subset [of "dd_table d"]) (use inv in \<open>auto simp: dupe_inv_def dupecheck_cleanup_def cleanup_buckets_eq\<close>)
  ultimately show "dupe_inv mm tick ?d" using inv S by (auto simp: dupe_inv_def)
qed

lemma knows_cleanup:
  assumes "dupe_inv mm tick d" and "tick - st \<le> t" and "0 \<le> st"
  shows "knows (dupecheck_cleanup tick st d) s t \<longleftrightarrow> knows d s t"
proof -
  have "\<not> dupe_expired tick st e" if "e \<in> set (dupe_entries d)" "t \<le> dr_t e" for e
    using that assms by (auto simp: dupe_expired_def dupe_inv_def)
  then show ?thesis unfolding knows_def dupecheck_cleanup_ok(2) [OF assms(1)] by blast
qed

lemma dupe_inv_later: "dupe_inv mm t d \<Longrightarrow> t \<le> t' \<Longrightarrow> dupe_inv mm t' d"
  by (auto simp: dupe_inv_def)

section \<open>Histories\<close>

text \<open>What the thread does to the memory while the clock runs on: it checks packets and cleans up.\<close>

inductive dupe_run :: "mmap \<Rightarrow> int \<Rightarrow> ctime \<times> dupe_db \<Rightarrow> ctime \<times> dupe_db \<Rightarrow> bool" for mm st td where
  run_start: "dupe_run mm st td td"
| run_check: "dupe_run mm st td (t, d) \<Longrightarrow> t \<le> de_tick env \<Longrightarrow> de_storetime env = st \<Longrightarrow>
    keyhash (dupe_addr pb) 0 \<noteq> 0 \<Longrightarrow> dupecheck mm env hist pb d = Some (rc, pb', d') \<Longrightarrow>
    dupe_run mm st td (de_tick env, d')"
| run_clean: "dupe_run mm st td (t, d) \<Longrightarrow> t \<le> t' \<Longrightarrow> dupe_run mm st td (t', dupecheck_cleanup t' st d)"

inductive_cases dupe_runE: "dupe_run mm st td (t, d)"

lemma dupe_step_keeps: "dupe_step env pb d rc d' \<Longrightarrow> knows d s t \<Longrightarrow> knows d' s t"
  by (auto simp: dupe_step_def split: if_splits)

lemma dupe_run_inv:
  assumes "dupe_run mm st (t0, d0) (t, d)" and "dupe_inv mm t0 d0" and "0 \<le> st"
  shows "t0 \<le> t \<and> dupe_inv mm t d \<and> (\<forall>s u. knows d0 s u \<longrightarrow> t - st \<le> u \<longrightarrow> knows d s u)"
  using assms(1)
proof (induction "(t, d)" arbitrary: t d rule: dupe_run.induct)
  case run_start
  then show ?case using assms(2) by simp
next
  case (run_check t d env pb hist rc pb' d')
  have inv: "dupe_inv mm (de_tick env) d" using run_check dupe_inv_later by blast
  have "dupe_inv mm (de_tick env) d'" "dupe_step env pb d rc d'"
    using dupecheck_ok [OF inv run_check.hyps(5), of hist] run_check.hyps(6) by auto
  with run_check show ?case using dupe_step_keeps by fastforce
next
  case (run_clean t d t')
  have inv: "dupe_inv mm t' d" using run_clean dupe_inv_later by blast
  with run_clean show ?case
    using dupecheck_cleanup_ok(1) [OF inv] knows_cleanup [OF inv _ assms(3)] by fastforce
qed

lemma postprocess_dupe_flag:
  "has_flag (pb_flags (filter_postprocess_dupefilter tick st hist (pb\<lparr>pb_flags := pb_flags pb OR F_DUPE\<rparr>))) F_DUPE"
proof -
  have "has_flag (w OR F_DUPE) F_DUPE" for w by (rule has_flag_or_self) (simp add: F_DUPE_def)
  moreover have "has_flag ((w OR F_DUPE) OR F_HASPOS) F_DUPE" for w
    using has_flag_or_self [of F_DUPE "w OR F_HASPOS"] by (simp add: F_DUPE_def ac_simps)
  ultimately show ?thesis by (simp add: filter_postprocess_dupefilter_def split: option.split)
qed

section \<open>Properties\<close>

text \<open>C3. The check of a packet against the abstract memory of texts. It never dereferences NULL and
  keeps the invariant. A packet is a duplicate exactly when its text was seen within the storage
  time, and then nothing is remembered; otherwise, unless memory has run out, its text and with
  enough free records all the mangled variants of it are remembered from now on, and nothing else.
  The address part must not hash to zero, which the hash function takes for a fresh start.\<close>

theorem dupecheck_refines:
  assumes "dupe_inv mm (de_tick env) d" and "keyhash (dupe_addr pb) 0 \<noteq> 0"
  shows "\<exists>rc pb' d'. dupecheck mm env hist pb d = Some (rc, pb', d') \<and> dupe_inv mm (de_tick env) d' \<and>
    (if knows d (dupe_canon pb) (de_tick env - de_storetime env) then rc = 1 \<and> knows d' = knows d
     else if rc = -1 then dc_free (dd_cells d) = [] \<and> knows d' = knows d
     else rc = 0 \<and> pb' = pb \<and>
       (\<exists>S. dupe_canon pb \<in> S \<and> S \<subseteq> dupe_texts (dupe_canon pb) \<and>
          (9 \<le> length (dc_free (dd_cells d)) \<and> length (dupe_canon pb) \<le> PACKETLEN_MAX \<longrightarrow>
             S = dupe_texts (dupe_canon pb)) \<and>
          (\<forall>s t. knows d' s t \<longleftrightarrow> knows d s t \<or> s \<in> S \<and> t \<le> de_tick env)))"
proof -
  obtain rc pb' d' where "dupecheck mm env hist pb d = Some (rc, pb', d')" "dupe_inv mm (de_tick env) d'"
    "dupe_step env pb d rc d'" "rc \<noteq> 1 \<longrightarrow> pb' = pb"
    using dupecheck_ok [OF assms, of hist] by (metis (full_types))
  then show ?thesis
    by (intro exI [of _ rc] exI [of _ pb'] exI [of _ d'] conjI) (simp_all only: dupe_step_def split: if_splits, simp_all)
qed


section \<open>Concrete runs\<close>

text \<open>A table with ten records on the free chain, cut from one block.\<close>

definition demo_dupe_arena :: cellarena_t where
  "demo_dupe_arena = demo_arena\<lparr>ca_increment := 100, ca_createsize := 1024, ca_cellblocks := [1024],
     ca_free_head := None, ca_free_tail := None, ca_freecount := 0\<rparr>"

definition demo_dupe_db :: dupe_db where
  "demo_dupe_db = \<lparr>dd_table = (\<lambda>_. []),
     dd_cells = \<lparr>dc_free = block_cells 100 1024 1024 0, dc_cells = demo_dupe_arena, dc_gauge = 0\<rparr>,
     dd_types = replicate 9 0\<rparr>"

definition demo_dupe_env :: "ctime \<Rightarrow> dupe_env" where
  "demo_dupe_env tick = \<lparr>de_tick = tick, de_storetime = 30, de_lastpos = 86400, de_filtered = False,
     de_expiration = 60, de_dupe_expiration = 60, de_hist_alloc = True\<rparr>"

definition demo_packet :: "string \<Rightarrow> pbuf_t" where
  "demo_packet info = (pbuf_zero 5000 PACKETLEN_MAX_SMALL)
     \<lparr>pb_data := ''OH7LZB>APRS,qAR,OH7AA:'' @ info @ [CHR 0x0D, CHR 0x0A],
      pb_dstcall_end_or_ssid := 11, pb_info_start := 22, pb_packet_len := 24 + length info\<rparr>"

lemma demo_dupe_inv: "dupe_inv demo_mmap tick demo_dupe_db"
proof -
  have "arena_inv demo_dupe_arena [] (block_cells 100 1024 1024 0)"
    using distinct_block_cells [of 100 1024 1024 0]
    by (simp add: arena_inv_def demo_dupe_arena_def all_cells_def blocks_apart_def demo_arena_def
        cellinit_no_minfree cell_policies has_flag_def)
  then have "arena_holds demo_mmap demo_dupe_arena (block_cells 100 1024 1024 0)"
    using demo_mmap_fresh by (auto simp: arena_holds_def)
  moreover have "dupe_entries demo_dupe_db = []" by (simp add: demo_dupe_db_def entries_def)
  ultimately show ?thesis
    by (simp add: dupe_inv_def dupe_holds_def dupes.placed_def) (simp add: demo_dupe_db_def)
qed

lemma demo_dupe_free: "length (dc_free (dd_cells demo_dupe_db)) = 10"
  by (simp add: demo_dupe_db_def length_block_cells)

lemma demo_packet_addr: "dupe_addr (demo_packet info) = ''OH7LZB>APRS''" "dupe_data (demo_packet info) = info"
  by (simp_all add: dupe_addr_def dupe_data_def demo_packet_def sub_def)

lemma demo_addr_hash: "keyhash ''OH7LZB>APRS'' 0 \<noteq> 0"
  by (simp add: keyhash_def FVN_32_OFFSET_def fnv_mult_eq FNV_32_PRIME_def byte32_def byte_code_def)

lemma demo_first_passes:
  assumes "length info \<le> 400"
  shows "\<exists>d1. dupecheck demo_mmap (demo_dupe_env 1000) hist (demo_packet info) demo_dupe_db = Some (0, demo_packet info, d1)"
proof -
  have "\<not> knows demo_dupe_db s t" for s t by (simp add: knows_def demo_dupe_db_def entries_def)
  moreover have "keyhash (dupe_addr (demo_packet info)) 0 \<noteq> 0" using demo_addr_hash by (simp add: demo_packet_addr)
  moreover have "dc_free (dd_cells demo_dupe_db) \<noteq> []" using demo_dupe_free by auto
  ultimately show ?thesis
    using dupecheck_ok [of demo_mmap "demo_dupe_env 1000" demo_dupe_db "demo_packet info" hist] demo_dupe_inv
    by (auto simp: dupe_step_def split: if_splits)
qed

theorem dupecheck_refines_witness:
  "\<exists>rc pb' d'. dupecheck demo_mmap (demo_dupe_env 1000) (\<lambda>_. []) (demo_packet ''hello'') demo_dupe_db = Some (rc, pb', d') \<and>
     dupe_inv demo_mmap 1000 d'"
proof -
  have "de_tick (demo_dupe_env 1000) = 1000" by (simp add: demo_dupe_env_def)
  then show ?thesis
    using dupecheck_refines [of demo_mmap "demo_dupe_env 1000" demo_dupe_db "demo_packet ''hello''" "\<lambda>_. []"]
      demo_dupe_inv demo_addr_hash unfolding demo_packet_addr by metis
qed


section \<open>The queues\<close>

text \<open>The lag is right as long as the true, unbounded sequence numbers are less than \<open>2 ^ 31\<close> apart,
  however often the 32-bit counters have wrapped round.\<close>

lemma pbuf_seqnum_lag_true:
  assumes "-(2 ^ 31) \<le> S - P" and "S - P < 2 ^ 31" and "word_of_int P \<noteq> (0 :: u32)"
  shows "pbuf_seqnum_lag (word_of_int S) (word_of_int P) = S - P"
proof -
  have "sint (word_of_int (S - P) :: u32) = signed_take_bit 31 (S - P)" by (subst sint_sbintrunc') simp
  also have "\<dots> = S - P" using assms by (intro signed_take_bit_int_eq_self) simp_all
  finally show ?thesis using assms(3) by (simp only: pbuf_seqnum_lag_def wi_hom_sub if_False)
qed

definition purgeable :: "ctime \<Rightarrow> int \<Rightarrow> u32 \<Rightarrow> pbuf_t \<Rightarrow> bool" where
  "purgeable expire lag seqnum pb \<longleftrightarrow> pb_t pb < expire \<and> lag < pbuf_seqnum_lag seqnum (pb_seqnum pb)"

lemma pool_inv_free_some:
  "pool_inv mm (w, g) (ps @ rest) \<Longrightarrow> pool_inv mm (w, if ps \<noteq> [] then pbuf_free_many ps g else g) rest"
  using class_inv_free_many by (auto simp: pool_inv_def pbuf_free_many_def)

lemma purge_loop_ok:
  assumes "purge_loop expire limit lag seqnum cnt fs q g = (q', cnt', g')"
  shows "\<exists>freed. q = freed @ q' \<and> (\<forall>pb \<in> set freed. purgeable expire lag seqnum pb) \<and>
    cnt' = cnt - int (length freed) \<and> (limit \<le> cnt \<longrightarrow> limit \<le> cnt') \<and>
    (\<forall>mm w rest. pool_inv mm (w, g) (rev fs @ q @ rest) \<longrightarrow> pool_inv mm (w, g') (q' @ rest))"
  using assms
proof (induction expire limit lag seqnum cnt fs q g rule: purge_loop.induct)
  case (1 expire limit lag seqnum cnt fs g)
  then show ?case using pool_inv_free_some [of _ _ g "rev fs"] by auto
next
  case (2 expire limit lag seqnum cnt fs pb q g)
  show ?case
  proof (cases "limit < cnt \<and> pb_t pb < expire \<and> lag < pbuf_seqnum_lag seqnum (pb_seqnum pb)")
    case False
    then have "q' = pb # q" "cnt' = cnt" "g' = (if rev fs \<noteq> [] then pbuf_free_many (rev fs) g else g)"
      using 2(3) by (auto split: if_splits)
    then show ?thesis using pool_inv_free_some [of _ _ g "rev fs"] by auto
  next
    case True
    then have pb: "purgeable expire lag seqnum pb" by (simp add: purgeable_def)
    show ?thesis
    proof (cases "2000 \<le> length (pb # fs)")
      case full: True
      then have R: "purge_loop expire limit lag seqnum (cnt - 1) [] q (pbuf_free_many (rev (pb # fs)) g) = (q', cnt', g')"
        using 2(3) True by simp
      obtain freed where F: "q = freed @ q'" "\<forall>pb \<in> set freed. purgeable expire lag seqnum pb"
        "cnt' = cnt - 1 - int (length freed)" "limit \<le> cnt - 1 \<longrightarrow> limit \<le> cnt'"
        "\<And>mm w rest. pool_inv mm (w, pbuf_free_many (rev (pb # fs)) g) (q @ rest) \<Longrightarrow> pool_inv mm (w, g') (q' @ rest)"
        using 2(1) [OF True full R] by (metis append_Nil rev.simps(1))
      have "pool_inv mm (w, g') (q' @ rest)" if "pool_inv mm (w, g) (rev fs @ (pb # q) @ rest)" for mm w rest
        using that pool_inv_free_some [of mm w g "rev (pb # fs)" "q @ rest"] by (intro F(5)) simp
      then show ?thesis using F(1-4) pb True by (intro exI [of _ "pb # freed"]) auto
    next
      case notfull: False
      then have R: "purge_loop expire limit lag seqnum (cnt - 1) (pb # fs) q g = (q', cnt', g')"
        using 2(3) True by simp
      obtain freed where F: "q = freed @ q'" "\<forall>pb \<in> set freed. purgeable expire lag seqnum pb"
        "cnt' = cnt - 1 - int (length freed)" "limit \<le> cnt - 1 \<longrightarrow> limit \<le> cnt'"
        "\<And>mm w rest. pool_inv mm (w, g) (rev (pb # fs) @ q @ rest) \<Longrightarrow> pool_inv mm (w, g') (q' @ rest)"
        using 2(2) [OF True notfull R] by auto
      then show ?thesis using pb True by (intro exI [of _ "pb # freed"]) auto
    qed
  qed
qed

lemma max_lag_ge: "x \<in> set xs \<Longrightarrow> x \<le> max_lag xs"
proof -
  have "a \<le> foldl max a xs \<and> (x \<in> set xs \<longrightarrow> x \<le> foldl max a xs)" for a
    by (induction xs arbitrary: a) (auto, (metis max.bounded_iff)+)
  then show "x \<in> set xs \<Longrightarrow> x \<le> max_lag xs" by (simp add: max_lag_def)
qed

text \<open>What a packet keeps through the check: everything but its flags, position and number.\<close>

definition pb_same :: "pbuf_t \<Rightarrow> pbuf_t \<Rightarrow> bool" where
  "pb_same a b \<longleftrightarrow> pb_addr a = pb_addr b \<and> pb_data a = pb_data b \<and> pb_packet_len a = pb_packet_len b \<and>
     pb_origin a = pb_origin b \<and> pb_t a = pb_t b \<and> pb_buf_len a = pb_buf_len b \<and>
     pb_packettype a = pb_packettype b \<and> pb_srcname a = pb_srcname b \<and> pb_is_free a = pb_is_free b"

lemma pb_same_trans: "pb_same a b \<Longrightarrow> pb_same b c \<Longrightarrow> pb_same a c"
  by (simp add: pb_same_def)

lemma postprocess_same: "pb_same (filter_postprocess_dupefilter tick st hist pb) pb"
  by (simp add: filter_postprocess_dupefilter_def pb_same_def split: option.split)

lemma pb_same_upd [simp]:
  "pb_same (a\<lparr>pb_seqnum := n\<rparr>) b = pb_same a b" "pb_same a (b\<lparr>pb_flags := f\<rparr>) = pb_same a b"
  by (simp_all add: pb_same_def)

lemma dupecheck_same:
  "dupecheck mm env hist pb d = Some (rc, pb', d') \<Longrightarrow> pb_same pb' pb"
  using postprocess_same [of "de_tick env" "de_lastpos env" hist "pb\<lparr>pb_flags := pb_flags pb OR F_DUPE\<rparr>"]
  by (auto simp: dupecheck_def Let_def pb_same_def split: option.splits if_splits prod.splits)

text \<open>A list split in two by a list of verdicts, the order kept.\<close>

definition pick :: "bool \<Rightarrow> bool list \<Rightarrow> 'a list \<Rightarrow> 'a list" where
  "pick v vs xs = map snd (filter (\<lambda>(w, _). w = v) (zip vs xs))"

lemma pick_simps [simp]: "pick v [] [] = []" "pick v (w # vs) (x # xs) = (if w = v then x # pick v vs xs else pick v vs xs)"
  by (simp_all add: pick_def)

definition seqnums :: "u32 \<Rightarrow> nat \<Rightarrow> u32 list" where
  "seqnums n k = map (\<lambda>i. n + of_nat (Suc i)) [0..<k]"

lemma seqnums_Suc: "seqnums n (Suc k) = (n + 1) # seqnums (n + 1) k"
  by (simp add: seqnums_def upt_conv_Cons map_Suc_upt [symmetric] comp_def add.assoc del: upt_Suc)

lemma drain_loop_ok:
  assumes "drain_loop mm env pbs (s, out, dupes) = Some (s', out', dupes')"
  shows "\<exists>vs no nd. length vs = length pbs \<and> out' = out @ no \<and> dupes' = dupes @ nd \<and>
    list_all2 pb_same no (pick True vs pbs) \<and> list_all2 pb_same nd (pick False vs pbs) \<and>
    map pb_seqnum no = seqnums (ds_seqnum s) (length no) \<and> ds_seqnum s' = ds_seqnum s + of_nat (length no) \<and>
    map pb_seqnum nd = seqnums (ds_dupe_seqnum s) (length nd) \<and> ds_dupe_seqnum s' = ds_dupe_seqnum s + of_nat (length nd) \<and>
    ds_global s' = ds_global s \<and> ds_global_dupe s' = ds_global_dupe s \<and> ds_arenas s' = ds_arenas s"
  using assms
proof (induction pbs arbitrary: s out dupes)
  case Nil
  then show ?case by (intro exI [of _ "[]"]) (simp add: seqnums_def)
next
  case (Cons pb pbs)
  obtain rc pb1 db where D: "dupecheck mm env (ds_hist s) pb (ds_db s) = Some (rc, pb1, db)"
    using Cons.prems by (auto split: option.splits)
  have same: "pb_same pb1 pb" by (rule dupecheck_same [OF D])
  show ?case
  proof (cases "rc = 0")
    case True
    obtain hist pb2 where N: "drain_loop mm env pbs (s\<lparr>ds_db := db, ds_hist := hist, ds_seqnum := ds_seqnum s + 1\<rparr>,
        out @ [pb2\<lparr>pb_seqnum := ds_seqnum s + 1\<rparr>], dupes) = Some (s', out', dupes')" "pb_same pb2 pb"
    proof (cases "de_filtered env")
      case True
      then show ?thesis
        using that Cons.prems D \<open>rc = 0\<close> pb_same_trans [OF postprocess_same same] by (simp add: Let_def)
    next
      case False
      then show ?thesis using that [of "ds_hist s" pb1] Cons.prems D \<open>rc = 0\<close> same by (simp add: Let_def)
    qed
    from Cons.IH [OF N(1)] obtain vs no nd where IH: "length vs = length pbs"
      "out' = out @ pb2\<lparr>pb_seqnum := ds_seqnum s + 1\<rparr> # no" "dupes' = dupes @ nd"
      "list_all2 pb_same no (pick True vs pbs)" "list_all2 pb_same nd (pick False vs pbs)"
      "map pb_seqnum no = seqnums (ds_seqnum s + 1) (length no)" "ds_seqnum s' = ds_seqnum s + 1 + of_nat (length no)"
      "map pb_seqnum nd = seqnums (ds_dupe_seqnum s) (length nd)" "ds_dupe_seqnum s' = ds_dupe_seqnum s + of_nat (length nd)"
      "ds_global s' = ds_global s" "ds_global_dupe s' = ds_global_dupe s" "ds_arenas s' = ds_arenas s" by auto
    then show ?thesis using N(2)
      by (intro exI [of _ "True # vs"] exI [of _ "pb2\<lparr>pb_seqnum := ds_seqnum s + 1\<rparr> # no"] exI [of _ nd])
        (simp add: seqnums_Suc)
  next
    case False
    then have N: "drain_loop mm env pbs (s\<lparr>ds_db := db, ds_dupe_seqnum := ds_dupe_seqnum s + 1\<rparr>, out,
        dupes @ [pb1\<lparr>pb_seqnum := ds_dupe_seqnum s + 1\<rparr>]) = Some (s', out', dupes')"
      using Cons.prems D by (simp add: Let_def)
    from Cons.IH [OF N] obtain vs no nd where IH: "length vs = length pbs"
      "out' = out @ no" "dupes' = dupes @ pb1\<lparr>pb_seqnum := ds_dupe_seqnum s + 1\<rparr> # nd"
      "list_all2 pb_same no (pick True vs pbs)" "list_all2 pb_same nd (pick False vs pbs)"
      "map pb_seqnum no = seqnums (ds_seqnum s) (length no)" "ds_seqnum s' = ds_seqnum s + of_nat (length no)"
      "map pb_seqnum nd = seqnums (ds_dupe_seqnum s + 1) (length nd)" "ds_dupe_seqnum s' = ds_dupe_seqnum s + 1 + of_nat (length nd)"
      "ds_global s' = ds_global s" "ds_global_dupe s' = ds_global_dupe s" "ds_arenas s' = ds_arenas s" by auto
    then show ?thesis using same
      by (intro exI [of _ "False # vs"] exI [of _ no] exI [of _ "pb1\<lparr>pb_seqnum := ds_dupe_seqnum s + 1\<rparr> # nd"])
        (simp add: seqnums_Suc)
  qed
qed

lemma drain_loop_append:
  "drain_loop mm env (xs @ ys) so = Option.bind (drain_loop mm env xs so) (drain_loop mm env ys)"
proof (induction xs arbitrary: so)
  case (Cons pb xs)
  obtain s out dupes where "so = (s, out, dupes)" by (cases so)
  with Cons show ?case by (auto simp: Let_def split: option.split)
qed simp

definition emptied :: "worker_t \<Rightarrow> worker_t" where
  "emptied w = (if w_pbuf_incoming w = [] then w else w\<lparr>w_pbuf_incoming := [], w_pbuf_incoming_count := 0\<rparr>)"

lemma emptied_simps [simp]:
  "w_pbuf_incoming (emptied w) = []" "w_last_pbuf_seqnum (emptied w) = w_last_pbuf_seqnum w"
  "w_last_pbuf_dupe_seqnum (emptied w) = w_last_pbuf_dupe_seqnum w"
  by (simp_all add: emptied_def)

text \<open>Draining the workers one by one is draining their inboxes joined together.\<close>

lemma drain_workers_eq:
  "drain_workers mm env ws so =
     map_option (Pair (map emptied ws)) (drain_loop mm env (concat (map w_pbuf_incoming ws)) so)"
proof (induction ws arbitrary: so)
  case (Cons w ws)
  then show ?case
    by (cases "drain_loop mm env (w_pbuf_incoming w) so")
      (auto simp: dupecheck_drain_worker_def drain_loop_append emptied_def comp_def option.map_comp)
qed simp

text \<open>Draining keeps every packet and its order. The packets of the inboxes, worker after worker, are
  split by the verdicts into the two queues; nothing is lost, repeated or reordered, each queue's
  packets get the next sequence numbers modulo \<open>2 ^ 32\<close>, and the inboxes are empty.\<close>

theorem drain_workers_partition:
  assumes "drain_workers mm env ws (s, out, dupes) = Some (ws', s', out', dupes')"
    and "pbs = concat (map w_pbuf_incoming ws)"
  shows "(\<forall>w \<in> set ws'. w_pbuf_incoming w = []) \<and>
    (\<exists>vs no nd. length vs = length pbs \<and> out' = out @ no \<and> dupes' = dupes @ nd \<and>
      list_all2 pb_same no (pick True vs pbs) \<and> list_all2 pb_same nd (pick False vs pbs) \<and>
      map pb_seqnum no = seqnums (ds_seqnum s) (length no) \<and> ds_seqnum s' = ds_seqnum s + of_nat (length no) \<and>
      map pb_seqnum nd = seqnums (ds_dupe_seqnum s) (length nd) \<and> ds_dupe_seqnum s' = ds_dupe_seqnum s + of_nat (length nd))"
proof -
  have ws': "ws' = map emptied ws" and D: "drain_loop mm env pbs (s, out, dupes) = Some (s', out', dupes')"
    using assms by (auto simp: drain_workers_eq)
  show ?thesis using drain_loop_ok [OF D] by (auto simp: ws')
qed

definition demo_dupe_state :: dupe_state where
  "demo_dupe_state = \<lparr>ds_db = demo_dupe_db, ds_hist = (\<lambda>_. []), ds_arenas = demo_arenas, ds_seqnum = -1,
     ds_dupe_seqnum = -1, ds_global = [], ds_global_count = 0, ds_global_dupe = [], ds_global_dupe_count = 0,
     ds_count_limit = 5000, ds_dupe_count_limit = 100, ds_outcount = 0, ds_dupecount = 0, ds_cleanup_tick = 2000\<rparr>"

theorem drain_workers_partition_witness:
  "\<exists>s'. drain_workers demo_mmap (demo_dupe_env 1000) [demo_worker\<lparr>w_pbuf_incoming := [demo_packet ''hello'']\<rparr>]
          (demo_dupe_state, [], []) =
        Some ([demo_worker], s', [(demo_packet ''hello'')\<lparr>pb_seqnum := 0\<rparr>], []) \<and> ds_seqnum s' = 0"
proof -
  obtain d1 where D: "dupecheck demo_mmap (demo_dupe_env 1000) (\<lambda>_. []) (demo_packet ''hello'') demo_dupe_db =
      Some (0, demo_packet ''hello'', d1)" using demo_first_passes [of "''hello''"] by auto
  have R: "drain_workers demo_mmap (demo_dupe_env 1000) [demo_worker\<lparr>w_pbuf_incoming := [demo_packet ''hello'']\<rparr>]
          (demo_dupe_state, [], []) =
      Some ([demo_worker], demo_dupe_state\<lparr>ds_db := d1, ds_seqnum := 0\<rparr>, [(demo_packet ''hello'')\<lparr>pb_seqnum := 0\<rparr>], [])"
    using D by (simp add: drain_workers_eq demo_dupe_state_def demo_dupe_env_def emptied_def demo_worker_def)
  from drain_workers_partition [OF R refl] show ?thesis using R by auto
qed

section \<open>The purger\<close>

lemma global_pbuf_purger_ok:
  assumes "global_pbuf_purger env False lag dlag s = s'"
  shows "\<exists>freed dfreed. ds_global s = freed @ ds_global s' \<and> ds_global_dupe s = dfreed @ ds_global_dupe s' \<and>
    (\<forall>pb \<in> set freed. purgeable (de_tick env - de_expiration env) lag (ds_seqnum s) pb) \<and>
    (\<forall>pb \<in> set dfreed. purgeable (de_tick env - de_dupe_expiration env) dlag (ds_dupe_seqnum s) pb) \<and>
    ds_global_count s' = ds_global_count s - int (length freed) \<and>
    ds_global_dupe_count s' = ds_global_dupe_count s - int (length dfreed) \<and>
    (\<forall>mm w rest. pool_inv mm (w, ds_arenas s) (ds_global s @ ds_global_dupe s @ rest) \<longrightarrow>
       pool_inv mm (w, ds_arenas s') (ds_global s' @ ds_global_dupe s' @ rest))"
proof -
  obtain q1 n1 g1 where P1: "purge_loop (de_tick env - de_expiration env) (ds_count_limit s) lag (ds_seqnum s)
      (ds_global_count s) [] (ds_global s) (ds_arenas s) = (q1, n1, g1)" by (metis prod_cases3)
  obtain q2 n2 g2 where P2: "purge_loop (de_tick env - de_dupe_expiration env) (ds_dupe_count_limit s) dlag (ds_dupe_seqnum s)
      (ds_global_dupe_count s) [] (ds_global_dupe s) g1 = (q2, n2, g2)" by (metis prod_cases3)
  have s': "ds_global s' = q1" "ds_global_dupe s' = q2" "ds_arenas s' = g2" "ds_global_count s' = n1" "ds_global_dupe_count s' = n2"
    using assms P1 P2 by (auto simp: global_pbuf_purger_def)
  obtain freed where F: "ds_global s = freed @ q1" "\<forall>pb \<in> set freed. purgeable (de_tick env - de_expiration env) lag (ds_seqnum s) pb"
    "n1 = ds_global_count s - int (length freed)"
    "\<And>mm w r. pool_inv mm (w, ds_arenas s) (ds_global s @ r) \<Longrightarrow> pool_inv mm (w, g1) (q1 @ r)"
    using purge_loop_ok [OF P1] by auto
  obtain dfreed where G: "ds_global_dupe s = dfreed @ q2"
    "\<forall>pb \<in> set dfreed. purgeable (de_tick env - de_dupe_expiration env) dlag (ds_dupe_seqnum s) pb"
    "n2 = ds_global_dupe_count s - int (length dfreed)"
    "\<And>mm w r. pool_inv mm (w, g1) (ds_global_dupe s @ r) \<Longrightarrow> pool_inv mm (w, g2) (q2 @ r)"
    using purge_loop_ok [OF P2] by auto
  have "pool_inv mm (w, g2) (q1 @ q2 @ rest)" if "pool_inv mm (w, ds_arenas s) (ds_global s @ ds_global_dupe s @ rest)" for mm w rest
  proof -
    have "pool_inv mm (w, g1) (ds_global_dupe s @ q1 @ rest)" using F(4) [OF that] by (rule pool_inv_perm [THEN iffD1, rotated]) simp
    from G(4) [OF this] show ?thesis by (rule pool_inv_perm [THEN iffD1, rotated]) simp
  qed
  then show ?thesis unfolding s' using F(1-3) G(1-3) by blast
qed

text \<open>C29. The purger frees from the head of the queue only, only expired packets, and none that a worker
  still needs: every worker's last packet is strictly behind the ones freed, so that its place in
  the queue, the \<^verbatim>\<open>next\<close> field of that packet, stays valid. \<open>S\<close>, \<open>P\<close> and \<open>L\<close> are the true sequence
  numbers of the thread, of a freed packet and of the last packet of worker \<open>w\<close>, less than \<open>2 ^ 31\<close>
  apart; zero stands for a worker without data and must not be the number of a packet.\<close>

theorem purger_spares_unread:
  assumes "global_pbuf_purger env False (max_lag (map (\<lambda>w. pbuf_seqnum_lag (ds_seqnum s) (w_last_pbuf_seqnum w)) ws)) dlag s = s'"
  shows "\<exists>freed. ds_global s = freed @ ds_global s' \<and> ds_global_count s' = ds_global_count s - int (length freed) \<and>
    (\<forall>pb \<in> set freed. pb_t pb < de_tick env - de_expiration env \<and>
      (\<forall>w \<in> set ws. \<forall>S P L. ds_seqnum s = word_of_int S \<and> pb_seqnum pb = word_of_int P \<and> pb_seqnum pb \<noteq> 0 \<and>
         w_last_pbuf_seqnum w = word_of_int L \<and> w_last_pbuf_seqnum w \<noteq> 0 \<and>
         0 \<le> S - P \<and> S - P < 2 ^ 31 \<and> 0 \<le> S - L \<and> S - L < 2 ^ 31 \<longrightarrow> P < L))"
proof -
  let ?lags = "map (\<lambda>w. pbuf_seqnum_lag (ds_seqnum s) (w_last_pbuf_seqnum w)) ws"
  from global_pbuf_purger_ok [OF assms] obtain freed where F: "ds_global s = freed @ ds_global s'"
    "\<forall>pb \<in> set freed. purgeable (de_tick env - de_expiration env) (max_lag ?lags) (ds_seqnum s) pb"
    "ds_global_count s' = ds_global_count s - int (length freed)" by blast
  have "P < L" if "pb \<in> set freed" "w \<in> set ws" and T: "ds_seqnum s = word_of_int S" "pb_seqnum pb = word_of_int P"
      "pb_seqnum pb \<noteq> 0" "w_last_pbuf_seqnum w = word_of_int L" "w_last_pbuf_seqnum w \<noteq> 0"
      "0 \<le> S - P" "S - P < 2 ^ 31" "0 \<le> S - L" "S - L < 2 ^ 31" for pb w S P L
  proof -
    have "pbuf_seqnum_lag (ds_seqnum s) (w_last_pbuf_seqnum w) \<le> max_lag ?lags"
      using that(2) by (intro max_lag_ge) auto
    moreover have "max_lag ?lags < pbuf_seqnum_lag (ds_seqnum s) (pb_seqnum pb)"
      using F(2) that(1) by (auto simp: purgeable_def)
    moreover have "pbuf_seqnum_lag (ds_seqnum s) (w_last_pbuf_seqnum w) = S - L"
      unfolding T(1,4) using T(4-9) by (intro pbuf_seqnum_lag_true) auto
    moreover have "pbuf_seqnum_lag (ds_seqnum s) (pb_seqnum pb) = S - P"
      unfolding T(1,2) using T(2,3,6,7) by (intro pbuf_seqnum_lag_true) auto
    ultimately show ?thesis by linarith
  qed
  then show ?thesis using F by (intro exI [of _ freed]) (auto simp: purgeable_def)
qed

text \<open>An expired packet everybody has passed goes, once the count is over its limit.\<close>

definition demo_purge_state :: dupe_state where
  "demo_purge_state = demo_dupe_state\<lparr>ds_seqnum := 1, ds_count_limit := 1, ds_global_count := 3,
     ds_global := [(demo_packet ''a'')\<lparr>pb_seqnum := -1\<rparr>, (demo_packet ''b'')\<lparr>pb_seqnum := 0\<rparr>, (demo_packet ''c'')\<lparr>pb_seqnum := 1\<rparr>]\<rparr>"

theorem purger_spares_unread_witness:
  "ds_global demo_purge_state =
     [(demo_packet ''a'')\<lparr>pb_seqnum := -1\<rparr>, (demo_packet ''b'')\<lparr>pb_seqnum := 0\<rparr>] @
     ds_global (global_pbuf_purger (demo_dupe_env 1000) False
       (max_lag (map (\<lambda>w. pbuf_seqnum_lag (ds_seqnum demo_purge_state) (w_last_pbuf_seqnum w)) [demo_worker\<lparr>w_last_pbuf_seqnum := 1\<rparr>]))
       2000000000 demo_purge_state)"
proof -
  let ?s' = "global_pbuf_purger (demo_dupe_env 1000) False
       (max_lag (map (\<lambda>w. pbuf_seqnum_lag (ds_seqnum demo_purge_state) (w_last_pbuf_seqnum w)) [demo_worker\<lparr>w_last_pbuf_seqnum := 1\<rparr>]))
       2000000000 demo_purge_state"
  obtain freed where "ds_global demo_purge_state = freed @ ds_global ?s'"
    using purger_spares_unread [OF refl] by blast
  moreover have "ds_global ?s' = [(demo_packet ''c'')\<lparr>pb_seqnum := 1\<rparr>]"
    by (simp add: global_pbuf_purger_def demo_purge_state_def demo_dupe_state_def demo_dupe_env_def max_lag_def
        pbuf_seqnum_lag_def demo_packet_def pbuf_zero_def)
  ultimately show ?thesis by (simp add: demo_purge_state_def)
qed

text \<open>The number zero of a packet is taken for "no data": after the counter has wrapped round, an
  expired packet with that number is freed although a worker three packets behind it has not sent
  it, while the packets before and after it are held for the worker.\<close>

theorem purger_drops_seqnum_zero:
  "purge_loop 1000 0 8 5 2 [] [pb\<lparr>pb_seqnum := 0, pb_t := 0\<rparr>, pb'\<lparr>pb_seqnum := 1, pb_t := 0\<rparr>] g =
     ([pb'\<lparr>pb_seqnum := 1, pb_t := 0\<rparr>], 1, pbuf_free_many [pb\<lparr>pb_seqnum := 0, pb_t := 0\<rparr>] g) \<and>
   pbuf_seqnum_lag 5 (-3) = 8 \<and> (-3 :: u32) + 3 = 0"
  by (simp add: pbuf_seqnum_lag_def)

lemma dupe_housekeeping_ok:
  assumes "s' = dupe_housekeeping env (map emptied ws) s"
  shows "\<exists>freed dfreed. ds_global s = freed @ ds_global s' \<and> ds_global_dupe s = dfreed @ ds_global_dupe s' \<and>
    (\<forall>pb \<in> set freed. pb_t pb < de_tick env - de_expiration env \<and>
       (\<forall>w \<in> set ws. pbuf_seqnum_lag (ds_seqnum s') (w_last_pbuf_seqnum w) < pbuf_seqnum_lag (ds_seqnum s') (pb_seqnum pb))) \<and>
    (\<forall>pb \<in> set dfreed. pb_t pb < de_tick env - de_dupe_expiration env \<and>
       (\<forall>w \<in> set ws. pbuf_seqnum_lag (ds_dupe_seqnum s') (w_last_pbuf_dupe_seqnum w) < pbuf_seqnum_lag (ds_dupe_seqnum s') (pb_seqnum pb))) \<and>
    (\<forall>mm w rest. pool_inv mm (w, ds_arenas s) (ds_global s @ ds_global_dupe s @ rest) \<longrightarrow>
       pool_inv mm (w, ds_arenas s') (ds_global s' @ ds_global_dupe s' @ rest))"
proof (cases "ds_cleanup_tick s \<le> de_tick env")
  case True
  let ?lags = "map (\<lambda>w. pbuf_seqnum_lag (ds_seqnum s) (w_last_pbuf_seqnum w)) ws"
  let ?dlags = "map (\<lambda>w. pbuf_seqnum_lag (ds_dupe_seqnum s) (w_last_pbuf_dupe_seqnum w)) ws"
  let ?s = "s\<lparr>ds_cleanup_tick := de_tick env + 10\<rparr>"
  define p where "p = global_pbuf_purger env False (max_lag ?lags) (max_lag ?dlags) ?s"
  have s': "s' = p\<lparr>ds_db := dupecheck_cleanup (de_tick env) (de_storetime env) (ds_db p)\<rparr>"
    using assms True by (simp add: dupe_housekeeping_def p_def comp_def Let_def)
  have seq: "ds_seqnum p = ds_seqnum s" "ds_dupe_seqnum p = ds_dupe_seqnum s"
    by (simp_all add: p_def global_pbuf_purger_def Let_def split: prod.splits)
  have less: "max_lag ?lags < y \<Longrightarrow> pbuf_seqnum_lag (ds_seqnum s) (w_last_pbuf_seqnum w) < y"
      "max_lag ?dlags < y \<Longrightarrow> pbuf_seqnum_lag (ds_dupe_seqnum s) (w_last_pbuf_dupe_seqnum w) < y"
    if "w \<in> set ws" for w y
    using max_lag_ge [of "pbuf_seqnum_lag (ds_seqnum s) (w_last_pbuf_seqnum w)" ?lags]
      max_lag_ge [of "pbuf_seqnum_lag (ds_dupe_seqnum s) (w_last_pbuf_dupe_seqnum w)" ?dlags] that by auto
  from global_pbuf_purger_ok [OF p_def [symmetric]] obtain freed dfreed where F:
    "ds_global s = freed @ ds_global p" "ds_global_dupe s = dfreed @ ds_global_dupe p"
    "\<forall>pb \<in> set freed. purgeable (de_tick env - de_expiration env) (max_lag ?lags) (ds_seqnum s) pb"
    "\<forall>pb \<in> set dfreed. purgeable (de_tick env - de_dupe_expiration env) (max_lag ?dlags) (ds_dupe_seqnum s) pb"
    "\<forall>mm w rest. pool_inv mm (w, ds_arenas s) (ds_global s @ ds_global_dupe s @ rest) \<longrightarrow>
       pool_inv mm (w, ds_arenas p) (ds_global p @ ds_global_dupe p @ rest)" by auto
  show ?thesis
    using F less by (intro exI [of _ freed] exI [of _ dfreed]) (simp add: s' seq purgeable_def)
next
  case False
  then have "s' = s" using assms by (simp add: dupe_housekeeping_def)
  then show ?thesis by (intro exI [of _ "[]"]) simp
qed

lemma dupecheck_thread_ok:
  assumes "dupecheck_thread mm env ws extra s = Some (ws', extra', s')"
    and "pbs = concat (map w_pbuf_incoming (ws @ extra))"
  shows "(\<forall>w \<in> set (ws' @ extra'). w_pbuf_incoming w = []) \<and> length ws' = length ws \<and>
    (\<exists>vs no nd freed dfreed. length vs = length pbs \<and>
      list_all2 pb_same no (pick True vs pbs) \<and> list_all2 pb_same nd (pick False vs pbs) \<and>
      ds_global s @ no = freed @ ds_global s' \<and> ds_global_dupe s @ nd = dfreed @ ds_global_dupe s' \<and>
      (\<forall>pb \<in> set freed. pb_t pb < de_tick env - de_expiration env \<and>
         (\<forall>w \<in> set ws. pbuf_seqnum_lag (ds_seqnum s') (w_last_pbuf_seqnum w) < pbuf_seqnum_lag (ds_seqnum s') (pb_seqnum pb))) \<and>
      (\<forall>pb \<in> set dfreed. pb_t pb < de_tick env - de_dupe_expiration env \<and>
         (\<forall>w \<in> set ws. pbuf_seqnum_lag (ds_dupe_seqnum s') (w_last_pbuf_dupe_seqnum w) < pbuf_seqnum_lag (ds_dupe_seqnum s') (pb_seqnum pb))) \<and>
      (\<forall>mm' w rest. pool_inv mm' (w, ds_arenas s) (ds_global s @ no @ ds_global_dupe s @ nd @ rest) \<longrightarrow>
         pool_inv mm' (w, ds_arenas s') (ds_global s' @ ds_global_dupe s' @ rest)))"
proof -
  obtain s1 no nd where D: "drain_loop mm env pbs (s, [], []) = Some (s1, no, nd)"
    and ws': "ws' = map emptied ws" "extra' = map emptied extra"
    and s': "s' = dupe_housekeeping env (map emptied ws) (dupe_publish no nd s1)"
    using assms by (auto simp: dupecheck_thread_def drain_workers_eq Let_def split: option.splits)
  from drain_loop_ok [OF D] obtain vs where V: "length vs = length pbs"
    "list_all2 pb_same no (pick True vs pbs)" "list_all2 pb_same nd (pick False vs pbs)"
    "ds_global s1 = ds_global s" "ds_global_dupe s1 = ds_global_dupe s" "ds_arenas s1 = ds_arenas s" by auto
  have P: "ds_global (dupe_publish no nd s1) = ds_global s @ no"
    "ds_global_dupe (dupe_publish no nd s1) = ds_global_dupe s @ nd" "ds_arenas (dupe_publish no nd s1) = ds_arenas s"
    using V(4-6) by (simp_all add: dupe_publish_def)
  from dupe_housekeeping_ok [OF s'] obtain freed dfreed where F:
    "ds_global s @ no = freed @ ds_global s'" "ds_global_dupe s @ nd = dfreed @ ds_global_dupe s'"
    "\<forall>pb \<in> set freed. pb_t pb < de_tick env - de_expiration env \<and>
       (\<forall>w \<in> set ws. pbuf_seqnum_lag (ds_seqnum s') (w_last_pbuf_seqnum w) < pbuf_seqnum_lag (ds_seqnum s') (pb_seqnum pb))"
    "\<forall>pb \<in> set dfreed. pb_t pb < de_tick env - de_dupe_expiration env \<and>
       (\<forall>w \<in> set ws. pbuf_seqnum_lag (ds_dupe_seqnum s') (w_last_pbuf_dupe_seqnum w) < pbuf_seqnum_lag (ds_dupe_seqnum s') (pb_seqnum pb))"
    "\<forall>mm' w rest. pool_inv mm' (w, ds_arenas s) ((ds_global s @ no) @ (ds_global_dupe s @ nd) @ rest) \<longrightarrow>
       pool_inv mm' (w, ds_arenas s') (ds_global s' @ ds_global_dupe s' @ rest)"
    unfolding P by blast
  have A: "\<forall>w \<in> set (ws' @ extra'). w_pbuf_incoming w = []" "length ws' = length ws" by (auto simp: ws')
  show ?thesis using A V(1-3) F unfolding append_assoc by blast
qed

text \<open>One turn of the thread, as far as the queues go: the inboxes are emptied, their packets are
  appended in order to the queue of their verdict, and what leaves a queue leaves it at the head
  because it has expired and its lag exceeds that of every worker; the buffers that left are back in
  their arenas.\<close>

theorem dupecheck_thread_queues:
  assumes "dupecheck_thread mm env ws extra s = Some (ws', extra', s')"
    and "pbs = concat (map w_pbuf_incoming (ws @ extra))"
  shows "(\<forall>w \<in> set (ws' @ extra'). w_pbuf_incoming w = []) \<and> length ws' = length ws \<and>
    (\<exists>vs no nd freed dfreed. length vs = length pbs \<and>
      list_all2 pb_same no (pick True vs pbs) \<and> list_all2 pb_same nd (pick False vs pbs) \<and>
      ds_global s @ no = freed @ ds_global s' \<and> ds_global_dupe s @ nd = dfreed @ ds_global_dupe s' \<and>
      (\<forall>pb \<in> set freed. pb_t pb < de_tick env - de_expiration env \<and>
         (\<forall>w \<in> set ws. pbuf_seqnum_lag (ds_seqnum s') (w_last_pbuf_seqnum w) < pbuf_seqnum_lag (ds_seqnum s') (pb_seqnum pb))) \<and>
      (\<forall>pb \<in> set dfreed. pb_t pb < de_tick env - de_dupe_expiration env \<and>
         (\<forall>w \<in> set ws. pbuf_seqnum_lag (ds_dupe_seqnum s') (w_last_pbuf_dupe_seqnum w) < pbuf_seqnum_lag (ds_dupe_seqnum s') (pb_seqnum pb))) \<and>
      (\<forall>mm' w rest. pool_inv mm' (w, ds_arenas s) (ds_global s @ no @ ds_global_dupe s @ nd @ rest) \<longrightarrow>
         pool_inv mm' (w, ds_arenas s') (ds_global s' @ ds_global_dupe s' @ rest)))"
  using assms by (rule dupecheck_thread_ok)

definition demo_thread_worker :: worker_t where
  "demo_thread_worker = demo_worker\<lparr>w_pbuf_incoming := [demo_packet ''hello'']\<rparr>"

theorem dupecheck_thread_queues_witness:
  "\<exists>s'. dupecheck_thread demo_mmap (demo_dupe_env 1000) [demo_thread_worker] [] demo_dupe_state = Some ([demo_worker], [], s') \<and>
     w_pbuf_incoming demo_worker = []"
proof -
  obtain d1 where D: "dupecheck demo_mmap (demo_dupe_env 1000) (\<lambda>_. []) (demo_packet ''hello'') demo_dupe_db =
      Some (0, demo_packet ''hello'', d1)" using demo_first_passes [of "''hello''"] by auto
  obtain s' where R: "dupecheck_thread demo_mmap (demo_dupe_env 1000) [demo_thread_worker] [] demo_dupe_state = Some ([demo_worker], [], s')"
    using D by (simp add: dupecheck_thread_def demo_thread_worker_def drain_workers_eq demo_dupe_state_def
        demo_dupe_env_def emptied_def demo_worker_def Let_def)
  from dupecheck_thread_queues [OF R refl] R show ?thesis by auto
qed

lemma dupe_run_trans: "dupe_run mm st a b \<Longrightarrow> dupe_run mm st b c \<Longrightarrow> dupe_run mm st a c"
  by (rotate_tac 1, induction rule: dupe_run.induct) (auto intro: dupe_run.intros)

lemma drain_loop_total:
  assumes "dupe_inv mm (de_tick env) (ds_db s)" and "\<forall>pb \<in> set pbs. keyhash (dupe_addr pb) 0 \<noteq> 0"
  shows "\<exists>s' out' dupes'. drain_loop mm env pbs (s, out, dupes) = Some (s', out', dupes') \<and>
    dupe_inv mm (de_tick env) (ds_db s') \<and> dupe_run mm (de_storetime env) (de_tick env, ds_db s) (de_tick env, ds_db s')"
  using assms
proof (induction pbs arbitrary: s out dupes)
  case Nil
  then show ?case by (auto intro: dupe_run.intros)
next
  case (Cons pb pbs)
  obtain rc pb1 db where D: "dupecheck mm env (ds_hist s) pb (ds_db s) = Some (rc, pb1, db)" "dupe_inv mm (de_tick env) db"
    using dupecheck_ok [OF Cons.prems(1), of pb "ds_hist s"] Cons.prems(2) by auto
  have run: "dupe_run mm (de_storetime env) (de_tick env, ds_db s) (de_tick env, db)"
    using D(1) Cons.prems(2) by (intro dupe_run.run_check [OF dupe_run.run_start]) auto
  have IH: "\<exists>s' out' dupes'. drain_loop mm env pbs (s1, o1, d1) = Some (s', out', dupes') \<and>
      dupe_inv mm (de_tick env) (ds_db s') \<and> dupe_run mm (de_storetime env) (de_tick env, ds_db s) (de_tick env, ds_db s')"
    if "ds_db s1 = db" for s1 o1 d1
    using Cons.IH [of s1 o1 d1] Cons.prems(2) D(2) that dupe_run_trans [OF run] by fastforce
  show ?case using D(1) IH by (cases "rc = 0"; cases "de_filtered env") (simp_all add: Let_def)
qed

lemma dupecheck_thread_total:
  assumes "dupe_inv mm (de_tick env) (ds_db s)"
    and "\<forall>w \<in> set (ws @ extra). \<forall>pb \<in> set (w_pbuf_incoming w). keyhash (dupe_addr pb) 0 \<noteq> 0"
  shows "\<exists>ws' extra' s'. dupecheck_thread mm env ws extra s = Some (ws', extra', s') \<and>
    (\<forall>t \<ge> de_tick env. dupe_inv mm t (ds_db s'))"
proof -
  have "\<forall>pb \<in> set (concat (map w_pbuf_incoming (ws @ extra))). keyhash (dupe_addr pb) 0 \<noteq> 0" using assms(2) by auto
  from drain_loop_total [OF assms(1) this, where out = "[]" and dupes = "[]"]
  obtain s1 out dupes where D: "drain_loop mm env (concat (map w_pbuf_incoming (ws @ extra))) (s, [], []) = Some (s1, out, dupes)"
    "dupe_inv mm (de_tick env) (ds_db s1)"
    by blast
  have P: "ds_db (dupe_publish out dupes s1) = ds_db s1" by (simp add: dupe_publish_def)
  have H: "ds_db (dupe_housekeeping env ws' x) = ds_db x \<or>
      ds_db (dupe_housekeeping env ws' x) = dupecheck_cleanup (de_tick env) (de_storetime env) (ds_db x)" for ws' x
    by (simp add: dupe_housekeeping_def global_pbuf_purger_def Let_def split: prod.split)
  have "dupe_inv mm (de_tick env) (ds_db (dupe_housekeeping env ws' (dupe_publish out dupes s1)))" for ws'
    using H [of ws' "dupe_publish out dupes s1"] D(2) dupecheck_cleanup_ok(1) [OF D(2)] unfolding P by metis
  then have I: "\<forall>t \<ge> de_tick env. dupe_inv mm t (ds_db (dupe_housekeeping env ws' (dupe_publish out dupes s1)))" for ws'
    using dupe_inv_later by blast
  have "\<exists>ws' extra'. dupecheck_thread mm env ws extra s = Some (ws', extra', dupe_housekeeping env ws' (dupe_publish out dupes s1))"
    unfolding dupecheck_thread_def drain_workers_eq D(1) by (simp add: Let_def)
  then show ?thesis using I by blast
qed

text \<open>The thread does not get stuck: as long as no address part hashes to zero, a turn comes to its
  end without a NULL dereference and leaves the table of texts in order, so that the next turn, at
  the same time or later, does too.\<close>

theorem dupecheck_thread_runs:
  assumes "dupe_inv mm (de_tick env) (ds_db s)"
    and "\<forall>w \<in> set (ws @ extra). \<forall>pb \<in> set (w_pbuf_incoming w). keyhash (dupe_addr pb) 0 \<noteq> 0"
  shows "\<exists>ws' extra' s'. dupecheck_thread mm env ws extra s = Some (ws', extra', s') \<and>
    (\<forall>t \<ge> de_tick env. dupe_inv mm t (ds_db s'))"
  using assms by (rule dupecheck_thread_total)

theorem dupecheck_thread_runs_witness:
  "\<exists>ws' extra' s'. dupecheck_thread demo_mmap (demo_dupe_env 1000) [demo_thread_worker] [] demo_dupe_state = Some (ws', extra', s') \<and>
     (\<forall>t \<ge> 1000. dupe_inv demo_mmap t (ds_db s'))"
  using dupecheck_thread_runs [of demo_mmap "demo_dupe_env 1000" demo_dupe_state "[demo_thread_worker]" "[]"]
    demo_dupe_inv demo_addr_hash
  by (auto simp: demo_dupe_state_def demo_thread_worker_def demo_packet_addr demo_dupe_env_def)

text \<open>A repetition of the last kind of variant, DEL blanked, is never counted: the test of the record's
  type excludes the highest one.\<close>

lemma dupecheck_del_spaced_not_counted:
  assumes "find (dupe_match (keyhash (dupe_data pb) (keyhash (dupe_addr pb) 0)) (de_tick env - de_storetime env) (dupe_canon pb))
      (dd_table d (dupecheck_bucket (keyhash (dupe_data pb) (keyhash (dupe_addr pb) 0)))) = Some dp"
    and "dr_dtype dp = DTYPE_DEL_SPACED"
  shows "\<exists>pb'. dupecheck mm env hist pb d = Some (1, pb', d)"
  using assms by (simp add: dupecheck_def Let_def dtype_defs F_DUPE_def)

end
