(* ===== verification/Outgoing.thy ===== *)
theory Outgoing
  imports Dupecheck
begin

text \<open>
  \<^verbatim>\<open>src/src/outgoing.c\<close>: a worker follows the two global queues from the place it stopped at and writes
  each packet to the clients that should have a copy. \<open>flt\<close> is \<^verbatim>\<open>filter_process\<close>: its verdict and
  the client, whose courtesy list it may change. What is written is a list of events; that writing
  may close a client is not modelled.
\<close>

datatype out_event =
    Send nat bool string \<comment> \<open>client, accounted as UDP, bytes\<close>
  | Count_dupe nat
  | Status_error string

datatype out_fault = Dangling | Abort

type_synonym filter_fn = "client_t \<Rightarrow> pbuf_t \<Rightarrow> int \<times> client_t"

definition send_single :: "client_t \<Rightarrow> string \<Rightarrow> out_event" where
  "send_single c data = Send (c_id c) (c_udp_port c \<noteq> 0 \<and> c_udpclient c) data"

text \<open>The loop over \<^verbatim>\<open>clients_other\<close>.\<close>

fun outgoing_other :: "filter_fn \<Rightarrow> pbuf_t \<Rightarrow> client_t list \<Rightarrow> out_event list \<times> client_t list" where
  "outgoing_other flt pb [] = ([], [])"
| "outgoing_other flt pb (c # cs) =
     (let (evs, cs') = outgoing_other flt pb cs;
          full = (c_flags c AND CLFLAGS_FULLFEED = CLFLAGS_FULLFEED);
          (verdict, c') = (if full then (1, c) else flt c pb)
      in if verdict < 1 \<or> c_id c' = pb_origin pb \<or> c_no_tx c' then (evs, c' # cs')
         else (send_single c' (take (pb_packet_len pb) (pb_data pb)) # evs, c' # cs'))"

definition process_outgoing_single :: "filter_fn \<Rightarrow> worker_t \<Rightarrow> pbuf_t \<Rightarrow> out_event list \<times> worker_t" where
  "process_outgoing_single flt self pb =
     (let data = take (pb_packet_len pb) (pb_data pb)
      in if has_flag (pb_flags pb) F_DUPE then
           (map (\<lambda>c. send_single c (''dup'' @ [CHR 0x09] @ data)) (w_clients_dupe self) @
            (if pb_origin pb \<in> c_id ` set (w_clients self) then [Count_dupe (pb_origin pb)] else []), self)
         else
           let ups = (if has_flag (pb_flags pb) F_FROM_DOWNSTR
                      then map (\<lambda>c. send_single c data) (filter (\<lambda>c. c_id c \<noteq> pb_origin pb) (w_clients_ups self))
                      else []);
               (evs, others) = outgoing_other flt pb (w_clients_other self)
           in (ups @ evs, self\<lparr>w_clients_other := others\<rparr>))"

text \<open>The rest of a queue behind the place a worker holds; a place in a packet that has left the queue
  is a dangling pointer.\<close>

definition queue_after :: "nat option \<Rightarrow> pbuf_t list \<Rightarrow> pbuf_t list option" where
  "queue_after prevp q =
     (case prevp of
        None \<Rightarrow> Some q
      | Some a \<Rightarrow> (case dropWhile (\<lambda>p. pb_addr p \<noteq> a) q of [] \<Rightarrow> None | _ # rest \<Rightarrow> Some rest))"

fun outgoing_loop ::
    "filter_fn \<Rightarrow> ctime \<Rightarrow> pbuf_t list \<Rightarrow> worker_t \<Rightarrow> out_fault + out_event list \<times> worker_t" where
  "outgoing_loop flt tick [] self = Inr ([], self)"
| "outgoing_loop flt tick (pb # pbs) self =
     (if pb_is_free pb then Inl Abort
      else
        let drops = self\<lparr>w_internal_packet_drops := w_internal_packet_drops self + 1\<rparr>;
            alarm = (\<lambda>e. if 10 < w_internal_packet_drops drops then [Status_error e] else []);
            (evs, self1) =
              (if tick + 2 < pb_t pb then (alarm ''packet_drop_future'', drops)
               else if 5 < tick - pb_t pb then (alarm ''packet_drop_hang'', drops)
               else process_outgoing_single flt self pb);
            self2 = self1\<lparr>w_last_pbuf_seqnum := pb_seqnum pb, w_pbuf_global_prevp := Some (pb_addr pb)\<rparr>
        in case outgoing_loop flt tick pbs self2 of
             Inl e \<Rightarrow> Inl e
           | Inr (evs', self') \<Rightarrow> Inr (evs @ evs', self'))"

fun outgoing_dupe_loop ::
    "filter_fn \<Rightarrow> ctime \<Rightarrow> pbuf_t list \<Rightarrow> worker_t \<Rightarrow> out_fault + out_event list \<times> worker_t" where
  "outgoing_dupe_loop flt tick [] self = Inr ([], self)"
| "outgoing_dupe_loop flt tick (pb # pbs) self =
     (if pb_is_free pb then Inl Abort
      else
        let (evs, self1) =
              (if tick + 2 < pb_t pb \<or> 5 < tick - pb_t pb then ([], self) else process_outgoing_single flt self pb);
            self2 = self1\<lparr>w_last_pbuf_dupe_seqnum := pb_seqnum pb, w_pbuf_global_dupe_prevp := Some (pb_addr pb)\<rparr>
        in case outgoing_dupe_loop flt tick pbs self2 of
             Inl e \<Rightarrow> Inl e
           | Inr (evs', self') \<Rightarrow> Inr (evs @ evs', self'))"

definition process_outgoing ::
    "filter_fn \<Rightarrow> ctime \<Rightarrow> pbuf_t list \<Rightarrow> pbuf_t list \<Rightarrow> worker_t \<Rightarrow> out_fault + out_event list \<times> worker_t" where
  "process_outgoing flt tick global global_dupe self =
     (case queue_after (w_pbuf_global_prevp self) global of
        None \<Rightarrow> Inl Dangling
      | Some pbs \<Rightarrow>
          (case outgoing_loop flt tick pbs self of
             Inl e \<Rightarrow> Inl e
           | Inr (evs, self1) \<Rightarrow>
               (case queue_after (w_pbuf_global_dupe_prevp self1) global_dupe of
                  None \<Rightarrow> Inl Dangling
                | Some dupes \<Rightarrow>
                    (case outgoing_dupe_loop flt tick dupes self1 of
                       Inl e \<Rightarrow> Inl e
                     | Inr (evs', self2) \<Rightarrow> Inr (evs @ evs', self2)))))"

section \<open>Who gets a packet\<close>

definition pb_text :: "pbuf_t \<Rightarrow> string" where
  "pb_text pb = take (pb_packet_len pb) (pb_data pb)"

text \<open>\<^verbatim>\<open>filter_process\<close> never changes which client it is called for, nor what else sending looks at.\<close>

definition filter_ok :: "filter_fn \<Rightarrow> bool" where
  "filter_ok flt \<longleftrightarrow> (\<forall>c pb. c_id (snd (flt c pb)) = c_id c \<and> c_no_tx (snd (flt c pb)) = c_no_tx c \<and>
     c_flags (snd (flt c pb)) = c_flags c)"

lemma outgoing_other_keeps:
  assumes "filter_ok flt" and "outgoing_other flt pb cs = (evs, cs')"
  shows "map c_id cs' = map c_id cs \<and> map c_flags cs' = map c_flags cs \<and> map c_no_tx cs' = map c_no_tx cs"
  using assms(2)
proof (induction cs arbitrary: evs cs')
  case (Cons c cs)
  obtain evs1 cs1 where R: "outgoing_other flt pb cs = (evs1, cs1)" by fastforce
  have "c_id (snd (flt c pb)) = c_id c \<and> c_no_tx (snd (flt c pb)) = c_no_tx c \<and> c_flags (snd (flt c pb)) = c_flags c"
    using assms(1) by (simp add: filter_ok_def)
  then show ?case using Cons.prems Cons.IH [OF R] R
    by (auto simp: Let_def split: prod.splits if_splits)
qed simp

text \<open>The clients of the general class that get a copy.\<close>

definition takes :: "filter_fn \<Rightarrow> pbuf_t \<Rightarrow> client_t \<Rightarrow> bool" where
  "takes flt pb c \<longleftrightarrow> c_id c \<noteq> pb_origin pb \<and> \<not> c_no_tx c \<and>
     (c_flags c AND CLFLAGS_FULLFEED = CLFLAGS_FULLFEED \<or> 1 \<le> fst (flt c pb))"

lemma outgoing_other_Cons:
  assumes "filter_ok flt" and "outgoing_other flt pb cs = (evs, cs')"
  obtains c' where "c' = (if c_flags c AND CLFLAGS_FULLFEED = CLFLAGS_FULLFEED then c else snd (flt c pb))" "c_id c' = c_id c"
    "outgoing_other flt pb (c # cs) = (if takes flt pb c then send_single c' (pb_text pb) # evs else evs, c' # cs')"
proof
  let ?c = "if c_flags c AND CLFLAGS_FULLFEED = CLFLAGS_FULLFEED then c else snd (flt c pb)"
  have "c_id (snd (flt c pb)) = c_id c" "c_no_tx (snd (flt c pb)) = c_no_tx c" using assms(1) by (auto simp: filter_ok_def)
  then show "c_id ?c = c_id c"
    "outgoing_other flt pb (c # cs) = (if takes flt pb c then send_single ?c (pb_text pb) # evs else evs, ?c # cs')"
    using assms(2) by (auto simp: Let_def takes_def pb_text_def split: prod.split)
qed (rule refl)

lemma outgoing_other_events:
  assumes "filter_ok flt" and "outgoing_other flt pb cs = (evs, cs')" and "e \<in> set evs"
  shows "\<exists>c \<in> set cs. takes flt pb c \<and> (\<exists>u. e = Send (c_id c) u (pb_text pb))"
  using assms(2,3)
proof (induction cs arbitrary: evs cs')
  case (Cons c cs)
  obtain evs1 cs1 where R: "outgoing_other flt pb cs = (evs1, cs1)" by fastforce
  obtain c' where c': "c_id c' = c_id c"
    "outgoing_other flt pb (c # cs) = (if takes flt pb c then send_single c' (pb_text pb) # evs1 else evs1, c' # cs1)"
    using outgoing_other_Cons [OF assms(1) R] by metis
  from Cons.prems c'(2) consider "e \<in> set evs1" | "takes flt pb c" "e = send_single c' (pb_text pb)"
    by (auto split: if_splits)
  then show ?case
  proof cases
    case 1
    then show ?thesis using Cons.IH [OF R] by auto
  next
    case 2
    then show ?thesis using c'(1) by (auto simp: send_single_def)
  qed
qed simp

text \<open>C30. Copies go to the right clients only. Of a duplicate, only clients that asked for duplicates get a
  copy, marked as such and still within the send buffer of 519 bytes. Of any other packet, a copy is
  the packet unchanged; it goes to upstream servers only if it came from downstream, to other clients
  only if they take the full feed or their filter accepts it and they are not marked broken, and
  never to the client it came from.\<close>

theorem outgoing_recipients:
  assumes "filter_ok flt" and "process_outgoing_single flt self pb = (evs, self')"
    and "Send cid udp data \<in> set evs" and "pb_packet_len pb \<le> PACKETLEN_MAX"
  shows "if has_flag (pb_flags pb) F_DUPE
    then cid \<in> c_id ` set (w_clients_dupe self) \<and> data = ''dup'' @ CHR 0x09 # pb_text pb \<and> length data \<le> PACKETLEN_MAX + 7
    else data = pb_text pb \<and> cid \<noteq> pb_origin pb \<and>
      (has_flag (pb_flags pb) F_FROM_DOWNSTR \<and> cid \<in> c_id ` set (w_clients_ups self) \<or>
       (\<exists>c \<in> set (w_clients_other self). cid = c_id c \<and> \<not> c_no_tx c \<and>
          (c_flags c AND CLFLAGS_FULLFEED = CLFLAGS_FULLFEED \<or> 1 \<le> fst (flt c pb))))"
proof (cases "has_flag (pb_flags pb) F_DUPE")
  case True
  then show ?thesis using assms(2,3,4)
    by (auto simp: process_outgoing_single_def send_single_def pb_text_def Let_def len_defs split: if_splits)
next
  case False
  obtain evs1 cs1 where R: "outgoing_other flt pb (w_clients_other self) = (evs1, cs1)" by fastforce
  have "Send cid udp data \<in> set evs1 \<or>
      (has_flag (pb_flags pb) F_FROM_DOWNSTR \<and> data = pb_text pb \<and> cid \<noteq> pb_origin pb \<and> cid \<in> c_id ` set (w_clients_ups self))"
    using assms(2,3) False R
    by (auto simp: process_outgoing_single_def send_single_def pb_text_def Let_def split: if_splits)
  moreover have "data = pb_text pb \<and> (\<exists>c \<in> set (w_clients_other self). cid = c_id c \<and> takes flt pb c)"
    if "Send cid udp data \<in> set evs1" using outgoing_other_events [OF assms(1) R that] by auto
  ultimately show ?thesis using False by (auto simp: takes_def)
qed

section \<open>What a client receives\<close>

definition sent_to :: "nat \<Rightarrow> out_event list \<Rightarrow> string list" where
  "sent_to cid evs = concat (map (\<lambda>e. case e of Send i _ data \<Rightarrow> if i = cid then [data] else [] | _ \<Rightarrow> []) evs)"

lemma sent_to_simps [simp]:
  "sent_to cid [] = []" "sent_to cid (evs @ evs') = sent_to cid evs @ sent_to cid evs'"
  "sent_to cid (Send i u data # evs) = (if i = cid then [data] else []) @ sent_to cid evs"
  "sent_to cid (Count_dupe i # evs) = sent_to cid evs" "sent_to cid (Status_error s # evs) = sent_to cid evs"
  by (simp_all add: sent_to_def)

lemma sent_to_other: "cid \<notin> c_id ` set cs \<Longrightarrow> sent_to cid (map (\<lambda>c. send_single c data) cs) = []"
  by (induction cs) (auto simp: send_single_def)

text \<open>A full-feed client of a worker: in one class only, under an id of its own, not broken.\<close>

definition full_feed :: "nat \<Rightarrow> worker_t \<Rightarrow> bool" where
  "full_feed cid self \<longleftrightarrow> distinct (map c_id (w_clients_other self)) \<and>
     cid \<notin> c_id ` set (w_clients_dupe self) \<and> cid \<notin> c_id ` set (w_clients_ups self) \<and>
     (\<exists>c \<in> set (w_clients_other self). c_id c = cid \<and> \<not> c_no_tx c \<and> c_flags c AND CLFLAGS_FULLFEED = CLFLAGS_FULLFEED)"

lemma outgoing_other_sent:
  assumes "filter_ok flt" and "outgoing_other flt pb cs = (evs, cs')" and "distinct (map c_id cs)"
    and "c \<in> set cs" and "\<not> c_no_tx c" and "c_flags c AND CLFLAGS_FULLFEED = CLFLAGS_FULLFEED"
  shows "c \<in> set cs' \<and> sent_to (c_id c) evs = (if c_id c = pb_origin pb then [] else [pb_text pb])"
  using assms(2-4)
proof (induction cs arbitrary: evs cs')
  case (Cons x xs)
  obtain evs1 cs1 where R: "outgoing_other flt pb xs = (evs1, cs1)" by fastforce
  obtain x' where x': "x' = (if c_flags x AND CLFLAGS_FULLFEED = CLFLAGS_FULLFEED then x else snd (flt x pb))" "c_id x' = c_id x"
    "outgoing_other flt pb (x # xs) = (if takes flt pb x then send_single x' (pb_text pb) # evs1 else evs1, x' # cs1)"
    using outgoing_other_Cons [OF assms(1) R] by metis
  show ?case
  proof (cases "x = c")
    case True
    have "Send (c_id c) u d \<notin> set evs1" for u d
      using outgoing_other_events [OF assms(1) R, of "Send (c_id c) u d"] Cons.prems(2) True by force
    then have "sent_to (c_id c) evs1 = []" by (auto simp: sent_to_def split: out_event.split)
    then show ?thesis using Cons.prems(1) x' True assms(5,6) by (auto simp: send_single_def takes_def)
  next
    case False
    then have c: "c \<in> set xs" "c_id x \<noteq> c_id c" using Cons.prems(2,3) by auto
    then show ?thesis using Cons.prems(1,2) x'(2,3) Cons.IH [OF R _ c(1)] by (auto simp: send_single_def split: if_splits)
  qed
qed simp

definition wanted :: "nat \<Rightarrow> pbuf_t \<Rightarrow> bool" where
  "wanted cid pb \<longleftrightarrow> \<not> has_flag (pb_flags pb) F_DUPE \<and> pb_origin pb \<noteq> cid"

lemma outgoing_single_sent:
  assumes "filter_ok flt" and "process_outgoing_single flt self pb = (evs, self')" and "full_feed cid self"
  shows "full_feed cid self' \<and> sent_to cid evs = (if wanted cid pb then [pb_text pb] else [])"
proof (cases "has_flag (pb_flags pb) F_DUPE")
  case True
  then show ?thesis using assms(2,3) sent_to_other
    by (auto simp: process_outgoing_single_def full_feed_def wanted_def Let_def split: if_splits)
next
  case False
  obtain evs1 cs1 where R: "outgoing_other flt pb (w_clients_other self) = (evs1, cs1)" by fastforce
  obtain c where c: "c \<in> set (w_clients_other self)" "c_id c = cid" "\<not> c_no_tx c" "c_flags c AND CLFLAGS_FULLFEED = CLFLAGS_FULLFEED"
    "distinct (map c_id (w_clients_other self))" using assms(3) by (auto simp: full_feed_def)
  note S = outgoing_other_sent [OF assms(1) R c(5,1,3,4)]
  have self': "self' = self\<lparr>w_clients_other := cs1\<rparr>" using assms(2) False R by (simp add: process_outgoing_single_def Let_def)
  have "full_feed cid self'"
    using assms(3) outgoing_other_keeps [OF assms(1) R] S c(2-4) by (auto simp: full_feed_def self')
  moreover have "cid \<notin> c_id ` set (filter (\<lambda>c. c_id c \<noteq> pb_origin pb) (w_clients_ups self))"
    using assms(3) by (auto simp: full_feed_def)
  ultimately show ?thesis using assms(2) False R S c(2) sent_to_other
    by (auto simp: process_outgoing_single_def wanted_def Let_def split: if_splits)
qed

definition on_time :: "ctime \<Rightarrow> pbuf_t \<Rightarrow> bool" where
  "on_time tick pb \<longleftrightarrow> pb_t pb \<le> tick + 2 \<and> tick - pb_t pb \<le> 5"

lemma single_keeps:
  "process_outgoing_single flt self pb = (evs, self') \<Longrightarrow>
     w_pbuf_global_prevp self' = w_pbuf_global_prevp self \<and> w_last_pbuf_seqnum self' = w_last_pbuf_seqnum self \<and>
     w_pbuf_global_dupe_prevp self' = w_pbuf_global_dupe_prevp self \<and>
     w_last_pbuf_dupe_seqnum self' = w_last_pbuf_dupe_seqnum self \<and>
     w_pbuf_incoming self' = w_pbuf_incoming self"
  by (auto simp: process_outgoing_single_def Let_def split: if_splits prod.splits)

text \<open>Where a loop leaves the worker's place: at the last packet it saw.\<close>

definition moved :: "pbuf_t list \<Rightarrow> nat option \<Rightarrow> u32 \<Rightarrow> nat option \<times> u32" where
  "moved pbs prevp seqnum = (if pbs = [] then (prevp, seqnum) else (Some (pb_addr (last pbs)), pb_seqnum (last pbs)))"

lemma outgoing_loop_ok:
  assumes "\<forall>pb \<in> set pbs. \<not> pb_is_free pb"
  shows "\<exists>evs self'. outgoing_loop flt tick pbs self = Inr (evs, self') \<and>
    (w_pbuf_global_prevp self', w_last_pbuf_seqnum self') = moved pbs (w_pbuf_global_prevp self) (w_last_pbuf_seqnum self) \<and>
    w_pbuf_global_dupe_prevp self' = w_pbuf_global_dupe_prevp self \<and>
    w_last_pbuf_dupe_seqnum self' = w_last_pbuf_dupe_seqnum self \<and> w_pbuf_incoming self' = w_pbuf_incoming self \<and>
    (filter_ok flt \<longrightarrow> full_feed cid self \<longrightarrow> full_feed cid self' \<and>
       sent_to cid evs = map pb_text (filter (\<lambda>pb. wanted cid pb \<and> on_time tick pb) pbs))"
  using assms
proof (induction pbs arbitrary: self)
  case (Cons pb pbs)
  let ?drops = "self\<lparr>w_internal_packet_drops := w_internal_packet_drops self + 1\<rparr>"
  let ?alarm = "\<lambda>e. if 10 < w_internal_packet_drops ?drops then [Status_error e] else []"
  obtain evs1 self1 where E: "(evs1, self1) =
      (if tick + 2 < pb_t pb then (?alarm ''packet_drop_future'', ?drops)
       else if 5 < tick - pb_t pb then (?alarm ''packet_drop_hang'', ?drops)
       else process_outgoing_single flt self pb)" by (metis surj_pair)
  let ?self2 = "self1\<lparr>w_last_pbuf_seqnum := pb_seqnum pb, w_pbuf_global_prevp := Some (pb_addr pb)\<rparr>"
  obtain evs2 self' where R: "outgoing_loop flt tick pbs ?self2 = Inr (evs2, self')"
    "(w_pbuf_global_prevp self', w_last_pbuf_seqnum self') = moved pbs (w_pbuf_global_prevp ?self2) (w_last_pbuf_seqnum ?self2)"
    "w_pbuf_global_dupe_prevp self' = w_pbuf_global_dupe_prevp ?self2" "w_last_pbuf_dupe_seqnum self' = w_last_pbuf_dupe_seqnum ?self2"
    "w_pbuf_incoming self' = w_pbuf_incoming ?self2"
    "filter_ok flt \<longrightarrow> full_feed cid ?self2 \<longrightarrow> full_feed cid self' \<and>
       sent_to cid evs2 = map pb_text (filter (\<lambda>pb. wanted cid pb \<and> on_time tick pb) pbs)"
    using Cons.IH [of ?self2] Cons.prems by auto
  have keeps: "w_pbuf_global_dupe_prevp self1 = w_pbuf_global_dupe_prevp self"
    "w_last_pbuf_dupe_seqnum self1 = w_last_pbuf_dupe_seqnum self" "w_pbuf_incoming self1 = w_pbuf_incoming self"
    using E single_keeps [of flt self pb evs1 self1] by (auto split: if_splits)
  have sent: "full_feed cid ?self2 \<and> sent_to cid evs1 = (if wanted cid pb \<and> on_time tick pb then [pb_text pb] else [])"
    if "filter_ok flt" "full_feed cid self"
    using E outgoing_single_sent [OF that(1) _ that(2), of pb evs1 self1] that(2)
    by (auto simp: full_feed_def on_time_def split: if_splits)
  have "outgoing_loop flt tick (pb # pbs) self = Inr (evs1 @ evs2, self')"
    unfolding outgoing_loop.simps Let_def E [symmetric] using Cons.prems R(1) by simp
  moreover have "moved pbs (Some (pb_addr pb)) (pb_seqnum pb) = moved (pb # pbs) (w_pbuf_global_prevp self) (w_last_pbuf_seqnum self)"
    by (simp add: moved_def)
  ultimately show ?case using R(2-6) keeps sent by auto
qed (simp add: moved_def)

lemma outgoing_dupe_loop_ok:
  assumes "\<forall>pb \<in> set pbs. \<not> pb_is_free pb"
  shows "\<exists>evs self'. outgoing_dupe_loop flt tick pbs self = Inr (evs, self') \<and>
    (w_pbuf_global_dupe_prevp self', w_last_pbuf_dupe_seqnum self') = moved pbs (w_pbuf_global_dupe_prevp self) (w_last_pbuf_dupe_seqnum self) \<and>
    w_pbuf_global_prevp self' = w_pbuf_global_prevp self \<and>
    w_last_pbuf_seqnum self' = w_last_pbuf_seqnum self \<and> w_pbuf_incoming self' = w_pbuf_incoming self \<and>
    (filter_ok flt \<longrightarrow> full_feed cid self \<longrightarrow> full_feed cid self' \<and>
       sent_to cid evs = map pb_text (filter (\<lambda>pb. wanted cid pb \<and> on_time tick pb) pbs))"
  using assms
proof (induction pbs arbitrary: self)
  case (Cons pb pbs)
  obtain evs1 self1 where E: "(evs1, self1) =
      (if tick + 2 < pb_t pb \<or> 5 < tick - pb_t pb then ([], self) else process_outgoing_single flt self pb)" by (metis surj_pair)
  let ?self2 = "self1\<lparr>w_last_pbuf_dupe_seqnum := pb_seqnum pb, w_pbuf_global_dupe_prevp := Some (pb_addr pb)\<rparr>"
  obtain evs2 self' where R: "outgoing_dupe_loop flt tick pbs ?self2 = Inr (evs2, self')"
    "(w_pbuf_global_dupe_prevp self', w_last_pbuf_dupe_seqnum self') = moved pbs (w_pbuf_global_dupe_prevp ?self2) (w_last_pbuf_dupe_seqnum ?self2)"
    "w_pbuf_global_prevp self' = w_pbuf_global_prevp ?self2" "w_last_pbuf_seqnum self' = w_last_pbuf_seqnum ?self2"
    "w_pbuf_incoming self' = w_pbuf_incoming ?self2"
    "filter_ok flt \<longrightarrow> full_feed cid ?self2 \<longrightarrow> full_feed cid self' \<and>
       sent_to cid evs2 = map pb_text (filter (\<lambda>pb. wanted cid pb \<and> on_time tick pb) pbs)"
    using Cons.IH [of ?self2] Cons.prems by auto
  have keeps: "w_pbuf_global_prevp self1 = w_pbuf_global_prevp self"
    "w_last_pbuf_seqnum self1 = w_last_pbuf_seqnum self" "w_pbuf_incoming self1 = w_pbuf_incoming self"
    using E single_keeps [of flt self pb evs1 self1] by (auto split: if_splits)
  have sent: "full_feed cid ?self2 \<and> sent_to cid evs1 = (if wanted cid pb \<and> on_time tick pb then [pb_text pb] else [])"
    if "filter_ok flt" "full_feed cid self"
    using E outgoing_single_sent [OF that(1) _ that(2), of pb evs1 self1] that(2)
    by (auto simp: full_feed_def on_time_def split: if_splits)
  have "outgoing_dupe_loop flt tick (pb # pbs) self = Inr (evs1 @ evs2, self')"
    unfolding outgoing_dupe_loop.simps Let_def E [symmetric] using Cons.prems R(1) by simp
  moreover have "moved pbs (Some (pb_addr pb)) (pb_seqnum pb) = moved (pb # pbs) (w_pbuf_global_dupe_prevp self) (w_last_pbuf_dupe_seqnum self)"
    by (simp add: moved_def)
  ultimately show ?case using R(2-6) keeps sent by auto
qed (simp add: moved_def)

section \<open>Places in the queues\<close>

text \<open>A place is valid when it is the head of the queue or in a packet of the queue, the one whose
  number the worker remembers.\<close>

definition place_ok :: "nat option \<Rightarrow> u32 \<Rightarrow> pbuf_t list \<Rightarrow> bool" where
  "place_ok prevp seqnum q \<longleftrightarrow>
     (case prevp of
        None \<Rightarrow> True
      | Some a \<Rightarrow> (\<exists>pb rest. dropWhile (\<lambda>p. pb_addr p \<noteq> a) q = pb # rest \<and> pb_seqnum pb = seqnum))"

lemma place_ok_after: "place_ok prevp seqnum q \<Longrightarrow> \<exists>pre pbs. queue_after prevp q = Some pbs \<and> q = pre @ pbs"
proof (cases prevp)
  case (Some a)
  assume "place_ok prevp seqnum q"
  then obtain pb rest where D: "dropWhile (\<lambda>p. pb_addr p \<noteq> a) q = pb # rest" using Some by (auto simp: place_ok_def)
  have "q = (takeWhile (\<lambda>p. pb_addr p \<noteq> a) q @ [pb]) @ rest"
    using takeWhile_dropWhile_id [of "\<lambda>p. pb_addr p \<noteq> a" q] D by simp
  moreover have "queue_after prevp q = Some rest" using D Some by (simp add: queue_after_def)
  ultimately show ?thesis by blast
qed (simp add: queue_after_def)

lemma dropWhile_last:
  "distinct (map f q) \<Longrightarrow> q \<noteq> [] \<Longrightarrow> dropWhile (\<lambda>p. f p \<noteq> f (last q)) q = [last q]"
proof (induction q)
  case (Cons x q)
  show ?case
  proof (cases q)
    case (Cons y ys)
    have "f x \<noteq> f (last q)" using Cons.prems(1) Cons by (metis distinct.simps(2) image_eqI last_in_set list.simps(3) list.simps(9) set_map)
    then show ?thesis using Cons.IH Cons.prems(1) Cons by simp
  qed simp
qed simp

text \<open>After a walk to the end of the queue nothing is left, and the place is in its last packet.\<close>

lemma place_moved:
  assumes "place_ok prevp seqnum q" and "queue_after prevp q = Some pbs" and "distinct (map pb_addr q)"
    and "(prevp', seqnum') = moved pbs prevp seqnum"
  shows "place_ok prevp' seqnum' q" and "queue_after prevp' q = Some []"
proof -
  obtain pre where q: "q = pre @ pbs" using place_ok_after [OF assms(1)] assms(2) by auto
  have "place_ok prevp' seqnum' q \<and> queue_after prevp' q = Some []"
  proof (cases "pbs = []")
    case True
    then show ?thesis using assms by (simp add: moved_def)
  next
    case False
    then have "dropWhile (\<lambda>p. pb_addr p \<noteq> pb_addr (last pbs)) q = [last pbs]"
      using dropWhile_last [OF assms(3)] q by simp
    then show ?thesis using False assms(4) by (simp add: moved_def place_ok_def queue_after_def)
  qed
  then show "place_ok prevp' seqnum' q" "queue_after prevp' q = Some []" by auto
qed

lemma process_outgoing_ok:
  assumes P: "place_ok (w_pbuf_global_prevp self) (w_last_pbuf_seqnum self) g"
    and D: "place_ok (w_pbuf_global_dupe_prevp self) (w_last_pbuf_dupe_seqnum self) gd"
    and live: "\<forall>pb \<in> set (g @ gd). \<not> pb_is_free pb" and dist: "distinct (map pb_addr g)" "distinct (map pb_addr gd)"
  shows "\<exists>pbs dupes evs self'. queue_after (w_pbuf_global_prevp self) g = Some pbs \<and>
    queue_after (w_pbuf_global_dupe_prevp self) gd = Some dupes \<and>
    process_outgoing flt tick g gd self = Inr (evs, self') \<and> w_pbuf_incoming self' = w_pbuf_incoming self \<and>
    place_ok (w_pbuf_global_prevp self') (w_last_pbuf_seqnum self') g \<and> queue_after (w_pbuf_global_prevp self') g = Some [] \<and>
    place_ok (w_pbuf_global_dupe_prevp self') (w_last_pbuf_dupe_seqnum self') gd \<and> queue_after (w_pbuf_global_dupe_prevp self') gd = Some [] \<and>
    (filter_ok flt \<longrightarrow> full_feed cid self \<longrightarrow>
       sent_to cid evs = map pb_text (filter (\<lambda>pb. wanted cid pb \<and> on_time tick pb) (pbs @ dupes)))"
proof -
  obtain pre pbs where A: "queue_after (w_pbuf_global_prevp self) g = Some pbs" "g = pre @ pbs"
    using place_ok_after [OF P] by blast
  obtain dpre dupes where B: "queue_after (w_pbuf_global_dupe_prevp self) gd = Some dupes" "gd = dpre @ dupes"
    using place_ok_after [OF D] by blast
  obtain evs1 self1 where L: "outgoing_loop flt tick pbs self = Inr (evs1, self1)"
    "(w_pbuf_global_prevp self1, w_last_pbuf_seqnum self1) = moved pbs (w_pbuf_global_prevp self) (w_last_pbuf_seqnum self)"
    "w_pbuf_global_dupe_prevp self1 = w_pbuf_global_dupe_prevp self" "w_last_pbuf_dupe_seqnum self1 = w_last_pbuf_dupe_seqnum self"
    "w_pbuf_incoming self1 = w_pbuf_incoming self"
    "filter_ok flt \<longrightarrow> full_feed cid self \<longrightarrow> full_feed cid self1 \<and>
       sent_to cid evs1 = map pb_text (filter (\<lambda>pb. wanted cid pb \<and> on_time tick pb) pbs)"
    using outgoing_loop_ok [of pbs flt tick self cid] live A(2) by auto
  obtain evs2 self2 where M: "outgoing_dupe_loop flt tick dupes self1 = Inr (evs2, self2)"
    "(w_pbuf_global_dupe_prevp self2, w_last_pbuf_dupe_seqnum self2) = moved dupes (w_pbuf_global_dupe_prevp self1) (w_last_pbuf_dupe_seqnum self1)"
    "w_pbuf_global_prevp self2 = w_pbuf_global_prevp self1" "w_last_pbuf_seqnum self2 = w_last_pbuf_seqnum self1"
    "w_pbuf_incoming self2 = w_pbuf_incoming self1"
    "filter_ok flt \<longrightarrow> full_feed cid self1 \<longrightarrow> full_feed cid self2 \<and>
       sent_to cid evs2 = map pb_text (filter (\<lambda>pb. wanted cid pb \<and> on_time tick pb) dupes)"
    using outgoing_dupe_loop_ok [of dupes flt tick self1 cid] live B(2) by auto
  have R: "process_outgoing flt tick g gd self = Inr (evs1 @ evs2, self2)"
    using A(1) B(1) L(1,3) M(1) by (simp add: process_outgoing_def)
  note X = place_moved [OF P A(1) dist(1) L(2)]
  note Y = place_moved [OF D B(1) dist(2) M(2) [unfolded L(3,4)]]
  show ?thesis
    by (rule exI [of _ pbs], rule exI [of _ dupes], rule exI [of _ "evs1 @ evs2"], rule exI [of _ self2])
      (use A(1) B(1) R L(5,6) M(3-6) X Y in auto)
qed

text \<open>A worker with valid places sends what is pending, once and in order: a client on the full feed
  receives exactly the pending packets that are neither duplicates nor its own nor out of time, each
  unchanged, in the order of the queues; afterwards nothing is pending.\<close>

theorem process_outgoing_delivers:
  assumes "place_ok (w_pbuf_global_prevp self) (w_last_pbuf_seqnum self) g"
    and "place_ok (w_pbuf_global_dupe_prevp self) (w_last_pbuf_dupe_seqnum self) gd"
    and "\<forall>pb \<in> set (g @ gd). \<not> pb_is_free pb" and "distinct (map pb_addr g)" and "distinct (map pb_addr gd)"
    and "filter_ok flt" and "full_feed cid self"
  shows "\<exists>pbs dupes evs self'. queue_after (w_pbuf_global_prevp self) g = Some pbs \<and>
    queue_after (w_pbuf_global_dupe_prevp self) gd = Some dupes \<and>
    process_outgoing flt tick g gd self = Inr (evs, self') \<and>
    sent_to cid evs = map pb_text (filter (\<lambda>pb. wanted cid pb \<and> on_time tick pb) (pbs @ dupes)) \<and>
    queue_after (w_pbuf_global_prevp self') g = Some [] \<and> queue_after (w_pbuf_global_dupe_prevp self') gd = Some []"
  using process_outgoing_ok [OF assms(1-5), of flt tick cid] assms(6,7) by blast

section \<open>Concrete runs\<close>

definition demo_filter :: filter_fn where "demo_filter c pb = (0, c)"

definition demo_out_worker :: worker_t where
  "demo_out_worker = demo_worker\<lparr>w_clients_other :=
     [demo_client\<lparr>c_id := 3, c_flags := CLFLAGS_FULLFEED\<rparr>, demo_client\<lparr>c_id := 4\<rparr>]\<rparr>"

lemma demo_filter_ok: "filter_ok demo_filter"
  by (simp add: filter_ok_def demo_filter_def)

lemma demo_full_feed: "full_feed 3 demo_out_worker"
  by (simp add: full_feed_def demo_out_worker_def demo_worker_def demo_client_def)

theorem process_outgoing_delivers_witness:
  "\<exists>evs self'. process_outgoing demo_filter 1000 [(demo_packet ''hi'')\<lparr>pb_t := 999\<rparr>] [] demo_out_worker = Inr (evs, self') \<and>
     sent_to 3 evs = [''OH7LZB>APRS,qAR,OH7AA:hi'' @ [CHR 0x0D, CHR 0x0A]]"
proof -
  let ?g = "[(demo_packet ''hi'')\<lparr>pb_t := 999\<rparr>]"
  have pkt: "\<not> pb_is_free (demo_packet x)" "pb_flags (demo_packet x) = 0" "pb_origin (demo_packet x) = 0" for x
    by (simp_all add: demo_packet_def pbuf_zero_def)
  have "\<exists>pbs dupes evs self'. queue_after (w_pbuf_global_prevp demo_out_worker) ?g = Some pbs \<and>
      queue_after (w_pbuf_global_dupe_prevp demo_out_worker) [] = Some dupes \<and>
      process_outgoing demo_filter 1000 ?g [] demo_out_worker = Inr (evs, self') \<and>
      sent_to 3 evs = map pb_text (filter (\<lambda>pb. wanted 3 pb \<and> on_time 1000 pb) (pbs @ dupes)) \<and>
      queue_after (w_pbuf_global_prevp self') ?g = Some [] \<and> queue_after (w_pbuf_global_dupe_prevp self') [] = Some []"
    by (rule process_outgoing_delivers)
      (use pkt demo_filter_ok demo_full_feed in \<open>simp_all add: place_ok_def demo_out_worker_def demo_worker_def\<close>)
  then show ?thesis
    using pkt by (auto simp: demo_out_worker_def demo_worker_def queue_after_def wanted_def on_time_def has_flag_def
        pb_text_def demo_packet_def)
qed

theorem outgoing_recipients_witness:
  "fst (process_outgoing_single demo_filter demo_out_worker (demo_packet ''hi'')) =
     [Send 3 False (pb_text (demo_packet ''hi''))] \<and> (3::nat) \<noteq> pb_origin (demo_packet ''hi'')"
proof -
  obtain evs self' where R: "process_outgoing_single demo_filter demo_out_worker (demo_packet ''hi'') = (evs, self')" by fastforce
  then have E: "evs = [Send 3 False (pb_text (demo_packet ''hi''))]"
    by (simp add: process_outgoing_single_def demo_out_worker_def demo_worker_def demo_filter_def demo_packet_def pbuf_zero_def
        has_flag_def send_single_def demo_client_def clflag_defs pb_text_def Let_def)
  have "pb_packet_len (demo_packet ''hi'') \<le> PACKETLEN_MAX" "\<not> has_flag (pb_flags (demo_packet ''hi'')) F_DUPE"
    by (simp_all add: demo_packet_def pbuf_zero_def len_defs has_flag_def)
  with outgoing_recipients [OF demo_filter_ok R, of 3 False] E show ?thesis by (simp add: R)
qed

end
