(* ===== verification/Pipeline.thy ===== *)
theory Pipeline
  imports Outgoing
begin

text \<open>
  The packet path as a whole: workers put parsed packets into their inboxes, the duplicate check
  moves them to the global queues and purges these, and the workers write the queues out, in any
  order. Each of the three is one atomic step under the lock the code takes for it.
\<close>

record sys_state =
  sy_tick :: ctime
  sy_dupe :: dupe_state
  sy_workers :: "worker_t list"
  sy_extra :: "worker_t list" \<comment> \<open>the HTTP and UDP workers, which only read packets in\<close>

definition sys_inboxes :: "sys_state \<Rightarrow> pbuf_t list" where
  "sys_inboxes s = concat (map w_pbuf_incoming (sy_workers s @ sy_extra s))"

definition sys_packets :: "sys_state \<Rightarrow> pbuf_t list" where
  "sys_packets s = ds_global (sy_dupe s) @ ds_global_dupe (sy_dupe s) @ sys_inboxes s"

text \<open>A packet as the parser delivers it: in a buffer that is not in the pipeline, not marked free, its
  address part not hashing to zero.\<close>

definition deliverable :: "sys_state \<Rightarrow> pbuf_t \<Rightarrow> bool" where
  "deliverable s pb \<longleftrightarrow> pb_addr pb \<notin> pb_addr ` set (sys_packets s) \<and> \<not> pb_is_free pb \<and> keyhash (dupe_addr pb) 0 \<noteq> 0"

definition inbox_put :: "pbuf_t \<Rightarrow> worker_t \<Rightarrow> worker_t" where
  "inbox_put pb w = w\<lparr>w_pbuf_incoming := w_pbuf_incoming w @ [pb], w_pbuf_incoming_count := w_pbuf_incoming_count w + 1\<rparr>"

inductive sys_step :: "mmap \<Rightarrow> sys_state \<Rightarrow> sys_state \<Rightarrow> bool" for mm where
  arrive: "sy_workers s = us @ w # vs \<Longrightarrow> deliverable s pb \<Longrightarrow>
    sys_step mm s (s\<lparr>sy_workers := us @ inbox_put pb w # vs\<rparr>)"
| arrive_extra: "sy_extra s = us @ w # vs \<Longrightarrow> deliverable s pb \<Longrightarrow>
    sys_step mm s (s\<lparr>sy_extra := us @ inbox_put pb w # vs\<rparr>)"
| dupe: "sy_tick s \<le> de_tick env \<Longrightarrow>
    dupecheck_thread mm env (sy_workers s) (sy_extra s) (sy_dupe s) = Some (ws, extra, d) \<Longrightarrow>
    sys_step mm s (s\<lparr>sy_tick := de_tick env, sy_dupe := d, sy_workers := ws, sy_extra := extra\<rparr>)"
| send: "sy_workers s = us @ w # vs \<Longrightarrow>
    process_outgoing flt tick (ds_global (sy_dupe s)) (ds_global_dupe (sy_dupe s)) w = Inr (evs, w') \<Longrightarrow>
    sys_step mm s (s\<lparr>sy_workers := us @ w' # vs\<rparr>)"

inductive sys_reach :: "mmap \<Rightarrow> sys_state \<Rightarrow> sys_state \<Rightarrow> bool" for mm s0 where
  reach_refl: "sys_reach mm s0 s0"
| reach_step: "sys_reach mm s0 s \<Longrightarrow> sys_step mm s s' \<Longrightarrow> sys_reach mm s0 s'"

inductive_cases sys_stepE: "sys_step mm s s'"

section \<open>The invariant\<close>

definition worker_placed :: "dupe_state \<Rightarrow> worker_t \<Rightarrow> bool" where
  "worker_placed d w \<longleftrightarrow> place_ok (w_pbuf_global_prevp w) (w_last_pbuf_seqnum w) (ds_global d) \<and>
     place_ok (w_pbuf_global_dupe_prevp w) (w_last_pbuf_dupe_seqnum w) (ds_global_dupe d)"

definition sys_inv :: "mmap \<Rightarrow> sys_state \<Rightarrow> bool" where
  "sys_inv mm s \<longleftrightarrow>
     dupe_inv mm (sy_tick s) (ds_db (sy_dupe s)) \<and>
     distinct (map pb_addr (sys_packets s)) \<and>
     (\<forall>pb \<in> set (sys_packets s). \<not> pb_is_free pb) \<and>
     (\<forall>pb \<in> set (sys_inboxes s). keyhash (dupe_addr pb) 0 \<noteq> 0) \<and>
     (\<forall>w \<in> set (sy_workers s). worker_placed (sy_dupe s) w)"

text \<open>A system just started: nothing queued, the table empty or in order, all places at the head.\<close>

definition sys_init :: "mmap \<Rightarrow> sys_state \<Rightarrow> bool" where
  "sys_init mm s \<longleftrightarrow> dupe_inv mm (sy_tick s) (ds_db (sy_dupe s)) \<and> sys_packets s = [] \<and>
     (\<forall>w \<in> set (sy_workers s). w_pbuf_global_prevp w = None \<and> w_pbuf_global_dupe_prevp w = None)"


lemma sys_init_inv:
  assumes "sys_init mm s"
  shows "sys_inv mm s"
proof -
  have A: "sys_packets s = []" "sys_inboxes s = []" using assms by (simp_all add: sys_init_def sys_packets_def)
  have B: "\<forall>w \<in> set (sy_workers s). worker_placed (sy_dupe s) w"
    using assms by (simp add: sys_init_def worker_placed_def place_ok_def)
  have C: "dupe_inv mm (sy_tick s) (ds_db (sy_dupe s))" using assms by (simp only: sys_init_def)
  show ?thesis unfolding sys_inv_def A using B C by simp
qed

lemma place_ok_append: "place_ok prevp n q \<Longrightarrow> place_ok prevp n (q @ new)"
proof (cases prevp)
  case (Some a)
  assume "place_ok prevp n q"
  then obtain pb rest where D: "dropWhile (\<lambda>p. pb_addr p \<noteq> a) q = pb # rest" "pb_seqnum pb = n"
    using Some by (auto simp: place_ok_def)
  then have "dropWhile (\<lambda>p. pb_addr p \<noteq> a) q \<noteq> []" by simp
  then obtain x where x: "x \<in> set q" "\<not> pb_addr x \<noteq> a" by (auto simp: dropWhile_eq_Nil_conv)
  then have "dropWhile (\<lambda>p. pb_addr p \<noteq> a) (q @ new) = (pb # rest) @ new"
    unfolding D(1) [symmetric] by (rule dropWhile_append1)
  then show ?thesis using Some D(2) by (simp add: place_ok_def)
qed (simp add: place_ok_def)

text \<open>A place survives the loss of a prefix that does not hold its packet.\<close>

lemma place_ok_purge:
  assumes "place_ok prevp n (freed @ q)" and "\<forall>pb \<in> set freed. pb_seqnum pb \<noteq> n"
  shows "place_ok prevp n q"
proof (cases prevp)
  case (Some a)
  then obtain pb rest where D: "dropWhile (\<lambda>p. pb_addr p \<noteq> a) (freed @ q) = pb # rest" "pb_seqnum pb = n"
    using assms(1) by (auto simp: place_ok_def)
  have "\<forall>x \<in> set freed. pb_addr x \<noteq> a"
  proof (rule ccontr)
    assume "\<not> ?thesis"
    then obtain x where x: "x \<in> set freed" "\<not> pb_addr x \<noteq> a" by auto
    then have "dropWhile (\<lambda>p. pb_addr p \<noteq> a) (freed @ q) = dropWhile (\<lambda>p. pb_addr p \<noteq> a) freed @ q"
      by (rule dropWhile_append1)
    moreover have "dropWhile (\<lambda>p. pb_addr p \<noteq> a) freed \<noteq> []" using x by (auto simp: dropWhile_eq_Nil_conv)
    ultimately have "pb \<in> set freed"
      using D(1) by (metis append_eq_Cons_conv list.set_intros(1) set_dropWhileD)
    then show False using assms(2) D(2) by auto
  qed
  then have "dropWhile (\<lambda>p. pb_addr p \<noteq> a) q = pb # rest" using D(1) dropWhile_append2 [of freed] by simp
  then show ?thesis using Some D(2) by (simp add: place_ok_def)
qed (simp add: place_ok_def)

lemma pick_perm: "length vs = length xs \<Longrightarrow> mset (pick True vs xs) + mset (pick False vs xs) = mset xs"
  by (induction vs xs rule: list_induct2) auto

lemma pb_same_all:
  assumes "list_all2 pb_same xs ys"
  shows "map pb_addr xs = map pb_addr ys" and "(\<forall>pb \<in> set xs. \<not> pb_is_free pb) \<longleftrightarrow> (\<forall>pb \<in> set ys. \<not> pb_is_free pb)"
  using assms by (induction rule: list_all2_induct) (auto simp: pb_same_def)
lemma dupe_step_inv:
  assumes inv: "sys_inv mm s" and tick: "sy_tick s \<le> de_tick env"
    and T: "dupecheck_thread mm env (sy_workers s) (sy_extra s) (sy_dupe s) = Some (ws, extra, d)"
  shows "sys_inv mm (s\<lparr>sy_tick := de_tick env, sy_dupe := d, sy_workers := ws, sy_extra := extra\<rparr>)"
proof -
  let ?s' = "s\<lparr>sy_tick := de_tick env, sy_dupe := d, sy_workers := ws, sy_extra := extra\<rparr>"
  let ?pbs = "sys_inboxes s" and ?d0 = "sy_dupe s"
  obtain vs no nd freed dfreed where Q: "length vs = length ?pbs"
    "list_all2 pb_same no (pick True vs ?pbs)" "list_all2 pb_same nd (pick False vs ?pbs)"
    "ds_global ?d0 @ no = freed @ ds_global d" "ds_global_dupe ?d0 @ nd = dfreed @ ds_global_dupe d"
    "\<forall>pb \<in> set freed. \<forall>w \<in> set (sy_workers s). pbuf_seqnum_lag (ds_seqnum d) (w_last_pbuf_seqnum w) < pbuf_seqnum_lag (ds_seqnum d) (pb_seqnum pb)"
    "\<forall>pb \<in> set dfreed. \<forall>w \<in> set (sy_workers s). pbuf_seqnum_lag (ds_dupe_seqnum d) (w_last_pbuf_dupe_seqnum w) < pbuf_seqnum_lag (ds_dupe_seqnum d) (pb_seqnum pb)"
    and E: "\<forall>w \<in> set (ws @ extra). w_pbuf_incoming w = []"
    using dupecheck_thread_ok [OF T refl] unfolding sys_inboxes_def by blast
  have ws: "ws = map emptied (sy_workers s)"
    using T by (auto simp: dupecheck_thread_def drain_workers_eq Let_def split: option.splits)
  have inbox: "sys_inboxes ?s' = []" using E by (simp add: sys_inboxes_def)
  then have packets: "sys_packets ?s' = ds_global d @ ds_global_dupe d" by (simp add: sys_packets_def)
  have all: "mset (map pb_addr ((ds_global ?d0 @ no) @ (ds_global_dupe ?d0 @ nd))) = mset (map pb_addr (sys_packets s))"
  proof -
    have "mset (map pb_addr no) + mset (map pb_addr nd) = mset (map pb_addr ?pbs)"
      unfolding pb_same_all(1) [OF Q(2)] pb_same_all(1) [OF Q(3)]
      using arg_cong [OF pick_perm [OF Q(1)], of "image_mset pb_addr"] by simp
    then show ?thesis by (simp add: sys_packets_def ac_simps)
  qed
  have dist: "distinct (map pb_addr ((freed @ ds_global d) @ (dfreed @ ds_global_dupe d)))"
    using mset_eq_imp_distinct_iff [OF all] inv unfolding Q(4,5) by (simp only: sys_inv_def)
  have "\<forall>pb \<in> set no \<union> set nd. \<not> pb_is_free pb"
  proof -
    have "set (pick True vs ?pbs) \<union> set (pick False vs ?pbs) = set ?pbs"
      using arg_cong [OF pick_perm [OF Q(1)], of set_mset] by simp
    moreover have "\<forall>pb \<in> set ?pbs. \<not> pb_is_free pb" using inv by (auto simp: sys_inv_def sys_packets_def)
    ultimately show ?thesis using pb_same_all(2) [OF Q(2)] pb_same_all(2) [OF Q(3)] by blast
  qed
  then have "\<forall>pb \<in> set (ds_global ?d0 @ no) \<union> set (ds_global_dupe ?d0 @ nd). \<not> pb_is_free pb"
    using inv by (auto simp: sys_inv_def sys_packets_def)
  then have live: "\<forall>pb \<in> set (sys_packets ?s'). \<not> pb_is_free pb"
    unfolding Q(4,5) packets by auto
  have "worker_placed d (emptied w)" if "w \<in> set (sy_workers s)" for w
  proof -
    have P: "place_ok (w_pbuf_global_prevp w) (w_last_pbuf_seqnum w) (ds_global ?d0)"
      "place_ok (w_pbuf_global_dupe_prevp w) (w_last_pbuf_dupe_seqnum w) (ds_global_dupe ?d0)"
      using inv that by (auto simp: sys_inv_def worker_placed_def)
    have "\<forall>pb \<in> set freed. pb_seqnum pb \<noteq> w_last_pbuf_seqnum w" "\<forall>pb \<in> set dfreed. pb_seqnum pb \<noteq> w_last_pbuf_dupe_seqnum w"
      using Q(6,7) that by fastforce+
    then have "place_ok (w_pbuf_global_prevp w) (w_last_pbuf_seqnum w) (ds_global d)"
      "place_ok (w_pbuf_global_dupe_prevp w) (w_last_pbuf_dupe_seqnum w) (ds_global_dupe d)"
      using place_ok_purge place_ok_append [OF P(1), of no] place_ok_append [OF P(2), of nd] unfolding Q(4,5) by blast+
    then show ?thesis by (simp add: worker_placed_def emptied_def)
  qed
  moreover have "dupe_inv mm (de_tick env) (ds_db d)"
  proof -
    have "dupe_inv mm (de_tick env) (ds_db ?d0)" using inv tick dupe_inv_later by (auto simp: sys_inv_def)
    moreover have "\<forall>w \<in> set (sy_workers s @ sy_extra s). \<forall>pb \<in> set (w_pbuf_incoming w). keyhash (dupe_addr pb) 0 \<noteq> 0"
      using inv by (auto simp: sys_inv_def sys_inboxes_def)
    ultimately show ?thesis using dupecheck_thread_total T by fastforce
  qed
  moreover have "distinct (map pb_addr (sys_packets ?s'))" using dist unfolding packets by auto
  ultimately show ?thesis using live inbox by (simp add: sys_inv_def ws)
qed
lemma inbox_put_simps [simp]:
  "w_pbuf_incoming (inbox_put pb w) = w_pbuf_incoming w @ [pb]" "worker_placed d (inbox_put pb w) = worker_placed d w"
  by (simp_all add: inbox_put_def worker_placed_def)

text \<open>Any state whose packets are those of \<open>s\<close> and a deliverable one more in the inboxes.\<close>

lemma arrive_inv:
  assumes inv: "sys_inv mm s" and D: "deliverable s pb"
    and same: "sy_tick s' = sy_tick s" "sy_dupe s' = sy_dupe s" "\<forall>w \<in> set (sy_workers s'). worker_placed (sy_dupe s) w"
    and M: "mset (sys_inboxes s') = add_mset pb (mset (sys_inboxes s))"
  shows "sys_inv mm s'"
proof -
  have set: "set (sys_inboxes s') = insert pb (set (sys_inboxes s))"
    using arg_cong [OF M, of set_mset] by simp
  have "mset (map pb_addr (sys_packets s')) = mset (pb_addr pb # map pb_addr (sys_packets s))"
    using arg_cong [OF M, of "image_mset pb_addr"] by (simp add: sys_packets_def same(2))
  from mset_eq_imp_distinct_iff [OF this] have "distinct (map pb_addr (sys_packets s'))"
    using inv D by (simp add: sys_inv_def deliverable_def)
  moreover have "set (sys_packets s') = insert pb (set (sys_packets s))"
    by (auto simp: sys_packets_def set same(2))
  ultimately show ?thesis using inv D same set by (simp add: sys_inv_def deliverable_def)
qed

lemma send_inv:
  assumes inv: "sys_inv mm s" and ws: "sy_workers s = us @ w # vs"
    and R: "process_outgoing flt tick (ds_global (sy_dupe s)) (ds_global_dupe (sy_dupe s)) w = Inr (evs, w')"
  shows "sys_inv mm (s\<lparr>sy_workers := us @ w' # vs\<rparr>)"
proof -
  have "worker_placed (sy_dupe s) w" "\<forall>pb \<in> set (ds_global (sy_dupe s) @ ds_global_dupe (sy_dupe s)). \<not> pb_is_free pb"
    "distinct (map pb_addr (ds_global (sy_dupe s)))" "distinct (map pb_addr (ds_global_dupe (sy_dupe s)))"
    using inv ws by (auto simp: sys_inv_def sys_packets_def)
  from process_outgoing_ok [OF _ _ this(2-4), of w flt tick undefined] this(1) R
  have W: "worker_placed (sy_dupe s) w'" "w_pbuf_incoming w' = w_pbuf_incoming w" by (auto simp: worker_placed_def)
  have "sys_inboxes (s\<lparr>sy_workers := us @ w' # vs\<rparr>) = sys_inboxes s" by (simp add: sys_inboxes_def ws W(2))
  then show ?thesis using inv W(1) ws by (simp add: sys_inv_def sys_packets_def)
qed

lemma sys_step_inv:
  assumes "sys_step mm s s'" and inv: "sys_inv mm s"
  shows "sys_inv mm s'"
  using assms(1)
proof cases
  case (arrive us w vs pb)
  then show ?thesis using inv by (intro arrive_inv [OF inv arrive(3)]) (auto simp: sys_inboxes_def sys_inv_def)
next
  case (arrive_extra us w vs pb)
  then show ?thesis using inv by (intro arrive_inv [OF inv arrive_extra(3)]) (auto simp: sys_inboxes_def sys_inv_def)
next
  case (dupe env ws extra d)
  then show ?thesis using dupe_step_inv [OF inv] by simp
next
  case (send us w vs flt tick evs w')
  then show ?thesis using send_inv [OF inv] by simp
qed

lemma sys_reach_inv: "sys_reach mm s0 s \<Longrightarrow> sys_inv mm s0 \<Longrightarrow> sys_inv mm s"
  by (induction rule: sys_reach.induct) (auto intro: sys_step_inv)

text \<open>C1. The pipeline never faults. From a system just started, after any interleaving of arriving
  packets, turns of the duplicate check and writing workers, the next turn of the duplicate check does
  not dereference NULL, and no worker follows a dangling pointer or meets a packet that has been
  freed: the purger never frees the packet in which a worker's place is.\<close>

theorem pipeline_never_faults:
  assumes "sys_init mm s0" and "sys_reach mm s0 s"
  shows "(sy_tick s \<le> de_tick env \<longrightarrow> dupecheck_thread mm env (sy_workers s) (sy_extra s) (sy_dupe s) \<noteq> None) \<and>
    (\<forall>w \<in> set (sy_workers s). \<forall>flt tick.
       \<exists>evs w'. process_outgoing flt tick (ds_global (sy_dupe s)) (ds_global_dupe (sy_dupe s)) w = Inr (evs, w'))"
proof -
  have inv: "sys_inv mm s" using sys_reach_inv [OF assms(2)] sys_init_inv [OF assms(1)] by blast
  have "dupecheck_thread mm env (sy_workers s) (sy_extra s) (sy_dupe s) \<noteq> None" if "sy_tick s \<le> de_tick env"
  proof -
    have "dupe_inv mm (de_tick env) (ds_db (sy_dupe s))" using inv that dupe_inv_later by (auto simp: sys_inv_def)
    moreover have "\<forall>w \<in> set (sy_workers s @ sy_extra s). \<forall>pb \<in> set (w_pbuf_incoming w). keyhash (dupe_addr pb) 0 \<noteq> 0"
      using inv by (auto simp: sys_inv_def sys_inboxes_def)
    ultimately show ?thesis using dupecheck_thread_total by fastforce
  qed
  moreover have "\<exists>evs w'. process_outgoing flt tick (ds_global (sy_dupe s)) (ds_global_dupe (sy_dupe s)) w = Inr (evs, w')"
    if "w \<in> set (sy_workers s)" for w flt tick
  proof -
    have "worker_placed (sy_dupe s) w" "\<forall>pb \<in> set (ds_global (sy_dupe s) @ ds_global_dupe (sy_dupe s)). \<not> pb_is_free pb"
      "distinct (map pb_addr (ds_global (sy_dupe s)))" "distinct (map pb_addr (ds_global_dupe (sy_dupe s)))"
      using inv that by (auto simp: sys_inv_def sys_packets_def)
    from process_outgoing_ok [OF _ _ this(2-4), of w flt tick undefined] this(1) show ?thesis
      by (auto simp: worker_placed_def)
  qed
  ultimately show ?thesis by blast
qed

definition demo_sys :: sys_state where
  "demo_sys = \<lparr>sy_tick = 1000, sy_dupe = demo_dupe_state, sy_workers = [demo_worker], sy_extra = []\<rparr>"

theorem pipeline_never_faults_witness:
  "sys_reach demo_mmap demo_sys (demo_sys\<lparr>sy_workers := [inbox_put (demo_packet ''hello'') demo_worker]\<rparr>) \<and>
   dupecheck_thread demo_mmap (demo_dupe_env 1000) [inbox_put (demo_packet ''hello'') demo_worker] [] demo_dupe_state \<noteq> None"
proof -
  let ?s = "demo_sys\<lparr>sy_workers := [inbox_put (demo_packet ''hello'') demo_worker]\<rparr>"
  have packets: "sys_packets demo_sys = []"
    by (simp add: sys_packets_def sys_inboxes_def demo_sys_def demo_dupe_state_def demo_worker_def)
  have init: "sys_init demo_mmap demo_sys"
    using demo_dupe_inv packets by (simp add: sys_init_def demo_sys_def demo_dupe_state_def demo_worker_def)
  have "deliverable demo_sys (demo_packet ''hello'')"
    using demo_addr_hash by (simp add: deliverable_def packets demo_packet_addr) (simp add: demo_packet_def pbuf_zero_def)
  then have step: "sys_step demo_mmap demo_sys ?s"
    using sys_step.arrive [of demo_sys "[]" demo_worker "[]"] by (simp add: demo_sys_def)
  then have reach: "sys_reach demo_mmap demo_sys ?s" by (auto intro: sys_reach.intros)
  from pipeline_never_faults [OF init reach, of "demo_dupe_env 1000"] reach
  show ?thesis by (simp add: demo_sys_def demo_dupe_env_def)
qed

end
