(* ===== verification/Filter_Db.thy ===== *)
theory Filter_Db
  imports Historydb
begin

text \<open>
  The first part of \<^verbatim>\<open>src/src/filter.c\<close>: what is done to a packet before the duplicate check. Two tables
  of callsigns with expiry times, one of the igates seen with a qAr or qAR construct, one of the
  stations that send weather without a position; the test for \<^verbatim>\<open>TCPIP*\<close> in the path; the hashes of the
  packet's names. Each table comes with its \<^verbatim>\<open>cellgauge\<close>; the lock around an operation makes it one step.
\<close>

text \<open>An entry of either table: the two structures have the same members. \<open>fe_callsign\<close> is the first
  \<^verbatim>\<open>len\<close> bytes of the array, the others are zero.\<close>

record filter_entrycall_t =
  fe_expirytime :: ctime
  fe_hash :: u32
  fe_callsign :: string

type_synonym filter_wx_t = filter_entrycall_t

definition FILTER_ENTRYCALL_HASHSIZE :: nat where "FILTER_ENTRYCALL_HASHSIZE = 2048"
definition FILTER_WX_HASHSIZE :: nat where "FILTER_WX_HASHSIZE = 1024"

definition filter_entrycall_bucket :: "u32 \<Rightarrow> nat" where
  "filter_entrycall_bucket hash =
     unat (hash XOR drop_bit 11 hash XOR drop_bit 22 hash) mod FILTER_ENTRYCALL_HASHSIZE"

definition filter_wx_bucket :: "u32 \<Rightarrow> nat" where
  "filter_wx_bucket hash = unat (hash XOR drop_bit 10 hash XOR drop_bit 20 hash) mod FILTER_WX_HASHSIZE"

section \<open>The chains of both tables\<close>

text \<open>A table with its gauge.\<close>

type_synonym fcalls = "filter_entrycall_t table \<times> int"

fun upd_first :: "('a \<Rightarrow> bool) \<Rightarrow> ('a \<Rightarrow> 'a) \<Rightarrow> 'a list \<Rightarrow> 'a list" where
  "upd_first P g [] = []"
| "upd_first P g (x # xs) = (if P x then g x # xs else x # upd_first P g xs)"

text \<open>Refresh the entry of the upper-cased key or put a new one at the head of its chain. \<open>alloc_ok\<close>
  says whether \<^verbatim>\<open>cellmalloc\<close> finds room, \<open>fail\<close> what a failure adds to the gauge. The first result is
  whether the key is in the table now.\<close>

definition fcall_insert ::
    "(u32 \<Rightarrow> nat) \<Rightarrow> bool \<Rightarrow> int \<Rightarrow> ctime \<Rightarrow> string \<Rightarrow> fcalls \<Rightarrow> bool \<times> fcalls" where
  "fcall_insert bkt alloc_ok fail expiry uckey fc =
     (let (tbl, gauge) = fc; hash = keyhash uckey 0; i = bkt hash;
          same = (\<lambda>f. fe_hash f = hash \<and> fe_callsign f = uckey)
      in if \<exists>f \<in> set (tbl i). same f then
           (True, tbl(i := upd_first same (\<lambda>f. f\<lparr>fe_expirytime := expiry\<rparr>) (tbl i)), gauge)
         else if alloc_ok then
           (True, tbl(i := \<lparr>fe_expirytime = expiry, fe_hash = hash, fe_callsign = uckey\<rparr> # tbl i), gauge + 1)
         else (False, tbl, gauge + fail))"

text \<open>The test of the walk: an entry counts when its expiry time lies more than a minute back.\<close>

definition fcall_lookup :: "(u32 \<Rightarrow> nat) \<Rightarrow> ctime \<Rightarrow> string \<Rightarrow> fcalls \<Rightarrow> bool" where
  "fcall_lookup bkt tick key fc =
     (let hash = keyhashuc key 0
      in \<exists>f \<in> set (fst fc (bkt hash)).
           fe_hash f = hash \<and> length (fe_callsign f) = length key \<and>
           strncaseeq (length key) (fe_callsign f) key \<and> fe_expirytime f < tick - 60)"

definition fcall_cleanup :: "nat \<Rightarrow> ctime \<Rightarrow> fcalls \<Rightarrow> fcalls" where
  "fcall_cleanup nb tick fc =
     (let (tbl, gauge) = fc
      in (\<lambda>i. if i < nb then filter (\<lambda>f. \<not> fe_expirytime f \<le> tick) (tbl i) else tbl i,
          gauge - int (length (filter (\<lambda>f. fe_expirytime f \<le> tick) (entries nb tbl)))))"

definition fcall_atend :: "nat \<Rightarrow> fcalls \<Rightarrow> fcalls" where
  "fcall_atend nb fc =
     (let (tbl, gauge) = fc
      in (\<lambda>i. if i < nb then [] else tbl i, gauge - int (length (entries nb tbl))))"

definition fcall_dump :: "nat \<Rightarrow> fcalls \<Rightarrow> (ctime \<times> string) list" where
  "fcall_dump nb fc = map (\<lambda>f. (fe_expirytime f, fe_callsign f)) (entries nb (fst fc))"

section \<open>Igates\<close>

definition filter_entrycall_maxage :: int where "filter_entrycall_maxage = 60 * 60"
definition filter_wx_maxage :: int where "filter_wx_maxage = 60 * 60"

text \<open>The callsign behind the q construct, up to the next comma or colon; None when there is no
  callsign of proper length.\<close>

definition entrycall_key :: "pbuf_t \<Rightarrow> string option" where
  "entrycall_key pb =
     (let q = pb_qconst_start pb + 4;
          e = scan (\<lambda>c. c \<noteq> CHR '','' \<and> c \<noteq> CHR '':'') (pb_data pb) q (q + CALLSIGNLEN_MAX);
          c = rd (pb_data pb) e
      in if (c \<noteq> CHR '','' \<and> c \<noteq> CHR '':'') \<or> e - q < CALLSIGNLEN_MIN then None
         else Some (sub (pb_data pb) q e))"

definition filter_entrycall_insert ::
    "bool \<Rightarrow> ctime \<Rightarrow> pbuf_t \<Rightarrow> fcalls \<Rightarrow> int \<times> pbuf_t \<times> fcalls" where
  "filter_entrycall_insert alloc_ok tick pb db =
     (let qcons = rd (pb_data pb) (pb_qconst_start pb + 2)
      in case entrycall_key pb of
           None \<Rightarrow> (0, pb, db)
         | Some key \<Rightarrow>
             let pb' = pb\<lparr>pb_entrycall_len := length key\<rparr>
             in if qcons \<noteq> CHR ''r'' \<and> qcons \<noteq> CHR ''R'' then (0, pb', db)
                else
                  let (found, db') = fcall_insert filter_entrycall_bucket alloc_ok 0
                                       (tick + filter_entrycall_maxage) (map toupper key) db
                  in (if found then 1 else 0, pb', db'))"

definition filter_entrycall_lookup :: "ctime \<Rightarrow> pbuf_t \<Rightarrow> fcalls \<Rightarrow> bool" where
  "filter_entrycall_lookup tick pb db =
     (let q = pb_qconst_start pb + 4
      in fcall_lookup filter_entrycall_bucket tick (sub (pb_data pb) q (q + pb_entrycall_len pb)) db)"

definition filter_entrycall_cleanup :: "ctime \<Rightarrow> fcalls \<Rightarrow> fcalls" where
  "filter_entrycall_cleanup tick db = fcall_cleanup FILTER_ENTRYCALL_HASHSIZE tick db"

definition filter_entrycall_atend :: "fcalls \<Rightarrow> fcalls" where
  "filter_entrycall_atend db = fcall_atend FILTER_ENTRYCALL_HASHSIZE db"

definition filter_entrycall_dump :: "fcalls \<Rightarrow> (ctime \<times> string) list" where
  "filter_entrycall_dump db = fcall_dump FILTER_ENTRYCALL_HASHSIZE db"

section \<open>Weather stations\<close>

text \<open>The key is the source callsign in capitals, of at most nine bytes by the header check; the
  array is zero behind them. A failed allocation is counted in the gauge all the same.\<close>

definition wx_uckey :: "string \<Rightarrow> string" where
  "wx_uckey key =
     (let s = map toupper (takeWhile (\<lambda>c. c \<noteq> CHR ''>'') (take CALLSIGNLEN_MAX key))
      in take (length key) (s @ replicate (CALLSIGNLEN_MAX + 1 - length s) NUL))"

definition filter_wx_insert :: "bool \<Rightarrow> ctime \<Rightarrow> pbuf_t \<Rightarrow> fcalls \<Rightarrow> int \<times> fcalls" where
  "filter_wx_insert alloc_ok tick pb db =
     (if \<not> (has_flag (pb_packettype pb) T_WX \<and> \<not> has_flag (pb_flags pb) F_HASPOS) then (0, db)
      else (0, snd (fcall_insert filter_wx_bucket alloc_ok 1 (tick + filter_wx_maxage)
                      (wx_uckey (take (pb_srccall_end pb) (pb_data pb))) db)))"

definition filter_wx_lookup :: "ctime \<Rightarrow> pbuf_t \<Rightarrow> fcalls \<Rightarrow> bool" where
  "filter_wx_lookup tick pb db =
     fcall_lookup filter_wx_bucket tick (take (pb_srccall_end pb) (pb_data pb)) db"

definition filter_wx_cleanup :: "ctime \<Rightarrow> fcalls \<Rightarrow> fcalls" where
  "filter_wx_cleanup tick db = fcall_cleanup FILTER_WX_HASHSIZE tick db"

definition filter_wx_atend :: "fcalls \<Rightarrow> fcalls" where
  "filter_wx_atend db = fcall_atend FILTER_WX_HASHSIZE db"

definition filter_wx_dump :: "fcalls \<Rightarrow> (ctime \<times> string) list" where
  "filter_wx_dump db = fcall_dump FILTER_WX_HASHSIZE db"

section \<open>Before the duplicate check\<close>

text \<open>\<^verbatim>\<open>aprsc_strnstr\<close> with the needle \<open>c2 # s2\<close>: the walk along the bytes, and the rest behind the first
  byte of the match.\<close>

fun strnstr_loop :: "char \<Rightarrow> string \<Rightarrow> string \<Rightarrow> nat \<Rightarrow> string option" where
  "strnstr_loop c2 s2 [] len = None"
| "strnstr_loop c2 s2 (c1 # s1) len =
     (if len = 0 then None
      else if c1 = NUL then None
      else if c1 \<noteq> c2 then strnstr_loop c2 s2 s1 (len - 1)
      else if len - 1 < length s2 then None
      else if take (length s2) s1 = s2 then Some s1
      else strnstr_loop c2 s2 s1 (len - 1))"

definition aprsc_strnstr :: "string \<Rightarrow> string \<Rightarrow> nat \<Rightarrow> string option" where
  "aprsc_strnstr s1 s2 len = strnstr_loop (hd s2) (tl s2) s1 len"

definition filter_check_tcpip :: "pbuf_t \<Rightarrow> pbuf_t" where
  "filter_check_tcpip pb =
     (if aprsc_strnstr (drop (pb_dstcall_end pb) (pb_data pb)) '',TCPIP*,''
           (pb_qconst_start pb - pb_dstcall_end pb) \<noteq> None
      then pb\<lparr>pb_flags := pb_flags pb OR F_HAS_TCPIP\<rparr> else pb)"

text \<open>The pointer comparison \<^verbatim>\<open>srcname == data\<close> only saves work: the name then is the source callsign.\<close>

definition filter_keyhashes :: "pbuf_t \<Rightarrow> pbuf_t" where
  "filter_keyhashes pb =
     (let pb1 = pb\<lparr>pb_srccall_hash := keyhashuc (take (pb_srccall_end pb) (pb_data pb)) 0\<rparr>;
          pb2 = pb1\<lparr>pb_srcname_hash := keyhashuc (pb_srcname pb) 0\<rparr>
      in case pb_dstname pb of None \<Rightarrow> pb2 | Some d \<Rightarrow> pb2\<lparr>pb_dstname_hash := keyhashuc d 0\<rparr>)"

record filter_state =
  fs_entrycall :: fcalls
  fs_wx :: fcalls

definition filter_preprocess_dupefilter ::
    "bool \<Rightarrow> bool \<times> bool \<Rightarrow> ctime \<Rightarrow> filter_state \<Rightarrow> pbuf_t \<Rightarrow> pbuf_t \<times> filter_state" where
  "filter_preprocess_dupefilter have_filtered_listeners alloc_ok tick fs pb =
     (let pb1 = filter_check_tcpip pb;
          (pb2, fs') =
            (if have_filtered_listeners then
               let (_, pb2, ec) = filter_entrycall_insert (fst alloc_ok) tick pb1 (fs_entrycall fs);
                   (_, wx) = filter_wx_insert (snd alloc_ok) tick pb2 (fs_wx fs)
               in (pb2, \<lparr>fs_entrycall = ec, fs_wx = wx\<rparr>)
             else (pb1, fs))
      in (filter_keyhashes pb2, fs'))"

section \<open>The tables as maps\<close>

lemma upd_first_map:
  assumes "distinct (map f xs)" and "\<And>x. x \<in> set xs \<Longrightarrow> P x \<longleftrightarrow> f x = n"
  shows "upd_first P g xs = map (\<lambda>x. if f x = n then g x else x) xs"
  using assms
proof (induction xs)
  case (Cons x xs)
  have "map (\<lambda>x. if f x = n then g x else x) xs = xs" if "f x = n"
    using Cons.prems(1) that by (intro map_idI) (auto simp: image_iff)
  with Cons show ?case by auto
qed simp

text \<open>What both tables are: at most one entry for a callsign, all of them in capitals. The laws of
  insertion, lookup and cleanup on the map from callsigns to expiry times are proved once.\<close>

locale call_table = keyed_table nb "fe_hash :: filter_entrycall_t \<Rightarrow> u32" bkt
    "fe_callsign :: filter_entrycall_t \<Rightarrow> string" "\<lambda>n. keyhash n 0"
  for nb :: nat and bkt :: "u32 \<Rightarrow> nat"
begin

definition expires :: "fcalls \<Rightarrow> string \<Rightarrow> ctime option" where
  "expires fc n = map_option fe_expirytime (lookup (fst fc) n)"

definition calls_ok :: "fcalls \<Rightarrow> bool" where
  "calls_ok fc \<longleftrightarrow> table_ok (fst fc) \<and> (\<forall>i. \<forall>f \<in> set (fst fc i). map toupper (fe_callsign f) = fe_callsign f)"

lemma calls_ok_empty: "calls_ok (\<lambda>_. [], 0)"
  by (simp add: calls_ok_def table_ok_empty)

lemma calls_ok_find:
  assumes "calls_ok (tbl, g)"
  shows "(\<exists>f \<in> set (tbl (bkt (keyhash k 0))). fe_hash f = keyhash k 0 \<and> fe_callsign f = k) \<longleftrightarrow>
    lookup tbl k \<noteq> None"
proof -
  have ok: "table_ok tbl" using assms by (simp add: calls_ok_def)
  then have "fe_hash f = keyhash k 0" if "f \<in> set (tbl (bkt (keyhash k 0)))" "fe_callsign f = k" for f
    using that by (auto simp: table_ok_def)
  then show ?thesis using lookup_Some_bucket [OF ok, of k] by (metis not_None_eq)
qed

lemma insert_known:
  assumes ok: "calls_ok (tbl, g)" and lk: "lookup tbl k = Some f" and i: "i = bkt (keyhash k 0)"
    and tbl': "tbl' = tbl(i := upd_first (\<lambda>f. fe_hash f = keyhash k 0 \<and> fe_callsign f = k)
      (\<lambda>f. f\<lparr>fe_expirytime := e\<rparr>) (tbl i))"
  shows "calls_ok (tbl', g)" and "expires (tbl', g) = (expires (tbl, g))(k \<mapsto> e)"
proof -
  have tok: "table_ok tbl" using ok by (simp add: calls_ok_def)
  have f: "fe_callsign f = k" "fe_hash f = keyhash k 0" "f \<in> set (tbl i)"
    using lk lookup_Some_bucket [OF tok] tok i by (auto simp: table_ok_def)
  have one: "x = f" if "x \<in> set (tbl i)" "fe_callsign x = k" for x
    using that f tok by (auto simp: table_ok_def distinct_map inj_on_def)
  have "upd_first (\<lambda>f. fe_hash f = keyhash k 0 \<and> fe_callsign f = k) (\<lambda>f. f\<lparr>fe_expirytime := e\<rparr>) (tbl i) =
      map (\<lambda>x. if fe_callsign x = k then x\<lparr>fe_expirytime := e\<rparr> else x) (tbl i)"
    using tok by (intro upd_first_map) (auto simp: table_ok_def)
  also have "\<dots> = map (\<lambda>x. if fe_callsign x = k then f\<lparr>fe_expirytime := e\<rparr> else x) (tbl i)"
    using one by (intro map_cong) auto
  finally have t: "tbl' = tbl(i := map (\<lambda>x. if fe_callsign x = k then f\<lparr>fe_expirytime := e\<rparr> else x) (tbl i))"
    unfolding tbl' by simp
  have f': "fe_callsign (f\<lparr>fe_expirytime := e\<rparr>) = k" "fe_hash (f\<lparr>fe_expirytime := e\<rparr>) = keyhash k 0"
    using f by simp_all
  note laws = replace_laws [OF tok \<open>lookup tbl k = Some f\<close> i f']
  have "map toupper k = k" using ok f by (auto simp: calls_ok_def)
  then show "calls_ok (tbl', g)"
    using ok f' laws(1) unfolding calls_ok_def t by (auto split: if_splits)
  show "expires (tbl', g) = (expires (tbl, g))(k \<mapsto> e)"
    unfolding t using laws(2) by (auto simp: expires_def)
qed

lemma insert_laws:
  assumes ok: "calls_ok fc" and k: "map toupper k = k"
    and ins: "fcall_insert bkt alloc_ok fail e k fc = (found, fc')"
  shows "calls_ok fc'" and "found \<longleftrightarrow> alloc_ok \<or> expires fc k \<noteq> None"
    and "expires fc' = (if found then (expires fc)(k \<mapsto> e) else expires fc)"
proof -
  obtain tbl g where fc: "fc = (tbl, g)" by fastforce
  note known = calls_ok_find [OF ok [unfolded fc], of k]
  have tok: "table_ok tbl" using ok fc by (simp add: calls_ok_def)
  have "calls_ok fc' \<and> (found \<longleftrightarrow> alloc_ok \<or> expires fc k \<noteq> None) \<and>
      expires fc' = (if found then (expires fc)(k \<mapsto> e) else expires fc)"
  proof (cases "lookup tbl k")
    case (Some f)
    then show ?thesis
      using ins known insert_known [OF ok [unfolded fc] Some refl refl, of e] unfolding fc
      by (auto simp: fcall_insert_def Let_def expires_def)
  next
    case None
    let ?e = "\<lparr>fe_expirytime = e, fe_hash = keyhash k 0, fe_callsign = k\<rparr>"
    let ?t = "tbl(bkt (keyhash k 0) := ?e # tbl (bkt (keyhash k 0)))"
    have "table_ok ?t" using None by (intro table_ok_insert tok) auto
    then have 1: "calls_ok (?t, g')" for g' using ok k unfolding fc by (auto simp: calls_ok_def)
    have "lookup ?t n = (if n = k then Some ?e else lookup tbl n)" for n
      using lookup_insert [of _ ?e tbl n] by simp
    then have 2: "expires (?t, g') = (expires (tbl, g))(k \<mapsto> e)" for g' by (auto simp: expires_def)
    have 3: "\<not> (\<exists>f \<in> set (tbl (bkt (keyhash k 0))). fe_hash f = keyhash k 0 \<and> fe_callsign f = k)"
      using None known by simp
    show ?thesis
      using ins None 1 2 ok unfolding fc fcall_insert_def Let_def case_prod_conv if_not_P [OF 3]
      by (cases alloc_ok) (auto simp: expires_def calls_ok_def)
  qed
  then show "calls_ok fc'" and "found \<longleftrightarrow> alloc_ok \<or> expires fc k \<noteq> None"
    and "expires fc' = (if found then (expires fc)(k \<mapsto> e) else expires fc)" by auto
qed

lemma fcall_lookup_iff:
  assumes ok: "calls_ok fc" and k: "NUL \<notin> set key"
  shows "fcall_lookup bkt tick key fc \<longleftrightarrow> (\<exists>e. expires fc (map toupper key) = Some e \<and> e < tick - 60)"
proof -
  let ?u = "map toupper key"
  have tok: "table_ok (fst fc)" using ok by (simp add: calls_ok_def)
  have "fe_hash f = keyhash ?u 0 \<and> length (fe_callsign f) = length key \<and> strncaseeq (length key) (fe_callsign f) key
      \<longleftrightarrow> fe_callsign f = ?u" if f: "f \<in> set (fst fc (bkt (keyhash ?u 0)))" for f
  proof -
    have up: "map toupper (fe_callsign f) = fe_callsign f" and h: "fe_hash f = keyhash (fe_callsign f) 0"
      using f ok by (auto simp: calls_ok_def table_ok_def)
    have "strncaseeq (length key) (fe_callsign f) key \<longleftrightarrow> strcaseeq key (fe_callsign f)"
      if "length (fe_callsign f) = length key"
      using strncaseeq_no_NUL [OF k refl, of "fe_callsign f"] that
      by (auto simp: strncaseeq_def strcaseeq_sym)
    then show ?thesis using up h by (metis length_map strcaseeq_def)
  qed
  then have "fcall_lookup bkt tick key fc \<longleftrightarrow>
      (\<exists>f. (f \<in> set (fst fc (bkt (keyhash ?u 0))) \<and> fe_callsign f = ?u) \<and> fe_expirytime f < tick - 60)"
    unfolding fcall_lookup_def Let_def keyhashuc_map by blast
  also have "\<dots> \<longleftrightarrow> (\<exists>f. lookup (fst fc) ?u = Some f \<and> fe_expirytime f < tick - 60)"
    unfolding lookup_Some_bucket [OF tok] ..
  finally show ?thesis by (auto simp: expires_def)
qed

lemma cleanup_laws:
  assumes "calls_ok fc"
  shows "calls_ok (fcall_cleanup nb t fc)"
    and "expires (fcall_cleanup nb t fc) n = (case expires fc n of None \<Rightarrow> None | Some e \<Rightarrow> if e \<le> t then None else Some e)"
proof -
  have tok: "table_ok (fst fc)" using assms by (simp add: calls_ok_def)
  have "fst fc i = []" if "\<not> i < nb" for i
    using table_ok_bucket [OF tok, of _ i] bkt_less that by (metis all_not_in_conv set_empty)
  then have "fst (fcall_cleanup nb t fc) = (\<lambda>i. filter (\<lambda>f. \<not> fe_expirytime f \<le> t) (fst fc i))"
    by (auto simp: fcall_cleanup_def Let_def split: prod.split)
  then show "calls_ok (fcall_cleanup nb t fc)"
    and "expires (fcall_cleanup nb t fc) n = (case expires fc n of None \<Rightarrow> None | Some e \<Rightarrow> if e \<le> t then None else Some e)"
    using assms table_ok_filter [OF tok] lookup_filter [OF tok]
    by (auto simp: calls_ok_def expires_def split: option.split)
qed

end

interpretation entrycalls: call_table FILTER_ENTRYCALL_HASHSIZE filter_entrycall_bucket
  by unfold_locales (simp add: filter_entrycall_bucket_def FILTER_ENTRYCALL_HASHSIZE_def)

interpretation wxcalls: call_table FILTER_WX_HASHSIZE filter_wx_bucket
  by unfold_locales (simp add: filter_wx_bucket_def FILTER_WX_HASHSIZE_def)

section \<open>Properties\<close>

text \<open>All entries of a table expire after the given time.\<close>

definition alive_after :: "nat \<Rightarrow> ctime \<Rightarrow> fcalls \<Rightarrow> bool" where
  "alive_after nb t fc \<longleftrightarrow> (\<forall>i < nb. \<forall>f \<in> set (fst fc i). t < fe_expirytime f)"

lemma upd_first_all: "\<forall>x \<in> set xs. Q x \<Longrightarrow> (\<And>x. Q (g x)) \<Longrightarrow> \<forall>x \<in> set (upd_first P g xs). Q x"
  by (induction xs) auto

lemma alive_after_cleanup: "alive_after nb t (fcall_cleanup nb t fc)"
  by (auto simp: alive_after_def fcall_cleanup_def Let_def split: prod.split)

lemma alive_after_insert:
  assumes "alive_after nb t fc" and "t < e"
  shows "alive_after nb t (snd (fcall_insert bkt ok fail e k fc))"
proof -
  obtain tbl g where fc: "fc = (tbl, g)" by fastforce
  have "\<forall>f \<in> set (upd_first P (\<lambda>f. f\<lparr>fe_expirytime := e\<rparr>) (tbl i)). t < fe_expirytime f" if "i < nb" for P i
    using assms that by (intro upd_first_all) (auto simp: alive_after_def fc)
  then show ?thesis using assms by (auto simp: alive_after_def fcall_insert_def Let_def fc)
qed

lemma alive_after_lookup:
  assumes "alive_after nb t fc" and "\<And>h. bkt h < nb" and "tick \<le> t + 61"
  shows "\<not> fcall_lookup bkt tick key fc"
proof -
  have "\<not> fe_expirytime f < tick - 60" if "f \<in> set (fst fc (bkt h))" for f h
    using assms(1,3) assms(2) [of h] that by (fastforce simp: alive_after_def)
  then show ?thesis unfolding fcall_lookup_def Let_def by blast
qed

text \<open>The packets that pass the preprocessing, each with its allocation outcome and its time.\<close>

definition entrycall_inserts :: "(bool \<times> ctime \<times> pbuf_t) list \<Rightarrow> fcalls \<Rightarrow> fcalls" where
  "entrycall_inserts ins db = fold (\<lambda>(ok, t, pb) d. snd (snd (filter_entrycall_insert ok t pb d))) ins db"

lemma alive_after_entrycall:
  "alive_after nb t db \<Longrightarrow> t \<le> t' \<Longrightarrow> alive_after nb t (snd (snd (filter_entrycall_insert ok t' pb db)))"
  using alive_after_insert [of nb t db "t' + filter_entrycall_maxage"]
  by (auto simp: filter_entrycall_insert_def Let_def filter_entrycall_maxage_def case_prod_beta split: option.split)

lemma alive_after_inserts:
  "alive_after nb t db \<Longrightarrow> \<forall>(ok, t', pb) \<in> set ins. t \<le> t' \<Longrightarrow> alive_after nb t (entrycall_inserts ins db)"
  unfolding entrycall_inserts_def
proof (induction ins arbitrary: db)
  case (Cons x ins)
  obtain ok t' pb where x: "x = (ok, t', pb)" by (cases x)
  have "alive_after nb t (snd (snd (filter_entrycall_insert ok t' pb db)))"
    using Cons.prems x by (intro alive_after_entrycall) auto
  then show ?case using Cons x by simp
qed simp

text \<open>The analytic q filter never finds an igate. The lookup asks for an entry that expired more than a
  minute ago, and the main loop removes every expired entry at least once a minute: whatever packets
  arrive after a cleanup, up to a minute and a second later no igate is found.\<close>

theorem filter_entrycall_never_found:
  assumes "\<forall>(ok, t', p) \<in> set ins. t \<le> t'" and "tick \<le> t + 61"
  shows "\<not> filter_entrycall_lookup tick pb (entrycall_inserts ins (filter_entrycall_cleanup t db))"
  unfolding filter_entrycall_lookup_def Let_def
  by (rule alive_after_lookup [OF alive_after_inserts [OF _ assms(1)] entrycalls.bkt_less assms(2)])
    (simp add: filter_entrycall_cleanup_def alive_after_cleanup)

text \<open>The walk of \<^verbatim>\<open>aprsc_strnstr\<close> is a search for the whole needle in the given bytes before a NUL.\<close>

lemma take_takeWhile_prefix:
  "\<forall>x \<in> set p. P x \<Longrightarrow> length p \<le> n \<Longrightarrow> take (length p) (takeWhile P (take n s)) = p \<longleftrightarrow> take (length p) s = p"
proof (induction p arbitrary: n s)
  case (Cons x p)
  then obtain m where "n = Suc m" by (cases n) auto
  with Cons show ?case by (cases s) auto
qed simp

lemma find_sub_short: "length xs < length ndl \<Longrightarrow> find_sub ndl xs = None"
  using find_sub_Some [of ndl xs] by (cases "find_sub ndl xs") fastforce+

lemma strnstr_loop_iff:
  assumes s2: "NUL \<notin> set s2" and c2: "c2 \<noteq> NUL"
  shows "strnstr_loop c2 s2 s1 len \<noteq> None \<longleftrightarrow>
     find_sub (c2 # s2) (takeWhile (\<lambda>c. c \<noteq> NUL) (take len s1)) \<noteq> None"
proof (induction s1 arbitrary: len)
  case (Cons c1 s1)
  show ?case
  proof (cases len)
    case (Suc n)
    let ?w = "takeWhile (\<lambda>c. c \<noteq> NUL) (take n s1)"
    have pre: "take (length s2) ?w = s2 \<longleftrightarrow> take (length s2) s1 = s2" if "length s2 \<le> n"
      using s2 that by (intro take_takeWhile_prefix) auto
    have short: "length ?w < length s2" if "n < length s2"
      using that length_takeWhile_le [of "\<lambda>c. c \<noteq> NUL" "take n s1"] by simp
    consider (nul) "c1 = NUL" | (other) "c1 \<noteq> NUL" "c1 \<noteq> c2" | (short) "c1 = c2" "n < length s2"
      | (first) "c1 = c2" "length s2 \<le> n" by linarith
    then show ?thesis
    proof cases
      case short
      with \<open>n < length s2 \<Longrightarrow> _\<close> show ?thesis
        using Suc c2 find_sub_short [of ?w "c2 # s2"] find_sub_short [of "c2 # ?w" "c2 # s2"] by simp
    next
      case first
      then show ?thesis using Suc c2 pre Cons.IH [of n] by simp
    qed (use Suc c2 Cons.IH [of n] in simp_all)
  qed simp
qed simp

lemma find_sub_iff: "find_sub ndl xs \<noteq> None \<longleftrightarrow> (\<exists>a b. xs = a @ ndl @ b)"
proof
  assume "find_sub ndl xs \<noteq> None"
  then obtain i where "i + length ndl \<le> length xs" "take (length ndl) (drop i xs) = ndl"
    using find_sub_Some by blast
  then have "xs = take i xs @ ndl @ drop (length ndl) (drop i xs)" by (metis append_take_drop_id)
  then show "\<exists>a b. xs = a @ ndl @ b" by blast
next
  have "find_sub ndl (a @ ndl @ b) \<noteq> None" for a b
  proof (induction a)
    case Nil
    have "take (length ndl) (ndl @ b) = ndl" by simp
    then show ?case by (cases "ndl @ b") simp_all
  qed simp
  then show "\<exists>a b. xs = a @ ndl @ b \<Longrightarrow> find_sub ndl xs \<noteq> None" by blast
qed

text \<open>Preprocessing marks exactly the packets that have \<^verbatim>\<open>TCPIP*\<close> as a whole element of their path between
  the destination callsign and the place recorded as the start of the q construct.\<close>

theorem filter_check_tcpip_iff:
  assumes "NUL \<notin> set (sub (pb_data pb) (pb_dstcall_end pb) (pb_qconst_start pb))"
  shows "has_flag (pb_flags (filter_check_tcpip pb)) F_HAS_TCPIP \<longleftrightarrow>
    has_flag (pb_flags pb) F_HAS_TCPIP \<or>
    (\<exists>a b. sub (pb_data pb) (pb_dstcall_end pb) (pb_qconst_start pb) = a @ '',TCPIP*,'' @ b)"
proof -
  have all: "takeWhile (\<lambda>c. c \<noteq> NUL) (take (pb_qconst_start pb - pb_dstcall_end pb) (drop (pb_dstcall_end pb) (pb_data pb))) =
      sub (pb_data pb) (pb_dstcall_end pb) (pb_qconst_start pb)"
    using assms by (auto simp: sub_def takeWhile_eq_all_conv)
  show ?thesis
    using has_flag_or_self [of F_HAS_TCPIP "pb_flags pb"]
      strnstr_loop_iff [of "''TCPIP*,''" "CHR '',''" "drop (pb_dstcall_end pb) (pb_data pb)"
        "pb_qconst_start pb - pb_dstcall_end pb"]
    unfolding filter_check_tcpip_def aprsc_strnstr_def all find_sub_iff
    by (auto simp: F_HAS_TCPIP_def simp del: find_sub.simps)
qed

definition demo_igated :: pbuf_t where
  "demo_igated = (pbuf_zero 0 180)\<lparr>pb_data := ''OH2A>APRS,TCPIP*,qAR,OH2RDY:>x'', pb_packet_len := 32,
     pb_srccall_end := 4, pb_dstcall_end := 9, pb_qconst_start := 17, pb_info_start := 28\<rparr>"

lemma demo_igated_inserted: "fst (filter_entrycall_insert True 0 demo_igated (\<lambda>_. [], 0)) = 1"
proof -
  have "entrycall_key demo_igated = Some ''OH2RDY''"
    by (simp add: entrycall_key_def demo_igated_def pbuf_zero_def len_defs cstr_simps)
  then show ?thesis
    by (simp add: filter_entrycall_insert_def demo_igated_def Let_def fcall_insert_def rd_def)
qed

theorem filter_entrycall_never_found_witness:
  "fst (filter_entrycall_insert True 0 demo_igated (\<lambda>_. [], 0)) = 1 \<and>
   \<not> filter_entrycall_lookup 61 demo_igated
     (entrycall_inserts [(True, 0, demo_igated)] (filter_entrycall_cleanup 0 (\<lambda>_. [], 0)))"
  using demo_igated_inserted filter_entrycall_never_found [of "[(True, 0, demo_igated)]" 0 61] by simp

theorem filter_check_tcpip_iff_witness:
  "has_flag (pb_flags (filter_check_tcpip demo_igated)) F_HAS_TCPIP"
proof -
  have path: "sub (pb_data demo_igated) (pb_dstcall_end demo_igated) (pb_qconst_start demo_igated) = [] @ '',TCPIP*,'' @ []"
    by (simp add: demo_igated_def sub_def)
  then have "NUL \<notin> set (sub (pb_data demo_igated) (pb_dstcall_end demo_igated) (pb_qconst_start demo_igated))"
    by simp
  from filter_check_tcpip_iff [OF this] path show ?thesis by blast
qed

end
