(* ===== verification/C_Scan.thy ===== *)
theory C_Scan
  imports Worker_Types
begin

text \<open>
  What the sources use of \<^verbatim>\<open>atoi\<close> and \<^verbatim>\<open>sscanf\<close> (C11, 7.21.6.2): the conversions \<^verbatim>\<open>%f\<close>, \<^verbatim>\<open>%Nu\<close>, \<^verbatim>\<open>%Nd\<close> and \<^verbatim>\<open>%9[^/]\<close> as
  functions from the rest of the input to the value and the rest behind it, None for a matching or an
  input failure. The value of a decimal or hexadecimal fraction is the real number it denotes.
\<close>

definition isspace :: "char \<Rightarrow> bool" where
  "isspace c \<longleftrightarrow> byte_code c = 32 \<or> 9 \<le> byte_code c \<and> byte_code c \<le> 13"

definition isxdigit :: "char \<Rightarrow> bool" where
  "isxdigit c \<longleftrightarrow> is_digit c \<or> 65 \<le> byte_code (toupper c) \<and> byte_code (toupper c) \<le> 70"

definition digit_val :: "char \<Rightarrow> nat" where
  "digit_val c = (if is_digit c then byte_code c - 48 else byte_code (toupper c) - 55)"

definition num_val :: "nat \<Rightarrow> string \<Rightarrow> nat" where
  "num_val base ds = foldl (\<lambda>n c. n * base + digit_val c) 0 ds"

lemmas [cstr_simps] = isspace_def isxdigit_def digit_val_def num_val_def

section \<open>Floating point\<close>

fun scan_sign :: "string \<Rightarrow> bool \<times> string" where
  "scan_sign [] = (False, [])"
| "scan_sign (c # s) = (if c = CHR ''-'' then (True, s) else if c = CHR ''+'' then (False, s) else (False, c # s))"

text \<open>Digits with at most one point among them, at least one digit.\<close>

definition scan_mantissa :: "nat \<Rightarrow> (char \<Rightarrow> bool) \<Rightarrow> string \<Rightarrow> (real \<times> string) option" where
  "scan_mantissa base isd s =
     (let ip = takeWhile isd s;
          r = dropWhile isd s;
          (fp, r') = (if r \<noteq> [] \<and> hd r = CHR ''.'' then (takeWhile isd (tl r), dropWhile isd (tl r)) else ([], r))
      in if ip = [] \<and> fp = [] then None
         else Some (real (num_val base ip) + real (num_val base fp) / real base ^ length fp, r'))"

text \<open>An optional exponent, introduced by the letter \<open>e\<close>; the letter with no digits behind it is a
  matching failure.\<close>

definition scan_exponent :: "char \<Rightarrow> real \<Rightarrow> real \<times> string \<Rightarrow> (real \<times> string) option" where
  "scan_exponent e base mr =
     (let (m, r) = mr
      in if r \<noteq> [] \<and> toupper (hd r) = e then
           let (neg, r1) = scan_sign (tl r);
               ds = takeWhile is_digit r1;
               k = num_val 10 ds
           in if ds = [] then None
              else Some (if neg then m / base ^ k else m * base ^ k, dropWhile is_digit r1)
         else Some (m, r))"

definition has_prefix_ci :: "string \<Rightarrow> string \<Rightarrow> bool" where
  "has_prefix_ci p s \<longleftrightarrow> map toupper (take (length p) s) = p"

text \<open>The words for infinity and not-a-number. A part of \<^verbatim>\<open>INFINITY\<close> longer than \<^verbatim>\<open>INF\<close> and an unclosed
  parenthesis are matching failures.\<close>

definition scan_special :: "string \<Rightarrow> (cfloat \<times> string) option" where
  "scan_special s =
     (if has_prefix_ci ''INF'' s then
        if has_prefix_ci ''INFINITY'' s then Some (Infinite False, drop 8 s)
        else if has_prefix_ci ''INFI'' s then None
        else Some (Infinite False, drop 3 s)
      else if has_prefix_ci ''NAN'' s then
        let r = drop 3 s
        in if r \<noteq> [] \<and> hd r = CHR ''('' then
             let r' = dropWhile (\<lambda>c. isalnum c \<or> c = CHR ''_'') (tl r)
             in if r' \<noteq> [] \<and> hd r' = CHR '')'' then Some (NaN, tl r') else None
           else Some (NaN, r)
      else None)"

fun cf_neg :: "cfloat \<Rightarrow> cfloat" where
  "cf_neg (Fin x) = Fin (- x)"
| "cf_neg (Infinite n) = Infinite (\<not> n)"
| "cf_neg NaN = NaN"

definition scan_float :: "string \<Rightarrow> (cfloat \<times> string) option" where
  "scan_float s =
     (let (neg, r) = scan_sign (dropWhile isspace s);
          v = (if has_prefix_ci ''INF'' r \<or> has_prefix_ci ''NAN'' r then scan_special r
               else if has_prefix_ci ''0X'' r then
                 map_option (apfst Fin) (Option.bind (scan_mantissa 16 isxdigit (drop 2 r)) (scan_exponent (CHR ''P'') 2))
               else map_option (apfst Fin) (Option.bind (scan_mantissa 10 is_digit r) (scan_exponent (CHR ''E'') 10)))
      in if neg then map_option (apfst cf_neg) v else v)"

text \<open>\<^verbatim>\<open>/%f/%f...\<close> with \<open>n\<close> conversions.\<close>

fun scan_slash_floats :: "nat \<Rightarrow> string \<Rightarrow> (cfloat list \<times> string) option" where
  "scan_slash_floats 0 s = Some ([], s)"
| "scan_slash_floats (Suc n) s =
     (if s \<noteq> [] \<and> hd s = CHR ''/'' then
        case scan_float (tl s) of
          None \<Rightarrow> None
        | Some (v, r) \<Rightarrow> map_option (apfst (Cons v)) (scan_slash_floats n r)
      else None)"

text \<open>\<^verbatim>\<open>/%9[^/]/%f\<close>.\<close>

definition scan_call_dist :: "string \<Rightarrow> (string \<times> cfloat \<times> string) option" where
  "scan_call_dist s =
     (if s \<noteq> [] \<and> hd s = CHR ''/'' then
        let call = takeWhile (\<lambda>c. c \<noteq> CHR ''/'') (take 9 (tl s));
            r = drop (length call) (tl s)
        in if call = [] \<or> r = [] \<or> hd r \<noteq> CHR ''/'' then None
           else map_option (\<lambda>(v, r'). (call, v, r')) (scan_float (tl r))
      else None)"

section \<open>Integers\<close>

text \<open>\<^verbatim>\<open>%Nu\<close> and \<^verbatim>\<open>%Nd\<close>: white space is skipped, then up to \<open>n\<close> bytes are read, an optional sign and
  digits. For the unsigned conversion a negative number is reduced modulo the word size.\<close>

definition scan_int :: "nat \<Rightarrow> string \<Rightarrow> (int \<times> string) option" where
  "scan_int n s =
     (let s1 = dropWhile isspace s;
          (neg, body) = scan_sign (take n s1);
          ds = takeWhile is_digit body;
          v = int (num_val 10 ds)
      in if ds = [] then None
         else Some (if neg then - v else v, drop (length (take n s1) - length body + length ds) s1))"

definition scan_uint :: "nat \<Rightarrow> string \<Rightarrow> (u32 \<times> string) option" where
  "scan_uint n s = map_option (apfst of_int) (scan_int n s)"

text \<open>\<^verbatim>\<open>atoi\<close>: \<^verbatim>\<open>strtol\<close> saturates at 64 bits, and the result is cut to 32 bits.\<close>

definition atoi :: "string \<Rightarrow> int" where
  "atoi s =
     (let (neg, r) = scan_sign (dropWhile isspace s);
          v = int (num_val 10 (takeWhile is_digit r));
          l = (if neg then max (- (2 ^ 63)) (- v) else min (2 ^ 63 - 1) v)
      in sint (word_of_int l :: 32 word))"

section \<open>Laws\<close>

lemma digit_val_less: "is_digit c \<Longrightarrow> digit_val c < 10"
  by (auto simp: digit_val_def is_digit_def)

lemma num_val_append: "num_val base (ds @ [c]) = num_val base ds * base + digit_val c"
  by (simp add: num_val_def)

lemma num_val_less: "\<forall>c \<in> set ds. is_digit c \<Longrightarrow> num_val 10 ds < 10 ^ length ds"
proof (induction ds rule: rev_induct)
  case (snoc c ds)
  have "num_val 10 ds + 1 \<le> 10 ^ length ds" using snoc by auto
  then have "(num_val 10 ds + 1) * 10 \<le> 10 ^ length ds * 10" by simp
  moreover have "digit_val c < 10" using snoc.prems by (simp add: digit_val_less)
  ultimately show ?case by (simp add: num_val_append)
qed (simp add: num_val_def)

text \<open>What the unsigned conversion of \<open>n\<close> digits gives.\<close>

lemma scan_uint_digits:
  assumes "\<forall>c \<in> set ds. is_digit c" and "length ds = n" and "0 < n" and "n \<le> 9"
  shows "scan_uint n (ds @ rest) = Some (of_nat (num_val 10 ds), rest)"
    and "unat (of_nat (num_val 10 ds) :: u32) = num_val 10 ds"
proof -
  obtain d ds' where d: "ds = d # ds'" using assms by (cases ds) auto
  have dd: "is_digit d" using assms d by simp
  then have "\<not> isspace d" "d \<noteq> CHR ''-''" "d \<noteq> CHR ''+''"
    by (auto simp: is_digit_def isspace_def byte_code_def)
  then have 1: "dropWhile isspace (ds @ rest) = ds @ rest" "scan_sign ds = (False, ds)" by (simp_all add: d)
  have 2: "takeWhile is_digit ds = ds" using assms(1) by (simp add: takeWhile_eq_all_conv)
  have 3: "take n (ds @ rest) = ds" using assms(2) by simp
  show "scan_uint n (ds @ rest) = Some (of_nat (num_val 10 ds), rest)"
    unfolding scan_uint_def scan_int_def Let_def 1 3 case_prod_conv 2 using d by simp
  have "num_val 10 ds < 10 ^ n" using num_val_less [OF assms(1)] assms(2) by simp
  also have "\<dots> \<le> 10 ^ 9" using assms(4) by (intro power_increasing) auto
  finally show "unat (of_nat (num_val 10 ds) :: u32) = num_val 10 ds"
    by (simp add: unat_of_nat)
qed

end
