(* ===== verification/Filter_Parse.thy ===== *)
theory Filter_Parse
  imports Filter_Db C_Scan
begin

text \<open>
  \<^verbatim>\<open>src/src/filter.c\<close>, from text to filters: \<^verbatim>\<open>filter_parse\<close> with its helpers, one definition per filter
  type, and \<^verbatim>\<open>filter_free\<close>. The text of a filter is a C string, a list of bytes without a NUL. A parse
  ends with an error code or with the filter: a new one, or the last one of its list extended.
\<close>

section \<open>Constants\<close>

definition WildCard :: "8 word" where "WildCard = 0x80"
definition NegationFlag :: "8 word" where "NegationFlag = 0x40"
definition LengthMask :: "8 word" where "LengthMask = 0x0F"

datatype MatchEnum = MatchExact | MatchPrefix | MatchWild

definition QC_C :: u16 where "QC_C = 0x001"
definition QC_X :: u16 where "QC_X = 0x002"
definition QC_U :: u16 where "QC_U = 0x004"
definition QC_o :: u16 where "QC_o = 0x008"
definition QC_O :: u16 where "QC_O = 0x010"
definition QC_S :: u16 where "QC_S = 0x020"
definition QC_r :: u16 where "QC_r = 0x040"
definition QC_R :: u16 where "QC_R = 0x080"
definition QC_Z :: u16 where "QC_Z = 0x100"
definition QC_I :: u16 where "QC_I = 0x200"
definition QC_AnalyticsI :: u16 where "QC_AnalyticsI = 0x800"

lemmas qc_defs = QC_C_def QC_X_def QC_U_def QC_o_def QC_O_def QC_S_def QC_r_def QC_R_def QC_Z_def
  QC_I_def QC_AnalyticsI_def

text \<open>\<^verbatim>\<open>512 - sizeof(struct filter_head_t)\<close>, the head being 64 bytes with eight-byte pointers.\<close>

definition FILT_TEXTBUFSIZE :: nat where "FILT_TEXTBUFSIZE = 448"

definition filter_lat2rad :: "real \<Rightarrow> real" where "filter_lat2rad lat = lat * (pi / 180)"
definition filter_lon2rad :: "real \<Rightarrow> real" where "filter_lon2rad lon = lon * (pi / 180)"

text \<open>\<^verbatim>\<open>memset(&f0, 0, sizeof(f0))\<close> and the type.\<close>

definition filter_zero :: "char \<Rightarrow> filter_t" where
  "filter_zero t =
     \<lparr>f_type = t, f_negation = False, f_textbuf = [], f_exttext = None, f_latN = 0, f_lonE = 0, f_latS = 0,
      f_lonW = 0, f_coslat = 0, f_dist = Fin 0, f_hist_age = 0, f_cached = False, f_bitflags = 0, f_len1s = 0,
      f_len1 = 0, f_len2s = 0, f_len2 = 0, f_len3s = 0, f_len3 = 0, f_refcallsign = [], f_refcallsigns = []\<rparr>"

datatype parsed = Extend filter_t | New filter_t

section \<open>Sets of callsigns\<close>

text \<open>The elements behind the first slash; a last empty one does not count.\<close>

function slash_fields :: "string \<Rightarrow> string list" where
  "slash_fields [] = []"
| "slash_fields (c # s) =
     takeWhile (\<lambda>x. x \<noteq> CHR ''/'') (c # s) # slash_fields (drop 1 (dropWhile (\<lambda>x. x \<noteq> CHR ''/'') (c # s)))"
  by pat_completeness auto

termination slash_fields
  by (relation "measure length") (auto simp: le_imp_less_Suc length_dropWhile_le less_Suc_eq_le
      intro: le_trans [OF diff_le_self] order.trans [OF _ length_dropWhile_le])

definition after_slash :: "string \<Rightarrow> string" where
  "after_slash filt0 =
     (let p = (if filt0 \<noteq> [] \<and> hd filt0 = CHR ''-'' then tl filt0 else filt0)
      in drop 1 (dropWhile (\<lambda>c. c \<noteq> CHR ''/'') p))"

text \<open>One element: asterisks make it a wild card and are left out, nine bytes are kept.\<close>

definition parse_refcallsign :: "bool \<Rightarrow> string \<Rightarrow> filter_refcallsign_t" where
  "parse_refcallsign negation field =
     (let name = take CALLSIGNLEN_MAX (filter (\<lambda>c. c \<noteq> CHR ''*'') field)
      in \<lparr>rc_callsign = name,
          rc_reflen = of_nat (length name) OR (if CHR ''*'' \<in> set field then WildCard else 0)
                        OR (if negation then NegationFlag else 0)\<rparr>)"

text \<open>The text of an extended filter. When it no longer fits, a new string is made of the built-in
  buffer, whatever the old text was.\<close>

definition extend_text :: "string \<Rightarrow> filter_t \<Rightarrow> filter_t" where
  "extend_text filt0 ff =
     (if length (f_text ff) + length filt0 + 2 \<le> FILT_TEXTBUFSIZE
      then ff\<lparr>f_textbuf := f_textbuf ff @ '' '' @ filt0\<rparr>
      else ff\<lparr>f_exttext := Some (f_textbuf ff @ '' '' @ filt0)\<rparr>)"

definition filter_parse_one_callsignset ::
    "string \<Rightarrow> filter_t \<Rightarrow> filter_t option \<Rightarrow> MatchEnum \<Rightarrow> int + parsed" where
  "filter_parse_one_callsignset filt0 f0 ff wildok =
     (let fields = slash_fields (after_slash filt0);
          refs = map (parse_refcallsign (f_negation f0)) fields
      in if fields = [] then Inl (-1)
         else if wildok \<noteq> MatchWild \<and> (\<exists>field \<in> set fields. CHR ''*'' \<in> set field) then Inl (-1)
         else case ff of
                Some f \<Rightarrow>
                  if f_type f = f_type f0
                  then Inr (Extend (extend_text filt0 (f\<lparr>f_refcallsigns := f_refcallsigns f @ refs\<rparr>)))
                  else Inr (New (f0\<lparr>f_refcallsigns := refs\<rparr>))
              | None \<Rightarrow> Inr (New (f0\<lparr>f_refcallsigns := refs\<rparr>)))"

section \<open>Symbols\<close>

text \<open>The place behind the sign and the letter; then the three parts as offsets into the text and
  lengths.\<close>

definition s_filter_start :: "string \<Rightarrow> nat" where
  "s_filter_start filt0 =
     (let s0 = (if rd filt0 0 = CHR ''-'' then 1 else 0)
      in if rd filt0 s0 = CHR ''s'' \<or> rd filt0 s0 = CHR ''S'' then s0 + 1 else s0)"

definition filter_parse_one_s :: "string \<Rightarrow> filter_t \<Rightarrow> int + filter_t" where
  "filter_parse_one_s filt0 f0 =
     (let n = length filt0;
          s1 = s_filter_start filt0
      in if rd filt0 s1 \<noteq> CHR ''/'' then Inl (-1)
         else
           let noslash = (\<lambda>c. c \<noteq> CHR ''/'');
               len1 = s1 + 1; len2 = scan noslash filt0 len1 n;
               f1 = f0\<lparr>f_len1s := len1, f_len1 := len2 - len1\<rparr>
           in if len2 = n then Inr f1
              else
                let len3 = len2 + 1; len4 = scan noslash filt0 len3 n;
                    f2 = f1\<lparr>f_len2s := len3, f_len2 := len4 - len3\<rparr>
                in if len4 = n then Inr f2
                   else
                     let len5 = len4 + 1
                     in if 0 < n - len5 \<and> len4 - len3 = 0 then Inl (-1)
                        else Inr (f2\<lparr>f_len3s := len5, f_len3 := n - len5\<rparr>))"

section \<open>Numbers\<close>

text \<open>The open range of the coordinate tests.\<close>

definition cf_within :: "real \<Rightarrow> cfloat \<Rightarrow> bool" where
  "cf_within m v \<longleftrightarrow> cf_less (Fin (- m)) v \<and> cf_less v (Fin m)"

fun cf_val :: "cfloat \<Rightarrow> real" where
  "cf_val (Fin x) = x"
| "cf_val _ = 0"

definition filter_parse_a :: "string \<Rightarrow> filter_t \<Rightarrow> int + filter_t" where
  "filter_parse_a filt f0 =
     (case scan_slash_floats 4 (tl filt) of
        Some ([latN, lonW, latS, lonE], r) \<Rightarrow>
          if r \<noteq> [] \<and> hd r \<noteq> CHR ''/'' then Inl (-1)
          else if \<not> cf_within 90.01 latN then Inl (-2)
          else if \<not> cf_within 180.01 lonW then Inl (-2)
          else if \<not> cf_within 90.01 latS then Inl (-2)
          else if \<not> cf_within 180.01 lonE then Inl (-2)
          else if cf_less latN latS then Inl (-3)
          else if cf_less lonE lonW then Inl (-3)
          else Inr (f0\<lparr>f_latN := filter_lat2rad (cf_val latN), f_lonW := filter_lon2rad (cf_val lonW),
                       f_latS := filter_lat2rad (cf_val latS), f_lonE := filter_lon2rad (cf_val lonE)\<rparr>)
      | _ \<Rightarrow> Inl (-1))"

definition filter_parse_f :: "string \<Rightarrow> filter_t \<Rightarrow> int + filter_t" where
  "filter_parse_f filt f0 =
     (case scan_call_dist (tl filt) of
        None \<Rightarrow> Inl (-1)
      | Some (call, km, _) \<Rightarrow>
          if cf_less km (Fin 0.1) then Inl (-1)
          else Inr (f0\<lparr>f_refcallsign := call, f_dist := km, f_cached := False\<rparr>))"

definition filter_parse_m :: "string \<Rightarrow> filter_t \<Rightarrow> int + filter_t" where
  "filter_parse_m filt f0 =
     (case scan_slash_floats 1 (tl filt) of
        Some ([km], _) \<Rightarrow>
          if cf_less km (Fin 0.1) then Inl (-1) else Inr (f0\<lparr>f_dist := km, f_cached := False\<rparr>)
      | _ \<Rightarrow> Inl (-1))"

definition filter_parse_r :: "string \<Rightarrow> filter_t \<Rightarrow> int + filter_t" where
  "filter_parse_r filt f0 =
     (case scan_slash_floats 3 (tl filt) of
        Some ([lat, lon, km], _) \<Rightarrow>
          if cf_less km (Fin 0.1) then Inl (-1)
          else if \<not> cf_within 90.01 lat then Inl (-2)
          else if \<not> cf_within 180.01 lon then Inl (-2)
          else Inr (f0\<lparr>f_latN := filter_lat2rad (cf_val lat), f_lonE := filter_lon2rad (cf_val lon),
                       f_coslat := cos (filter_lat2rad (cf_val lat)), f_dist := km\<rparr>)
      | _ \<Rightarrow> Inl (-1))"

section \<open>q constructs and packet types\<close>

definition qc_flag :: "char \<Rightarrow> u16 option" where
  "qc_flag c =
     (if c = CHR ''C'' then Some QC_C else if c = CHR ''X'' then Some QC_X
      else if c = CHR ''U'' then Some QC_U else if c = CHR ''o'' then Some QC_o
      else if c = CHR ''O'' then Some QC_O else if c = CHR ''S'' then Some QC_S
      else if c = CHR ''r'' then Some QC_r else if c = CHR ''R'' then Some QC_R
      else if c = CHR ''Z'' then Some QC_Z else if c = CHR ''I'' then Some QC_I else None)"

definition type_flag :: "char \<Rightarrow> u16 option" where
  "type_flag c =
     (if c = CHR ''*'' then Some (NOT T_CWOP)
      else if c \<in> {CHR ''c'', CHR ''C''} then Some T_CWOP
      else if c \<in> {CHR ''i'', CHR ''I''} then Some T_ITEM
      else if c \<in> {CHR ''m'', CHR ''M''} then Some T_MESSAGE
      else if c \<in> {CHR ''n'', CHR ''N''} then Some T_NWS
      else if c \<in> {CHR ''o'', CHR ''O''} then Some T_OBJECT
      else if c \<in> {CHR ''p'', CHR ''P''} then Some T_POSITION
      else if c \<in> {CHR ''q'', CHR ''Q''} then Some T_QUERY
      else if c \<in> {CHR ''s'', CHR ''S''} then Some T_STATUS
      else if c \<in> {CHR ''t'', CHR ''T''} then Some T_TELEMETRY
      else if c \<in> {CHR ''u'', CHR ''U''} then Some T_USERDEF
      else if c \<in> {CHR ''w'', CHR ''W''} then Some T_WX else None)"

text \<open>The loop over the letters before the next slash.\<close>

fun flag_letters :: "(char \<Rightarrow> u16 option) \<Rightarrow> string \<Rightarrow> u16 \<Rightarrow> (u16 \<times> string) option" where
  "flag_letters flag [] bits = Some (bits, [])"
| "flag_letters flag (c # s) bits =
     (if c = CHR ''/'' then Some (bits, c # s)
      else case flag c of None \<Rightarrow> None | Some b \<Rightarrow> flag_letters flag s (bits OR b))"

definition filter_parse_q :: "string \<Rightarrow> filter_t \<Rightarrow> int + filter_t" where
  "filter_parse_q filt f0 =
     (let s = tl filt
      in if s = [] \<or> hd s \<noteq> CHR ''/'' then Inl (-1)
         else case flag_letters qc_flag (tl s) 0 of
                None \<Rightarrow> Inl (-1)
              | Some (bits, []) \<Rightarrow> Inr (f0\<lparr>f_type := CHR ''q'', f_bitflags := bits\<rparr>)
              | Some (bits, _ # r) \<Rightarrow>
                  let ana = (r \<noteq> [] \<and> hd r \<in> {CHR ''i'', CHR ''I''});
                      r' = (if ana then tl r else r)
                  in if r' \<noteq> [] then Inl (-1)
                     else Inr (f0\<lparr>f_type := CHR ''q'', f_bitflags := bits OR (if ana then QC_AnalyticsI else 0)\<rparr>))"

definition filter_parse_t :: "string \<Rightarrow> filter_t \<Rightarrow> int + filter_t" where
  "filter_parse_t filt f0 =
     (let s = tl filt
      in if s = [] \<or> hd s \<noteq> CHR ''/'' then Inl (-1)
         else case flag_letters type_flag (tl s) 0 of
                None \<Rightarrow> Inl (-1)
              | Some (bits, r) \<Rightarrow>
                  if length r \<le> 1 then Inr (f0\<lparr>f_type := CHR ''t'', f_bitflags := bits, f_cached := False\<rparr>)
                  else case scan_call_dist r of
                         None \<Rightarrow> Inl (-1)
                       | Some (call, km, r') \<Rightarrow>
                           if r' \<noteq> [] \<or> cf_less km (Fin 0.1) \<or> length call < CALLSIGNLEN_MIN then Inl (-1)
                           else Inr (f0\<lparr>f_type := CHR ''T'', f_bitflags := bits, f_cached := False,
                                        f_refcallsign := call, f_dist := km\<rparr>))"

section \<open>filter\_parse\<close>

text \<open>The switch over the type. \<^verbatim>\<open>strchr\<close> finds the terminating NUL too, so an empty text passes the
  test of the type and ends in the default branch.\<close>

definition filter_types :: string where
  "filter_types = ''abdefgmopqrstuABDEFGMOPQRSTU''"

definition filter_preparse :: "string \<Rightarrow> filter_t option \<Rightarrow> int + parsed" where
  "filter_preparse filt0 ff =
     (let filt = (if rd filt0 0 = CHR ''-'' then tl filt0 else filt0);
          t = rd filt 0;
          f0 = filter_zero t;
          new = map_sum id New
      in if t \<noteq> NUL \<and> t \<notin> set filter_types then Inl (-1)
         else if toupper t = CHR ''A'' then new (filter_parse_a filt f0)
         else if toupper t \<in> set ''BDEGOU'' then filter_parse_one_callsignset filt0 f0 ff MatchWild
         else if toupper t = CHR ''P'' then filter_parse_one_callsignset filt0 f0 ff MatchPrefix
         else if toupper t = CHR ''F'' then new (filter_parse_f filt f0)
         else if toupper t = CHR ''M'' then new (filter_parse_m filt f0)
         else if toupper t = CHR ''Q'' then new (filter_parse_q filt f0)
         else if toupper t = CHR ''R'' then new (filter_parse_r filt f0)
         else if toupper t = CHR ''S'' then new (filter_parse_one_s filt0 f0)
         else if toupper t = CHR ''T'' then new (filter_parse_t filt f0)
         else Inr (New f0))"

text \<open>The call with no client, for the verification of the configuration.\<close>

definition filter_verify :: "string \<Rightarrow> int" where
  "filter_verify filt0 = (case filter_preparse filt0 None of Inl e \<Rightarrow> e | Inr _ \<Rightarrow> 0)"

definition filter_store :: "string \<Rightarrow> filter_t \<Rightarrow> filter_t" where
  "filter_store filt0 f =
     (if length filt0 < FILT_TEXTBUFSIZE then f\<lparr>f_textbuf := filt0, f_exttext := None\<rparr>
      else f\<lparr>f_exttext := Some filt0\<rparr>)"

definition last_filter :: "filter_t list \<Rightarrow> filter_t option" where
  "last_filter fs = (if fs = [] then None else Some (last fs))"

text \<open>The four lists of a client, chosen by the kind of filter and its sign.\<close>

definition filter_list :: "bool \<Rightarrow> bool \<Rightarrow> client_t \<Rightarrow> filter_t list" where
  "filter_list user neg c =
     (if user then (if neg then c_neguserfilters c else c_posuserfilters c)
      else (if neg then c_negdefaultfilters c else c_posdefaultfilters c))"

definition set_filter_list :: "bool \<Rightarrow> bool \<Rightarrow> filter_t list \<Rightarrow> client_t \<Rightarrow> client_t" where
  "set_filter_list user neg fs c =
     (if user then (if neg then c\<lparr>c_neguserfilters := fs\<rparr> else c\<lparr>c_posuserfilters := fs\<rparr>)
      else (if neg then c\<lparr>c_negdefaultfilters := fs\<rparr> else c\<lparr>c_posdefaultfilters := fs\<rparr>))"

text \<open>The result, the client and \<^verbatim>\<open>filter_cellgauge\<close>.\<close>

definition filter_parse :: "bool \<Rightarrow> bool \<Rightarrow> string \<Rightarrow> client_t \<times> int \<Rightarrow> int \<times> client_t \<times> int" where
  "filter_parse alloc_ok is_user_filter filt0 cg =
     (let (c, gauge) = cg;
          neg = (rd filt0 0 = CHR ''-'');
          fs = filter_list is_user_filter neg c
      in if is_user_filter \<and> \<not> has_flag (c_flags c) CLFLAGS_USERFILTEROK then (-1, c, gauge)
         else case filter_preparse filt0 (last_filter fs) of
                Inl e \<Rightarrow> (e, c, gauge)
              | Inr (Extend f) \<Rightarrow> (0, set_filter_list is_user_filter neg (butlast fs @ [f]) c, gauge)
              | Inr (New f0) \<Rightarrow>
                  if \<not> alloc_ok then (-1, c, gauge)
                  else (0, set_filter_list is_user_filter neg (fs @ [filter_store filt0 f0]) c, gauge + 1))"

definition filter_free :: "filter_t list \<Rightarrow> int \<Rightarrow> int" where
  "filter_free fs gauge = gauge - int (length fs)"

section \<open>Well-formed filters\<close>

definition refcall_wf :: "filter_refcallsign_t \<Rightarrow> bool" where
  "refcall_wf r \<longleftrightarrow> length (rc_callsign r) \<le> CALLSIGNLEN_MAX \<and> NUL \<notin> set (rc_callsign r) \<and>
     unat (rc_reflen r AND LengthMask) = length (rc_callsign r) \<and> \<not> has_flag (rc_reflen r) NegationFlag"

text \<open>What the processing relies on: a known type (or the empty one), callsigns whose recorded length is
  their length, the parts of a symbol filter inside its text, a box that is one, and a distance of at
  least a tenth of a kilometre. No filter is marked as negated: the sign only chooses its list.\<close>

definition type_ok :: "char \<Rightarrow> bool" where
  "type_ok t \<longleftrightarrow> t = NUL \<or> t \<in> set filter_types"

definition symbols_wf :: "filter_t \<Rightarrow> bool" where
  "symbols_wf f \<longleftrightarrow>
     f_len1s f + f_len1 f \<le> length (f_text f) \<and> f_len2s f + f_len2 f \<le> length (f_text f) \<and>
     f_len3s f + f_len3 f \<le> length (f_text f) \<and> (f_len3 f \<noteq> 0 \<longrightarrow> f_len2 f \<noteq> 0)"

definition box_wf :: "filter_t \<Rightarrow> bool" where
  "box_wf f \<longleftrightarrow> f_latS f \<le> f_latN f \<and> f_lonW f \<le> f_lonE f"

definition has_dist :: "char \<Rightarrow> bool" where
  "has_dist t \<longleftrightarrow> t \<in> set ''fFmMrRT''"

definition filter_wf :: "filter_t \<Rightarrow> bool" where
  "filter_wf f \<longleftrightarrow>
     type_ok (f_type f) \<and> \<not> f_negation f \<and> (\<forall>r \<in> set (f_refcallsigns f). refcall_wf r) \<and>
     (toupper (f_type f) = CHR ''S'' \<longrightarrow> symbols_wf f) \<and>
     (toupper (f_type f) = CHR ''A'' \<longrightarrow> box_wf f) \<and>
     (has_dist (f_type f) \<longrightarrow> \<not> cf_less (f_dist f) (Fin 0.1))"

definition filters_wf :: "client_t \<Rightarrow> bool" where
  "filters_wf c \<longleftrightarrow> (\<forall>user neg. \<forall>f \<in> set (filter_list user neg c). filter_wf f)"

lemma reflen_bits:
  fixes n :: nat
  assumes "n \<le> 9"
  shows "unat ((of_nat n OR (if w then WildCard else 0) OR 0) AND LengthMask) = n"
    and "\<not> has_flag (of_nat n OR (if w then WildCard else 0) OR 0) NegationFlag"
    and "has_flag (of_nat n OR (if w then WildCard else 0) OR 0) WildCard \<longleftrightarrow> w"
proof -
  have "n \<in> {0, 1, 2, 3, 4, 5, 6, 7, 8, 9}" using assms by auto
  then show "unat ((of_nat n OR (if w then WildCard else 0) OR 0) AND LengthMask) = n"
    and "\<not> has_flag (of_nat n OR (if w then WildCard else 0) OR 0) NegationFlag"
    and "has_flag (of_nat n OR (if w then WildCard else 0) OR 0) WildCard \<longleftrightarrow> w"
    by (auto simp: WildCard_def LengthMask_def NegationFlag_def has_flag_def)
qed

lemma parse_refcallsign_wf:
  assumes "NUL \<notin> set field"
  shows "refcall_wf (parse_refcallsign False field)"
    and "has_flag (rc_reflen (parse_refcallsign False field)) WildCard \<longleftrightarrow> CHR ''*'' \<in> set field"
proof -
  let ?n = "take CALLSIGNLEN_MAX (filter (\<lambda>c. c \<noteq> CHR ''*'') field)"
  have "length ?n \<le> 9" by (simp add: len_defs)
  moreover have "NUL \<notin> set ?n" using assms by (auto dest: in_set_takeD)
  ultimately show "refcall_wf (parse_refcallsign False field)"
    and "has_flag (rc_reflen (parse_refcallsign False field)) WildCard \<longleftrightarrow> CHR ''*'' \<in> set field"
    using reflen_bits [of "length ?n" "CHR ''*'' \<in> set field"]
    by (auto simp: refcall_wf_def parse_refcallsign_def Let_def len_defs split: if_splits)
qed

lemma set_slash_fields: "f \<in> set (slash_fields s) \<Longrightarrow> set f \<subseteq> set s"
proof (induction s rule: slash_fields.induct)
  case (2 c s)
  have "set (drop 1 (dropWhile (\<lambda>x. x \<noteq> CHR ''/'') (c # s))) \<subseteq> set (c # s)"
    by (meson in_set_dropD set_dropWhileD subsetI)
  with 2 show ?case
    by (auto dest: set_takeWhileD simp del: takeWhile.simps dropWhile.simps)
qed simp

lemma set_after_slash: "set (after_slash s) \<subseteq> set s"
  by (auto simp: after_slash_def Let_def dest!: in_set_dropD set_dropWhileD list.set_sel(2) [rotated] split: if_splits)

lemma f_text_refs [simp]: "f_text (f\<lparr>f_refcallsigns := x\<rparr>) = f_text f"
  by (simp add: f_text_def split: option.split)

lemma f_text_store [simp]: "f_exttext f = None \<Longrightarrow> f_text (filter_store t f) = t"
  by (simp add: f_text_def filter_store_def)

lemma wf_refs:
  "filter_wf f \<Longrightarrow> \<forall>r \<in> set rs. refcall_wf r \<Longrightarrow> filter_wf (f\<lparr>f_refcallsigns := f_refcallsigns f @ rs\<rparr>)"
  by (auto simp: filter_wf_def symbols_wf_def box_wf_def)

lemma wf_extend_text: "filter_wf f \<Longrightarrow> toupper (f_type f) \<noteq> CHR ''S'' \<Longrightarrow> filter_wf (extend_text t f)"
  by (simp add: filter_wf_def extend_text_def box_wf_def)

lemma wf_filter_store: "filter_wf f \<Longrightarrow> toupper (f_type f) \<noteq> CHR ''S'' \<Longrightarrow> filter_wf (filter_store t f)"
  by (simp add: filter_wf_def filter_store_def box_wf_def)

definition parsed_wf :: "string \<Rightarrow> parsed \<Rightarrow> bool" where
  "parsed_wf filt0 p = (case p of Extend f \<Rightarrow> filter_wf f | New f \<Rightarrow> filter_wf (filter_store filt0 f))"

lemma callsignset_wf:
  assumes "NUL \<notin> set filt0" and "filter_parse_one_callsignset filt0 f0 ff wildok = Inr p"
    and "filter_wf f0" and "f_refcallsigns f0 = []" and "\<And>f. ff = Some f \<Longrightarrow> filter_wf f"
    and "toupper (f_type f0) \<noteq> CHR ''S''"
  shows "parsed_wf filt0 p"
proof -
  let ?refs = "map (parse_refcallsign (f_negation f0)) (slash_fields (after_slash filt0))"
  have neg: "f_negation f0 = False" using assms(3) by (simp add: filter_wf_def)
  have "NUL \<notin> set field" if "field \<in> set (slash_fields (after_slash filt0))" for field
    using set_slash_fields [OF that] set_after_slash [of filt0] assms(1) by blast
  then have refs: "\<forall>r \<in> set ?refs. refcall_wf r" unfolding neg using parse_refcallsign_wf(1) by auto
  consider (new) "p = New (f0\<lparr>f_refcallsigns := f_refcallsigns f0 @ ?refs\<rparr>)"
    | (ext) f where "ff = Some f" "f_type f = f_type f0" "p = Extend (extend_text filt0 (f\<lparr>f_refcallsigns := f_refcallsigns f @ ?refs\<rparr>))"
    using assms(2,4) by (auto simp: filter_parse_one_callsignset_def Let_def split: if_splits option.splits)
  then show ?thesis
  proof cases
    case new
    then show ?thesis using wf_filter_store [OF wf_refs [OF assms(3) refs]] assms(6) by (simp add: parsed_wf_def)
  next
    case ext
    then show ?thesis
      using wf_extend_text [OF wf_refs [OF assms(5) [OF ext(1)] refs]] assms(6) by (simp add: parsed_wf_def)
  qed
qed

lemma filter_zero_wf: "type_ok t \<Longrightarrow> \<not> has_dist t \<Longrightarrow> filter_wf (filter_zero t)"
  by (simp add: filter_wf_def filter_zero_def symbols_wf_def box_wf_def)

text \<open>The parsers of the other types only fill in fields of their own.\<close>

lemma filter_zero_sel [simp]:
  "f_type (filter_zero t) = t" "f_negation (filter_zero t) = False" "f_refcallsigns (filter_zero t) = []"
  "f_exttext (filter_zero t) = None" "f_len2 (filter_zero t) = 0" "f_len2s (filter_zero t) = 0"
  "f_len3 (filter_zero t) = 0" "f_len3s (filter_zero t) = 0"
  by (simp_all add: filter_zero_def)

lemma store_sel [simp]:
  "f_type (filter_store x f) = f_type f" "f_negation (filter_store x f) = f_negation f"
  "f_refcallsigns (filter_store x f) = f_refcallsigns f" "f_dist (filter_store x f) = f_dist f"
  "box_wf (filter_store x f) = box_wf f"
  "f_len1s (filter_store x f) = f_len1s f" "f_len1 (filter_store x f) = f_len1 f"
  "f_len2s (filter_store x f) = f_len2s f" "f_len2 (filter_store x f) = f_len2 f"
  "f_len3s (filter_store x f) = f_len3s f" "f_len3 (filter_store x f) = f_len3 f"
  by (simp_all add: filter_store_def box_wf_def)

lemma cf_within_Fin: "cf_within m v \<Longrightarrow> \<exists>x. v = Fin x"
  by (cases v) (auto simp: cf_within_def)

lemma parse_a_box:
  assumes "filter_parse_a filt (filter_zero t) = Inr f"
  shows "box_wf f" and "f_type f = t" and "\<not> f_negation f" and "f_refcallsigns f = []"
proof -
  obtain latN lonW latS lonE r where s: "scan_slash_floats 4 (tl filt) = Some ([latN, lonW, latS, lonE], r)"
    using assms by (auto simp: filter_parse_a_def split: option.splits list.splits prod.splits)
  have in4: "cf_within 90.01 latN" "cf_within 180.01 lonW" "cf_within 90.01 latS" "cf_within 180.01 lonE"
    and ord: "\<not> cf_less latN latS" "\<not> cf_less lonE lonW"
    and f: "f = (filter_zero t)\<lparr>f_latN := filter_lat2rad (cf_val latN), f_lonW := filter_lon2rad (cf_val lonW),
             f_latS := filter_lat2rad (cf_val latS), f_lonE := filter_lon2rad (cf_val lonE)\<rparr>"
    using assms s by (auto simp: filter_parse_a_def split: if_splits)
  obtain a b c d where "latN = Fin a" "lonW = Fin b" "latS = Fin c" "lonE = Fin d"
    using in4 by (metis cf_within_Fin)
  then show "box_wf f" and "f_type f = t" and "\<not> f_negation f" and "f_refcallsigns f = []"
    using ord f by (auto simp: box_wf_def filter_lat2rad_def filter_lon2rad_def intro!: mult_right_mono)
qed

lemma parse_dist_wf:
  shows "filter_parse_f filt (filter_zero t) = Inr f \<Longrightarrow> \<not> cf_less (f_dist f) (Fin 0.1) \<and> f_type f = t \<and> \<not> f_negation f \<and> f_refcallsigns f = []"
    and "filter_parse_m filt (filter_zero t) = Inr f \<Longrightarrow> \<not> cf_less (f_dist f) (Fin 0.1) \<and> f_type f = t \<and> \<not> f_negation f \<and> f_refcallsigns f = []"
    and "filter_parse_r filt (filter_zero t) = Inr f \<Longrightarrow> \<not> cf_less (f_dist f) (Fin 0.1) \<and> f_type f = t \<and> \<not> f_negation f \<and> f_refcallsigns f = []"
  by (auto simp: filter_parse_f_def filter_parse_m_def filter_parse_r_def
      split: option.splits list.splits prod.splits if_splits)

lemma parse_q_wf:
  "filter_parse_q filt (filter_zero t) = Inr f \<Longrightarrow> f_type f = CHR ''q'' \<and> \<not> f_negation f \<and> f_refcallsigns f = []"
  by (auto simp: filter_parse_q_def Let_def split: option.splits list.splits prod.splits if_splits)

lemma parse_t_wf:
  "filter_parse_t filt (filter_zero t) = Inr f \<Longrightarrow>
     (f_type f = CHR ''t'' \<or> f_type f = CHR ''T'' \<and> \<not> cf_less (f_dist f) (Fin 0.1)) \<and> \<not> f_negation f \<and> f_refcallsigns f = []"
  by (auto simp: filter_parse_t_def Let_def split: option.splits prod.splits if_splits)

lemma parse_s_wf:
  assumes "filter_parse_one_s filt0 (filter_zero t) = Inr f"
  shows "symbols_wf (filter_store filt0 f)" and "f_type f = t" and "\<not> f_negation f" and "f_refcallsigns f = []"
proof -
  let ?n = "length filt0" and ?s = "s_filter_start filt0"
  have sl: "rd filt0 ?s = CHR ''/''" using assms by (auto simp: filter_parse_one_s_def Let_def split: if_splits)
  then have s1: "?s < ?n" by (auto simp: rd_def split: if_splits)
  define e1 where "e1 = scan (\<lambda>c. c \<noteq> CHR ''/'') filt0 (Suc ?s) ?n"
  define e2 where "e2 = scan (\<lambda>c. c \<noteq> CHR ''/'') filt0 (Suc e1) ?n"
  have e1: "Suc ?s \<le> e1" "e1 \<le> ?n" unfolding e1_def using s1 scan_le [of "Suc ?s" ?n] by simp_all
  have e2: "Suc e1 \<le> e2" "e1 \<noteq> ?n \<Longrightarrow> e2 \<le> ?n"
    unfolding e2_def using e1(2) scan_le [of "Suc e1" ?n] by simp_all
  show "symbols_wf (filter_store filt0 f)" and "f_type f = t" and "\<not> f_negation f" and "f_refcallsigns f = []"
    using assms sl e1 e2
    unfolding filter_parse_one_s_def Let_def Suc_eq_plus1 [symmetric] e1_def [symmetric] e2_def [symmetric]
    by (auto simp: symbols_wf_def split: if_splits)
qed

lemma dist_types: "has_dist t \<Longrightarrow> toupper t \<in> set ''FMRT''"
  unfolding has_dist_def by (simp only: list.set insert_iff empty_iff, elim disjE) (simp_all add: cstr_simps)

lemma filter_store_wfI:
  assumes "type_ok (f_type f)" and "\<not> f_negation f" and "f_refcallsigns f = []"
    and "toupper (f_type f) = CHR ''S'' \<Longrightarrow> symbols_wf (filter_store filt0 f)"
    and "toupper (f_type f) = CHR ''A'' \<Longrightarrow> box_wf f"
    and "has_dist (f_type f) \<Longrightarrow> \<not> cf_less (f_dist f) (Fin 0.1)"
  shows "filter_wf (filter_store filt0 f)"
  using assms by (simp add: filter_wf_def)

lemma type_ok_qt: "type_ok (CHR ''q'')" "type_ok (CHR ''t'')" "type_ok (CHR ''T'')"
  "toupper (CHR ''q'') = CHR ''Q''" "toupper (CHR ''t'') = CHR ''T''" "toupper (CHR ''T'') = CHR ''T''"
  "\<not> has_dist (CHR ''q'')" "\<not> has_dist (CHR ''t'')"
  by (simp_all add: type_ok_def filter_types_def has_dist_def cstr_simps)

lemma filter_preparse_wf:
  assumes nul: "NUL \<notin> set filt0" and ff: "\<And>f. ff = Some f \<Longrightarrow> filter_wf f"
    and p: "filter_preparse filt0 ff = Inr p"
  shows "parsed_wf filt0 p"
proof -
  define filt where "filt = (if rd filt0 0 = CHR ''-'' then tl filt0 else filt0)"
  define t where "t = rd filt 0"
  have ok: "type_ok t" and p': "\<not> (t \<noteq> NUL \<and> t \<notin> set filter_types)"
    using p by (auto simp: filter_preparse_def filt_def t_def type_ok_def Let_def split: if_splits)
  note wfI = filter_store_wfI [of _ filt0]
  note E = p [unfolded filter_preparse_def Let_def, folded filt_def, folded t_def, unfolded if_not_P [OF p']]
  have new: "\<exists>f. x = Inr f \<and> p = New f" if "map_sum id New x = Inr p" for x :: "int + filter_t"
    using that by (cases x) auto
  consider (A) "toupper t = CHR ''A''" | (set) "toupper t \<in> set ''BDEGOU''" | (P) "toupper t = CHR ''P''"
    | (F) "toupper t = CHR ''F''" | (M) "toupper t = CHR ''M''" | (Q) "toupper t = CHR ''Q''"
    | (R) "toupper t = CHR ''R''" | (S) "toupper t = CHR ''S''" | (T) "toupper t = CHR ''T''"
    | (none) "toupper t \<notin> set ''ABDEGOUPFMQRST''" by auto
  then show ?thesis
  proof cases
    case set
    then have nd: "\<not> has_dist t" "toupper t \<noteq> CHR ''S''" using dist_types [of t] by auto
    have "filter_parse_one_callsignset filt0 (filter_zero t) ff MatchWild = Inr p" using E set by (auto split: if_splits)
    then show ?thesis by (rule callsignset_wf [OF nul _ filter_zero_wf [OF ok nd(1)] _ ff]) (use nd in auto)
  next
    case P
    then have nd: "\<not> has_dist t" "toupper t \<noteq> CHR ''S''" using dist_types [of t] by auto
    have "filter_parse_one_callsignset filt0 (filter_zero t) ff MatchPrefix = Inr p" using E P by simp
    then show ?thesis by (rule callsignset_wf [OF nul _ filter_zero_wf [OF ok nd(1)] _ ff]) (use nd in auto)
  next
    case A
    then obtain f where "filter_parse_a filt (filter_zero t) = Inr f" "p = New f" using E new by fastforce
    then show ?thesis using A ok parse_a_box dist_types [of t] by (auto simp: parsed_wf_def intro!: wfI)
  next
    case F
    then obtain f where "filter_parse_f filt (filter_zero t) = Inr f" "p = New f" using E new by fastforce
    then show ?thesis using F ok parse_dist_wf(1) [of filt t f] by (auto simp: parsed_wf_def intro!: wfI)
  next
    case M
    then obtain f where "filter_parse_m filt (filter_zero t) = Inr f" "p = New f" using E new by fastforce
    then show ?thesis using M ok parse_dist_wf(2) [of filt t f] by (auto simp: parsed_wf_def intro!: wfI)
  next
    case R
    then obtain f where "filter_parse_r filt (filter_zero t) = Inr f" "p = New f" using E new by fastforce
    then show ?thesis using R ok parse_dist_wf(3) [of filt t f] by (auto simp: parsed_wf_def intro!: wfI)
  next
    case Q
    then obtain f where "filter_parse_q filt (filter_zero t) = Inr f" "p = New f" using E new by fastforce
    then show ?thesis using parse_q_wf [of filt t f] type_ok_qt by (auto simp: parsed_wf_def intro!: wfI)
  next
    case T
    then obtain f where "filter_parse_t filt (filter_zero t) = Inr f" "p = New f" using E new by fastforce
    then show ?thesis using parse_t_wf [of filt t f] type_ok_qt by (auto simp: parsed_wf_def intro!: wfI)
  next
    case S
    then obtain f where "filter_parse_one_s filt0 (filter_zero t) = Inr f" "p = New f" using E new by fastforce
    then show ?thesis
      using S ok parse_s_wf [of filt0 t f] dist_types [of t] by (auto simp: parsed_wf_def intro!: wfI)
  next
    case none
    then have "p = New (filter_zero t)" using E by auto
    then show ?thesis using none ok dist_types [of t] by (auto simp: parsed_wf_def intro!: wfI)
  qed
qed

section \<open>Properties\<close>

definition num_filters :: "client_t \<Rightarrow> int" where
  "num_filters c = int (length (c_posdefaultfilters c) + length (c_negdefaultfilters c) +
     length (c_posuserfilters c) + length (c_neguserfilters c))"

lemma filter_list_set:
  "filter_list u n (set_filter_list user neg fs c) = (if u = user \<and> n = neg then fs else filter_list u n c)"
  by (auto simp: filter_list_def set_filter_list_def)

lemma num_filters_set:
  "num_filters (set_filter_list user neg fs c) = num_filters c - int (length (filter_list user neg c)) + int (length fs)"
  by (auto simp: num_filters_def filter_list_def set_filter_list_def)

lemma last_filter_wf: "filters_wf c \<Longrightarrow> last_filter (filter_list user neg c) = Some f \<Longrightarrow> filter_wf f"
  by (auto simp: filters_wf_def last_filter_def intro: last_in_set split: if_splits)

lemma filters_wf_set:
  "filters_wf c \<Longrightarrow> \<forall>f \<in> set fs. filter_wf f \<Longrightarrow> filters_wf (set_filter_list user neg fs c)"
  by (simp add: filters_wf_def filter_list_set)

lemma preparse_extends:
  "filter_preparse filt0 ff = Inr (Extend f) \<Longrightarrow> ff \<noteq> None"
  by (auto simp: filter_preparse_def filter_parse_one_callsignset_def Let_def map_sum_def
      split: if_splits option.splits sum.splits)

text \<open>Every error code is negative.\<close>

lemma parse_errors:
  "filter_parse_a x f0 = Inl e \<Longrightarrow> e < 0" "filter_parse_f x f0 = Inl e \<Longrightarrow> e < 0"
  "filter_parse_m x f0 = Inl e \<Longrightarrow> e < 0" "filter_parse_r x f0 = Inl e \<Longrightarrow> e < 0"
  "filter_parse_q x f0 = Inl e \<Longrightarrow> e < 0" "filter_parse_t x f0 = Inl e \<Longrightarrow> e < 0"
  "filter_parse_one_s x f0 = Inl e \<Longrightarrow> e < 0" "filter_parse_one_callsignset x f0 ff wildok = Inl e \<Longrightarrow> e < 0"
  unfolding filter_parse_a_def filter_parse_f_def filter_parse_m_def filter_parse_r_def filter_parse_q_def
    filter_parse_t_def filter_parse_one_s_def filter_parse_one_callsignset_def Let_def
  by (auto split: if_splits option.splits list.splits prod.splits)

lemma map_sum_Inl: "map_sum id g x = Inl e \<longleftrightarrow> x = Inl e"
  by (cases x) auto

lemma preparse_error: "filter_preparse filt0 ff = Inl e \<Longrightarrow> e < 0"
  unfolding filter_preparse_def Let_def
  by (auto simp: map_sum_Inl split: if_splits dest: parse_errors)

lemma filter_parse_laws:
  assumes wf: "filters_wf c" and nul: "NUL \<notin> set filt0"
    and parse: "filter_parse alloc_ok user filt0 (c, g) = (rc, c', g')"
  shows "filters_wf c' \<and> (rc \<noteq> 0 \<longrightarrow> c' = c \<and> g' = g) \<and> g' - g = num_filters c' - num_filters c \<and>
    (\<forall>u n. u \<noteq> user \<or> n \<noteq> (rd filt0 0 = CHR ''-'') \<longrightarrow> filter_list u n c' = filter_list u n c)"
proof -
  let ?neg = "rd filt0 0 = CHR ''-''"
  let ?fs = "filter_list user ?neg c"
  have wfs: "\<forall>f \<in> set ?fs. filter_wf f" using wf by (simp add: filters_wf_def)
  consider (same) "rc \<noteq> 0" "c' = c" "g' = g"
    | (ext) f where "filter_preparse filt0 (last_filter ?fs) = Inr (Extend f)" "rc = 0" "g' = g"
        "c' = set_filter_list user ?neg (butlast ?fs @ [f]) c"
    | (new) f where "filter_preparse filt0 (last_filter ?fs) = Inr (New f)" "rc = 0" "g' = g + 1"
        "c' = set_filter_list user ?neg (?fs @ [filter_store filt0 f]) c"
  proof (cases "filter_preparse filt0 (last_filter ?fs)")
    case (Inl e)
    with preparse_error [OF Inl] show ?thesis
      using parse by (intro that(1)) (auto simp: filter_parse_def Let_def split: if_splits)
  next
    case (Inr p)
    show ?thesis
    proof (cases p)
      case (Extend f)
      with Inr show ?thesis
        using parse that(1) that(2) [of f] by (simp add: filter_parse_def Let_def split: if_splits)
    next
      case (New f)
      with Inr show ?thesis
        using parse that(1) that(3) [of f] by (simp add: filter_parse_def Let_def split: if_splits)
    qed
  qed
  then show ?thesis
  proof cases
    case ext
    have "filter_wf f" using filter_preparse_wf [OF nul last_filter_wf [OF wf] ext(1)] by (simp add: parsed_wf_def)
    then have "\<forall>x \<in> set (butlast ?fs @ [f]). filter_wf x" using wfs by (auto dest: in_set_butlastD)
    note wf' = filters_wf_set [OF wf this, of user ?neg]
    have "?fs \<noteq> []" using preparse_extends [OF ext(1)] by (auto simp: last_filter_def)
    then show ?thesis using wf' ext by (auto simp: filter_list_set num_filters_set)
  next
    case new
    have "filter_wf (filter_store filt0 f)"
      using filter_preparse_wf [OF nul last_filter_wf [OF wf] new(1)] by (simp add: parsed_wf_def)
    then have "\<forall>x \<in> set (?fs @ [filter_store filt0 f]). filter_wf x" using wfs by auto
    note wf' = filters_wf_set [OF wf this, of user ?neg]
    then show ?thesis using new by (auto simp: filter_list_set num_filters_set)
  qed (use wf in auto)
qed

text \<open>C8. Parsing a filter keeps every filter of the client well formed, changes only the list chosen by the
  kind and the sign of the text, counts the filters right, and an error leaves the client as it was.\<close>

theorem filter_parse_keeps:
  assumes "filters_wf c" and "NUL \<notin> set filt0"
    and "filter_parse alloc_ok user filt0 (c, g) = (rc, c', g')"
  shows "filters_wf c' \<and> (rc \<noteq> 0 \<longrightarrow> c' = c \<and> g' = g) \<and> g' - g = num_filters c' - num_filters c \<and>
    (\<forall>u n. u \<noteq> user \<or> n \<noteq> (rd filt0 0 = CHR ''-'') \<longrightarrow> filter_list u n c' = filter_list u n c)"
  by (rule filter_parse_laws [OF assms])

definition demo_filter_client :: client_t where
  "demo_filter_client = demo_client\<lparr>c_flags := CLFLAGS_USERFILTEROK\<rparr>"

lemma demo_filters_wf: "filters_wf demo_filter_client"
  by (simp add: filters_wf_def filter_list_def demo_filter_client_def demo_client_def)

lemma demo_user_flag: "has_flag (c_flags demo_filter_client) CLFLAGS_USERFILTEROK"
  by (simp add: demo_filter_client_def demo_client_def clflag_defs has_flag_def)

lemma demo_filter_parse:
  "fst (filter_parse True True ''-b/OH2*/LZ1A'' (demo_filter_client, 0)) = 0"
  "fst (filter_parse True True ''b'' (demo_filter_client, 0)) = -1"
  by (simp_all add: filter_parse_def demo_user_flag filter_preparse_def filter_types_def
      filter_parse_one_callsignset_def after_slash_def last_filter_def filter_list_def demo_filter_client_def
      demo_client_def clflag_defs has_flag_def cstr_simps)

theorem filter_parse_keeps_witness:
  "fst (filter_parse True True ''-b/OH2*/LZ1A'' (demo_filter_client, 0)) = 0 \<and>
   fst (filter_parse True True ''b'' (demo_filter_client, 0)) = -1 \<and>
   filters_wf (fst (snd (filter_parse True True ''-b/OH2*/LZ1A'' (demo_filter_client, 0)))) \<and>
   fst (snd (filter_parse True True ''b'' (demo_filter_client, 0))) = demo_filter_client"
proof -
  have keeps: "filters_wf (fst (snd r)) \<and> (fst r \<noteq> 0 \<longrightarrow> fst (snd r) = demo_filter_client)"
    if "filter_parse True True t (demo_filter_client, 0) = r" "NUL \<notin> set t" for t r
    using filter_parse_keeps [OF demo_filters_wf that(2), of True True 0 "fst r" "fst (snd r)" "snd (snd r)"] that(1)
    by simp
  show ?thesis
    using demo_filter_parse keeps [of "''-b/OH2*/LZ1A''", OF refl] keeps [of "''b''", OF refl] by simp
qed

end
