(* ===== verification/Filter_Process.thy ===== *)
theory Filter_Process
  imports Filter_Parse Client_Heard
begin

text \<open>
  \<^verbatim>\<open>src/src/filter.c\<close>, from packets to verdicts: one definition per filter type, \<^verbatim>\<open>filter_process_one\<close> and
  \<^verbatim>\<open>filter_process\<close>. A filter that caches the position of a callsign is returned updated.
\<close>

text \<open>What the processing reads besides the client, the packet and the filter: the clock, the position
  database with its validity time, the two tables of callsigns, the cell \<^verbatim>\<open>cellmalloc\<close> would hand out
  for a courtesy entry, and the result of writing a text to the client.\<close>

record filter_env =
  fv_tick :: ctime
  fv_storetime :: int
  fv_history :: "history_cell_t table"
  fv_calls :: filter_state
  fv_cell :: "string option"
  fv_write :: "string \<Rightarrow> int"

definition HIST_LOOKUP_INTERVAL :: int where "HIST_LOOKUP_INTERVAL = 10"

section \<open>Callsign sets\<close>

text \<open>\<^verbatim>\<open>struct filter_refcallsign_t ref\<close> filled with a key: its ten bytes.\<close>

definition ref_buf :: "string \<Rightarrow> string" where
  "ref_buf key = key @ replicate (CALLSIGNLEN_MAX + 1 - length key) NUL"

definition ref_hit :: "string \<Rightarrow> MatchEnum \<Rightarrow> filter_refcallsign_t \<Rightarrow> bool" where
  "ref_hit key wildok r =
     (let len = unat (rc_reflen r AND LengthMask);
          keylen = length key;
          same = strncaseeq len (ref_buf key) (rc_callsign r @ [NUL])
      in case wildok of
           MatchExact \<Rightarrow> len = keylen \<and> same
         | MatchPrefix \<Rightarrow> \<not> (keylen < len \<or> len = 0) \<and> same
         | MatchWild \<Rightarrow> \<not> (keylen < len \<or> len = 0) \<and> same \<and> (has_flag (rc_reflen r) WildCard \<or> len = keylen))"

definition filter_match_on_callsignset :: "string \<Rightarrow> filter_t \<Rightarrow> MatchEnum \<Rightarrow> int" where
  "filter_match_on_callsignset key f wildok =
     (case find (ref_hit key wildok) (f_refcallsigns f) of
        None \<Rightarrow> 0
      | Some r \<Rightarrow> if has_flag (rc_reflen r) NegationFlag then 2 else 1)"

section \<open>Distance\<close>

definition atan2 :: "real \<Rightarrow> real \<Rightarrow> real" where
  "atan2 y x =
     (if 0 < x then arctan (y / x)
      else if x < 0 then (if 0 \<le> y then arctan (y / x) + pi else arctan (y / x) - pi)
      else if 0 < y then pi / 2 else if y < 0 then - (pi / 2) else 0)"

definition maidenhead_km_distance :: "real \<Rightarrow> real \<Rightarrow> real \<Rightarrow> real \<Rightarrow> real \<Rightarrow> real \<Rightarrow> real" where
  "maidenhead_km_distance lat1 coslat1 lon1 lat2 coslat2 lon2 =
     (let sindlat2 = sin ((lat1 - lat2) * 0.5);
          sindlon2 = sin ((lon1 - lon2) * 0.5);
          a = sindlat2 * sindlat2 + coslat1 * coslat2 * sindlon2 * sindlon2;
          c = 2 * atan2 (sqrt a) (sqrt (1 - a))
      in (111.2 * 180 / pi) * c)"

section \<open>One definition per type\<close>

definition verdict :: "filter_t \<Rightarrow> int" where
  "verdict f = (if f_negation f then 2 else 1)"

definition filter_process_one_a :: "pbuf_t \<Rightarrow> filter_t \<Rightarrow> int" where
  "filter_process_one_a pb f =
     (if \<not> has_flag (pb_flags pb) F_HASPOS then 0
      else if pb_lat pb \<le> f_latN f \<and> pb_lat pb \<ge> f_latS f \<and> pb_lng pb \<le> f_lonE f \<and> pb_lng pb \<ge> f_lonW f
      then verdict f else 0)"

text \<open>The source callsign, then for third-party packets the inner one. The pointer comparison
  \<^verbatim>\<open>srcname != data\<close> is a comparison of the names here: equal names give the same answer twice.\<close>

definition match_source :: "MatchEnum \<Rightarrow> pbuf_t \<Rightarrow> filter_t \<Rightarrow> int" where
  "match_source wildok pb f =
     (let src = take (pb_srccall_end pb) (pb_data pb);
          r = filter_match_on_callsignset (take CALLSIGNLEN_MAX src) f wildok
      in if r = 0 \<and> pb_srcname pb \<noteq> src \<and> \<not> has_flag (pb_packettype pb) (T_OBJECT OR T_ITEM)
         then filter_match_on_callsignset (take CALLSIGNLEN_MAX (pb_srcname pb)) f wildok
         else r)"

definition filter_process_one_b :: "pbuf_t \<Rightarrow> filter_t \<Rightarrow> int" where
  "filter_process_one_b pb f = match_source MatchWild pb f"

text \<open>The end of a path element: the next comma, at most ten bytes on and not beyond \<open>q\<close>.\<close>

definition elem_len :: "string \<Rightarrow> nat \<Rightarrow> nat \<Rightarrow> nat" where
  "elem_len s q d = scan (\<lambda>c. c \<noteq> CHR '','') s d (min (q + 1) (d + CALLSIGNLEN_MAX + 1)) - d"

definition skip_comma :: "string \<Rightarrow> nat \<Rightarrow> nat" where
  "skip_comma s d = (if rd s d = CHR '','' then d + 1 else d)"

text \<open>The search for a digipeater of the set: the place and length of its element, its length without
  an asterisk, and the number of elements still to be looked at.\<close>

primrec digi_find :: "nat \<Rightarrow> string \<Rightarrow> nat \<Rightarrow> filter_t \<Rightarrow> nat \<Rightarrow> (nat \<times> nat \<times> nat \<times> nat) option" where
  "digi_find 0 s q f d = None"
| "digi_find (Suc left) s q f d =
     (if d < q then
        let d1 = skip_comma s d;
            i = elem_len s q d1;
            cl = min CALLSIGNLEN_MAX (if rd s (d1 + i - 1) = CHR ''*'' then i - 1 else i)
        in if filter_match_on_callsignset (sub s d1 (d1 + cl)) f MatchWild = 1 then Some (d1, i, cl, left)
           else digi_find left s q f (d1 + i)
      else None)"

text \<open>The search for an asterisk from a place on.\<close>

primrec digi_used :: "nat \<Rightarrow> string \<Rightarrow> nat \<Rightarrow> nat \<Rightarrow> bool" where
  "digi_used 0 s q d = False"
| "digi_used (Suc left) s q d =
     (if d < q then
        let d1 = skip_comma s d; i = elem_len s q d1
        in rd s (d1 + i - 1) = CHR ''*'' \<or> digi_used left s q (d1 + i)
      else False)"

definition filter_process_one_d :: "pbuf_t \<Rightarrow> filter_t \<Rightarrow> int" where
  "filter_process_one_d pb f =
     (let d = pb_srccall_end pb + 1 + pb_dstcall_len pb + 1;
          q = pb_qconst_start pb - 1;
          s = pb_data pb
      in case digi_find 10 s q f d of
           None \<Rightarrow> 0
         | Some (d1, i, cl, left) \<Rightarrow>
             if rd s (d1 + cl) = CHR ''*'' \<or> digi_used left s q (d1 + i) then 1 else 0)"

definition filter_process_one_e :: "pbuf_t \<Rightarrow> filter_t \<Rightarrow> int" where
  "filter_process_one_e pb f =
     (let e = pb_qconst_start pb + 4; i = pb_entrycall_len pb
      in if i < 1 then 0 else filter_match_on_callsignset (sub (pb_data pb) e (e + i)) f MatchWild)"

text \<open>The centre of a range is the cached position of the filter.\<close>

definition in_range :: "pbuf_t \<Rightarrow> filter_t \<Rightarrow> int" where
  "in_range pb f =
     (let r = maidenhead_km_distance (f_latN f) (f_coslat f) (f_lonE f) (pb_lat pb) (pb_cos_lat pb) (pb_lng pb)
      in if cf_less (Fin r) (f_dist f) then verdict f else 0)"

definition hist_stale :: "filter_env \<Rightarrow> filter_t \<Rightarrow> bool" where
  "hist_stale env f \<longleftrightarrow> f_hist_age f < fv_tick env \<or> f_hist_age f > fv_tick env + HIST_LOOKUP_INTERVAL"

definition hist_fill :: "filter_env \<Rightarrow> history_cell_t \<Rightarrow> filter_t \<Rightarrow> filter_t" where
  "hist_fill env h f =
     f\<lparr>f_cached := True, f_hist_age := fv_tick env + HIST_LOOKUP_INTERVAL, f_latN := hc_lat h,
       f_lonE := hc_lon h, f_coslat := hc_coslat h\<rparr>"

text \<open>A range around the last position of a callsign, looked up when the cached one is too old. \<open>miss\<close> is
  what a failed lookup does to the filter besides clearing the flag.\<close>

definition range_of_call :: "filter_env \<Rightarrow> string \<Rightarrow> (filter_t \<Rightarrow> filter_t) \<Rightarrow> pbuf_t \<Rightarrow> filter_t \<Rightarrow> int \<times> filter_t" where
  "range_of_call env call miss pb f =
     (if hist_stale env f then
        case historydb_lookup (fv_tick env) (fv_storetime env) call (fv_history env) of
          None \<Rightarrow> (0, miss (f\<lparr>f_cached := False\<rparr>))
        | Some h \<Rightarrow> let f' = hist_fill env h f in (in_range pb f', f')
      else if \<not> f_cached f then (0, f)
      else (in_range pb f, f))"

definition filter_process_one_f :: "filter_env \<Rightarrow> pbuf_t \<Rightarrow> filter_t \<Rightarrow> int \<times> filter_t" where
  "filter_process_one_f env pb f =
     (if \<not> has_flag (pb_flags pb) F_HASPOS then (0, f)
      else range_of_call env (f_refcallsign f)
             (\<lambda>f. f\<lparr>f_hist_age := fv_tick env + HIST_LOOKUP_INTERVAL\<rparr>) pb f)"

definition filter_process_one_g :: "pbuf_t \<Rightarrow> filter_t \<Rightarrow> int" where
  "filter_process_one_g pb f =
     (if \<not> has_flag (pb_packettype pb) T_MESSAGE then 0
      else if length (dstname_text pb) < 1 then 0
      else filter_match_on_callsignset (dstname_text pb) f MatchWild)"

definition filter_process_one_m :: "filter_env \<Rightarrow> client_t \<Rightarrow> pbuf_t \<Rightarrow> filter_t \<Rightarrow> int \<times> filter_t" where
  "filter_process_one_m env c pb f =
     (if \<not> has_flag (pb_flags pb) F_HASPOS then (0, f)
      else if c_loc_known c then
        let r = maidenhead_km_distance (c_lat c) (c_cos_lat c) (c_lng c) (pb_lat pb) (pb_cos_lat pb) (pb_lng pb)
        in (if cf_less (Fin r) (f_dist f) then verdict f else 0, f)
      else if c_username c = [] then (0, f)
      else range_of_call env (c_username c)
             (\<lambda>f. f\<lparr>f_hist_age := fv_tick env + HIST_LOOKUP_INTERVAL div 2\<rparr>) pb f)"

definition filter_process_one_o :: "pbuf_t \<Rightarrow> filter_t \<Rightarrow> int" where
  "filter_process_one_o pb f =
     (let i = length (pb_srcname pb)
      in if \<not> has_flag (pb_packettype pb) (T_OBJECT OR T_ITEM) then 0
         else if i < 1 \<or> CALLSIGNLEN_MAX < i then 0
         else filter_match_on_callsignset (pb_srcname pb) f MatchWild)"

definition filter_process_one_p :: "pbuf_t \<Rightarrow> filter_t \<Rightarrow> int" where
  "filter_process_one_p pb f = match_source MatchPrefix pb f"

definition filter_process_one_q :: "filter_env \<Rightarrow> pbuf_t \<Rightarrow> filter_t \<Rightarrow> int" where
  "filter_process_one_q env pb f =
     (case qc_flag (rd (pb_data pb) (pb_qconst_start pb + 2)) of
        None \<Rightarrow> 0
      | Some qc \<Rightarrow>
          if has_flag (f_bitflags f) qc then 1
          else if has_flag (f_bitflags f) QC_AnalyticsI \<and>
                  filter_entrycall_lookup (fv_tick env) pb (fs_entrycall (fv_calls env)) then 1
          else 0)"

definition filter_process_one_r :: "pbuf_t \<Rightarrow> filter_t \<Rightarrow> int" where
  "filter_process_one_r pb f = (if \<not> has_flag (pb_flags pb) F_HASPOS then 0 else in_range pb f)"

definition filter_process_one_s :: "pbuf_t \<Rightarrow> filter_t \<Rightarrow> int" where
  "filter_process_one_s pb f =
     (let sym0 = rd (pb_symbol pb) 0;
          symtable = (if sym0 = CHR ''/'' then CHR ''/'' else CHR 0x5C);
          symcode = rd (pb_symbol pb) 1;
          symolay = (if sym0 \<noteq> symtable then sym0 else NUL);
          has = (\<lambda>s n c. memchr (f_text f) s n c \<noteq> None)
      in if f_len1 f \<noteq> 0 \<and> symtable = CHR ''/'' \<and> has (f_len1s f) (f_len1 f) symcode then verdict f
         else if f_len3 f \<noteq> 0 then
           (if \<not> has (f_len3s f) (f_len3 f) symolay then 0
            else if \<not> has (f_len2s f) (f_len2 f) symcode then 0
            else verdict f)
         else if f_len2 f \<noteq> 0 \<and> symtable = CHR 0x5C \<and> has (f_len2s f) (f_len2 f) symcode then verdict f
         else 0)"

definition filter_process_one_t :: "filter_env \<Rightarrow> pbuf_t \<Rightarrow> filter_t \<Rightarrow> int \<times> filter_t" where
  "filter_process_one_t env pb f =
     (let rc = (has_flag (pb_packettype pb) (f_bitflags f) \<or>
                has_flag (f_bitflags f) T_WX \<and> has_flag (pb_flags pb) F_HASPOS \<and>
                filter_wx_lookup (fv_tick env) pb (fs_wx (fv_calls env)))
      in if rc \<and> f_type f = CHR ''T'' then
           if \<not> has_flag (pb_flags pb) F_HASPOS then (0, f)
           else range_of_call env (f_refcallsign f) (\<lambda>g. g) pb f
         else (if rc then verdict f else 0, f))"

definition filter_process_one_u :: "pbuf_t \<Rightarrow> filter_t \<Rightarrow> int" where
  "filter_process_one_u pb f =
     (let d = pb_srccall_end pb + 1; i = min CALLSIGNLEN_MAX (pb_dstcall_len pb)
      in filter_match_on_callsignset (sub (pb_data pb) d (d + i)) f MatchWild)"

definition filter_process_one :: "filter_env \<Rightarrow> client_t \<Rightarrow> pbuf_t \<Rightarrow> filter_t \<Rightarrow> int \<times> filter_t" where
  "filter_process_one env c pb f =
     (let t = toupper (f_type f)
      in if t = CHR ''A'' then (filter_process_one_a pb f, f)
         else if t = CHR ''B'' then (filter_process_one_b pb f, f)
         else if t = CHR ''D'' then (filter_process_one_d pb f, f)
         else if t = CHR ''E'' then (filter_process_one_e pb f, f)
         else if t = CHR ''F'' then filter_process_one_f env pb f
         else if t = CHR ''G'' then (filter_process_one_g pb f, f)
         else if t = CHR ''M'' then filter_process_one_m env c pb f
         else if t = CHR ''O'' then (filter_process_one_o pb f, f)
         else if t = CHR ''P'' then (filter_process_one_p pb f, f)
         else if t = CHR ''Q'' then (filter_process_one_q env pb f, f)
         else if t = CHR ''R'' then (filter_process_one_r pb f, f)
         else if t = CHR ''S'' then (filter_process_one_s pb f, f)
         else if t = CHR ''T'' then filter_process_one_t env pb f
         else if t = CHR ''U'' then (filter_process_one_u pb f, f)
         else (-1, f))"

section \<open>All filters of a client\<close>

text \<open>\<^verbatim>\<open>client_bad_filter_notify\<close> of \<^verbatim>\<open>worker.c\<close>.\<close>

definition client_bad_filter_notify :: "filter_env \<Rightarrow> string \<Rightarrow> bool \<Rightarrow> int \<times> bool" where
  "client_bad_filter_notify env filt warned =
     (if warned then (0, warned)
      else (fst (client_printf (fv_write env) (''# Warning: Bad filter: '' @ filt @ [CHR 0x0D, CHR 0x0A])), True))"

text \<open>The loops over a list: the first result that is not zero, the filters, and for the user's lists
  whether the client has been warned.\<close>

fun default_chain :: "(filter_t \<Rightarrow> int \<times> filter_t) \<Rightarrow> filter_t list \<Rightarrow> int \<times> filter_t list" where
  "default_chain one [] = (0, [])"
| "default_chain one (f # fs) =
     (let (rc, f') = one f
      in if 0 < rc then (rc, f' # fs)
         else let (rc', fs') = default_chain one fs in (rc', f' # fs'))"

fun user_chain ::
    "filter_env \<Rightarrow> (filter_t \<Rightarrow> int \<times> filter_t) \<Rightarrow> bool \<Rightarrow> filter_t list \<Rightarrow> int \<times> bool \<times> filter_t list" where
  "user_chain env one warned [] = (0, warned, [])"
| "user_chain env one warned (f # fs) =
     (let (rc0, f') = one f;
          (rc, warned') = (if rc0 < 0 then client_bad_filter_notify env (f_text f) warned else (rc0, warned))
      in if rc0 < 0 \<and> rc < 0 \<or> 0 < rc then (rc, warned', f' # fs)
         else let (rc', warned'', fs') = user_chain env one warned' fs in (rc', warned'', f' # fs'))"

text \<open>The rules for igates: the client when one of them passes the packet, and the client without its
  courtesy entry otherwise.\<close>

definition igate_pass :: "filter_env \<Rightarrow> client_t \<Rightarrow> pbuf_t \<Rightarrow> bool \<times> client_t" where
  "igate_pass env c pb =
     (let dst = dstname_text pb; src = take (pb_srccall_end pb) (pb_data pb)
      in if has_flag (pb_packettype pb) T_MESSAGE \<and>
            (dst = c_username c \<or> client_heard_check c dst (pb_dstname_hash pb) \<noteq> 0) then
           (True, client_courtesy_update (fv_cell env) pb c)
         else
           let (courtesy, c1) =
                 (if has_flag (pb_packettype pb) (T_POSITION OR T_OBJECT OR T_ITEM)
                  then client_courtesy_needed pb c else (0, c))
           in if courtesy \<noteq> 0 then (True, c1)
              else (has_flag (pb_flags pb) F_HAS_TCPIP \<and> client_heard_check c1 src (pb_srccall_hash pb) \<noteq> 0, c1))"

definition filter_process :: "filter_env \<Rightarrow> client_t \<Rightarrow> pbuf_t \<Rightarrow> int \<times> client_t" where
  "filter_process env c0 pb =
     (let (gate, c) = (if has_flag (c_flags c0) CLFLAGS_IGATE then igate_pass env c0 pb else (False, c0));
          one = filter_process_one env c pb
      in if gate then (1, c)
         else
           let (rc1, nd) = default_chain one (c_negdefaultfilters c);
               c1 = c\<lparr>c_negdefaultfilters := nd\<rparr>
           in if 0 < rc1 then (0, c1)
              else
                let (rc2, pd) = default_chain one (c_posdefaultfilters c);
                    c2 = c1\<lparr>c_posdefaultfilters := pd\<rparr>
                in if 0 < rc2 then (rc2, c2)
                   else
                     let (rc3, w3, nu) = user_chain env one (c_warned c) (c_neguserfilters c);
                         c3 = c2\<lparr>c_neguserfilters := nu, c_warned := w3\<rparr>
                     in if rc3 < 0 then (rc3, c3) else if 0 < rc3 then (0, c3)
                        else
                          let (rc4, w4, pu) = user_chain env one w3 (c_posuserfilters c)
                          in (rc4, c3\<lparr>c_posuserfilters := pu, c_warned := w4\<rparr>))"

section \<open>The verdict on a packet\<close>

lemma verdict_wf: "filter_wf f \<Longrightarrow> verdict f = 1"
  by (simp add: verdict_def filter_wf_def)

lemma match_callsignset_01: "filter_wf f \<Longrightarrow> filter_match_on_callsignset k f w \<in> {0, 1}"
  by (auto simp: filter_match_on_callsignset_def filter_wf_def refcall_wf_def find_Some_iff split: option.split)

lemma known_types: "type_ok t \<Longrightarrow> t \<noteq> NUL \<Longrightarrow> toupper t \<in> set ''ABDEFGMOPQRSTU''"
  unfolding type_ok_def filter_types_def
  by (simp only: list.set insert_iff empty_iff, elim disjE) (simp_all add: cstr_simps)

lemma range_of_call_01:
  assumes "filter_wf f" and "\<And>g. f_negation (miss g) = f_negation g"
  shows "fst (range_of_call env call miss pb f) \<in> {0, 1}"
  using assms by (auto simp: range_of_call_def in_range_def Let_def verdict_def hist_fill_def filter_wf_def split: option.split)

lemma process_one_01:
  assumes wf: "filter_wf f" and known: "f_type f \<noteq> NUL"
  shows "fst (filter_process_one env c pb f) \<in> {0, 1}"
proof -
  have t: "toupper (f_type f) \<in> set ''ABDEFGMOPQRSTU''" using wf known known_types by (simp add: filter_wf_def)
  note M = match_callsignset_01 [OF wf] and R = range_of_call_01 [OF wf] and V = verdict_wf [OF wf]
  have abd: "filter_process_one_a pb f \<in> {0, 1}" "match_source w pb f \<in> {0, 1}" "filter_process_one_d pb f \<in> {0, 1}" for w
    using M V by (simp_all add: filter_process_one_a_def match_source_def filter_process_one_d_def Let_def split: option.split)
  have eg: "filter_process_one_e pb f \<in> {0, 1}" "filter_process_one_g pb f \<in> {0, 1}"
    "filter_process_one_o pb f \<in> {0, 1}" "filter_process_one_u pb f \<in> {0, 1}"
    using M by (simp_all add: filter_process_one_e_def filter_process_one_g_def filter_process_one_o_def
        filter_process_one_u_def Let_def)
  have qrs: "filter_process_one_q env pb f \<in> {0, 1}" "filter_process_one_r pb f \<in> {0, 1}" "filter_process_one_s pb f \<in> {0, 1}"
    using V by (simp_all add: filter_process_one_q_def filter_process_one_r_def filter_process_one_s_def in_range_def Let_def
        split: option.split)
  have fmt: "fst (filter_process_one_f env pb f) \<in> {0, 1}" "fst (filter_process_one_m env c pb f) \<in> {0, 1}"
    "fst (filter_process_one_t env pb f) \<in> {0, 1}"
    using R V by (simp_all add: filter_process_one_f_def filter_process_one_m_def filter_process_one_t_def Let_def)
  have "fst (filter_process_one env c pb f) \<in> S"
    if "toupper (f_type f) \<in> set ''ABDEFGMOPQRSTU''"
      and "filter_process_one_a pb f \<in> S" "match_source MatchWild pb f \<in> S" "match_source MatchPrefix pb f \<in> S"
        "filter_process_one_d pb f \<in> S" "filter_process_one_e pb f \<in> S" "filter_process_one_g pb f \<in> S"
        "filter_process_one_o pb f \<in> S" "filter_process_one_u pb f \<in> S" "filter_process_one_q env pb f \<in> S"
        "filter_process_one_r pb f \<in> S" "filter_process_one_s pb f \<in> S" "fst (filter_process_one_f env pb f) \<in> S"
        "fst (filter_process_one_m env c pb f) \<in> S" "fst (filter_process_one_t env pb f) \<in> S" for S :: "int set"
    using that unfolding filter_process_one_def Let_def filter_process_one_b_def filter_process_one_p_def
    by (auto split: if_split)
  from this [OF t abd(1) abd(2) abd(2) abd(3) eg qrs fmt] show ?thesis .
qed

text \<open>Only the cached position of a filter changes.\<close>

definition same_filter :: "filter_t \<Rightarrow> filter_t \<Rightarrow> bool" where
  "same_filter f g \<longleftrightarrow> f_type g = f_type f \<and> (filter_wf f \<longrightarrow> filter_wf g) \<and> f_text g = f_text f"

lemma same_filter_refl [simp]: "same_filter f f"
  by (simp add: same_filter_def)

lemma same_filter_upd:
  assumes "toupper (f_type f) \<noteq> CHR ''A''"
  shows "same_filter f (f\<lparr>f_cached := v, f_hist_age := h, f_latN := a, f_lonE := b, f_coslat := k\<rparr>)"
proof -
  let ?g = "f\<lparr>f_cached := v, f_hist_age := h, f_latN := a, f_lonE := b, f_coslat := k\<rparr>"
  have "f_text ?g = f_text f" by (simp add: f_text_def split: option.split)
  moreover from this have "symbols_wf ?g = symbols_wf f" by (simp add: symbols_wf_def)
  ultimately show ?thesis using assms by (simp add: same_filter_def filter_wf_def)
qed

lemma range_of_call_same:
  assumes "toupper (f_type f) \<noteq> CHR ''A''"
    and "\<And>g. \<exists>v h. miss (g\<lparr>f_cached := False\<rparr>) = g\<lparr>f_cached := v, f_hist_age := h\<rparr>"
  shows "same_filter f (snd (range_of_call env call miss pb f))"
proof -
  obtain v h where m: "miss (f\<lparr>f_cached := False\<rparr>) = f\<lparr>f_cached := v, f_hist_age := h\<rparr>" using assms(2) by blast
  have "same_filter f (miss (f\<lparr>f_cached := False\<rparr>))"
    unfolding m using same_filter_upd [OF assms(1), where v = v and h = h and a = "f_latN f" and b = "f_lonE f" and k = "f_coslat f"] by simp
  moreover have "same_filter f (hist_fill env x f)" for x
    unfolding hist_fill_def by (rule same_filter_upd [OF assms(1)])
  ultimately show ?thesis by (auto simp: range_of_call_def Let_def split: option.split)
qed

lemma process_one_same: "same_filter f (snd (filter_process_one env c pb f))"
proof -
  have miss: "\<exists>v h. (f\<lparr>f_cached := False\<rparr>)\<lparr>f_hist_age := x\<rparr> = f\<lparr>f_cached := v, f_hist_age := h\<rparr>"
    "\<exists>v h. (\<lambda>g. g) (f\<lparr>f_cached := False\<rparr>) = f\<lparr>f_cached := v, f_hist_age := h\<rparr>" for x and f :: filter_t
  proof -
    show "\<exists>v h. (f\<lparr>f_cached := False\<rparr>)\<lparr>f_hist_age := x\<rparr> = f\<lparr>f_cached := v, f_hist_age := h\<rparr>" by blast
    have "f\<lparr>f_cached := False\<rparr> = f\<lparr>f_cached := False, f_hist_age := f_hist_age f\<rparr>" by simp
    then show "\<exists>v h. (\<lambda>g. g) (f\<lparr>f_cached := False\<rparr>) = f\<lparr>f_cached := v, f_hist_age := h\<rparr>" by metis
  qed
  note R = range_of_call_same [of f, OF _ miss(1)] range_of_call_same [of f "\<lambda>g. g", OF _ miss(2)]
  have "same_filter f (snd (filter_process_one_f env pb f))" "same_filter f (snd (filter_process_one_m env c pb f))"
    "same_filter f (snd (filter_process_one_t env pb f))" if "toupper (f_type f) \<noteq> CHR ''A''"
    using R [OF that] by (simp_all add: filter_process_one_f_def filter_process_one_m_def filter_process_one_t_def Let_def)
  then show ?thesis unfolding filter_process_one_def Let_def by (simp split: if_split)
qed

lemma default_chain_eq:
  assumes "\<forall>f \<in> set fs. fst (one f) \<in> {0, 1}"
  shows "fst (default_chain one fs) = (if \<exists>f \<in> set fs. 0 < fst (one f) then 1 else 0)"
  using assms by (induction fs) (auto simp: Let_def case_prod_beta)

lemma default_chain_set: "set (snd (default_chain one fs)) \<subseteq> set fs \<union> (snd \<circ> one) ` set fs"
proof (induction fs)
  case (Cons f fs)
  then show ?case by (cases "0 < fst (one f)") (auto simp: Let_def case_prod_beta)
qed simp

lemma user_chain_eq:
  assumes "\<forall>f \<in> set fs. fst (one f) \<in> {0, 1}"
  shows "fst (user_chain env one w fs) = (if \<exists>f \<in> set fs. 0 < fst (one f) then 1 else 0)"
    and "fst (snd (user_chain env one w fs)) = w"
  using assms by (induction fs) (auto simp: Let_def case_prod_beta)

lemma user_chain_set: "set (snd (snd (user_chain env one w fs))) \<subseteq> set fs \<union> (snd \<circ> one) ` set fs"
proof (induction fs arbitrary: w)
  case (Cons f fs)
  have tail: "set (snd (snd (user_chain env one v fs))) \<subseteq> insert f (set fs) \<union> (snd \<circ> one) ` insert f (set fs)" for v
    using Cons.IH [of v] by auto
  show ?case using tail by (auto simp: Let_def case_prod_beta split: if_splits dest!: tail [THEN subsetD])
qed simp

text \<open>The igate rules leave everything but the courtesy list alone.\<close>

definition same_client :: "client_t \<Rightarrow> client_t \<Rightarrow> bool" where
  "same_client c d \<longleftrightarrow> c_id d = c_id c \<and> c_flags d = c_flags c \<and> c_no_tx d = c_no_tx c \<and>
     c_loc_known d = c_loc_known c \<and> c_lat d = c_lat c \<and> c_cos_lat d = c_cos_lat c \<and> c_lng d = c_lng c \<and>
     c_username d = c_username c"

lemma igate_pass_same:
  "same_client c (snd (igate_pass env c pb)) \<and> filter_list u n (snd (igate_pass env c pb)) = filter_list u n c \<and>
   c_warned (snd (igate_pass env c pb)) = c_warned c"
  by (auto simp: igate_pass_def client_courtesy_update_def client_courtesy_needed_def same_client_def
      filter_list_def Let_def case_prod_beta)

lemma process_one_client: "same_client c d \<Longrightarrow> filter_process_one env d = filter_process_one env c"
proof -
  assume "same_client c d"
  then have "filter_process_one_m env d = filter_process_one_m env c"
    by (intro ext) (simp add: same_client_def filter_process_one_m_def)
  then show ?thesis by (intro ext) (simp only: filter_process_one_def)
qed

lemma same_client_refl [simp]: "same_client c c"
  by (simp add: same_client_def)

text \<open>The client after the igate rules, whether they pass the packet, and whether a filter matches it.\<close>

definition gated :: "filter_env \<Rightarrow> client_t \<Rightarrow> pbuf_t \<Rightarrow> bool" where
  "gated env c pb \<longleftrightarrow> has_flag (c_flags c) CLFLAGS_IGATE \<and> fst (igate_pass env c pb)"

definition hits :: "filter_env \<Rightarrow> client_t \<Rightarrow> pbuf_t \<Rightarrow> filter_t list \<Rightarrow> bool" where
  "hits env c pb fs \<longleftrightarrow> (\<exists>f \<in> set fs. 0 < fst (filter_process_one env c pb f))"

definition filters_known :: "client_t \<Rightarrow> bool" where
  "filters_known c \<longleftrightarrow> filters_wf c \<and> (\<forall>u n. \<forall>f \<in> set (filter_list u n c). f_type f \<noteq> NUL)"

lemma filters_known_lists:
  assumes "filters_known c"
  shows "\<forall>f \<in> set (c_negdefaultfilters c). fst (filter_process_one env c' pb f) \<in> {0, 1}"
    and "\<forall>f \<in> set (c_posdefaultfilters c). fst (filter_process_one env c' pb f) \<in> {0, 1}"
    and "\<forall>f \<in> set (c_neguserfilters c). fst (filter_process_one env c' pb f) \<in> {0, 1}"
    and "\<forall>f \<in> set (c_posuserfilters c). fst (filter_process_one env c' pb f) \<in> {0, 1}"
proof -
  have "\<forall>f \<in> set (filter_list u n c). fst (filter_process_one env c' pb f) \<in> {0, 1}" for u n
    using assms process_one_01 by (auto simp: filters_known_def filters_wf_def)
  from this [of False True] this [of False False] this [of True True] this [of True False]
  show "\<forall>f \<in> set (c_negdefaultfilters c). fst (filter_process_one env c' pb f) \<in> {0, 1}"
    and "\<forall>f \<in> set (c_posdefaultfilters c). fst (filter_process_one env c' pb f) \<in> {0, 1}"
    and "\<forall>f \<in> set (c_neguserfilters c). fst (filter_process_one env c' pb f) \<in> {0, 1}"
    and "\<forall>f \<in> set (c_posuserfilters c). fst (filter_process_one env c' pb f) \<in> {0, 1}"
    by (simp_all add: filter_list_def)
qed

text \<open>The stages of \<^verbatim>\<open>filter_process\<close> behind the igate rules.\<close>

lemma filter_process_stages:
  assumes known: "filters_known c" and one: "one = filter_process_one env c pb"
    and g: "same_client c d" "\<And>u n. filter_list u n d = filter_list u n c" "c_warned d = c_warned c"
    and d: "d = (if has_flag (c_flags c) CLFLAGS_IGATE then snd (igate_pass env c pb) else c)"
  shows "fst (filter_process env c pb) =
    (if gated env c pb then 1
     else if hits env c pb (c_negdefaultfilters c) then 0
     else if hits env c pb (c_posdefaultfilters c) then 1
     else if hits env c pb (c_neguserfilters c) then 0
     else if hits env c pb (c_posuserfilters c) then 1 else 0)"
proof -
  have lists: "c_negdefaultfilters d = c_negdefaultfilters c" "c_posdefaultfilters d = c_posdefaultfilters c"
    "c_neguserfilters d = c_neguserfilters c" "c_posuserfilters d = c_posuserfilters c"
    using g(2) [of False True] g(2) [of False False] g(2) [of True True] g(2) [of True False]
    by (simp_all add: filter_list_def)
  note K = filters_known_lists [OF known, of env c pb, folded one]
  note D = default_chain_eq [OF K(1)] default_chain_eq [OF K(2)] and U = user_chain_eq(1) [OF K(3)] user_chain_eq(1) [OF K(4)]
  have pair: "(if has_flag (c_flags c) CLFLAGS_IGATE then igate_pass env c pb else (False, c)) = (gated env c pb, d)"
    using d by (auto simp: gated_def prod_eq_iff)
  show ?thesis
    unfolding filter_process_def pair Let_def case_prod_beta fst_conv snd_conv lists
      process_one_client [OF g(1)] one [symmetric] hits_def D U by simp
qed

lemma filter_process_eq:
  assumes "filters_known c"
  shows "fst (filter_process env c pb) =
    (if gated env c pb then 1
     else if hits env c pb (c_negdefaultfilters c) then 0
     else if hits env c pb (c_posdefaultfilters c) then 1
     else if hits env c pb (c_neguserfilters c) then 0
     else if hits env c pb (c_posuserfilters c) then 1 else 0)"
  by (rule filter_process_stages [OF assms refl _ _ _ refl]) (auto simp: igate_pass_same)

lemma same_client_trans: "same_client c d \<Longrightarrow> same_client d e \<Longrightarrow> same_client c e"
  by (simp add: same_client_def)

lemma filter_process_same: "same_client c (snd (filter_process env c pb))"
proof -
  define d where "d = (if has_flag (c_flags c) CLFLAGS_IGATE then snd (igate_pass env c pb) else c)"
  have d: "same_client c d" using igate_pass_same by (auto simp: d_def)
  have pair: "(if has_flag (c_flags c) CLFLAGS_IGATE then igate_pass env c pb else (False, c)) = (gated env c pb, d)"
    by (auto simp: gated_def d_def prod_eq_iff)
  have "same_client d (snd (filter_process env c pb))"
    unfolding filter_process_def pair Let_def case_prod_beta fst_conv snd_conv by (simp add: same_client_def)
  with d show ?thesis by (rule same_client_trans)
qed

lemma filter_process_filters:
  assumes "f \<in> set (filter_list u n (snd (filter_process env c pb)))"
  shows "\<exists>g \<in> set (filter_list u n c). same_filter g f"
proof -
  define d where "d = (if has_flag (c_flags c) CLFLAGS_IGATE then snd (igate_pass env c pb) else c)"
  have pair: "(if has_flag (c_flags c) CLFLAGS_IGATE then igate_pass env c pb else (False, c)) = (gated env c pb, d)"
    by (auto simp: gated_def d_def prod_eq_iff)
  have lists: "filter_list u n d = filter_list u n c" for u n using igate_pass_same by (auto simp: d_def)
  have L: "c_negdefaultfilters d = filter_list False True c" "c_posdefaultfilters d = filter_list False False c"
    "c_neguserfilters d = filter_list True True c" "c_posuserfilters d = filter_list True False c"
    using lists [of False True] lists [of False False] lists [of True True] lists [of True False]
    by (simp_all add: filter_list_def)
  let ?one = "filter_process_one env d pb"
  have ok: "\<exists>g \<in> set fs. same_filter g x" if "x \<in> set fs \<union> (snd \<circ> ?one) ` set fs" for x fs
  proof -
    from that consider "x \<in> set fs" | y where "y \<in> set fs" "x = snd (?one y)" by auto
    then show ?thesis using process_one_same same_filter_refl by cases blast+
  qed
  note D = default_chain_set [of ?one, THEN subsetD, THEN ok] and U = user_chain_set [of env ?one, THEN subsetD, THEN ok]
  have R: "f \<in> set fs \<Longrightarrow> \<exists>g \<in> set fs. same_filter g f" for fs using same_filter_refl by blast
  show ?thesis
    using assms D U
    unfolding filter_process_def pair Let_def case_prod_beta fst_conv snd_conv L
    by (cases u; cases n) (auto simp: filter_list_def L [unfolded filter_list_def] intro: R split: if_splits)
qed

lemma filter_process_wf: "filters_known c \<Longrightarrow> filters_known (snd (filter_process env c pb))"
  using filter_process_filters [of _ _ _ env c pb] unfolding filters_known_def filters_wf_def same_filter_def by metis

section \<open>Properties\<close>


text \<open>Filtering changes nothing of a client but its courtesy list and the cached positions in its filters:
  these stay well formed and of known type.\<close>

theorem filter_process_keeps:
  assumes "filters_known c"
  shows "same_client c (snd (filter_process env c pb)) \<and> filters_known (snd (filter_process env c pb))"
  using filter_process_same filter_process_wf [OF assms] by blast

text \<open>A lone minus sign is accepted as a filter, and every processing of it is an error that the client is
  told about once.\<close>

theorem filter_minus_accepted:
  assumes "has_flag (c_flags c) CLFLAGS_USERFILTEROK"
  shows "\<exists>f. filter_parse True True ''-'' (c, g) = (0, c\<lparr>c_neguserfilters := c_neguserfilters c @ [f]\<rparr>, g + 1) \<and>
    filter_process_one env c pb f = (-1, f)"
proof -
  let ?f = "filter_store ''-'' (filter_zero NUL)"
  have up: "toupper NUL = NUL" by (simp add: cstr_simps)
  have "filter_preparse ''-'' ff = Inr (New (filter_zero NUL))" for ff
    by (simp add: filter_preparse_def rd_def up)
  then have "filter_parse True True ''-'' (c, g) = (0, c\<lparr>c_neguserfilters := c_neguserfilters c @ [?f]\<rparr>, g + 1)"
    using assms by (simp add: filter_parse_def rd_def set_filter_list_def filter_list_def)
  moreover have "filter_process_one env c pb ?f = (-1, ?f)" by (simp add: filter_process_one_def up)
  ultimately show ?thesis by blast
qed

definition demo_filter_env :: filter_env where
  "demo_filter_env = \<lparr>fv_tick = 100, fv_storetime = 3600, fv_history = (\<lambda>_. []),
     fv_calls = \<lparr>fs_entrycall = (\<lambda>_. [], 0), fs_wx = (\<lambda>_. [], 0)\<rparr>, fv_cell = None, fv_write = (\<lambda>s. int (length s))\<rparr>"

text \<open>A client with the filters \<^verbatim>\<open>b/OH2*\<close> and \<^verbatim>\<open>-u/APZ*\<close>.\<close>

definition demo_bud :: filter_t where
  "demo_bud = (filter_zero (CHR ''b''))\<lparr>f_textbuf := ''b/OH2*'', f_refcallsigns := [\<lparr>rc_callsign = ''OH2'', rc_reflen = 0x83\<rparr>]\<rparr>"

definition demo_unproto :: filter_t where
  "demo_unproto = (filter_zero (CHR ''u''))\<lparr>f_textbuf := ''-u/APZ*'', f_refcallsigns := [\<lparr>rc_callsign = ''APZ'', rc_reflen = 0x83\<rparr>]\<rparr>"

definition demo_bud_client :: client_t where
  "demo_bud_client = demo_filter_client\<lparr>c_posuserfilters := [demo_bud], c_neguserfilters := [demo_unproto]\<rparr>"

lemma demo_bud_known: "filters_known demo_bud_client"
proof -
  have wf: "filter_wf demo_bud" "filter_wf demo_unproto"
    by (simp_all add: filter_wf_def demo_bud_def demo_unproto_def type_ok_def filter_types_def has_dist_def
        refcall_wf_def len_defs LengthMask_def NegationFlag_def has_flag_def cstr_simps)
  have lists: "filter_list u n demo_bud_client = (if u then if n then [demo_unproto] else [demo_bud] else [])" for u n
    by (simp add: filter_list_def demo_bud_client_def demo_filter_client_def demo_client_def)
  show ?thesis using wf by (simp add: filters_known_def filters_wf_def lists) (simp add: demo_bud_def demo_unproto_def)
qed

lemma demo_bud_hits:
  "hits demo_filter_env demo_bud_client demo_igated [demo_bud]"
  "\<not> hits demo_filter_env demo_bud_client demo_igated [demo_unproto]"
proof -
  have key: "take 4 (pb_data demo_igated) = ''OH2A''" by (simp add: demo_igated_def)
  have "ref_hit ''OH2A'' MatchWild \<lparr>rc_callsign = ''OH2'', rc_reflen = 0x83\<rparr>"
    by (simp add: ref_hit_def ref_buf_def len_defs LengthMask_def WildCard_def has_flag_def strncaseeq_def cstr_simps)
  then have "filter_process_one demo_filter_env demo_bud_client demo_igated demo_bud = (1, demo_bud)"
    using key by (simp add: filter_process_one_def filter_process_one_b_def match_source_def filter_match_on_callsignset_def
        demo_bud_def demo_igated_def pbuf_zero_def len_defs NegationFlag_def has_flag_def cstr_simps)
  then show "hits demo_filter_env demo_bud_client demo_igated [demo_bud]" by (simp add: hits_def)
  have "\<not> ref_hit '''' MatchWild \<lparr>rc_callsign = ''APZ'', rc_reflen = 0x83\<rparr>"
    by (simp add: ref_hit_def LengthMask_def)
  then have "filter_process_one demo_filter_env demo_bud_client demo_igated demo_unproto = (0, demo_unproto)"
    by (simp add: filter_process_one_def filter_process_one_u_def filter_match_on_callsignset_def
        demo_unproto_def demo_igated_def pbuf_zero_def cstr_simps)
  then show "\<not> hits demo_filter_env demo_bud_client demo_igated [demo_unproto]" by (simp add: hits_def)
qed

lemma demo_not_gated: "\<not> gated demo_filter_env demo_bud_client demo_igated"
  by (simp add: gated_def demo_bud_client_def demo_filter_client_def clflag_defs has_flag_def)


theorem filter_process_keeps_witness:
  "c_id (snd (filter_process demo_filter_env demo_bud_client demo_igated)) = 1 \<and>
   filters_known (snd (filter_process demo_filter_env demo_bud_client demo_igated))"
  using filter_process_keeps [OF demo_bud_known, of demo_filter_env demo_igated]
  by (simp add: same_client_def demo_bud_client_def demo_filter_client_def demo_client_def)

theorem filter_minus_accepted_witness:
  "\<exists>f. fst (filter_parse True True ''-'' (demo_filter_client, 0)) = 0 \<and>
     filter_process_one demo_filter_env demo_filter_client demo_igated f = (-1, f)"
  using filter_minus_accepted [OF demo_user_flag, of 0 demo_filter_env demo_igated] by auto

end
