(* ===== verification/Filter_Meaning.thy ===== *)
theory Filter_Meaning
  imports Filter_Process
begin

text \<open>
  What the filters of \<^verbatim>\<open>src/src/filter.c\<close> mean, from their text or their fields to their verdict: callsign
  patterns, the digipeater filter, and the distance of the range filters.
\<close>

section \<open>Callsign patterns\<close>

text \<open>What a filter pattern means: its letters, up to nine and without the asterisks, are a prefix of the
  callsign, regardless of case, and the whole of it unless there is an asterisk.\<close>

definition pattern_matches :: "string \<Rightarrow> string \<Rightarrow> bool" where
  "pattern_matches pat key \<longleftrightarrow>
     (let name = take CALLSIGNLEN_MAX (filter (\<lambda>c. c \<noteq> CHR ''*'') pat)
      in name \<noteq> [] \<and> (\<exists>a rest. key = a @ rest \<and> strcaseeq name a \<and> (CHR ''*'' \<in> set pat \<or> rest = [])))"

definition prefix_matches :: "string \<Rightarrow> string \<Rightarrow> bool" where
  "prefix_matches pat key \<longleftrightarrow>
     pat \<noteq> [] \<and> (\<exists>a rest. key = a @ rest \<and> strcaseeq (take CALLSIGNLEN_MAX pat) a)"

lemma ref_hit_iff:
  assumes wf: "refcall_wf r" and key: "NUL \<notin> set key" "length key \<le> CALLSIGNLEN_MAX"
    and wild: "wildok \<noteq> MatchExact"
  shows "ref_hit key wildok r \<longleftrightarrow>
    rc_callsign r \<noteq> [] \<and> (\<exists>a rest. key = a @ rest \<and> strcaseeq (rc_callsign r) a \<and>
      (wildok = MatchPrefix \<or> has_flag (rc_reflen r) WildCard \<or> rest = []))"
proof -
  let ?n = "length (rc_callsign r)"
  have len: "unat (rc_reflen r AND LengthMask) = ?n" "NUL \<notin> set (rc_callsign r)" using wf by (simp_all add: refcall_wf_def)
  have same: "strncaseeq ?n (ref_buf key) (rc_callsign r @ [NUL]) \<longleftrightarrow> strcaseeq (rc_callsign r) (take ?n key)"
    if "?n \<le> length key"
  proof -
    have "take ?n (ref_buf key) = take ?n key" using that by (simp add: ref_buf_def)
    moreover have "takeWhile (\<lambda>c. c \<noteq> NUL) (take ?n key) = take ?n key"
      using key(1) by (auto simp: takeWhile_eq_all_conv dest: in_set_takeD)
    moreover have "takeWhile (\<lambda>c. c \<noteq> NUL) (rc_callsign r) = rc_callsign r"
      using len(2) by (auto simp: takeWhile_eq_all_conv)
    moreover have "take ?n (rc_callsign r @ [NUL]) = rc_callsign r" by simp
    ultimately show ?thesis unfolding strncaseeq_def by (simp only: strcaseeq_sym)
  qed
  have split: "(\<exists>a rest. key = a @ rest \<and> strcaseeq (rc_callsign r) a \<and> Q rest) \<longleftrightarrow>
      ?n \<le> length key \<and> strcaseeq (rc_callsign r) (take ?n key) \<and> Q (drop ?n key)" for Q
  proof
    assume "\<exists>a rest. key = a @ rest \<and> strcaseeq (rc_callsign r) a \<and> Q rest"
    then obtain a rest where "key = a @ rest" "strcaseeq (rc_callsign r) a" "Q rest" by blast
    then show "?n \<le> length key \<and> strcaseeq (rc_callsign r) (take ?n key) \<and> Q (drop ?n key)"
      using strcaseeq_length [of "rc_callsign r" a] by simp
  next
    assume "?n \<le> length key \<and> strcaseeq (rc_callsign r) (take ?n key) \<and> Q (drop ?n key)"
    then show "\<exists>a rest. key = a @ rest \<and> strcaseeq (rc_callsign r) a \<and> Q rest"
      by (intro exI [of _ "take ?n key"] exI [of _ "drop ?n key"]) simp
  qed
  show ?thesis
    unfolding split using wild same
    by (cases wildok) (auto simp: ref_hit_def Let_def len(1) not_less)
qed

text \<open>The set of a filter made from patterns.\<close>

lemma match_on_patterns:
  assumes f: "f_refcallsigns f = map (parse_refcallsign False) pats" and pats: "\<forall>p \<in> set pats. NUL \<notin> set p"
    and key: "NUL \<notin> set key" "length key \<le> CALLSIGNLEN_MAX"
  shows "filter_match_on_callsignset key f MatchWild = (if \<exists>p \<in> set pats. pattern_matches p key then 1 else 0)"
    and "\<forall>p \<in> set pats. CHR ''*'' \<notin> set p \<Longrightarrow>
      filter_match_on_callsignset key f MatchPrefix = (if \<exists>p \<in> set pats. prefix_matches p key then 1 else 0)"
proof -
  have wf: "refcall_wf (parse_refcallsign False p)" if "p \<in> set pats" for p
    using parse_refcallsign_wf(1) pats that by blast
  have wild: "has_flag (rc_reflen (parse_refcallsign False p)) WildCard \<longleftrightarrow> CHR ''*'' \<in> set p" if "p \<in> set pats" for p
    using parse_refcallsign_wf(2) pats that by blast
  have call: "rc_callsign (parse_refcallsign False p) = take CALLSIGNLEN_MAX (filter (\<lambda>c. c \<noteq> CHR ''*'') p)" for p
    by (simp add: parse_refcallsign_def Let_def)
  have found: "filter_match_on_callsignset key f w =
      (if \<exists>p \<in> set pats. ref_hit key w (parse_refcallsign False p) then 1 else 0)" for w
  proof (cases "find (ref_hit key w) (f_refcallsigns f)")
    case None
    then show ?thesis by (simp add: filter_match_on_callsignset_def) (auto simp: find_None_iff f)
  next
    case (Some r)
    then have "r \<in> set (f_refcallsigns f)" "ref_hit key w r" by (auto simp: find_Some_iff)
    then show ?thesis using Some wf by (auto simp: filter_match_on_callsignset_def f refcall_wf_def)
  qed
  have "ref_hit key MatchWild (parse_refcallsign False p) \<longleftrightarrow> pattern_matches p key" if "p \<in> set pats" for p
    using ref_hit_iff [OF wf [OF that] key, of MatchWild] wild [OF that]
    by (simp add: pattern_matches_def Let_def call)
  then show "filter_match_on_callsignset key f MatchWild = (if \<exists>p \<in> set pats. pattern_matches p key then 1 else 0)"
    unfolding found by auto
  assume star: "\<forall>p \<in> set pats. CHR ''*'' \<notin> set p"
  have "ref_hit key MatchPrefix (parse_refcallsign False p) \<longleftrightarrow> prefix_matches p key" if "p \<in> set pats" for p
  proof -
    have "filter (\<lambda>c. c \<noteq> CHR ''*'') p = p" using star that by (auto intro: filter_True)
    then show ?thesis
      using ref_hit_iff [OF wf [OF that] key, of MatchPrefix] by (simp add: prefix_matches_def call len_defs)
  qed
  then show "filter_match_on_callsignset key f MatchPrefix = (if \<exists>p \<in> set pats. prefix_matches p key then 1 else 0)"
    unfolding found by auto
qed

text \<open>The elements of a text made of elements.\<close>

abbreviation slashed :: "string list \<Rightarrow> string" where
  "slashed ps \<equiv> concat (map (Cons (CHR ''/'')) ps)"

lemma takeWhile_stop: "x \<notin> set p \<Longrightarrow> takeWhile (\<lambda>c. c \<noteq> x) (p @ x # s) = p"
  "x \<notin> set p \<Longrightarrow> dropWhile (\<lambda>c. c \<noteq> x) (p @ x # s) = x # s"
  by (induction p) auto

lemma slash_fields_join:
  "\<forall>q \<in> set (p # ps). CHR ''/'' \<notin> set q \<Longrightarrow> last (p # ps) \<noteq> [] \<Longrightarrow> slash_fields (p @ slashed ps) = p # ps"
proof (induction ps arbitrary: p)
  case Nil
  then obtain c s where p: "p = c # s" by (cases p) auto
  have "takeWhile (\<lambda>x. x \<noteq> CHR ''/'') p = p" "dropWhile (\<lambda>x. x \<noteq> CHR ''/'') p = []"
    using Nil.prems by (auto simp: takeWhile_eq_all_conv dropWhile_eq_Nil_conv)
  moreover have "slash_fields p = takeWhile (\<lambda>x. x \<noteq> CHR ''/'') p # slash_fields (drop 1 (dropWhile (\<lambda>x. x \<noteq> CHR ''/'') p))"
    unfolding p by (rule slash_fields.simps(2))
  ultimately have "slash_fields p = [p]" by (simp only:) simp
  then show ?case by simp
next
  case (Cons q ps)
  obtain c s where s: "p @ slashed (q # ps) = c # s" by (cases "p @ slashed (q # ps)") auto
  have stop: "takeWhile (\<lambda>x. x \<noteq> CHR ''/'') (c # s) = p" "dropWhile (\<lambda>x. x \<noteq> CHR ''/'') (c # s) = CHR ''/'' # q @ slashed ps"
    unfolding s [symmetric] using takeWhile_stop [of "CHR ''/''" p] Cons.prems by simp_all
  have "slash_fields (q @ slashed ps) = q # ps" using Cons by simp
  then show ?case using slash_fields.simps(2) [of c s] stop
    by (simp add: s del: slash_fields.simps(2) takeWhile.simps dropWhile.simps concat.simps list.map)
qed

lemma preparse_callsigns:
  assumes "t \<in> set ''bBdDeEgGoOuU''" and pats: "pats \<noteq> []" "last pats \<noteq> []" "\<forall>p \<in> set pats. CHR ''/'' \<notin> set p"
  shows "filter_preparse (t # slashed pats) None =
    Inr (New ((filter_zero t)\<lparr>f_refcallsigns := map (parse_refcallsign False) pats\<rparr>))"
proof -
  obtain p ps where ps: "pats = p # ps" using pats(1) by (cases pats) auto
  have t: "t \<noteq> CHR ''-''" "t \<noteq> CHR ''/''" "t \<in> set filter_types" "toupper t \<in> set ''BDEGOU''" "toupper t \<noteq> CHR ''A''"
  proof -
    show "t \<noteq> CHR ''-''" "t \<noteq> CHR ''/''" "t \<in> set filter_types" using assms(1) by (auto simp: filter_types_def)
    show up: "toupper t \<in> set ''BDEGOU''"
      using assms(1) by (simp only: list.set insert_iff empty_iff, elim disjE) (simp_all add: cstr_simps)
    show "toupper t \<noteq> CHR ''A''" using up by auto
  qed
  have "after_slash (t # slashed pats) = p @ slashed ps" using t ps by (simp add: after_slash_def)
  moreover have "slash_fields (p @ slashed ps) = pats" using slash_fields_join [of p ps] pats ps by simp
  ultimately have "filter_parse_one_callsignset (t # slashed pats) (filter_zero t) None MatchWild =
      Inr (New ((filter_zero t)\<lparr>f_refcallsigns := map (parse_refcallsign False) pats\<rparr>))"
    using pats(1) by (simp add: filter_parse_one_callsignset_def Let_def del: concat.simps list.map)
  then show ?thesis
    using t by (simp add: filter_preparse_def Let_def rd_def del: concat.simps list.map)
qed

lemma preparse_prefixes:
  assumes "t \<in> {CHR ''p'', CHR ''P''}" and pats: "pats \<noteq> []" "last pats \<noteq> []" "\<forall>p \<in> set pats. CHR ''/'' \<notin> set p \<and> CHR ''*'' \<notin> set p"
  shows "filter_preparse (t # slashed pats) None =
    Inr (New ((filter_zero t)\<lparr>f_refcallsigns := map (parse_refcallsign False) pats\<rparr>))"
proof -
  obtain p ps where ps: "pats = p # ps" using pats(1) by (cases pats) auto
  have t: "t \<noteq> CHR ''-''" "t \<noteq> CHR ''/''" "t \<in> set filter_types" "toupper t = CHR ''P''"
    using assms(1) by (auto simp: filter_types_def cstr_simps)
  have "after_slash (t # slashed pats) = p @ slashed ps" using t ps by (simp add: after_slash_def)
  moreover have "slash_fields (p @ slashed ps) = pats" using slash_fields_join [of p ps] pats ps by simp
  ultimately have "filter_parse_one_callsignset (t # slashed pats) (filter_zero t) None MatchPrefix =
      Inr (New ((filter_zero t)\<lparr>f_refcallsigns := map (parse_refcallsign False) pats\<rparr>))"
    using pats by (simp add: filter_parse_one_callsignset_def Let_def del: concat.simps list.map)
  then show ?thesis
    using t by (simp add: filter_preparse_def Let_def rd_def del: concat.simps list.map)
qed

text \<open>The stations a packet counts as coming from: its source and, unless it is an object or item, the
  station of the inner packet of third-party traffic.\<close>

definition source_calls :: "pbuf_t \<Rightarrow> string set" where
  "source_calls pb = insert (take (pb_srccall_end pb) (pb_data pb))
     (if has_flag (pb_packettype pb) (T_OBJECT OR T_ITEM) then {} else {pb_srcname pb})"

definition calls_wf :: "pbuf_t \<Rightarrow> bool" where
  "calls_wf pb \<longleftrightarrow> (\<forall>s \<in> source_calls pb. length s \<le> CALLSIGNLEN_MAX \<and> NUL \<notin> set s)"

lemma match_source_eq:
  assumes wf: "calls_wf pb"
    and set: "\<And>k. k \<in> source_calls pb \<Longrightarrow> filter_match_on_callsignset k f w = (if Q k then 1 else 0)"
  shows "match_source w pb f = (if \<exists>k \<in> source_calls pb. Q k then 1 else 0)"
proof -
  let ?src = "take (pb_srccall_end pb) (pb_data pb)"
  have cut: "take CALLSIGNLEN_MAX k = k" if "k \<in> source_calls pb" for k using wf that by (auto simp: calls_wf_def)
  have src: "?src \<in> source_calls pb" by (simp add: source_calls_def)
  note M = set [OF src] cut [OF src]
  show ?thesis
  proof (cases "has_flag (pb_packettype pb) (T_OBJECT OR T_ITEM)")
    case True
    then have "source_calls pb = {?src}" by (simp add: source_calls_def)
    then show ?thesis using M True by (simp add: match_source_def Let_def)
  next
    case False
    then have calls: "source_calls pb = {?src, pb_srcname pb}" by (simp add: source_calls_def)
    then have "pb_srcname pb \<in> source_calls pb" by simp
    note N = set [OF this] cut [OF this]
    show ?thesis unfolding calls match_source_def Let_def M(2) N(2) M(1) N(1) using False by auto
  qed
qed

text \<open>C9. Budlist and prefix filters, from their text to their verdict: the text \<^verbatim>\<open>b/\<close> with patterns is
  accepted and passes exactly the packets of stations that one of the patterns matches, the text \<^verbatim>\<open>p/\<close>
  with prefixes exactly those of stations that start with one of them.\<close>

theorem callsign_filter_meaning:
  assumes pats: "pats \<noteq> []" "last pats \<noteq> []" "\<forall>p \<in> set pats. CHR ''/'' \<notin> set p \<and> NUL \<notin> set p" and wf: "calls_wf pb"
  shows "(\<exists>f. filter_preparse (''b'' @ slashed pats) None = Inr (New f) \<and>
      filter_process_one env c pb f = (if \<exists>k \<in> source_calls pb. \<exists>p \<in> set pats. pattern_matches p k then 1 else 0, f))
    \<and> ((\<forall>p \<in> set pats. CHR ''*'' \<notin> set p) \<longrightarrow>
      (\<exists>f. filter_preparse (''p'' @ slashed pats) None = Inr (New f) \<and>
        filter_process_one env c pb f = (if \<exists>k \<in> source_calls pb. \<exists>p \<in> set pats. prefix_matches p k then 1 else 0, f)))"
proof (intro conjI impI)
  have k: "NUL \<notin> set k" "length k \<le> CALLSIGNLEN_MAX" if "k \<in> source_calls pb" for k
    using wf that by (auto simp: calls_wf_def)
  have nul: "\<forall>p \<in> set pats. NUL \<notin> set p" using pats(3) by blast
  let ?f = "\<lambda>t. (filter_zero t)\<lparr>f_refcallsigns := map (parse_refcallsign False) pats\<rparr>"
  have up: "toupper (CHR ''b'') = CHR ''B''" "toupper (CHR ''p'') = CHR ''P''" by (simp_all add: cstr_simps)
  have b: "match_source MatchWild pb (?f t) = (if \<exists>k \<in> source_calls pb. \<exists>p \<in> set pats. pattern_matches p k then 1 else 0)" for t
    using match_on_patterns(1) [of "?f t" pats, OF _ nul k] by (intro match_source_eq [OF wf]) simp
  show "\<exists>f. filter_preparse (''b'' @ slashed pats) None = Inr (New f) \<and>
      filter_process_one env c pb f = (if \<exists>k \<in> source_calls pb. \<exists>p \<in> set pats. pattern_matches p k then 1 else 0, f)"
    using preparse_callsigns [of "CHR ''b''" pats] pats b [of "CHR ''b''"]
    by (simp add: filter_process_one_def filter_process_one_b_def up Let_def)
  assume star: "\<forall>p \<in> set pats. CHR ''*'' \<notin> set p"
  have "match_source MatchPrefix pb (?f t) = (if \<exists>k \<in> source_calls pb. \<exists>p \<in> set pats. prefix_matches p k then 1 else 0)" for t
    using match_on_patterns(2) [of "?f t" pats, OF _ nul k star] by (intro match_source_eq [OF wf]) simp
  then show "\<exists>f. filter_preparse (''p'' @ slashed pats) None = Inr (New f) \<and>
      filter_process_one env c pb f = (if \<exists>k \<in> source_calls pb. \<exists>p \<in> set pats. prefix_matches p k then 1 else 0, f)"
    using preparse_prefixes [of "CHR ''p''" pats] pats star
    by (simp add: filter_process_one_def filter_process_one_p_def up Let_def)
qed

section \<open>Digipeaters\<close>

text \<open>A path as its elements, each behind a comma; an element without its asterisk.\<close>

abbreviation comma_path :: "string list \<Rightarrow> string" where
  "comma_path vs \<equiv> concat (map (Cons (CHR '','')) vs)"

definition strip_used :: "string \<Rightarrow> string" where
  "strip_used v = (if last v = CHR ''*'' then butlast v else v)"

definition via_ok :: "string \<Rightarrow> bool" where
  "via_ok v \<longleftrightarrow> v \<noteq> [] \<and> CHR '','' \<notin> set v \<and> length (strip_used v) \<le> CALLSIGNLEN_MAX"

lemma via_ok_length: "via_ok v \<Longrightarrow> length v \<le> CALLSIGNLEN_MAX + 1 \<and> v \<noteq> []"
  by (auto simp: via_ok_def strip_used_def split: if_splits)

text \<open>One step of either loop, at an element or at the comma before it.\<close>

lemma path_step:
  assumes s: "s = pre @ comma_path (v # vs) @ CHR '','' # rest" and v: "via_ok v"
    and d: "d = length pre \<or> d = length pre + 1" and q: "q = length pre + length (comma_path (v # vs))"
  shows "d < q" and "skip_comma s d = length pre + 1" and "elem_len s q (length pre + 1) = length v"
    and "rd s (length pre + 1 + length v - 1) = last v"
    and "sub s (length pre + 1) (length pre + 1 + length (strip_used v)) = strip_used v"
    and "rd s (length pre + 1 + length (strip_used v)) = CHR ''*'' \<longleftrightarrow> last v = CHR ''*''"
proof -
  let ?d = "length pre + 1"
  note V = via_ok_length [OF v]
  then obtain x v' where x: "v = x # v'" by (cases v) auto
  have xc: "x \<noteq> CHR '',''" using v x by (auto simp: via_ok_def)
  show "d < q" using d q V by (auto simp: x)
  show "skip_comma s d = ?d"
    using d xc by (auto simp: skip_comma_def s x rd_def nth_append)
  obtain r where r: "comma_path vs @ CHR '','' # rest = CHR '','' # r" by (cases vs) auto
  have s': "s = (pre @ [CHR '','']) @ v @ CHR '','' # r" unfolding s using r by simp
  have drop: "drop ?d s = v @ CHR '','' # r" unfolding s' by simp
  have nc: "takeWhile (\<lambda>c. c \<noteq> CHR '','') (take k (v @ CHR '','' # r)) = v" if "length v \<le> k" for k
  proof -
    have "take k (v @ CHR '','' # r) = v @ take (k - length v) (CHR '','' # r)" using that by simp
    moreover have "\<forall>c \<in> set v. c \<noteq> CHR '',''" using v by (auto simp: via_ok_def)
    ultimately show ?thesis by (cases "k - length v") (simp_all add: takeWhile_append2 takeWhile_eq_all_conv)
  qed
  have "length v \<le> min (q + 1) (?d + CALLSIGNLEN_MAX + 1) - ?d" using V q by (simp add: min_def)
  from nc [OF this] show "elem_len s q ?d = length v" by (simp add: elem_len_def scan_def sub_def drop [simplified])
  have at: "rd s (?d + k) = v ! k" if "k < length v" for k
    using that unfolding s' by (simp add: rd_def nth_append)
  show "rd s (?d + length v - 1) = last v"
    using at [of "length v - 1"] V by (cases v) (simp_all add: last_conv_nth)
  have pre: "take (length (strip_used v)) v = strip_used v"
    by (auto simp: strip_used_def butlast_conv_take)
  have le: "length (strip_used v) \<le> length v" by (simp add: strip_used_def)
  show "sub s ?d (?d + length (strip_used v)) = strip_used v"
    using pre le by (simp add: sub_def drop [simplified])
  show "rd s (?d + length (strip_used v)) = CHR ''*'' \<longleftrightarrow> last v = CHR ''*''"
  proof (cases "last v = CHR ''*''")
    case True
    then show ?thesis using at [of "length v - 1"] V by (simp add: strip_used_def last_conv_nth)
  next
    case False
    have "rd s (?d + length v) = CHR '',''" unfolding s' by (simp add: rd_def nth_append)
    with False show ?thesis by (simp add: strip_used_def)
  qed
qed

lemma digi_used_eq:
  assumes "\<forall>v \<in> set vs. via_ok v" and "length vs \<le> left" and "d = length pre \<or> d = length pre + 1"
    and "s = pre @ comma_path vs @ CHR '','' # rest" and "q = length pre + length (comma_path vs)"
  shows "digi_used left s q d \<longleftrightarrow> (\<exists>v \<in> set vs. last v = CHR ''*'')"
  using assms
proof (induction vs arbitrary: left d pre)
  case Nil
  then show ?case by (cases left) auto
next
  case (Cons v vs)
  then obtain l where l: "left = Suc l" by (cases left) auto
  note S = path_step [OF Cons.prems(4) _ Cons.prems(3,5)]
  have v: "via_ok v" using Cons.prems by simp
  let ?pre = "pre @ CHR '','' # v"
  have "digi_used l s q (length ?pre) \<longleftrightarrow> (\<exists>v \<in> set vs. last v = CHR ''*'')"
    using Cons.prems l by (intro Cons.IH [of _ _ ?pre]) auto
  then show ?case using S [OF v] l by (simp add: Let_def)
qed

text \<open>Both loops together.\<close>

definition digi_result :: "nat \<Rightarrow> string \<Rightarrow> nat \<Rightarrow> filter_t \<Rightarrow> nat \<Rightarrow> bool" where
  "digi_result left s q f d =
     (case digi_find left s q f d of
        None \<Rightarrow> False
      | Some (d1, i, cl, l) \<Rightarrow> rd s (d1 + cl) = CHR ''*'' \<or> digi_used l s q (d1 + i))"

text \<open>Some element of the path is in the set and it or a later one has been used.\<close>

fun digipeated :: "(string \<Rightarrow> bool) \<Rightarrow> string list \<Rightarrow> bool" where
  "digipeated P [] = False"
| "digipeated P (v # vs) =
     (P (strip_used v) \<and> (\<exists>w \<in> set (v # vs). last w = CHR ''*'') \<or> digipeated P vs)"

lemma digi_result_eq:
  assumes "\<forall>v \<in> set vs. via_ok v" and "length vs \<le> left" and "d = length pre \<or> d = length pre + 1"
    and "s = pre @ comma_path vs @ CHR '','' # rest" and "q = length pre + length (comma_path vs)"
  shows "digi_result left s q f d \<longleftrightarrow> digipeated (\<lambda>k. filter_match_on_callsignset k f MatchWild = 1) vs"
  using assms
proof (induction vs arbitrary: left d pre)
  case Nil
  then show ?case by (cases left) (auto simp: digi_result_def)
next
  case (Cons v vs)
  then obtain l where l: "left = Suc l" by (cases left) auto
  have v: "via_ok v" using Cons.prems by simp
  note S = path_step [OF Cons.prems(4) v Cons.prems(3,5)]
  let ?pre = "pre @ CHR '','' # v" and ?P = "\<lambda>k. filter_match_on_callsignset k f MatchWild = 1"
  have rest: "digi_result l s q f (length ?pre) \<longleftrightarrow> digipeated ?P vs"
    "digi_used l s q (length ?pre) \<longleftrightarrow> (\<exists>v \<in> set vs. last v = CHR ''*'')"
    using Cons.prems l by (intro Cons.IH [of _ _ ?pre] digi_used_eq [of _ _ _ ?pre]; auto)+
  have cl: "min CALLSIGNLEN_MAX (if last v = CHR ''*'' then length v - 1 else length v) = length (strip_used v)"
    using v by (auto simp: via_ok_def strip_used_def min_def split: if_splits)
  have pos: "length ?pre = length pre + 1 + length v" by simp
  have used: "digipeated ?P vs \<Longrightarrow> \<exists>w \<in> set vs. last w = CHR ''*''"
    by (induction vs) auto
  have find: "digi_find left s q f d =
      (if ?P (strip_used v) then Some (length pre + 1, length v, length (strip_used v), l)
       else digi_find l s q f (length ?pre))"
    unfolding l digi_find.simps Let_def S(2,3) using S(1,4,5) cl by (simp del: One_nat_def) (simp add: ac_simps)
  show ?case
  proof (cases "?P (strip_used v)")
    case True
    then show ?thesis
      unfolding digi_result_def find using S(6) rest(2) [unfolded pos] used by (auto simp del: One_nat_def)
  next
    case False
    then show ?thesis using rest(1) unfolding digi_result_def find by simp
  qed
qed

text \<open>The digipeater filter passes exactly the packets of whose path, up to the q construct, some element is
  in the set and is marked as used, or a later one is.\<close>

theorem filter_d_meaning:
  assumes "pb_data pb = hdr @ comma_path vias @ CHR '','' # rest" and "\<forall>v \<in> set vias. via_ok v" and "length vias \<le> 10"
    and "pb_srccall_end pb + 1 + pb_dstcall_len pb = length hdr"
    and "pb_qconst_start pb = length hdr + length (comma_path vias) + 1"
  shows "filter_process_one_d pb f =
    (if digipeated (\<lambda>k. filter_match_on_callsignset k f MatchWild = 1) vias then 1 else 0)"
proof -
  have "digi_result 10 (pb_data pb) (pb_qconst_start pb - 1) f (pb_srccall_end pb + 1 + pb_dstcall_len pb + 1) \<longleftrightarrow>
      digipeated (\<lambda>k. filter_match_on_callsignset k f MatchWild = 1) vias"
    using assms by (intro digi_result_eq [of _ _ _ hdr]) auto
  then show ?thesis
    unfolding filter_process_one_d_def digi_result_def Let_def
    by (cases "digi_find 10 (pb_data pb) (pb_qconst_start pb - 1) f (pb_srccall_end pb + 1 + pb_dstcall_len pb + 1)")
      (auto simp: case_prod_beta)
qed

section \<open>Great circles\<close>

lemma unit_dot_le_1:
  fixes a b :: real
  shows "\<bar>sin a * sin b + cos a * cos b * cos d\<bar> \<le> 1"
proof -
  let ?x = "sin a * sin b + cos a * (cos b * cos d)"
  have lagrange: "(p * u + r * v)\<^sup>2 + (p * v - r * u)\<^sup>2 = (p\<^sup>2 + r\<^sup>2) * (u\<^sup>2 + v\<^sup>2)" for p u r v :: real
    by (simp add: power2_eq_square algebra_simps)
  have "?x\<^sup>2 + (sin a * (cos b * cos d) - cos a * sin b)\<^sup>2 =
      ((sin a)\<^sup>2 + (cos a)\<^sup>2) * ((sin b)\<^sup>2 + (cos b * cos d)\<^sup>2)"
    by (rule lagrange)
  then have "?x\<^sup>2 \<le> (sin b)\<^sup>2 + (cos b * cos d)\<^sup>2"
    by (simp only: sin_cos_squared_add mult_1) (metis le_add_same_cancel1 zero_le_power2)
  also have "(cos b * cos d)\<^sup>2 \<le> (cos b)\<^sup>2"
    using mult_left_mono [of "(cos d)\<^sup>2" 1 "(cos b)\<^sup>2"] abs_cos_le_one [of d] by (simp add: power_mult_distrib abs_square_le_1)
  finally have "?x\<^sup>2 \<le> 1" by (smt (verit) sin_cos_squared_add)
  then show ?thesis by (simp add: abs_square_le_1 mult.assoc)
qed

lemma half_angle: "sin (t * 0.5) * sin (t * 0.5) = (1 - cos t) / (2 :: real)"
  using cos_double_sin [of "t / 2"] by (simp add: power2_eq_square)

lemma twice_atan2:
  fixes a :: real
  assumes "0 \<le> a" and "a \<le> 1"
  shows "2 * atan2 (sqrt a) (sqrt (1 - a)) = arccos (1 - 2 * a)"
proof -
  let ?t = "atan2 (sqrt a) (sqrt (1 - a))"
  have t: "0 \<le> ?t \<and> ?t \<le> pi / 2 \<and> (cos ?t)\<^sup>2 = 1 - a"
  proof (cases "a = 1")
    case False
    then have pos: "0 < sqrt (1 - a)" using assms by simp
    then have eq: "?t = arctan (sqrt a / sqrt (1 - a))" by (simp add: atan2_def)
    have "1 + (sqrt a / sqrt (1 - a))\<^sup>2 = 1 / (1 - a)"
      using assms False by (simp add: power_divide field_simps)
    then have "(cos ?t)\<^sup>2 = 1 - a"
      unfolding eq cos_arctan using assms by (simp add: power_divide)
    moreover have "0 \<le> ?t" unfolding eq using assms by (simp add: zero_le_arctan_iff)
    moreover have "?t \<le> pi / 2" unfolding eq using arctan_ubound less_imp_le by blast
    ultimately show ?thesis by simp
  qed (simp add: atan2_def)
  then have "cos (2 * ?t) = 1 - 2 * a" using cos_double_cos [of ?t] by simp
  moreover have "arccos (cos (2 * ?t)) = 2 * ?t" using t by (intro arccos_cos) auto
  ultimately show ?thesis by simp
qed

text \<open>C37. The distance of the range filters is the great-circle distance of the two places, by the spherical law
  of cosines, at 111.2 km per degree.\<close>

theorem maidenhead_is_great_circle:
  "maidenhead_km_distance lat1 (cos lat1) lon1 lat2 (cos lat2) lon2 =
     111.2 * (180 / pi) * arccos (sin lat1 * sin lat2 + cos lat1 * cos lat2 * cos (lon1 - lon2))"
proof -
  let ?x = "sin lat1 * sin lat2 + cos lat1 * cos lat2 * cos (lon1 - lon2)"
  let ?a = "sin ((lat1 - lat2) * 0.5) * sin ((lat1 - lat2) * 0.5) +
      cos lat1 * cos lat2 * sin ((lon1 - lon2) * 0.5) * sin ((lon1 - lon2) * 0.5)"
  have "?a = (1 - cos (lat1 - lat2)) / 2 + cos lat1 * cos lat2 * ((1 - cos (lon1 - lon2)) / 2)"
    unfolding half_angle [symmetric] by (simp only: mult.assoc)
  also have "\<dots> = (1 - ?x) / 2" by (simp add: cos_diff field_simps)
  finally have a: "?a = (1 - ?x) / 2" .
  have "\<bar>?x\<bar> \<le> 1" by (rule unit_dot_le_1)
  then have "0 \<le> ?a" "?a \<le> 1" unfolding a by (auto simp: abs_le_iff)
  from twice_atan2 [OF this] have "2 * atan2 (sqrt ?a) (sqrt (1 - ?a)) = arccos (1 - 2 * ?a)" .
  moreover have "1 - 2 * ?a = ?x" unfolding a by (simp add: field_simps)
  ultimately have "2 * atan2 (sqrt ?a) (sqrt (1 - ?a)) = arccos ?x" by simp
  then show ?thesis unfolding maidenhead_km_distance_def Let_def by simp
qed

section \<open>Concrete runs\<close>

lemma demo_calls: "source_calls demo_igated = {''OH2A'', []}" "calls_wf demo_igated"
  by (simp_all add: source_calls_def calls_wf_def demo_igated_def pbuf_zero_def has_flag_def len_defs insert_commute)

lemma demo_pattern: "pattern_matches ''OH2*'' ''OH2A''"
proof -
  have "''OH2A'' = ''OH2'' @ ''A''" by simp
  then show ?thesis unfolding pattern_matches_def Let_def by (simp add: len_defs) (metis strcaseeq_refl append_Cons append_Nil)
qed

theorem callsign_filter_meaning_witness:
  "\<exists>f. filter_preparse ''b/OH2*/LZ1A'' None = Inr (New f) \<and>
     filter_process_one demo_filter_env demo_client demo_igated f = (1, f)"
proof -
  have "slashed [''OH2*'', ''LZ1A''] = ''/OH2*/LZ1A''" by simp
  then show ?thesis
    using callsign_filter_meaning [of "[''OH2*'', ''LZ1A'']" demo_igated demo_filter_env demo_client] demo_calls demo_pattern
    by simp
qed

definition demo_digi :: pbuf_t where
  "demo_digi = (pbuf_zero 0 180)\<lparr>pb_data := ''OH2A>APRS,OH2R,WIDE2*,qAR,OH2RDY:>x'', pb_srccall_end := 4, pb_dstcall_len := 4,
     pb_qconst_start := 22\<rparr>"

theorem filter_d_meaning_witness:
  "filter_process_one_d demo_digi ((filter_zero (CHR ''d''))\<lparr>f_refcallsigns := [\<lparr>rc_callsign = ''OH2'', rc_reflen = 0x83\<rparr>]\<rparr>) = 1"
proof -
  let ?f = "(filter_zero (CHR ''d''))\<lparr>f_refcallsigns := [\<lparr>rc_callsign = ''OH2'', rc_reflen = 0x83\<rparr>]\<rparr>"
  have "ref_hit ''OH2R'' MatchWild \<lparr>rc_callsign = ''OH2'', rc_reflen = 0x83\<rparr>"
    by (simp add: ref_hit_def ref_buf_def len_defs LengthMask_def WildCard_def has_flag_def strncaseeq_def cstr_simps)
  then have "filter_match_on_callsignset ''OH2R'' ?f MatchWild = 1"
    by (simp add: filter_match_on_callsignset_def NegationFlag_def has_flag_def)
  then have "digipeated (\<lambda>k. filter_match_on_callsignset k ?f MatchWild = 1) [''OH2R'', ''WIDE2*'']"
    by (simp add: strip_used_def)
  then show ?thesis
    using filter_d_meaning [of demo_digi "''OH2A>APRS''" "[''OH2R'', ''WIDE2*'']" "''qAR,OH2RDY:>x''" ?f]
    by (simp add: demo_digi_def via_ok_def strip_used_def len_defs)
qed

end
