(* ===== verification/Cfgfile.thy ===== *)
theory Cfgfile
  imports C_Scan
begin

text \<open>
  The text utilities of \<^verbatim>\<open>src/src/cfgfile.c\<close> and \<^verbatim>\<open>src/src/config.c\<close> that the packet path uses: splitting a line
  into words, with and without quotes, and cleaning up text for display. A line is a C string. The
  functions work in place; a word never grows, so what is still to be read is never overwritten.
\<close>

section \<open>Quoted strings\<close>

definition strtoul_char :: "nat \<Rightarrow> char" where
  "strtoul_char v = (if 2 ^ 64 \<le> v then char_of (255 :: nat) else char_of (v mod 256))"

text \<open>The letter behind a backslash, for the escapes of one letter.\<close>

definition escape_char :: "char \<Rightarrow> char" where
  "escape_char c =
     (if c = CHR ''n'' then CHR 0x0A else if c = CHR ''t'' then CHR 0x09 else if c = CHR ''v'' then CHR 0x0B
      else if c = CHR ''b'' then CHR 0x08 else if c = CHR ''r'' then CHR 0x0D else if c = CHR ''f'' then CHR 0x0C
      else if c = CHR ''a'' then CHR 0x07 else c)"

definition is_octal :: "char \<Rightarrow> bool" where
  "is_octal c \<longleftrightarrow> 48 \<le> byte_code c \<and> byte_code c \<le> 55"

text \<open>The bytes of the string and what is behind its closing quote; None when the line ends in a
  backslash. For a hexadecimal escape \<^verbatim>\<open>strtoul\<close> is called at the letter \<^verbatim>\<open>x\<close>: it converts nothing, gives
  zero and the letter is read again.\<close>

function parse_string :: "string \<Rightarrow> (string \<times> string) option" where
  "parse_string [] = Some ([], [])"
| "parse_string (c # s) =
     (if c = CHR 0x22 then Some ([], s)
      else if c = CHR 0x5C then
        (case s of
           [] \<Rightarrow> None
         | e # r \<Rightarrow>
             if e = CHR ''x'' then map_option (apfst (Cons NUL)) (parse_string (e # r))
             else if is_octal e then
               map_option (apfst (Cons (strtoul_char (num_val 8 (takeWhile is_octal (e # r))))))
                 (parse_string (dropWhile is_octal r))
             else map_option (apfst (Cons (escape_char e))) (parse_string r))
      else map_option (apfst (Cons c)) (parse_string s))"
  by pat_completeness auto

termination parse_string
  by (relation "measure length") (auto simp: less_Suc_eq_le intro: le_trans [OF length_dropWhile_le])

section \<open>Words\<close>

text \<open>The string a word pointer denotes ends at the first NUL.\<close>

definition c_word :: "string \<Rightarrow> string" where
  "c_word s = takeWhile (\<lambda>c. c \<noteq> NUL) s"

text \<open>At most 255 words; the byte behind a word is overwritten by its terminator. None is the early
  return of zero words.\<close>

primrec parse_args_loop :: "nat \<Rightarrow> string \<Rightarrow> string list option" where
  "parse_args_loop 0 cmd = Some []"
| "parse_args_loop (Suc n) cmd =
     (let c = dropWhile isspace cmd
      in if c = [] then Some []
         else if hd c = CHR 0x22 then
           (case parse_string (tl c) of
              None \<Rightarrow> None
            | Some (w, r) \<Rightarrow> map_option (Cons (c_word w)) (parse_args_loop n (drop 1 r)))
         else map_option (Cons (takeWhile (\<lambda>x. \<not> isspace x) c))
                (parse_args_loop n (drop 1 (dropWhile (\<lambda>x. \<not> isspace x) c))))"

definition parse_args :: "string \<Rightarrow> string list" where
  "parse_args cmd = (case parse_args_loop 255 cmd of None \<Rightarrow> [] | Some ws \<Rightarrow> ws)"

primrec parse_args_noshell_loop :: "nat \<Rightarrow> string \<Rightarrow> string list" where
  "parse_args_noshell_loop 0 cmd = []"
| "parse_args_noshell_loop (Suc n) cmd =
     (let c = dropWhile isspace cmd
      in if c = [] then []
         else takeWhile (\<lambda>x. \<not> isspace x) c # parse_args_noshell_loop n (drop 1 (dropWhile (\<lambda>x. \<not> isspace x) c)))"

definition parse_args_noshell :: "string \<Rightarrow> string list" where
  "parse_args_noshell cmd = parse_args_noshell_loop 255 cmd"

section \<open>Text for display\<close>

definition iscntrl :: "char \<Rightarrow> bool" where
  "iscntrl c \<longleftrightarrow> byte_code c < 32 \<or> byte_code c = 127"

definition sanitize_ascii_string :: "string \<Rightarrow> string" where
  "sanitize_ascii_string s = map (\<lambda>c. if iscntrl c \<or> 128 \<le> byte_code c then CHR ''_'' else c) (c_word s)"

section \<open>Laws\<close>

text \<open>Words without spaces and quotes survive: joined by single spaces, they are found again.\<close>

definition plain_word :: "string \<Rightarrow> bool" where
  "plain_word w \<longleftrightarrow> w \<noteq> [] \<and> (\<forall>c \<in> set w. \<not> isspace c \<and> c \<noteq> CHR 0x22)"

abbreviation spaced :: "string list \<Rightarrow> string" where
  "spaced ws \<equiv> concat (map (\<lambda>w. w @ '' '') ws)"

lemma isspace_space [simp]: "isspace (CHR '' '')"
  by (simp add: isspace_def byte_code_def)

lemma word_step:
  assumes "plain_word w"
  shows "dropWhile isspace (w @ CHR '' '' # r) = w @ CHR '' '' # r"
    and "takeWhile (\<lambda>x. \<not> isspace x) (w @ CHR '' '' # r) = w"
    and "dropWhile (\<lambda>x. \<not> isspace x) (w @ CHR '' '' # r) = CHR '' '' # r"
    and "w @ CHR '' '' # r \<noteq> []" and "hd (w @ CHR '' '' # r) \<noteq> CHR 0x22"
proof -
  obtain x w' where w: "w = x # w'" using assms by (cases w) (auto simp: plain_word_def)
  have all: "\<forall>c \<in> set w. \<not> isspace c" using assms by (simp add: plain_word_def)
  show "dropWhile isspace (w @ CHR '' '' # r) = w @ CHR '' '' # r" using all w by simp
  show "takeWhile (\<lambda>x. \<not> isspace x) (w @ CHR '' '' # r) = w"
    "dropWhile (\<lambda>x. \<not> isspace x) (w @ CHR '' '' # r) = CHR '' '' # r"
    using all by (simp_all add: takeWhile_append2 dropWhile_append2)
  show "w @ CHR '' '' # r \<noteq> []" "hd (w @ CHR '' '' # r) \<noteq> CHR 0x22" using assms w by (auto simp: plain_word_def)
qed

lemma parse_args_loop_spaced:
  "\<forall>w \<in> set ws. plain_word w \<Longrightarrow> length ws \<le> n \<Longrightarrow> parse_args_loop n (spaced ws) = Some ws"
proof (induction ws arbitrary: n)
  case Nil
  then show ?case by (cases n) simp_all
next
  case (Cons w ws)
  then obtain m where "n = Suc m" by (cases n) auto
  with Cons word_step [of w "spaced ws"] show ?case by (simp add: Let_def)
qed

lemma parse_args_spaced: "\<forall>w \<in> set ws. plain_word w \<Longrightarrow> length ws \<le> 255 \<Longrightarrow> parse_args (spaced ws) = ws"
  by (simp add: parse_args_def parse_args_loop_spaced)

lemma sanitize_clean: "c \<in> set (sanitize_ascii_string s) \<Longrightarrow> \<not> iscntrl c \<and> byte_code c < 128"
  by (auto simp: sanitize_ascii_string_def iscntrl_def byte_code_def not_le split: if_splits)

lemma set_parse_args_loop_noshell: "w \<in> set (parse_args_noshell_loop n cmd) \<Longrightarrow> w \<noteq> [] \<and> (\<forall>c \<in> set w. \<not> isspace c \<and> c \<in> set cmd)"
proof (induction n arbitrary: cmd)
  case (Suc n)
  let ?c = "dropWhile isspace cmd"
  show ?case
  proof (cases "?c = []")
    case False
    have sub: "set (drop 1 (dropWhile (\<lambda>x. \<not> isspace x) ?c)) \<subseteq> set cmd"
      by (meson in_set_dropD set_dropWhileD subsetI)
    have hd: "\<not> isspace (hd ?c)" using False hd_dropWhile by blast
    consider "w = takeWhile (\<lambda>x. \<not> isspace x) ?c" | "w \<in> set (parse_args_noshell_loop n (drop 1 (dropWhile (\<lambda>x. \<not> isspace x) ?c)))"
      using Suc.prems unfolding parse_args_noshell_loop.simps Let_def if_not_P [OF False] by auto
    then show ?thesis
    proof cases
      case 1
      have "set ?c \<subseteq> set cmd" by (meson set_dropWhileD subsetI)
      then show ?thesis using 1 hd False by (cases ?c) (auto dest: set_takeWhileD)
    next
      case 2
      then show ?thesis using Suc.IH sub by blast
    qed
  qed (use Suc.prems in simp)
qed simp

end
