(* ===== verification/Messaging.thy ===== *)
theory Messaging
  imports C_Scan
begin

text \<open>
  \<^verbatim>\<open>src/src/messaging.c\<close>: messages from the server to a client. The four numbers \<^verbatim>\<open>random()\<close> gives for a
  message id are an argument.
\<close>

definition APRSC_TOCALL :: string where "APRSC_TOCALL = ''APSC20''"

definition msgid_char :: "nat \<Rightarrow> char" where
  "msgid_char r =
     (let c = r mod (2 * 26 + 10)
      in if c < 10 then char_of (c + 48) else if c < 26 + 10 then char_of (c - 10 + 97) else char_of (c - 36 + 65))"

definition messaging_generate_msgid :: "(nat \<Rightarrow> nat) \<Rightarrow> nat \<Rightarrow> string" where
  "messaging_generate_msgid rnd buflen = map (\<lambda>i. msgid_char (rnd i)) [0..<buflen - 1]"

text \<open>\<^verbatim>\<open>%-9s\<close>.\<close>

definition pad9 :: "string \<Rightarrow> string" where
  "pad9 s = s @ replicate (9 - length s) (CHR '' '')"

definition messaging_ack :: "(string \<Rightarrow> int) \<Rightarrow> string \<Rightarrow> string \<Rightarrow> string \<Rightarrow> int \<times> string option" where
  "messaging_ack write sid srcname msgid =
     client_printf write (''SERVER>'' @ APRSC_TOCALL @ '',TCPIP*,qAZ,'' @ sid @ ''::'' @ pad9 srcname @
       '':ack'' @ msgid @ CRLF)"

definition messaging_message_client ::
    "(string \<Rightarrow> int) \<Rightarrow> (nat \<Rightarrow> nat) \<Rightarrow> string \<Rightarrow> client_t \<Rightarrow> string \<Rightarrow> int \<times> string option" where
  "messaging_message_client write rnd sid c txt =
     client_printf write (''SERVER>'' @ APRSC_TOCALL @ '',TCPIP*,qAZ,'' @ sid @ ''::'' @ pad9 (c_username c) @
       '':'' @ snprintf_buf PACKETLEN_MAX txt @ ''{'' @ messaging_generate_msgid rnd 5 @ CRLF)"

text \<open>A message id is letters and digits.\<close>

lemma isalnum_msgid_char: "isalnum (msgid_char r)"
proof -
  have "r mod 62 < 62" by simp
  then consider "r mod 62 < 10" | "10 \<le> r mod 62" "r mod 62 < 36" | "36 \<le> r mod 62" "r mod 62 < 62" by linarith
  then show ?thesis by cases (auto simp: msgid_char_def Let_def ctype_defs)
qed

lemma generate_msgid: "length (messaging_generate_msgid rnd n) = n - 1" "\<forall>c \<in> set (messaging_generate_msgid rnd n). isalnum c"
  by (auto simp: messaging_generate_msgid_def isalnum_msgid_char)

end
