(* ===== verification/Filter_Commands.thy ===== *)
theory Filter_Commands
  imports Filter_Parse Cfgfile Messaging
begin

text \<open>
  The filter commands of \<^verbatim>\<open>src/src/filter.c\<close>: query, reset and replacement of the user's filters of a client,
  as a line or in a message to the server.
\<close>

record cmd_env =
  ce_write :: "string \<Rightarrow> int"
  ce_random :: "nat \<Rightarrow> nat"
  ce_serverid :: string
  ce_alloc :: "nat \<Rightarrow> bool" \<comment> \<open>whether \<^verbatim>\<open>cellmalloc\<close> finds room for the filter with so many words behind it\<close>

definition FILTER_S_SIZE :: nat where "FILTER_S_SIZE = 256"

definition filter_command_reply :: "cmd_env \<Rightarrow> client_t \<Rightarrow> bool \<Rightarrow> string \<Rightarrow> int \<times> string option" where
  "filter_command_reply env c in_message txt =
     (let s = snprintf_buf PACKETLEN_MAX txt
      in if \<not> in_message then client_printf (ce_write env) (''# '' @ s @ CRLF)
         else messaging_message_client (ce_write env) (ce_random env) (ce_serverid env) c s)"

text \<open>The loop over the words; the results are not looked at.\<close>

primrec parse_words :: "(nat \<Rightarrow> bool) \<Rightarrow> string list \<Rightarrow> client_t \<times> int \<Rightarrow> client_t \<times> int" where
  "parse_words alloc [] cg = cg"
| "parse_words alloc (w # ws) cg = parse_words alloc ws (snd (filter_parse (alloc (length ws)) True w cg))"

definition free_user_filters :: "client_t \<times> int \<Rightarrow> client_t \<times> int" where
  "free_user_filters cg =
     (let (c, gauge) = cg
      in (c\<lparr>c_neguserfilters := [], c_posuserfilters := []\<rparr>,
          filter_free (c_posuserfilters c) (filter_free (c_neguserfilters c) gauge)))"

definition query_text :: "client_t \<Rightarrow> string" where
  "query_text c =
     ''# filters: '' @ concat (map (\<lambda>f. f_text f @ '' '') (c_neguserfilters c)) @
     concat (map (\<lambda>f. f_text f @ '' '') (c_posuserfilters c)) @ CRLF"

text \<open>The size the query buffer is allocated with.\<close>

definition query_size :: "client_t \<Rightarrow> nat" where
  "query_size c = sum_list (map (\<lambda>f. 2 + length (f_text f)) (c_neguserfilters c)) +
     sum_list (map (\<lambda>f. 2 + length (f_text f)) (c_posuserfilters c)) + 20"

text \<open>\<open>raw\<close> holds the bytes from the command on, \<open>len0\<close> of which belong to it.\<close>

definition filter_commands ::
    "cmd_env \<Rightarrow> bool \<Rightarrow> string \<Rightarrow> nat \<Rightarrow> client_t \<times> int \<Rightarrow> (int \<times> string option) \<times> client_t \<times> int" where
  "filter_commands env in_message raw len0 cg =
     (let (c, gauge) = cg; s = drop 6 raw; len = len0 - 6
      in if rd s 0 = CHR ''?'' \<and> len = 1 then
           ((ce_write env (query_text c), Some (query_text c)), c, gauge)
         else if rd s 0 \<noteq> CHR '' '' then
           (filter_command_reply env c in_message ''Filter: Bad input, no space character after filter command'', c, gauge)
         else
           let s1 = drop 1 s; len1 = len - 1; (c1, g1) = free_user_filters (c, gauge)
           in if strncaseeq 7 s1 ''default'' \<and> len1 = 7 then
                (filter_command_reply env c1 in_message ''User filters reset to default'', c1, g1)
              else
                let b = c_word (take len1 s1);
                    c2 = c1\<lparr>c_filter_s := sanitize_ascii_string (take (FILTER_S_SIZE - 1) b)\<rparr>;
                    (c3, g3) = parse_words (ce_alloc env) (parse_args b) (c2, g1)
                in (filter_command_reply env c3 in_message (''filter '' @ c_filter_s c3 @ '' active''), c3, g3))"

section \<open>Laws\<close>

lemma filter_parse_flags: "c_flags (fst (snd (filter_parse al u w cg))) = c_flags (fst cg)"
  by (auto simp: filter_parse_def set_filter_list_def Let_def split: prod.split sum.split parsed.split)

lemma parse_words_laws:
  assumes "\<forall>w \<in> set ws. NUL \<notin> set w" and "filters_wf c" and "parse_words alloc ws (c, g) = (c', g')"
  shows "filters_wf c' \<and> g' - g = num_filters c' - num_filters c \<and>
    (\<forall>n. filter_list False n c' = filter_list False n c)"
  using assms
proof (induction ws arbitrary: c g)
  case (Cons w ws)
  obtain rc c1 g1 where P: "filter_parse (alloc (length ws)) True w (c, g) = (rc, c1, g1)" by (metis prod_cases3)
  have nul: "NUL \<notin> set w" using Cons.prems(1) by simp
  note L = filter_parse_laws [OF Cons.prems(2) nul P]
  have "filters_wf c' \<and> g' - g1 = num_filters c' - num_filters c1 \<and> (\<forall>n. filter_list False n c' = filter_list False n c1)"
    using Cons.prems P L by (intro Cons.IH) auto
  with L show ?case by auto
qed auto

lemma free_user_laws:
  assumes "filters_wf c" and "free_user_filters (c, g) = (c', g')"
  shows "filters_wf c' \<and> g' - g = num_filters c' - num_filters c \<and> (\<forall>n. filter_list False n c' = filter_list False n c) \<and>
    c_neguserfilters c' = [] \<and> c_posuserfilters c' = [] \<and> c_flags c' = c_flags c"
proof -
  have c': "c' = c\<lparr>c_neguserfilters := [], c_posuserfilters := []\<rparr>" using assms(2) by (simp add: free_user_filters_def Let_def)
  have lists: "filter_list u n c' = (if u then [] else filter_list u n c)" for u n by (simp add: c' filter_list_def)
  have "filters_wf c'" using assms(1) by (simp add: filters_wf_def lists)
  then show ?thesis
    using assms(2) lists by (auto simp: free_user_filters_def Let_def num_filters_def filter_free_def)
qed

lemma filters_wf_filter_s [simp]:
  "filters_wf (c\<lparr>c_filter_s := x\<rparr>) = filters_wf c" "num_filters (c\<lparr>c_filter_s := x\<rparr>) = num_filters c"
  "filter_list u n (c\<lparr>c_filter_s := x\<rparr>) = filter_list u n c"
  by (simp_all add: filters_wf_def num_filters_def filter_list_def)

lemma set_parse_string: "parse_string s = Some (w, r) \<Longrightarrow> set r \<subseteq> set s"
proof (induction s arbitrary: w r rule: parse_string.induct)
  case (2 c s)
  consider (quote) "c = CHR 0x22" | (hex) e t where "c = CHR 0x5C" "s = e # t" "e = CHR ''x''"
    | (oct) e t where "c = CHR 0x5C" "s = e # t" "e \<noteq> CHR ''x''" "is_octal e"
    | (esc) e t where "c = CHR 0x5C" "s = e # t" "e \<noteq> CHR ''x''" "\<not> is_octal e"
    | (stop) "c = CHR 0x5C" "s = []" | (plain) "c \<noteq> CHR 0x22" "c \<noteq> CHR 0x5C"
    by (cases s) auto
  then show ?case
  proof cases
    case hex
    then obtain w' where "parse_string (e # t) = Some (w', r)" using 2(5) by auto
    then have "set r \<subseteq> set (e # t)" using 2(1) [OF _ _ hex(2,3)] hex(1) by simp
    then show ?thesis using hex by auto
  next
    case oct
    then obtain w' where "parse_string (dropWhile is_octal t) = Some (w', r)" using 2(5) by auto
    then have "set r \<subseteq> set (dropWhile is_octal t)" using 2(2) oct by auto
    then show ?thesis using oct by (auto dest!: subsetD set_dropWhileD)
  next
    case esc
    then obtain w' where "parse_string t = Some (w', r)" using 2(5) by auto
    then show ?thesis using 2(3) esc by auto
  next
    case plain
    then obtain w' where "parse_string s = Some (w', r)" using 2(5) by auto
    then show ?thesis using 2(4) plain by auto
  qed (use 2(5) in auto)
qed simp

lemma parse_args_no_NUL:
  "NUL \<notin> set cmd \<Longrightarrow> parse_args_loop n cmd = Some ws \<Longrightarrow> w \<in> set ws \<Longrightarrow> NUL \<notin> set w"
proof (induction n arbitrary: cmd ws)
  case (Suc n)
  let ?c = "dropWhile isspace cmd"
  have cN: "NUL \<notin> set ?c" using Suc.prems(1) by (auto dest: set_dropWhileD)
  have word: "NUL \<notin> set (c_word x)" for x by (auto simp: c_word_def dest: set_takeWhileD)
  consider "ws = []"
    | x r ws' where "parse_string (tl ?c) = Some (x, r)" "ws = c_word x # ws'" "parse_args_loop n (drop 1 r) = Some ws'"
    | ws' where "ws = takeWhile (\<lambda>x. \<not> isspace x) ?c # ws'"
        "parse_args_loop n (drop 1 (dropWhile (\<lambda>x. \<not> isspace x) ?c)) = Some ws'"
    using Suc.prems(2) unfolding parse_args_loop.simps Let_def
    by (auto split: if_splits option.splits)
  then show ?case
  proof cases
    case 2
    have "NUL \<notin> set (drop 1 r)"
      using set_parse_string [OF 2(1)] cN by (auto dest!: in_set_dropD simp: list.set_sel(2) subset_iff) (metis list.sel(2) list.set_sel(2))
    then show ?thesis using 2 Suc.IH Suc.prems(3) word by auto
  next
    case 3
    have "NUL \<notin> set (drop 1 (dropWhile (\<lambda>x. \<not> isspace x) ?c))" using cN by (meson in_set_dropD set_dropWhileD)
    then show ?thesis using 3 Suc.IH Suc.prems(3) cN by (auto dest: set_takeWhileD)
  qed (use Suc.prems in simp)
qed simp

lemma parse_args_words: "NUL \<notin> set cmd \<Longrightarrow> w \<in> set (parse_args cmd) \<Longrightarrow> NUL \<notin> set w"
  by (cases "parse_args_loop 255 cmd") (auto simp: parse_args_def dest: parse_args_no_NUL)


section \<open>Properties\<close>

text \<open>A filter command, whatever its text, keeps the client's filters well formed and their count right, and
  never touches the default filters of its port.\<close>

theorem filter_commands_keeps:
  assumes wf: "filters_wf c" and cmd: "filter_commands env in_message raw len (c, g) = (r, c', g')"
  shows "filters_wf c' \<and> g' - g = num_filters c' - num_filters c \<and> (\<forall>n. filter_list False n c' = filter_list False n c)"
proof -
  obtain c1 g1 where F: "free_user_filters (c, g) = (c1, g1)" by fastforce
  note L1 = free_user_laws [OF wf F]
  let ?b = "c_word (take (len - 6 - 1) (drop 1 (drop 6 raw)))"
  let ?c2 = "c1\<lparr>c_filter_s := sanitize_ascii_string (take (FILTER_S_SIZE - 1) ?b)\<rparr>"
  obtain c3 g3 where P: "parse_words (ce_alloc env) (parse_args ?b) (?c2, g1) = (c3, g3)" by fastforce
  have "NUL \<notin> set ?b" by (auto simp: c_word_def dest: set_takeWhileD)
  then have nul: "\<forall>w \<in> set (parse_args ?b). NUL \<notin> set w" using parse_args_words by blast
  have L3: "filters_wf c3 \<and> g3 - g1 = num_filters c3 - num_filters ?c2 \<and> (\<forall>n. filter_list False n c3 = filter_list False n ?c2)"
    by (rule parse_words_laws [OF nul _ P]) (use L1 in simp)
  consider "c' = c" "g' = g" | "c' = c1" "g' = g1" | "c' = c3" "g' = g3"
    using cmd F P unfolding filter_commands_def Let_def by (auto split: if_splits)
  then show ?thesis by cases (use wf L1 L3 in auto)
qed

text \<open>The reply to a query fits the buffer it is built in, with its terminator.\<close>

theorem filter_query_fits: "length (query_text c) + 1 \<le> query_size c"
proof -
  have "length (concat (map (\<lambda>f. f_text f @ '' '') fs)) \<le> sum_list (map (\<lambda>f. 2 + length (f_text f)) fs)" for fs
    by (induction fs) auto
  from this [of "c_neguserfilters c"] this [of "c_posuserfilters c"] show ?thesis
    by (simp add: query_text_def query_size_def)
qed

text \<open>The types that always make a filter of their own.\<close>

definition single_type :: "char \<Rightarrow> bool" where
  "single_type t \<longleftrightarrow> toupper t \<in> set ''AFMQRST''"

lemma exttext_parsers:
  "filter_parse_a x (filter_zero t) = Inr f \<Longrightarrow> f_exttext f = None" "filter_parse_f x (filter_zero t) = Inr f \<Longrightarrow> f_exttext f = None"
  "filter_parse_m x (filter_zero t) = Inr f \<Longrightarrow> f_exttext f = None" "filter_parse_r x (filter_zero t) = Inr f \<Longrightarrow> f_exttext f = None"
  "filter_parse_q x (filter_zero t) = Inr f \<Longrightarrow> f_exttext f = None" "filter_parse_t x (filter_zero t) = Inr f \<Longrightarrow> f_exttext f = None"
  "filter_parse_one_s x (filter_zero t) = Inr f \<Longrightarrow> f_exttext f = None"
  unfolding filter_parse_a_def filter_parse_f_def filter_parse_m_def filter_parse_r_def filter_parse_q_def
    filter_parse_t_def filter_parse_one_s_def Let_def
  by (auto split: if_splits option.splits list.splits prod.splits)

lemma map_sum_Inr: "map_sum id New x = Inr p \<longleftrightarrow> (\<exists>f. x = Inr f \<and> p = New f)"
  by (cases x) auto

lemma preparse_single:
  assumes t: "single_type (rd w 0)" and v: "filter_verify w = 0"
  shows "rd w 0 \<noteq> CHR ''-''" and "\<exists>f. filter_preparse w ff = Inr (New f) \<and> f_exttext f = None"
proof -
  have up: "\<not> single_type (CHR ''-'')" "\<not> single_type NUL" by (simp_all add: single_type_def cstr_simps)
  have ne: "rd w 0 \<noteq> CHR ''-''" "rd w 0 \<noteq> NUL" using t up by auto
  then show "rd w 0 \<noteq> CHR ''-''" by simp
  have not_set: "toupper (rd w 0) \<notin> set ''BDEGOU''" "toupper (rd w 0) \<noteq> CHR ''P''"
    using t by (auto simp: single_type_def)
  have same: "filter_preparse w ff = filter_preparse w None"
    using ne not_set by (simp add: filter_preparse_def Let_def)
  have "\<exists>p. filter_preparse w None = Inr p"
    using v preparse_error [of w None] by (cases "filter_preparse w None") (auto simp: filter_verify_def)
  then obtain p where p: "filter_preparse w None = Inr p" by blast
  have "\<exists>f. p = New f \<and> f_exttext f = None"
    using p ne not_set t unfolding filter_preparse_def Let_def single_type_def
    by (auto simp: map_sum_Inr split: if_splits dest: exttext_parsers)
  with p same show "\<exists>f. filter_preparse w ff = Inr (New f) \<and> f_exttext f = None" by auto
qed

lemma parse_words_single:
  assumes "\<forall>w \<in> set ws. single_type (rd w 0) \<and> filter_verify w = 0" and "\<And>i. alloc i"
    and "has_flag (c_flags c) CLFLAGS_USERFILTEROK"
  shows "c_neguserfilters (fst (parse_words alloc ws (c, g))) = c_neguserfilters c \<and>
    map f_text (c_posuserfilters (fst (parse_words alloc ws (c, g)))) = map f_text (c_posuserfilters c) @ ws"
  using assms(1,3)
proof (induction ws arbitrary: c g)
  case (Cons w ws)
  have w: "single_type (rd w 0)" "filter_verify w = 0" using Cons.prems by auto
  obtain f where f: "filter_preparse w (last_filter (c_posuserfilters c)) = Inr (New f)" "f_exttext f = None"
    using preparse_single(2) [OF w] by blast
  have "filter_parse (alloc (length ws)) True w (c, g) = (0, c\<lparr>c_posuserfilters := c_posuserfilters c @ [filter_store w f]\<rparr>, g + 1)"
    using preparse_single(1) [OF w] f assms(2) Cons.prems(2)
    by (simp add: filter_parse_def filter_list_def set_filter_list_def)
  then show ?case using Cons f(2) by simp
qed simp

text \<open>C10. What a client sets it can read back: filters of the types that are never merged, set by a command
  and each of them valid, are listed by a query in the order and with the text they were given.\<close>

theorem filter_command_query_roundtrip:
  assumes ws: "\<forall>w \<in> set ws. plain_word w \<and> NUL \<notin> set w \<and> single_type (rd w 0) \<and> filter_verify w = 0" "length ws \<le> 255"
    and c: "has_flag (c_flags c) CLFLAGS_USERFILTEROK" and alloc: "\<And>i. ce_alloc env i"
    and cmd: "filter_commands env m (''filter '' @ spaced ws) (7 + length (spaced ws)) (c, g) = (r, c', g')"
  shows "snd (fst (filter_commands env m ''filter?'' 7 (c', g'))) = Some (''# filters: '' @ spaced ws @ CRLF)"
proof -
  let ?s = "spaced ws"
  have "NUL \<notin> set ?s" using ws(1) by auto
  then have b: "c_word ?s = ?s" by (auto simp: c_word_def takeWhile_eq_all_conv)
  have nd: "\<not> strncaseeq 7 ?s ''default''"
  proof (cases ws)
    case Nil
    then show ?thesis by (simp add: strncaseeq_def strcaseeq_def)
  next
    case (Cons w ws')
    then obtain x w' where w: "w = x # w'" "toupper x \<in> set ''AFMQRST''"
      using ws(1) by (cases w) (auto simp: plain_word_def single_type_def)
    have "toupper (CHR ''d'') = CHR ''D''" by (simp add: cstr_simps)
    moreover have "x \<noteq> NUL" using ws(1) Cons w by auto
    ultimately show ?thesis using w(2) unfolding Cons w by (auto simp: strncaseeq_def strcaseeq_def)
  qed
  obtain c1 g1 where F: "free_user_filters (c, g) = (c1, g1)" by fastforce
  have c1: "c_neguserfilters c1 = []" "c_posuserfilters c1 = []" "c_flags c1 = c_flags c"
    using F by (auto simp: free_user_filters_def)
  define c2 where "c2 = c1\<lparr>c_filter_s := sanitize_ascii_string (take (FILTER_S_SIZE - 1) ?s)\<rparr>"
  have args: "parse_args ?s = ws" using ws by (intro parse_args_spaced) auto
  have "c' = fst (parse_words (ce_alloc env) ws (c2, g1))"
    using cmd F nd b args by (auto simp: filter_commands_def Let_def c2_def rd_def split: prod.splits)
  moreover have "c_neguserfilters (fst (parse_words (ce_alloc env) ws (c2, g1))) = [] \<and>
      map f_text (c_posuserfilters (fst (parse_words (ce_alloc env) ws (c2, g1)))) = ws"
    using parse_words_single [of ws "ce_alloc env" c2 g1] ws(1) alloc c c1 by (simp add: c2_def)
  ultimately have q: "c_neguserfilters c' = []" "map f_text (c_posuserfilters c') = ws" by simp_all
  have "concat (map (\<lambda>f. f_text f @ '' '') (c_posuserfilters c')) = spaced (map f_text (c_posuserfilters c'))"
    by (simp add: comp_def)
  then have "query_text c' = ''# filters: '' @ spaced ws @ CRLF" unfolding query_text_def q by simp
  then show ?thesis by (simp add: filter_commands_def rd_def)
qed

section \<open>Concrete runs\<close>

definition demo_cmd_env :: cmd_env where
  "demo_cmd_env = \<lparr>ce_write = (\<lambda>s. int (length s)), ce_random = (\<lambda>i. i), ce_serverid = ''T2FIN'', ce_alloc = (\<lambda>_. True)\<rparr>"

lemma demo_words:
  "filter_verify ''m/50'' = 0" "filter_verify ''t/pm'' = 0"
  by (simp_all add: filter_verify_def filter_preparse_def filter_types_def filter_parse_m_def filter_parse_t_def
      type_flag_def Let_def scan_float_def scan_mantissa_def scan_exponent_def has_prefix_ci_def cstr_simps)

theorem filter_command_query_roundtrip_witness:
  "let (r, c, g) = filter_commands demo_cmd_env False ''filter m/50 t/pm '' 17 (demo_filter_client, 0)
   in snd (fst (filter_commands demo_cmd_env False ''filter?'' 7 (c, g))) = Some (''# filters: m/50 t/pm '' @ CRLF)"
proof -
  obtain r c g where R: "filter_commands demo_cmd_env False ''filter m/50 t/pm '' 17 (demo_filter_client, 0) = (r, c, g)"
    by (metis prod_cases3)
  have ws: "\<forall>w \<in> set [''m/50'', ''t/pm'']. plain_word w \<and> NUL \<notin> set w \<and> single_type (rd w 0) \<and> filter_verify w = 0"
    using demo_words by (simp add: plain_word_def single_type_def cstr_simps)
  show ?thesis
    using filter_command_query_roundtrip [OF ws _ demo_user_flag, of demo_cmd_env False 0 r c g] R
    by (simp add: demo_cmd_env_def)
qed

theorem filter_commands_keeps_witness:
  "let (r, c, g) = filter_commands demo_cmd_env True ''filter b/OH*'' 11 (demo_filter_client, 0)
   in filters_wf c \<and> g = num_filters c"
proof -
  obtain r c g where R: "filter_commands demo_cmd_env True ''filter b/OH*'' 11 (demo_filter_client, 0) = (r, c, g)"
    by (metis prod_cases3)
  have "num_filters demo_filter_client = 0" by (simp add: num_filters_def demo_filter_client_def demo_client_def)
  then show ?thesis using filter_commands_keeps [OF demo_filters_wf R] by (simp add: R)
qed

end
