(* ===== verification/Delivery.thy ===== *)
theory Delivery
  imports Outgoing Filter_Process
begin

text \<open>
  Sending and filtering together: the interface between \<^verbatim>\<open>outgoing.c\<close> and \<^verbatim>\<open>filter.c\<close>, what a worker does
  with a packet for a client behind filters, and the proof that \<^verbatim>\<open>filter_process\<close> keeps the interface.
\<close>

text \<open>All that sending relies on: the filter does not change who the client is.\<close>

locale packet_filter =
  fixes flt :: filter_fn
  assumes keeps: "filter_ok flt"
begin

text \<open>One copy for every client that takes the packet, none for the others.\<close>

lemma other_sent:
  assumes "outgoing_other flt pb cs = (evs, cs')" and "distinct (map c_id cs)" and "c \<in> set cs"
  shows "sent_to (c_id c) evs = (if takes flt pb c then [pb_text pb] else [])"
  using assms
proof (induction cs arbitrary: evs cs')
  case (Cons x xs)
  obtain evs1 cs1 where R: "outgoing_other flt pb xs = (evs1, cs1)" by fastforce
  obtain x' where x': "c_id x' = c_id x"
    "outgoing_other flt pb (x # xs) = (if takes flt pb x then send_single x' (pb_text pb) # evs1 else evs1, x' # cs1)"
    using outgoing_other_Cons [OF keeps R] by metis
  show ?case
  proof (cases "x = c")
    case True
    have "Send (c_id c) u d \<notin> set evs1" for u d
      using outgoing_other_events [OF keeps R, of "Send (c_id c) u d"] Cons.prems(2) True by force
    then have "sent_to (c_id c) evs1 = []" by (auto simp: sent_to_def split: out_event.split)
    then show ?thesis using Cons.prems(1) x' True by (auto simp: send_single_def)
  next
    case False
    then have c: "c \<in> set xs" "c_id x \<noteq> c_id c" using Cons.prems(2,3) by auto
    then show ?thesis using Cons.prems(1,2) x' Cons.IH [OF R _ c(1)] by (auto simp: send_single_def split: if_splits)
  qed
qed simp

lemma single_sent:
  assumes "process_outgoing_single flt self pb = (evs, self')" and "\<not> has_flag (pb_flags pb) F_DUPE"
    and "distinct (map c_id (w_clients_other self))" and "c \<in> set (w_clients_other self)"
    and "c_id c \<notin> c_id ` set (w_clients_ups self)"
  shows "sent_to (c_id c) evs = (if takes flt pb c then [pb_text pb] else [])"
proof -
  obtain evs1 cs1 where R: "outgoing_other flt pb (w_clients_other self) = (evs1, cs1)" by fastforce
  have "sent_to (c_id c) (map (\<lambda>c. send_single c d) (filter P (w_clients_ups self))) = []" for d P
    using assms(5) by (intro sent_to_other) auto
  then show ?thesis
    using assms(1,2) other_sent [OF R assms(3,4)] R
    by (auto simp: process_outgoing_single_def Let_def split: if_splits)
qed

end

interpretation filters: packet_filter "filter_process env" for env
  by unfold_locales (use filter_process_same in \<open>simp add: filter_ok_def same_client_def\<close>)


section \<open>A concrete run\<close>

definition demo_filtered_worker :: worker_t where
  "demo_filtered_worker = demo_worker\<lparr>w_clients_other := [demo_bud_client]\<rparr>"


end
