(* ===== verification/Parse_APRS.thy ===== *)
theory Parse_APRS
  imports Incoming_Parse Filter_Parse "HOL-Library.Monad_Syntax"
begin

text \<open>
  \<^verbatim>\<open>src/src/parse_aprs.c\<close>: the classification of packets and the extraction of positions.

  The parser reads the memory \<open>mem\<close> that starts at \<^verbatim>\<open>pb->data\<close>: the packet, the NUL behind it, and the
  left-over bytes \<open>stale\<close> after that, which only packets with a short inner packet reach. Coordinates read from text are
  \<^typ>\<open>cfloat\<close> values until the test of their range.
\<close>

section \<open>Results\<close>

text \<open>The return code and the packet; \<open>Bad_Read\<close> when \<^verbatim>\<open>memchr\<close> is called with a negative length (if the
  search comes back, the code returns 0: no byte the search stops at starts a position); \<open>Nan_Pos\<close> when the
  packet is given coordinates that are not numbers, which the fields of the model cannot hold.\<close>

datatype parse_result = Parsed int pbuf_t | Bad_Read pbuf_t | Nan_Pos pbuf_t

fun pr_rc :: "parse_result \<Rightarrow> int" where
  "pr_rc (Parsed rc pb) = rc"
| "pr_rc (Bad_Read pb) = 0"
| "pr_rc (Nan_Pos pb) = 1"

fun pr_pb :: "parse_result \<Rightarrow> pbuf_t" where
  "pr_pb (Parsed rc pb) = pb"
| "pr_pb (Bad_Read pb) = pb"
| "pr_pb (Nan_Pos pb) = pb"

definition add_type :: "u16 \<Rightarrow> pbuf_t \<Rightarrow> pbuf_t" where
  "add_type t pb = pb\<lparr>pb_packettype := pb_packettype pb OR t\<rparr>"

abbreviation data_mem :: "string \<Rightarrow> pbuf_t \<Rightarrow> string" where
  "data_mem stale pb \<equiv> pb_data pb @ NUL # stale"

text \<open>The C string at an offset.\<close>

definition cstr_at :: "string \<Rightarrow> nat \<Rightarrow> string" where
  "cstr_at mem i = takeWhile (\<lambda>c. c \<noteq> NUL) (drop i mem)"

section \<open>Positions\<close>

definition between :: "nat \<Rightarrow> nat \<Rightarrow> char \<Rightarrow> bool" where
  "between a b c \<longleftrightarrow> a \<le> byte_code c \<and> byte_code c \<le> b"

definition valid_sym_table_compressed :: "char \<Rightarrow> bool" where
  "valid_sym_table_compressed c \<longleftrightarrow>
     c = CHR ''/'' \<or> c = CHR 0x5C \<or> between 0x41 0x5A c \<or> between 0x61 0x6A c"

definition valid_sym_table_uncompressed :: "char \<Rightarrow> bool" where
  "valid_sym_table_uncompressed c \<longleftrightarrow>
     c = CHR ''/'' \<or> c = CHR 0x5C \<or> between 0x41 0x5A c \<or> between 0x30 0x39 c"

definition cf_le :: "cfloat \<Rightarrow> cfloat \<Rightarrow> bool" where
  "cf_le x y \<longleftrightarrow> cf_less x y \<or> (x = y \<and> x \<noteq> NaN)"

definition cf_in :: "real \<Rightarrow> real \<Rightarrow> cfloat \<Rightarrow> bool" where
  "cf_in a b x \<longleftrightarrow> cf_le (Fin a) x \<and> cf_le x (Fin b)"

text \<open>The test for an invalid position: poles and the points on the equator that broken trackers send,
  and coordinates out of range.\<close>

definition position_bad :: "cfloat \<Rightarrow> cfloat \<Rightarrow> bool" where
  "position_bad lat lng \<longleftrightarrow>
     (cf_less lat (Fin (-89.9)) \<and> cf_in (-0.0001) 0.0001 lng) \<or>
     (cf_less (Fin 89.9) lat \<and> cf_in (-0.0001) 0.0001 lng) \<or>
     (cf_in (-0.0001) 0.0001 lat \<and>
        (cf_in (-0.0001) 0.0001 lng \<or> cf_in (-90.01) (-89.99) lng \<or> cf_in 89.99 90.01 lng)) \<or>
     cf_less lat (Fin (-90)) \<or> cf_less (Fin 90) lat \<or> cf_less lng (Fin (-180)) \<or> cf_less (Fin 180) lng"

definition pbuf_fill_pos :: "pbuf_t \<Rightarrow> cfloat \<Rightarrow> cfloat \<Rightarrow> char \<Rightarrow> char \<Rightarrow> parse_result" where
  "pbuf_fill_pos pb lat lng sym_table sym_code =
     (let wx = (sym_code = CHR ''_'' \<or> sym_code = CHR 0x40) \<and> valid_sym_table_uncompressed sym_table;
          pb1 = pb\<lparr>pb_symbol := [sym_table, sym_code],
                   pb_packettype := pb_packettype pb OR (if wx then T_WX else 0)\<rparr>;
          pb2 = pb1\<lparr>pb_flags := pb_flags pb1 OR F_HASPOS\<rparr>
      in if position_bad lat lng then Parsed 0 pb1
         else case (lat, lng) of
                (Fin la, Fin lo) \<Rightarrow>
                  Parsed 1 (pb2\<lparr>pb_lat := filter_lat2rad la, pb_cos_lat := cos (filter_lat2rad la),
                                pb_lng := filter_lon2rad lo\<rparr>)
              | _ \<Rightarrow> Nan_Pos pb2)"

section \<open>Symbols in the destination callsign\<close>

text \<open>One row per first character: the table, and the ranges of the second character with the code of the
  first symbol of each range.\<close>

definition twochar_rows :: "(char \<times> char \<times> (nat \<times> nat \<times> nat) list) list" where
  "twochar_rows =
     [(CHR ''B'', CHR ''/'', [(66, 80, 33)]), (CHR ''P'', CHR ''/'', [(48, 57, 48), (65, 90, 65)]),
      (CHR ''M'', CHR ''/'', [(82, 88, 58)]), (CHR ''H'', CHR ''/'', [(83, 88, 91)]),
      (CHR ''L'', CHR ''/'', [(65, 90, 97)]), (CHR ''J'', CHR ''/'', [(49, 52, 123)]),
      (CHR ''O'', CHR 0x5C, [(66, 80, 33)]), (CHR ''A'', CHR 0x5C, [(48, 57, 48), (65, 90, 65)]),
      (CHR ''N'', CHR 0x5C, [(82, 88, 58)]), (CHR ''D'', CHR 0x5C, [(83, 88, 91)]),
      (CHR ''S'', CHR 0x5C, [(65, 90, 97)]), (CHR ''Q'', CHR 0x5C, [(49, 52, 123)])]"

definition get_symbol_from_dstcall_twochar :: "char \<Rightarrow> char \<Rightarrow> (char \<times> char) option" where
  "get_symbol_from_dstcall_twochar c1 c2 =
     (case map_of twochar_rows c1 of
        None \<Rightarrow> None
      | Some (tab, ranges) \<Rightarrow>
          map_option (\<lambda>(a, b, z). (tab, char_of (byte_code c2 - a + z)))
            (find (\<lambda>(a, b, z). between a b c2) ranges))"

definition get_symbol_from_dstcall :: "string \<Rightarrow> pbuf_t \<Rightarrow> (char \<times> char) option" where
  "get_symbol_from_dstcall mem pb =
     (let d_start = pb_srccall_end pb + 1;
          d = (\<lambda>i. rd mem (d_start + i));
          len = pb_dstcall_end_or_ssid pb - d_start;
          sublength = min 3 (len - 3)
      in if len < 5 then None
         else if sub mem d_start (d_start + 3) \<notin> {''GPS'', ''SPC'', ''SYM''} then None
         else if \<not> isalnum (d 3) \<or> \<not> isalnum (d 4) then None
         else if sublength = 3 \<and> \<not> isalnum (d 5) then None
         else if sublength = 3 then
           if d 3 = CHR ''C'' \<or> d 3 = CHR ''E'' then
             if \<not> is_digit (d 4) \<or> \<not> is_digit (d 5) then None
             else Some (if d 3 = CHR ''C'' then CHR ''/'' else CHR 0x5C,
                        char_of ((byte_code (d 4) - 48) * 10 + (byte_code (d 5) - 48) + 32))
           else if d 3 \<in> set ''OANDSQ'' \<and> isalnum (d 5) then get_symbol_from_dstcall_twochar (d 3) (d 4)
           else None
         else get_symbol_from_dstcall_twochar (d 3) (d 4))"

section \<open>NMEA\<close>

definition skip_char :: "string \<Rightarrow> char \<Rightarrow> nat \<Rightarrow> nat" where
  "skip_char mem c i = (if rd mem i = c then i + 1 else i)"

definition skip_other :: "string \<Rightarrow> char \<Rightarrow> nat \<Rightarrow> nat" where
  "skip_other mem c i = (if rd mem i \<noteq> c then i + 1 else i)"

text \<open>Up to a comma and over it; the second over a latitude, its comma, the hemisphere and its comma.\<close>

definition over_field :: "string \<Rightarrow> nat \<Rightarrow> nat \<Rightarrow> nat" where
  "over_field mem body_end i = skip_char mem CHR '','' (scan (\<lambda>c. c \<noteq> CHR '','') mem i body_end)"

definition over_coordinate :: "string \<Rightarrow> nat \<Rightarrow> nat \<Rightarrow> nat" where
  "over_coordinate mem body_end i =
     skip_char mem CHR '','' (skip_other mem CHR '','' (over_field mem body_end i))"

text \<open>Where latitude and longitude are: \<open>Inl\<close> for an early return, \<open>Inr None\<close> for a sentence that is not
  understood.\<close>

definition nmea_fields :: "string \<Rightarrow> nat \<Rightarrow> nat \<Rightarrow> int + (nat \<times> nat) option" where
  "nmea_fields mem body body_end =
     (let is = (\<lambda>k. sub mem body (body + length k) = k);
          both = (\<lambda>latp. Inr (Some (latp, over_coordinate mem body_end latp)));
          field = over_field mem body_end
      in if is ''GPGGA,'' then both (field (body + 6))
         else if is ''GPGLL,'' then both (body + 6)
         else if is ''GPRMC,'' then
           let valid = field (body + 6)
           in if rd mem valid \<noteq> CHR ''A'' \<and> rd mem valid \<noteq> CHR ''V'' then Inl 0
              else both (skip_char mem CHR '','' (skip_other mem CHR '','' valid))
         else if is ''GPWPL,'' then Inr None
         else if is ''PNTS,1,'' then
           if body_end < body + 55 then Inl 0
           else if rd mem (body + 7) = CHR '','' then Inl 0
           else if rd mem (body + 8) \<noteq> CHR '','' then Inl 0
           else
             let date = over_field mem (body_end + 1)
             in both (date (date (date (date (body + 9)))))
         else if is ''GPGSA,'' \<or> is ''GPVTG,'' \<or> is ''GPGSV,'' then Inl 1
         else Inr None)"

text \<open>The conversions \<^verbatim>\<open>%2d%f,%c,\<close>: degrees, minutes and the hemisphere.\<close>

definition scan_char :: "string \<Rightarrow> (char \<times> string) option" where
  "scan_char s = (case s of [] \<Rightarrow> None | c # r \<Rightarrow> Some (c, r))"

definition scan_lit :: "char \<Rightarrow> string \<Rightarrow> string option" where
  "scan_lit l s = (case s of [] \<Rightarrow> None | c # r \<Rightarrow> if c = l then Some r else None)"

definition nmea_coordinate :: "nat \<Rightarrow> string \<Rightarrow> (int \<times> cfloat \<times> char) option" where
  "nmea_coordinate n s = do {
     (deg, r1) \<leftarrow> scan_int n s;
     (mins, r2) \<leftarrow> scan_float r1;
     r3 \<leftarrow> scan_lit CHR '','' r2;
     (hemi, _) \<leftarrow> scan_char r3;
     Some (deg, mins, hemi) }"

fun cf_degrees :: "int \<Rightarrow> cfloat \<Rightarrow> cfloat" where
  "cf_degrees deg (Fin m) = Fin (real_of_int deg + m / 60)"
| "cf_degrees deg v = v"

definition parse_aprs_nmea :: "string \<Rightarrow> pbuf_t \<Rightarrow> nat \<Rightarrow> nat \<Rightarrow> parse_result" where
  "parse_aprs_nmea mem pb body body_end =
     (let (sym_table, sym_code) =
            (case get_symbol_from_dstcall mem pb of Some s \<Rightarrow> s | None \<Rightarrow> (CHR '' '', CHR '' ''))
      in if sub mem body (body + 3) = ''ULT'' then Parsed 1 (add_type T_WX pb)
         else case nmea_fields mem body body_end of
                Inl rc \<Rightarrow> Parsed rc pb
              | Inr None \<Rightarrow> Parsed 0 pb
              | Inr (Some (latp, lngp)) \<Rightarrow>
                  (case (nmea_coordinate 2 (cstr_at mem latp), nmea_coordinate 3 (cstr_at mem lngp)) of
                     (Some (la, lam, lac), Some (lo, lom, loc)) \<Rightarrow>
                       if lac \<notin> set ''NSns'' \<or> loc \<notin> set ''EWew'' then Parsed 0 pb
                       else
                         let lat = cf_degrees la lam; lng = cf_degrees lo lom
                         in pbuf_fill_pos (add_type T_POSITION pb)
                              (if lac \<in> set ''Ss'' then cf_neg lat else lat)
                              (if loc \<in> set ''Ww'' then cf_neg lng else lng) sym_table sym_code
                   | _ \<Rightarrow> Parsed 0 pb))"

definition parse_aprs_telem :: "pbuf_t \<Rightarrow> parse_result" where
  "parse_aprs_telem pb = Parsed 0 pb"
section \<open>MIC-E\<close>

text \<open>The character check of the destination callsign, and its translation to digits.\<close>

definition mice_dst_ok :: "string \<Rightarrow> bool" where
  "mice_dst_ok d \<longleftrightarrow>
     (\<forall>c \<in> set (take 3 d). is_digit c \<or> between 65 76 c \<or> between 80 90 c) \<and>
     (\<forall>c \<in> set (drop 3 d). is_digit c \<or> c = CHR ''L'' \<or> between 80 90 c)"

definition mice_digit :: "char \<Rightarrow> char" where
  "mice_digit c =
     (if between 65 74 c then char_of (byte_code c - 17)
      else if between 80 89 c then char_of (byte_code c - 32)
      else if c = CHR ''K'' \<or> c = CHR ''L'' \<or> c = CHR ''Z'' then CHR ''_'' else c)"

definition mice_info_ok :: "string \<Rightarrow> nat \<Rightarrow> bool" where
  "mice_info_ok mem body \<longleftrightarrow>
     (let b = (\<lambda>i. rd mem (body + i))
      in between 0x26 0x7F (b 0) \<and> between 0x26 0x61 (b 1) \<and> between 0x1C 0x7F (b 2) \<and>
         between 0x1C 0x7F (b 3) \<and> between 0x1C 0x7D (b 4) \<and> between 0x1C 0x7F (b 5) \<and>
         (between 0x21 0x7B (b 6) \<or> byte_code (b 6) = 0x7D) \<and> valid_sym_table_uncompressed (b 7))"

text \<open>The number of blanked digits, counted from the last.\<close>

definition mice_ambiguity :: "string \<Rightarrow> nat" where
  "mice_ambiguity t =
     (if rd t 2 = CHR ''_'' then 4 else if rd t 3 = CHR ''_'' then 3
      else if rd t 4 = CHR ''_'' then 2 else if rd t 5 = CHR ''_'' then 1 else 0)"

definition blank_to :: "nat \<Rightarrow> char \<Rightarrow> char \<Rightarrow> string \<Rightarrow> string" where
  "blank_to i b c s = (if rd s i = b then s[i := c] else s)"

definition mice_fill :: "string \<Rightarrow> string" where
  "mice_fill t =
     blank_to 2 CHR ''_'' CHR ''3'' (blank_to 3 CHR ''_'' CHR ''5''
       (blank_to 4 CHR ''_'' CHR ''5'' (blank_to 5 CHR ''_'' CHR ''5'' t)))"

definition mice_scan :: "string \<Rightarrow> (u32 \<times> u32 \<times> u32) option" where
  "mice_scan t = do {
     (deg, r1) \<leftarrow> scan_uint 2 t;
     (mins, r2) \<leftarrow> scan_uint 2 r1;
     (frag, _) \<leftarrow> scan_uint 2 r2;
     Some (deg, mins, frag) }"

definition mice_lng_deg :: "char \<Rightarrow> char \<Rightarrow> nat" where
  "mice_lng_deg b0 d4 =
     (let d = byte_code b0 - 28 + (if 0x50 \<le> byte_code d4 then 100 else 0)
      in if 180 \<le> d \<and> d \<le> 189 then d - 80 else if 190 \<le> d \<and> d \<le> 199 then d - 190 else d)"

definition mice_lng_min :: "char \<Rightarrow> nat" where
  "mice_lng_min b1 = (let m = byte_code b1 - 28 in if 60 \<le> m then m - 60 else m)"

definition mice_lng :: "nat \<Rightarrow> nat \<Rightarrow> nat \<Rightarrow> nat \<Rightarrow> real" where
  "mice_lng amb deg mins frag =
     real deg +
     (if amb = 0 then real mins / 60 + real frag / 6000
      else if amb = 1 then real mins / 60 + real (frag - frag mod 10 + 5) / 6000
      else if amb = 2 then (real mins + 0.5) / 60
      else if amb = 3 then real (mins - mins mod 10 + 5) / 60
      else 0.5)"

text \<open>Degrees, minutes and hundredths of minutes.\<close>

definition dms :: "u32 \<Rightarrow> u32 \<Rightarrow> u32 \<Rightarrow> real" where
  "dms deg mins frag = real (unat deg) + real (unat mins) / 60 + real (unat frag) / 6000"

definition parse_aprs_mice :: "string \<Rightarrow> pbuf_t \<Rightarrow> nat \<Rightarrow> nat \<Rightarrow> parse_result" where
  "parse_aprs_mice mem pb body body_end =
     (let d_start = pb_srccall_end pb + 1;
          d = sub mem d_start (d_start + 6);
          t = map mice_digit d;
          amb = mice_ambiguity t;
          b = (\<lambda>i. rd mem (body + i))
      in if body_end < body + 8 then Parsed 0 pb
         else if pb_dstcall_end_or_ssid pb \<noteq> d_start + 6 then Parsed 0 pb
         else if \<not> mice_dst_ok d then Parsed 0 pb
         else if \<not> mice_info_ok mem body then Parsed 0 pb
         else if rd t 1 = CHR ''_'' \<or> rd t 0 = CHR ''_'' then Parsed 0 pb
         else case mice_scan (mice_fill t) of
                None \<Rightarrow> Parsed 0 pb
              | Some (deg, mins, frag) \<Rightarrow>
                  let lat = dms deg mins frag;
                      lng = mice_lng amb (mice_lng_deg (b 0) (rd d 4)) (mice_lng_min (b 1)) (byte_code (b 2) - 28)
                  in pbuf_fill_pos pb
                       (Fin (if byte_code (rd d 3) \<le> 0x4C then 0 - lat else lat))
                       (Fin (if 0x50 \<le> byte_code (rd d 5) then 0 - lng else lng)) (b 7) (b 6))"

section \<open>Compressed and uncompressed positions\<close>

definition base91_val :: "string \<Rightarrow> int" where
  "base91_val s = foldl (\<lambda>n c. n * 91 + (int (byte_code c) - 33)) 0 s"

definition parse_aprs_compressed :: "string \<Rightarrow> pbuf_t \<Rightarrow> nat \<Rightarrow> nat \<Rightarrow> parse_result" where
  "parse_aprs_compressed mem pb body body_end =
     (if body_end < body + 13 then Parsed 0 pb
      else if \<exists>c \<in> set (sub mem (body + 1) (body + 9)). \<not> between 0x21 0x7B c then Parsed 0 pb
      else
        let lat = 90 - real_of_int (base91_val (sub mem (body + 1) (body + 5))) / 380926;
            lng = -180 + real_of_int (base91_val (sub mem (body + 5) (body + 9))) / 190463
        in pbuf_fill_pos pb (Fin lat) (Fin lng) (rd mem body) (rd mem (body + 9)))"

definition fill_ambiguity :: "string \<Rightarrow> string" where
  "fill_ambiguity s =
     foldl (\<lambda>s (i, c). blank_to i CHR '' '' c s) s
       [(2, CHR ''3''), (3, CHR ''5''), (5, CHR ''5''), (6, CHR ''5''),
        (12, CHR ''3''), (13, CHR ''5''), (15, CHR ''5''), (16, CHR ''5'')]"

text \<open>\<^verbatim>\<open>%2u%2u.%2u%c%c%3u%2u.%2u%c%c\<close>, where the first half also has two characters behind it.\<close>

definition scan_dms :: "nat \<Rightarrow> string \<Rightarrow> ((u32 \<times> u32 \<times> u32 \<times> char \<times> char) \<times> string) option" where
  "scan_dms n s = do {
     (deg, r1) \<leftarrow> scan_uint n s;
     (mins, r2) \<leftarrow> scan_uint 2 r1;
     r3 \<leftarrow> scan_lit CHR ''.'' r2;
     (frag, r4) \<leftarrow> scan_uint 2 r3;
     (hemi, r5) \<leftarrow> scan_char r4;
     (sym, r6) \<leftarrow> scan_char r5;
     Some ((deg, mins, frag, hemi, sym), r6) }"

definition parse_aprs_uncompressed :: "string \<Rightarrow> pbuf_t \<Rightarrow> nat \<Rightarrow> nat \<Rightarrow> parse_result" where
  "parse_aprs_uncompressed mem pb body body_end =
     (if body_end < body + 19 then Parsed 0 pb
      else
        case scan_dms 2 (cstr_at (fill_ambiguity (sub mem body (body + 19))) 0) of
          None \<Rightarrow> Parsed 0 pb
        | Some ((lat_deg, lat_min, lat_frag, lat_hemi, sym_table0), r) \<Rightarrow>
            (case scan_dms 3 r of
               None \<Rightarrow> Parsed 0 pb
             | Some ((lng_deg, lng_min, lng_frag, lng_hemi, sym_code), _) \<Rightarrow>
                 let sym_table = (if valid_sym_table_uncompressed sym_table0 then sym_table0 else NUL);
                     lat = dms lat_deg lat_min lat_frag;
                     lng = dms lng_deg lng_min lng_frag
                 in if lat_hemi \<notin> set ''SsNn'' \<or> lng_hemi \<notin> set ''WwEe'' then Parsed 0 pb
                    else if 89 < lat_deg \<or> 179 < lng_deg then Parsed 0 pb
                    else pbuf_fill_pos pb
                           (Fin (if lat_hemi \<in> set ''Ss'' then 0 - lat else lat))
                           (Fin (if lng_hemi \<in> set ''Ww'' then 0 - lng else lng)) sym_table sym_code))"

section \<open>Objects, items and messages\<close>

definition printable :: "char \<Rightarrow> bool" where
  "printable c \<longleftrightarrow> between 0x20 0x7E c"

text \<open>The position of an object or item: compressed, uncompressed, or none.\<close>

definition parse_aprs_pos :: "string \<Rightarrow> pbuf_t \<Rightarrow> nat \<Rightarrow> nat \<Rightarrow> parse_result" where
  "parse_aprs_pos mem pb body body_end =
     (if valid_sym_table_compressed (rd mem body) then parse_aprs_compressed mem pb body body_end
      else if is_digit (rd mem body) then parse_aprs_uncompressed mem pb body body_end
      else Parsed 0 pb)"

definition strip_spaces :: "string \<Rightarrow> string" where
  "strip_spaces s = rev (dropWhile (\<lambda>c. c = CHR '' '') (rev s))"

definition parse_aprs_object :: "string \<Rightarrow> pbuf_t \<Rightarrow> nat \<Rightarrow> nat \<Rightarrow> parse_result" where
  "parse_aprs_object mem pb0 body body_end =
     (let pb = add_type T_OBJECT pb0;
          name = sub mem body (body + 9)
      in if rd mem (body + 9) \<noteq> CHR ''*'' \<and> rd mem (body + 9) \<noteq> CHR ''_'' then Parsed 0 pb
         else if rd mem (body + 16) \<notin> set ''zh/'' then Parsed 0 pb
         else if \<not> list_all printable name then Parsed 0 pb
         else if strip_spaces name = [] then Parsed 0 pb
         else parse_aprs_pos mem (pb\<lparr>pb_srcname := strip_spaces name\<rparr>) (body + 17) body_end)"

definition parse_aprs_item :: "string \<Rightarrow> pbuf_t \<Rightarrow> nat \<Rightarrow> nat \<Rightarrow> parse_result" where
  "parse_aprs_item mem pb0 body body_end =
     (let pb = add_type T_ITEM pb0;
          e = scan (\<lambda>c. c \<noteq> CHR ''!'' \<and> c \<noteq> CHR ''_'') mem body (body + 9);
          name = sub mem body e
      in if \<not> list_all printable name then Parsed 0 pb
         else if rd mem e \<noteq> CHR ''!'' \<and> rd mem e \<noteq> CHR ''_'' then Parsed 0 pb
         else if e - body < 3 \<or> 9 < e - body then Parsed 0 pb
         else parse_aprs_pos mem (pb\<lparr>pb_srcname := name\<rparr>) (e + 1) body_end)"

definition disallow_msg_recipients :: "string list" where
  "disallow_msg_recipients = [''javaMSG'', ''JAVATITLE'', ''JAVATITL2'', ''USERLIST'', ''KIPSS'']"

definition preparse_aprs_message :: "string \<Rightarrow> pbuf_t \<Rightarrow> nat \<Rightarrow> int \<Rightarrow> parse_result" where
  "preparse_aprs_message mem pb body body_len =
     (let is = (\<lambda>i k. sub mem (body + i) (body + i + length k) = k);
          pb1 = (if is 0 ''NWS-'' \<or> is 0 ''NWS_'' \<or> is 0 ''SKY'' then add_type T_NWS pb else pb);
          pb2 = (if rd mem (body + 9) = CHR '':'' \<and> 16 \<le> body_len \<and>
                    (is 10 ''PARM.'' \<or> is 10 ''UNIT.'' \<or> is 10 ''EQNS.'' \<or> is 10 ''BITS.'')
                 then pb1\<lparr>pb_packettype := pb_packettype pb1 AND NOT T_MESSAGE OR T_TELEMETRY\<rparr> else pb1);
          e = scan (\<lambda>c. c \<notin> {CHR '' '', CHR '':'', NUL}) mem body (body + CALLSIGNLEN_MAX);
          dstname = sub mem body e
      in Parsed (if check_call_match disallow_msg_recipients dstname \<noteq> 0 then inerr_code INERR_DIS_MSG_DST else 0)
           (pb2\<lparr>pb_dstname := Some dstname\<rparr>))"
section \<open>The body of a packet\<close>

text \<open>A third-party packet: a result, or the packet and the start of the inner information field.\<close>

definition parse_aprs_3rdparty :: "string \<Rightarrow> pbuf_t \<Rightarrow> nat \<Rightarrow> parse_result + pbuf_t \<times> nat" where
  "parse_aprs_3rdparty mem pb info_start =
     (let s = info_start + 1
      in if pb_packet_len pb < s + 2 then Inl (Bad_Read pb)
         else
           case memchr mem s (pb_packet_len pb - 2 - s) CHR '':'' of
             None \<Rightarrow> Inl (Parsed 0 pb)
           | Some body \<Rightarrow>
               (case memchr mem s (min (body - s) (CALLSIGNLEN_MAX + 1)) CHR ''>'' of
                  None \<Rightarrow> Inl (Parsed 0 pb)
                | Some src_end \<Rightarrow>
                    let path_start = src_end + 1;
                        dstcall_end = scan (\<lambda>c. c \<noteq> CHR '','' \<and> c \<noteq> CHR '':'') mem path_start body
                    in if body \<le> path_start then Inl (Parsed (inerr_code INERR_INV_3RD_PARTY) pb)
                       else if check_invalid_src_dst (sub mem s src_end) \<noteq> 0
                       then Inl (Parsed (inerr_code INERR_INV_SRCCALL) pb)
                       else if check_invalid_src_dst (sub mem path_start dstcall_end) \<noteq> 0
                       then Inl (Parsed (inerr_code INERR_INV_DSTCALL) pb)
                       else if check_path_calls mem dstcall_end body < 2
                       then Inl (Parsed (inerr_code INERR_INV_3RD_PARTY) pb)
                       else Inr (pb\<lparr>pb_srcname := sub mem s src_end\<rparr>, body + 1)))"

text \<open>Plain positions, with or without a time stamp in front.\<close>

definition parse_aprs_position :: "string \<Rightarrow> pbuf_t \<Rightarrow> char \<Rightarrow> nat \<Rightarrow> nat \<Rightarrow> parse_result" where
  "parse_aprs_position mem pb packettype body0 body_end =
     (if body_end < body0 + 10 then Parsed 0 pb
      else
        let pb1 = add_type T_POSITION pb;
            body = (if packettype = CHR ''/'' \<or> packettype = CHR 0x40 then body0 + 7 else body0);
            poschar = rd mem body
        in if valid_sym_table_compressed poschar then
             (if body + 13 \<le> body_end then parse_aprs_compressed mem pb1 body body_end else Parsed 0 pb1)
           else if is_digit poschar then
             (if body + 19 \<le> body_end then parse_aprs_uncompressed mem pb1 body body_end else Parsed 0 pb1)
           else Parsed 0 pb1)"

text \<open>The search for a position anywhere among the first forty characters.\<close>

definition parse_aprs_anywhere :: "string \<Rightarrow> pbuf_t \<Rightarrow> nat \<Rightarrow> nat \<Rightarrow> parse_result" where
  "parse_aprs_anywhere mem pb body body_end =
     (if body_end < body then Bad_Read pb
      else
        case memchr mem body (body_end - body) CHR ''!'' of
          None \<Rightarrow> Parsed 0 pb
        | Some pos_start \<Rightarrow>
            let poschar = rd mem pos_start
            in if 39 < pos_start - body then Parsed 0 pb
               else if valid_sym_table_compressed poschar then
                 (if pos_start + 13 \<le> body_end then parse_aprs_compressed mem pb pos_start body_end else Parsed 0 pb)
               else if is_digit poschar then
                 (if pos_start + 19 \<le> body_end then parse_aprs_uncompressed mem pb pos_start body_end else Parsed 0 pb)
               else Parsed 0 pb)"

text \<open>The switch over the first character, without the third-party branch.\<close>

definition parse_aprs_switch :: "string \<Rightarrow> pbuf_t \<Rightarrow> nat \<Rightarrow> int \<Rightarrow> parse_result" where
  "parse_aprs_switch mem pb info_start paclen =
     (let packettype = rd mem info_start;
          body = info_start + 1;
          body_end = pb_packet_len pb - 2
      in if packettype = CHR 0x27 \<or> packettype = CHR 0x60 then
           (if 9 \<le> paclen then parse_aprs_mice mem (add_type T_POSITION pb) body body_end else Parsed 0 pb)
         else if packettype = CHR ''!'' \<and> rd mem body = CHR ''!'' then Parsed 0 (add_type T_WX pb)
         else if packettype \<in> {CHR ''!'', CHR ''='', CHR ''/'', CHR 0x40} then
           parse_aprs_position mem pb packettype body body_end
         else if packettype = CHR 0x24 then
           (if body + 10 < body_end then parse_aprs_nmea mem pb body body_end else Parsed 0 pb)
         else if packettype = CHR '':'' then
           (if 11 \<le> paclen then preparse_aprs_message mem (add_type T_MESSAGE pb) body (paclen - 1) else Parsed 0 pb)
         else if packettype = CHR '';'' then
           (if body + 29 < body_end then parse_aprs_object mem pb body body_end else Parsed 0 pb)
         else if packettype = CHR ''>'' then Parsed 0 (add_type T_STATUS pb)
         else if packettype = CHR ''<'' then Parsed 0 (add_type T_STATCAPA pb)
         else if packettype = CHR ''?'' then Parsed 0 (add_type T_QUERY pb)
         else if packettype = CHR '')'' then
           (if body + 18 < body_end then parse_aprs_item mem pb body body_end else Parsed 0 pb)
         else if packettype = CHR ''D'' \<and> sub mem body (body + 5) = ''X de '' then
           Parsed (inerr_code INERR_DIS_DX) pb
         else if packettype = CHR ''T'' then
           (if body + 18 < body_end then parse_aprs_telem (add_type T_TELEMETRY pb) else Parsed 0 pb)
         else if packettype \<in> {CHR ''#'', CHR ''*'', CHR ''_''} then Parsed 0 (add_type T_WX pb)
         else if packettype = CHR 0x7B then Parsed 0 (add_type T_USERDEF pb)
         else parse_aprs_anywhere mem pb body body_end)"

lemma add_type_sel [simp]:
  "pb_packet_len (add_type t pb) = pb_packet_len pb" "pb_info_start (add_type t pb) = pb_info_start pb"
  "pb_data (add_type t pb) = pb_data pb" "pb_packettype (add_type t pb) = pb_packettype pb OR t"
  by (simp_all add: add_type_def)

lemma parse_aprs_3rdparty_advances:
  assumes "parse_aprs_3rdparty mem pb i = Inr (pb', i')"
  shows "i < i'" and "i' + 2 \<le> pb_packet_len pb" and "\<exists>name. pb' = pb\<lparr>pb_srcname := name\<rparr>"
  using assms
  by (auto simp: parse_aprs_3rdparty_def Let_def split: if_splits option.splits dest: memchr_Some(1) memchr_Some(2))

function parse_aprs_body :: "string \<Rightarrow> pbuf_t \<Rightarrow> nat \<Rightarrow> parse_result" where
  "parse_aprs_body mem pb info_start =
     (let paclen = int (pb_packet_len pb) - int (pb_info_start pb) - 2
      in if paclen < 1 then Parsed 0 pb
         else if rd mem info_start = CHR 0x7D then
           (case parse_aprs_3rdparty mem (add_type T_3RDPARTY pb) info_start of
              Inl r \<Rightarrow> r
            | Inr (pb', inner) \<Rightarrow> parse_aprs_body mem pb' inner)
         else parse_aprs_switch mem pb info_start paclen)"
  by auto

termination parse_aprs_body
proof (relation "measure (\<lambda>(mem, pb, i). pb_packet_len pb - i)", simp, goal_cases)
  case (1 mem pb i paclen x2 pb' inner)
  then have "parse_aprs_3rdparty mem (add_type T_3RDPARTY pb) i = Inr (pb', inner)" by simp
  from parse_aprs_3rdparty_advances [OF this] show ?case by auto
qed

declare parse_aprs_body.simps [simp del]

definition parse_aprs :: "string \<Rightarrow> pbuf_t \<Rightarrow> parse_result" where
  "parse_aprs stale pb =
     (let mem = data_mem stale pb;
          d = rd mem;
          cwop = (d 1 = CHR ''W'' \<and> between 67 69 (d 0) \<and> d (scan is_digit mem 2 (pb_packet_len pb)) = CHR ''>'')
      in if pb_info_start pb = 0 then Parsed 0 pb
         else parse_aprs_body mem (pb\<lparr>pb_packettype := T_ALL OR (if cwop then T_CWOP else 0)\<rparr>) (pb_info_start pb))"

section \<open>Messages to the server\<close>

text \<open>\<open>am_body\<close> and \<open>am_msgid\<close> are offsets; \<open>msgid\<close> is NULL when there is no identifier.\<close>

record aprs_message_t =
  am_body :: nat
  am_msgid :: "nat option"
  am_body_len :: int
  am_msgid_len :: int
  am_is_ack :: bool

text \<open>The loop backwards from \<open>p\<close> to a brace, not beyond \<open>body\<close>.\<close>

fun brace_back :: "string \<Rightarrow> nat \<Rightarrow> nat \<Rightarrow> nat" where
  "brace_back mem body p =
     (if body < p \<and> rd mem p \<noteq> CHR 0x7B then brace_back mem body (p - 1) else p)"

declare brace_back.simps [simp del]

definition parse_aprs_message :: "string \<Rightarrow> pbuf_t \<Rightarrow> int + aprs_message_t" where
  "parse_aprs_message stale pb =
     (let mem = data_mem stale pb
      in if \<not> has_flag (pb_packettype pb) T_MESSAGE then Inl (-1)
         else if rd mem (pb_info_start pb + 10) \<noteq> CHR '':'' then Inl (-2)
         else
           let body = pb_info_start pb + 11;
               body_len = int (pb_packet_len pb) - 2 - int (pb_info_start pb);
               p = brace_back mem body (nat (int body + body_len - 1));
               am = (if rd mem p = CHR 0x7B
                     then \<lparr>am_body = body, am_msgid = Some (p + 1), am_body_len = int p - int body,
                           am_msgid_len = int (pb_packet_len pb) - 2 - int (p + 1), am_is_ack = False\<rparr>
                     else \<lparr>am_body = body, am_msgid = None, am_body_len = body_len, am_msgid_len = 0, am_is_ack = False\<rparr>)
           in if am_msgid_len am = 0 \<and> 3 < am_body_len am \<and> sub mem body (body + 3) = ''ack''
              then Inr (am\<lparr>am_is_ack := True, am_msgid := Some (body + 3), am_msgid_len := am_body_len am - 3,
                           am_body_len := 0\<rparr>)
              else Inr am)"
section \<open>What parsing does to a packet\<close>

text \<open>Either the packet is only classified and named, or it is given a position, which lies in range.\<close>

definition tagged :: "pbuf_t \<Rightarrow> pbuf_t \<Rightarrow> bool" where
  "tagged p q \<longleftrightarrow> same_frame p q \<and> pb_flags q = pb_flags p \<and> pb_lat q = pb_lat p \<and> pb_lng q = pb_lng p \<and>
     pb_cos_lat q = pb_cos_lat p \<and> (has_flag (pb_packettype p) T_ALL \<longrightarrow> has_flag (pb_packettype q) T_ALL)"

definition position_ok :: "pbuf_t \<Rightarrow> bool" where
  "position_ok pb \<longleftrightarrow> \<bar>pb_lat pb\<bar> \<le> pi / 2 \<and> \<bar>pb_lng pb\<bar> \<le> pi \<and> pb_cos_lat pb = cos (pb_lat pb)"

definition located :: "pbuf_t \<Rightarrow> pbuf_t \<Rightarrow> bool" where
  "located p q \<longleftrightarrow> same_frame p q \<and> pb_flags q = pb_flags p OR F_HASPOS \<and>
     (has_flag (pb_packettype p) T_ALL \<longrightarrow> has_flag (pb_packettype q) T_ALL)"

fun result_ok :: "pbuf_t \<Rightarrow> parse_result \<Rightarrow> bool" where
  "result_ok p (Parsed rc q) \<longleftrightarrow> tagged p q \<or> rc = 1 \<and> located p q \<and> position_ok q"
| "result_ok p (Bad_Read q) \<longleftrightarrow> tagged p q"
| "result_ok p (Nan_Pos q) \<longleftrightarrow> located p q"

lemma has_flag_bit: "n < LENGTH('a::len) \<Longrightarrow> has_flag (w :: 'a word) (push_bit n 1) \<longleftrightarrow> bit w n"
  unfolding has_flag_def by (metis and_exp_eq_0_iff_not_bit push_bit_of_1)

lemma T_ALL_bit: "has_flag w T_ALL \<longleftrightarrow> bit w 15"
  unfolding T_ALL_def by (rule has_flag_bit) simp

lemma T_ALL_keeps [simp]:
  "has_flag w T_ALL \<Longrightarrow> has_flag (w OR v) T_ALL"
  "has_flag w T_ALL \<Longrightarrow> has_flag (w AND NOT T_MESSAGE OR v) T_ALL"
  unfolding T_ALL_bit by (simp_all add: T_MESSAGE_def bit_simps)

lemma tagged_refl [simp]: "tagged p p"
  by (simp add: tagged_def same_frame_def)

lemma tagged_trans: "tagged p q \<Longrightarrow> tagged q r \<Longrightarrow> tagged p r"
  by (auto simp: tagged_def intro: same_frame_trans)

lemma result_ok_tagged: "tagged p q \<Longrightarrow> result_ok q r \<Longrightarrow> result_ok p r"
  by (cases r) (auto simp: tagged_def located_def intro: same_frame_trans)

lemma tagged_updates [simp]:
  "tagged p (add_type t p)" "tagged p (p\<lparr>pb_srcname := n\<rparr>)" "tagged p (p\<lparr>pb_dstname := d\<rparr>)"
  "tagged p (p\<lparr>pb_symbol := s, pb_packettype := pb_packettype p OR t\<rparr>)"
  "tagged p (p\<lparr>pb_packettype := pb_packettype p AND NOT T_MESSAGE OR t\<rparr>)"
  by (simp_all add: tagged_def same_frame_def add_type_def)

lemma position_range:
  "\<not> position_bad (Fin la) (Fin lo) \<Longrightarrow> \<bar>la\<bar> \<le> 90 \<and> \<bar>lo\<bar> \<le> 180"
  by (auto simp: position_bad_def)

lemma pbuf_fill_pos_ok: "result_ok pb (pbuf_fill_pos pb lat lng tab code)"
proof (cases "position_bad lat lng")
  case False
  have scaled: "\<bar>x * (pi / 180)\<bar> \<le> m * (pi / 180)" if "\<bar>x\<bar> \<le> m" for x m :: real
    using that by (simp add: abs_mult)
  show ?thesis
  proof (cases "\<exists>la lo. lat = Fin la \<and> lng = Fin lo")
    case True
    then obtain la lo where L: "lat = Fin la" "lng = Fin lo" by blast
    have "\<bar>filter_lat2rad la\<bar> \<le> pi / 2" "\<bar>filter_lon2rad lo\<bar> \<le> pi"
      using position_range [OF False [unfolded L]] scaled [of la 90] scaled [of lo 180]
      by (auto simp: filter_lat2rad_def filter_lon2rad_def)
    then show ?thesis
      using False by (simp add: pbuf_fill_pos_def L Let_def located_def same_frame_def position_ok_def)
  next
    case nan: False
    then show ?thesis
      using False
      by (auto simp: pbuf_fill_pos_def Let_def located_def same_frame_def split: cfloat.splits)
  qed
qed (simp add: pbuf_fill_pos_def Let_def)

lemma result_ok_fill_pos [simp]: "tagged p q \<Longrightarrow> result_ok p (pbuf_fill_pos q lat lng tab code)"
  by (rule result_ok_tagged [OF _ pbuf_fill_pos_ok])

lemma parse_aprs_nmea_ok: "result_ok pb (parse_aprs_nmea mem pb body body_end)"
  by (simp add: parse_aprs_nmea_def Let_def split: prod.split sum.split option.split)

lemma parse_aprs_mice_ok: "result_ok pb (parse_aprs_mice mem pb body body_end)"
  by (simp add: parse_aprs_mice_def Let_def split: prod.split option.split)

lemma parse_aprs_compressed_ok: "result_ok pb (parse_aprs_compressed mem pb body body_end)"
  by (simp add: parse_aprs_compressed_def Let_def)

lemma parse_aprs_uncompressed_ok: "result_ok pb (parse_aprs_uncompressed mem pb body body_end)"
  by (simp add: parse_aprs_uncompressed_def Let_def split: prod.split option.split)

lemma preparse_aprs_message_ok: "result_ok pb (preparse_aprs_message mem pb body n)"
proof -
  have "tagged p (p'\<lparr>pb_dstname := d\<rparr>)" if "tagged p p'" for p p' d
    using that tagged_trans [OF _ tagged_updates(3)] by blast
  moreover have "tagged p (p'\<lparr>pb_packettype := pb_packettype p' AND NOT T_MESSAGE OR T_TELEMETRY\<rparr>)" if "tagged p p'" for p p'
    using that tagged_trans [OF _ tagged_updates(5)] by blast
  ultimately show ?thesis by (simp add: preparse_aprs_message_def Let_def del: tagged_updates(3,5))
qed

lemmas position_parsers_ok = parse_aprs_mice_ok parse_aprs_compressed_ok parse_aprs_uncompressed_ok
  parse_aprs_nmea_ok preparse_aprs_message_ok

lemma parse_aprs_pos_ok: "result_ok pb (parse_aprs_pos mem pb body body_end)"
  by (simp add: parse_aprs_pos_def position_parsers_ok)

lemma parse_aprs_object_ok: "result_ok pb (parse_aprs_object mem pb body body_end)"
  and parse_aprs_item_ok: "result_ok pb (parse_aprs_item mem pb body body_end)"
proof -
  have "result_ok pb (parse_aprs_pos mem ((add_type t pb)\<lparr>pb_srcname := n\<rparr>) i e)" for t n i e
    using result_ok_tagged [OF tagged_trans [OF tagged_updates(1) tagged_updates(2)] parse_aprs_pos_ok] by blast
  then show "result_ok pb (parse_aprs_object mem pb body body_end)" "result_ok pb (parse_aprs_item mem pb body body_end)"
    by (simp_all add: parse_aprs_object_def parse_aprs_item_def Let_def)
qed

lemma result_ok_type: "result_ok (add_type t pb) r \<Longrightarrow> result_ok pb r"
  by (rule result_ok_tagged [OF tagged_updates(1)])

lemma result_ok_if: "result_ok p a \<Longrightarrow> result_ok p b \<Longrightarrow> result_ok p (if P then a else b)"
  by simp

lemma result_ok_Parsed: "tagged p q \<Longrightarrow> result_ok p (Parsed rc q)"
  by simp

lemma parse_aprs_position_ok: "result_ok pb (parse_aprs_position mem pb t body body_end)"
  unfolding parse_aprs_position_def Let_def
  by (intro result_ok_if result_ok_Parsed tagged_refl tagged_updates
      result_ok_type [OF parse_aprs_compressed_ok] result_ok_type [OF parse_aprs_uncompressed_ok])

lemma parse_aprs_anywhere_ok: "result_ok pb (parse_aprs_anywhere mem pb body body_end)"
  by (simp add: parse_aprs_anywhere_def Let_def position_parsers_ok split: option.split)

lemma parse_aprs_switch_ok: "result_ok pb (parse_aprs_switch mem pb i n)"
  unfolding parse_aprs_switch_def Let_def parse_aprs_telem_def
  by (intro result_ok_if result_ok_Parsed tagged_refl tagged_updates parse_aprs_object_ok parse_aprs_item_ok
      parse_aprs_position_ok parse_aprs_anywhere_ok parse_aprs_nmea_ok
      result_ok_type [OF parse_aprs_mice_ok] result_ok_type [OF preparse_aprs_message_ok])

lemma parse_aprs_3rdparty_ok:
  "parse_aprs_3rdparty mem pb i = Inl r \<Longrightarrow> result_ok pb r"
  by (auto simp: parse_aprs_3rdparty_def Let_def split: if_splits option.splits)

lemma parse_aprs_body_ok: "result_ok pb (parse_aprs_body mem pb i)"
proof (induction mem pb i rule: parse_aprs_body.induct)
  case (1 mem pb i)
  let ?t = "parse_aprs_3rdparty mem (add_type T_3RDPARTY pb) i"
  show ?case
  proof (cases "int (pb_packet_len pb) - int (pb_info_start pb) - 2 < 1 \<or> rd mem i \<noteq> CHR 0x7D")
    case True
    then show ?thesis by (subst parse_aprs_body.simps) (auto simp: Let_def parse_aprs_switch_ok)
  next
    case False
    show ?thesis
    proof (cases ?t)
      case (Inl r)
      with False show ?thesis
        by (subst parse_aprs_body.simps) (auto simp: Let_def dest: parse_aprs_3rdparty_ok intro: result_ok_type)
    next
      case (Inr x)
      obtain pb' inner where x: "x = (pb', inner)" by fastforce
      have "tagged (add_type T_3RDPARTY pb) pb'"
        using parse_aprs_3rdparty_advances(3) [OF Inr [unfolded x]] by auto
      moreover have "result_ok pb' (parse_aprs_body mem pb' inner)" using False Inr x by (intro 1) auto
      ultimately have "result_ok pb (parse_aprs_body mem pb' inner)"
        by (blast intro: result_ok_tagged result_ok_type)
      with False Inr x show ?thesis by (subst parse_aprs_body.simps) (simp add: Let_def)
    qed
  qed
qed
section \<open>What parsing reads\<close>

text \<open>The readers do not see the bytes behind the packet as long as they stay within it and its NUL.\<close>

definition crlf_line :: "string \<Rightarrow> bool" where
  "crlf_line d \<longleftrightarrow> 2 \<le> length d \<and> d ! (length d - 2) = CHR 0x0D \<and> d ! (length d - 1) = CHR 0x0A"

lemma rd_mem [simp]: "i \<le> length d \<Longrightarrow> rd (d @ NUL # st) i = rd d i"
  by (auto simp: rd_def nth_append)

lemma sub_mem [simp]: "b \<le> length d \<Longrightarrow> sub (d @ NUL # st) a b = sub d a b"
  by (simp add: sub_def drop_append take_append)

lemma scan_mem [simp]: "e \<le> length d \<Longrightarrow> scan P (d @ NUL # st) p e = scan P d p e"
  by (simp add: scan_def)

lemma memchr_mem [simp]: "p + n \<le> length d \<Longrightarrow> memchr (d @ NUL # st) p n c = memchr d p n c"
  by (simp add: memchr_def)

lemma cstr_at_mem [simp]: "i \<le> length d \<Longrightarrow> cstr_at (d @ NUL # st) i = cstr_at d i"
proof -
  assume i: "i \<le> length d"
  have "takeWhile P (xs @ y # ys) = takeWhile P xs" if "\<not> P y" for P y and xs ys :: string
    using that by (induction xs) auto
  with i show ?thesis by (simp add: cstr_at_def)
qed

lemma skip_mem [simp]:
  "i \<le> length d \<Longrightarrow> skip_char (d @ NUL # st) c i = skip_char d c i"
  "i \<le> length d \<Longrightarrow> skip_other (d @ NUL # st) c i = skip_other d c i"
  by (simp_all add: skip_char_def skip_other_def del: rd_in)

lemma sub_mem_eq:
  assumes "a \<le> length d" and "NUL \<notin> set k"
  shows "sub (d @ NUL # st) a (a + length k) = k \<longleftrightarrow> sub d a (a + length k) = k"
proof (cases "a + length k \<le> length d")
  case False
  have "sub (d @ NUL # st) a (a + length k) = drop a d @ take (length k - (length d - a)) (NUL # st)"
    using assms(1) False by (simp add: sub_def)
  moreover have "0 < length k - (length d - a)" using False assms(1) by simp
  ultimately have "NUL \<in> set (sub (d @ NUL # st) a (a + length k))"
    by (cases "length k - (length d - a)") simp_all
  moreover have "length (sub d a (a + length k)) \<noteq> length k" using False assms(1) by (auto simp: min_def)
  ultimately show ?thesis using assms(2) by metis
qed simp

lemma over_field_le: "i \<le> e \<Longrightarrow> rd mem e \<noteq> CHR '','' \<Longrightarrow> over_field mem e i \<le> e"
  using scan_le [of i e "\<lambda>c. c \<noteq> CHR '',''" mem]
  by (cases "scan (\<lambda>c. c \<noteq> CHR '','') mem i e = e") (auto simp: over_field_def skip_char_def)

lemma over_field_mem [simp]: "i \<le> e \<Longrightarrow> e \<le> length d \<Longrightarrow> over_field (d @ NUL # st) e i = over_field d e i"
  using scan_le [of i e "\<lambda>c. c \<noteq> CHR '',''" d] by (simp add: over_field_def)

lemma crlf_rd:
  assumes "crlf_line d"
  shows "rd d (length d - 2) = CHR 0x0D" and "rd d (length d - 1) = CHR 0x0A" and "rd d (length d) = NUL"
  using assms by (auto simp: crlf_line_def)

text \<open>A coordinate of a sentence starts at the latest at the LF, its longitude at the NUL.\<close>

lemma over_coordinate_mem:
  assumes "crlf_line d" and "i + 1 \<le> length d"
  shows "over_coordinate (d @ NUL # st) (length d - 2) i = over_coordinate d (length d - 2) i"
    and "over_coordinate d (length d - 2) i \<le> length d"
proof -
  let ?e = "length d - 2" and ?j = "over_field d (length d - 2) i"
  note R = crlf_rd [OF assms(1)]
  have len: "2 \<le> length d" using assms(1) by (simp add: crlf_line_def)
  have j: "over_field (d @ NUL # st) ?e i = ?j \<and> ?j + 1 \<le> length d"
  proof (cases "i \<le> ?e")
    case True
    then show ?thesis using over_field_le [OF True, of d] R(1) len by auto
  next
    case False
    then have "i = length d - 1" using assms(2) by simp
    then show ?thesis using len R(2) by (auto simp: over_field_def scan_def skip_char_def nth_append)
  qed
  have k: "skip_other d CHR '','' ?j \<le> length d" using j by (simp add: skip_other_def)
  show "over_coordinate (d @ NUL # st) ?e i = over_coordinate d ?e i"
    using j k by (simp add: over_coordinate_def)
  show "over_coordinate d ?e i \<le> length d"
    using k R(3) by (cases "skip_other d CHR '','' ?j = length d") (auto simp: over_coordinate_def skip_char_def)
qed

lemma nmea_fields_mem:
  assumes "crlf_line d" and "body + 10 < length d - 2"
  shows "nmea_fields (d @ NUL # st) body (length d - 2) = nmea_fields d body (length d - 2)"
    and "nmea_fields d body (length d - 2) = Inr (Some (latp, lngp)) \<Longrightarrow> latp \<le> length d \<and> lngp \<le> length d"
proof -
  let ?m = "d @ NUL # st"
  obtain e where e: "length d = Suc (Suc e)"
    using assms(1) by (metis crlf_line_def le_Suc_ex numeral_2_eq_2 plus_nat.simps)
  note R = crlf_rd [OF assms(1)] and C = over_coordinate_mem [OF assms(1)]
  have b: "body + 10 < e" using assms(2) e by simp
  have F: "over_field ?m e i = over_field d e i" "over_field d e i \<le> e" if "i \<le> e" for i
    using that over_field_le [OF that, of d] R(1) e by auto
  have G: "over_field ?m (Suc e) i = over_field d (Suc e) i" "over_field d (Suc e) i \<le> Suc e" if "i \<le> Suc e" for i
    using that over_field_le [OF that, of d] R(2) e by auto
  let ?j = "over_field d e (body + 6)" let ?k = "skip_other d CHR '','' ?j"
  have j: "?j \<le> e" using F(2) b by simp
  then have k: "?k \<le> Suc e" by (simp add: skip_other_def)
  have l: "skip_char d CHR '','' ?k \<le> Suc e"
    using k R(2) e by (cases "?k = Suc e") (auto simp: skip_char_def)
  let ?date = "over_field d (Suc e)"
  have date: "?date (?date (?date (?date (body + 9)))) \<le> Suc e"
      "over_field ?m (Suc e) (over_field ?m (Suc e) (over_field ?m (Suc e) (over_field ?m (Suc e) (body + 9)))) =
       ?date (?date (?date (?date (body + 9))))"
    using G b by simp_all
  have coord: "over_coordinate ?m e i = over_coordinate d e i" "over_coordinate d e i \<le> length d" if "i \<le> Suc e" for i
    using C [of i] that e by simp_all
  have kw: "sub ?m body (body + n) = sub d body (body + n)" if "n \<le> 7" for n
    using that b e by simp
  have chars: "rd ?m ?j = rd d ?j" "rd ?m (body + 7) = rd d (body + 7)" "rd ?m (body + 8) = rd d (body + 8)"
    using j b e by (simp_all del: rd_in)
  have skips: "skip_char ?m CHR '','' (skip_other ?m CHR '','' ?j) = skip_char d CHR '','' ?k"
    using j k e by simp
  have fm: "over_field ?m e (body + 6) = ?j" using F b by simp
  have e': "length d - 2 = e" "e + 1 = Suc e" using e by simp_all
  have size: "length ''GPGGA,'' = 6" "length ''GPGLL,'' = 6" "length ''GPRMC,'' = 6" "length ''GPWPL,'' = 6"
    "length ''PNTS,1,'' = 7" "length ''GPGSA,'' = 6" "length ''GPVTG,'' = 6" "length ''GPGSV,'' = 6" by simp_all
  have c6: "over_coordinate ?m e (body + 6) = over_coordinate d e (body + 6)" using coord(1) b by simp
  show "nmea_fields ?m body (length d - 2) = nmea_fields d body (length d - 2)"
    unfolding nmea_fields_def Let_def e' size fm chars skips date(2) coord(1) [OF le_SucI [OF j]] coord(1) [OF l] coord(1) [OF date(1)] c6
      kw [of 6, simplified] kw [of 7, simplified] ..
  show "latp \<le> length d \<and> lngp \<le> length d" if "nmea_fields d body (length d - 2) = Inr (Some (latp, lngp))"
    using that b j l date(1) coord(2) [of "body + 6"] coord(2) [OF le_SucI [OF j]] coord(2) [OF l] coord(2) [OF date(1)]
    unfolding nmea_fields_def Let_def e' by (auto simp: e split: if_splits)
qed
lemma mice_info_mem: "body + 8 \<le> length d \<Longrightarrow> mice_info_ok (d @ NUL # st) body = mice_info_ok d body"
  by (simp add: mice_info_ok_def Let_def del: rd_in)

text \<open>The parsers of positions read within the packet.\<close>

lemma parse_aprs_compressed_mem [simp]:
  "body_end \<le> length d \<Longrightarrow> parse_aprs_compressed (d @ NUL # st) pb body body_end = parse_aprs_compressed d pb body body_end"
  by (cases "body_end < body + 13") (simp_all add: parse_aprs_compressed_def Let_def del: rd_in)

lemma parse_aprs_uncompressed_mem [simp]:
  "body_end \<le> length d \<Longrightarrow> parse_aprs_uncompressed (d @ NUL # st) pb body body_end = parse_aprs_uncompressed d pb body body_end"
  by (cases "body_end < body + 19") (simp_all add: parse_aprs_uncompressed_def)

lemma parse_aprs_pos_mem [simp]:
  "body \<le> length d \<Longrightarrow> body_end \<le> length d \<Longrightarrow>
     parse_aprs_pos (d @ NUL # st) pb body body_end = parse_aprs_pos d pb body body_end"
  by (simp add: parse_aprs_pos_def del: rd_in)

lemma parse_aprs_mice_mem [simp]:
  assumes "body_end \<le> length d" and "pb_dstcall_end_or_ssid pb \<le> length d"
  shows "parse_aprs_mice (d @ NUL # st) pb body body_end = parse_aprs_mice d pb body body_end"
proof (cases "body_end < body + 8 \<or> pb_dstcall_end_or_ssid pb \<noteq> pb_srccall_end pb + 1 + 6")
  case True
  then show ?thesis by (auto simp: parse_aprs_mice_def Let_def)
next
  case False
  then have 1: "sub (d @ NUL # st) (pb_srccall_end pb + 1) (pb_srccall_end pb + 1 + 6) =
      sub d (pb_srccall_end pb + 1) (pb_srccall_end pb + 1 + 6)"
    using assms(2) by simp
  have 2: "mice_info_ok (d @ NUL # st) body = mice_info_ok d body" using False assms(1) by (simp add: mice_info_mem)
  have 3: "rd (d @ NUL # st) (body + 0) = rd d (body + 0)" "rd (d @ NUL # st) (body + 1) = rd d (body + 1)"
      "rd (d @ NUL # st) (body + 2) = rd d (body + 2)" "rd (d @ NUL # st) (body + 6) = rd d (body + 6)"
      "rd (d @ NUL # st) (body + 7) = rd d (body + 7)"
    using False assms(1) by (simp_all del: rd_in)
  show ?thesis unfolding parse_aprs_mice_def Let_def 1 2 3 ..
qed

lemma get_symbol_mem [simp]:
  assumes "pb_dstcall_end_or_ssid pb \<le> length d"
  shows "get_symbol_from_dstcall (d @ NUL # st) pb = get_symbol_from_dstcall d pb"
proof (cases "pb_dstcall_end_or_ssid pb - (pb_srccall_end pb + 1) < 5")
  case False
  let ?s = "pb_srccall_end pb + 1"
  have r: "rd (d @ NUL # st) (?s + 3) = rd d (?s + 3)" "rd (d @ NUL # st) (?s + 4) = rd d (?s + 4)"
      "rd (d @ NUL # st) (?s + 5) = rd d (?s + 5)"
    using False assms by (simp_all del: rd_in)
  have s: "sub (d @ NUL # st) ?s (?s + 3) = sub d ?s (?s + 3)" using False assms by simp
  show ?thesis unfolding get_symbol_from_dstcall_def Let_def r s ..
qed (simp add: get_symbol_from_dstcall_def Let_def)

lemma parse_aprs_nmea_mem [simp]:
  assumes "crlf_line d" and "pb_dstcall_end_or_ssid pb \<le> length d" and "body + 10 < length d - 2"
  shows "parse_aprs_nmea (d @ NUL # st) pb body (length d - 2) = parse_aprs_nmea d pb body (length d - 2)"
proof -
  note N = nmea_fields_mem [OF assms(1,3)]
  have "sub (d @ NUL # st) body (body + 3) = sub d body (body + 3)" using assms(3) by simp
  then show ?thesis
    using N(2) by (auto simp: parse_aprs_nmea_def Let_def N(1) assms(2) split: sum.split option.split)
qed

lemma preparse_aprs_message_mem [simp]:
  assumes "body + 10 \<le> length d"
  shows "preparse_aprs_message (d @ NUL # st) pb body n = preparse_aprs_message d pb body n"
proof -
  have kw: "sub (d @ NUL # st) (body + i) (body + i + length k) = k \<longleftrightarrow> sub d (body + i) (body + i + length k) = k"
    if "i \<le> 10" and "NUL \<notin> set k" for i k
    using sub_mem_eq [of "body + i" d k st] assms that by simp
  have nul: "NUL \<notin> set ''NWS-''" "NUL \<notin> set ''NWS_''" "NUL \<notin> set ''SKY''" "NUL \<notin> set ''PARM.''" "NUL \<notin> set ''UNIT.''"
    "NUL \<notin> set ''EQNS.''" "NUL \<notin> set ''BITS.''" by simp_all
  note kws = nul(1-3) [THEN kw [OF le0]] nul(4-7) [THEN kw [OF order_refl]]
  have r: "rd (d @ NUL # st) (body + 9) = rd d (body + 9)" using assms by (simp del: rd_in)
  have s: "scan P (d @ NUL # st) body (body + CALLSIGNLEN_MAX) = scan P d body (body + CALLSIGNLEN_MAX)"
      "scan P d body (body + CALLSIGNLEN_MAX) \<le> length d" for P
    using assms scan_le [of body "body + CALLSIGNLEN_MAX" P d] by (simp_all add: len_defs)
  show ?thesis unfolding preparse_aprs_message_def Let_def r s(1) sub_mem [OF s(2)] kws ..
qed

lemma parse_aprs_object_mem [simp]:
  "body + 29 < body_end \<Longrightarrow> body_end \<le> length d \<Longrightarrow>
     parse_aprs_object (d @ NUL # st) pb body body_end = parse_aprs_object d pb body body_end"
  by (simp add: parse_aprs_object_def Let_def del: rd_in)

lemma parse_aprs_item_mem [simp]:
  assumes "body + 18 < body_end" and "body_end \<le> length d"
  shows "parse_aprs_item (d @ NUL # st) pb body body_end = parse_aprs_item d pb body body_end"
proof -
  have s: "scan P (d @ NUL # st) body (body + 9) = scan P d body (body + 9)" "scan P d body (body + 9) \<le> body + 9" for P
    using assms scan_le [of body "body + 9" P d] by simp_all
  have le: "scan P d body (body + 9) + 1 \<le> length d" "scan P d body (body + 9) \<le> length d" for P
    using s(2) [of P] assms by simp_all
  show ?thesis
    unfolding parse_aprs_item_def Let_def s(1) rd_mem [OF le(2)] sub_mem [OF le(2)] parse_aprs_pos_mem [OF le(1) assms(2)] ..
qed

text \<open>All of the switch, on a packet whose information field is not empty.\<close>

lemma parse_aprs_anywhere_mem:
  assumes "body \<le> body_end" and "body_end \<le> length d"
  shows "parse_aprs_anywhere (d @ NUL # st) pb body body_end = parse_aprs_anywhere d pb body body_end"
proof (cases "memchr d body (body_end - body) CHR ''!''")
  case (Some i)
  then have "rd (d @ NUL # st) i = rd d i" using memchr_Some(3) [OF Some] by (simp del: rd_in)
  with Some assms show ?thesis by (simp add: parse_aprs_anywhere_def Let_def del: rd_in)
qed (use assms in \<open>simp add: parse_aprs_anywhere_def\<close>)

lemma parse_aprs_position_mem:
  "body_end \<le> length d \<Longrightarrow> parse_aprs_position (d @ NUL # st) pb t body body_end = parse_aprs_position d pb t body body_end"
  by (simp add: parse_aprs_position_def Let_def del: rd_in)

lemma parse_aprs_switch_mem:
  assumes "crlf_line d" and "pb_packet_len pb = length d" and "pb_dstcall_end_or_ssid pb \<le> length d"
    and "i < length d - 2" and "n = int (length d) - int i - 2"
  shows "parse_aprs_switch (d @ NUL # st) pb i n = parse_aprs_switch d pb i n"
proof -
  let ?m = "d @ NUL # st" and ?e = "length d - 2"
  have c: "rd ?m i = rd d i" "rd ?m (i + 1) = rd d (i + 1)" using assms(4) by (simp_all del: rd_in)
  have dx: "sub ?m (i + 1) (i + 1 + 5) = ''X de '' \<longleftrightarrow> sub d (i + 1) (i + 1 + 5) = ''X de ''"
    using sub_mem_eq [of "i + 1" d "''X de ''" st] assms(4) by (simp add: eval_nat_numeral)
  have mice: "parse_aprs_mice ?m (add_type t pb) (i + 1) ?e = parse_aprs_mice d (add_type t pb) (i + 1) ?e" for t
    using assms(3) by (simp add: add_type_def)
  have nmea: "i + 1 + 10 < ?e \<Longrightarrow> parse_aprs_nmea ?m pb (i + 1) ?e = parse_aprs_nmea d pb (i + 1) ?e"
    using assms by simp
  have msg: "11 \<le> n \<Longrightarrow> preparse_aprs_message ?m p (i + 1) k = preparse_aprs_message d p (i + 1) k" for p k
    using assms(4,5) by simp
  have obj: "i + 1 + 29 < ?e \<Longrightarrow> parse_aprs_object ?m pb (i + 1) ?e = parse_aprs_object d pb (i + 1) ?e"
    and item: "i + 1 + 18 < ?e \<Longrightarrow> parse_aprs_item ?m pb (i + 1) ?e = parse_aprs_item d pb (i + 1) ?e" by simp_all
  have rest: "parse_aprs_anywhere ?m pb (i + 1) ?e = parse_aprs_anywhere d pb (i + 1) ?e"
      "parse_aprs_position ?m pb t (i + 1) ?e = parse_aprs_position d pb t (i + 1) ?e" for t
    using assms(4) by (simp_all add: parse_aprs_anywhere_mem parse_aprs_position_mem)
  show ?thesis
    unfolding parse_aprs_switch_def Let_def assms(2) c dx mice rest
    using nmea msg obj item by (simp only: cong: if_cong)
qed

lemma parse_aprs_switch_reads:
  assumes "i + 1 \<le> pb_packet_len pb - 2"
  shows "parse_aprs_switch mem pb i n \<noteq> Bad_Read pb'"
proof -
  have fill: "pbuf_fill_pos p la lo t c \<noteq> Bad_Read q" for p q la lo t c
    by (auto simp: pbuf_fill_pos_def Let_def split: cfloat.split)
  have comp: "parse_aprs_compressed mem p b e \<noteq> Bad_Read q" "parse_aprs_uncompressed mem p b e \<noteq> Bad_Read q"
      "parse_aprs_mice mem p b e \<noteq> Bad_Read q" "parse_aprs_nmea mem p b e \<noteq> Bad_Read q" for p q b e
    by (auto simp: parse_aprs_compressed_def parse_aprs_uncompressed_def parse_aprs_mice_def parse_aprs_nmea_def
        Let_def fill split: option.split sum.split)
  have pos: "parse_aprs_position mem p t b e \<noteq> Bad_Read q" "parse_aprs_pos mem p b e \<noteq> Bad_Read q"
      "preparse_aprs_message mem p b k \<noteq> Bad_Read q" for p q b e t k
    by (auto simp: parse_aprs_position_def parse_aprs_pos_def preparse_aprs_message_def Let_def comp)
  have obj: "parse_aprs_object mem p b e \<noteq> Bad_Read q" "parse_aprs_item mem p b e \<noteq> Bad_Read q" for p q b e
    by (auto simp: parse_aprs_object_def parse_aprs_item_def Let_def pos)
  have "parse_aprs_anywhere mem pb (i + 1) (pb_packet_len pb - 2) \<noteq> Bad_Read pb'"
    using assms by (auto simp: parse_aprs_anywhere_def Let_def comp split: option.split)
  then show ?thesis
    unfolding parse_aprs_switch_def Let_def parse_aprs_telem_def using comp pos obj
    by (simp del: rd_in cong: if_cong)
qed
section \<open>Properties of the parser\<close>

lemma packet_wf_line:
  assumes "packet_wf pb"
  shows "crlf_line (pb_data pb)" and "pb_packet_len pb = length (pb_data pb)"
    and "pb_dstcall_end_or_ssid pb \<le> length (pb_data pb)" and "pb_info_start pb < length (pb_data pb) - 2"
    and "0 < pb_info_start pb"
proof -
  let ?d = "pb_data pb"
  have W: "pb_packet_len pb = length ?d" "drop (length ?d - 2) ?d = CRLF" "pb_info_start pb < length ?d - 2"
    "pb_dstcall_end_or_ssid pb \<le> pb_dstcall_end pb" "pb_dstcall_end pb < pb_info_start pb"
    using assms by (auto simp: packet_wf_def)
  have len: "2 \<le> length ?d" using W(3) by simp
  have "?d ! (length ?d - 2) = CHR 0x0D" "?d ! (length ?d - 1) = CHR 0x0A"
    using arg_cong [OF W(2), of "\<lambda>s. s ! 0"] arg_cong [OF W(2), of "\<lambda>s. s ! 1"] len
    by (simp_all add: numeral_2_eq_2 Suc_diff_Suc)
  with len show "crlf_line ?d" by (simp add: crlf_line_def)
  from W show "pb_packet_len pb = length ?d" "pb_dstcall_end_or_ssid pb \<le> length ?d"
    "pb_info_start pb < length ?d - 2" "0 < pb_info_start pb" by linarith+
qed


text \<open>C13. A packet that is not a third-party packet is parsed from its own bytes: the result does not depend on what
  the buffer holds behind the packet, and no search runs out of it.\<close>

theorem parse_aprs_reads_packet:
  assumes "packet_wf pb" and "pb_data pb ! pb_info_start pb \<noteq> CHR 0x7D"
  shows "parse_aprs stale pb = parse_aprs stale' pb \<and> parse_aprs stale pb \<noteq> Bad_Read q"
proof -
  note W = packet_wf_line [OF assms(1)]
  let ?d = "pb_data pb"
  have ty: "rd (data_mem st pb) (pb_info_start pb) \<noteq> CHR 0x7D" for st
    using assms(2) W(4) by (simp add: nth_append)
  have body: "parse_aprs_body (data_mem st pb) (pb\<lparr>pb_packettype := t\<rparr>) (pb_info_start pb) =
      parse_aprs_switch ?d (pb\<lparr>pb_packettype := t\<rparr>) (pb_info_start pb)
        (int (pb_packet_len pb) - int (pb_info_start pb) - 2)" for st t
    using ty [of st] W by (subst parse_aprs_body.simps) (auto simp: Let_def intro!: parse_aprs_switch_mem)
  have scan: "scan is_digit (data_mem st pb) 2 (pb_packet_len pb) = scan is_digit ?d 2 (pb_packet_len pb)"
      "rd (data_mem st pb) (scan is_digit ?d 2 (pb_packet_len pb)) = rd ?d (scan is_digit ?d 2 (pb_packet_len pb))"
      "rd (data_mem st pb) 0 = rd ?d 0" "rd (data_mem st pb) 1 = rd ?d 1" for st
    using W(2,4) scan_le [of 2 "pb_packet_len pb" is_digit ?d] by (simp_all del: rd_in)
  have "\<exists>t. \<forall>st. parse_aprs st pb = parse_aprs_switch ?d (pb\<lparr>pb_packettype := t\<rparr>) (pb_info_start pb)
          (int (pb_packet_len pb) - int (pb_info_start pb) - 2)"
    unfolding parse_aprs_def Let_def scan body using W(5) by auto
  then show ?thesis using parse_aprs_switch_reads W(2,4) by fastforce
qed

text \<open>A third-party packet whose inner packet has an empty information field makes the parser search for an
  exclamation mark with a negative length, beyond the end of the buffer.\<close>

theorem parse_aprs_empty_inner:
  assumes "packet_wf pb" and "pb_data pb ! pb_info_start pb = CHR 0x7D"
    and "parse_aprs_3rdparty (data_mem stale pb) pb (pb_info_start pb) = Inr (pb', pb_packet_len pb - 2)"
  shows "\<exists>q. parse_aprs stale pb = Bad_Read q"
proof -
  note W = packet_wf_line [OF assms(1)]
  let ?m = "data_mem stale pb" and ?n = "pb_packet_len pb - 2" and ?k = "int (pb_packet_len pb) - int (pb_info_start pb) - 2"
  have ty: "rd ?m (pb_info_start pb) = CHR 0x7D" using assms(2) W(4) by (simp add: nth_append)
  have cr: "rd ?m ?n = CHR 0x0D" using crlf_rd(1) [OF W(1)] W(2) by (simp del: rd_in)
  have k: "\<not> ?k < 1" using W(2,4) by linarith
  have "\<exists>q. parse_aprs_body ?m (pb\<lparr>pb_packettype := t\<rparr>) (pb_info_start pb) = Bad_Read q" for t
  proof -
    let ?p = "add_type T_3RDPARTY (pb\<lparr>pb_packettype := t\<rparr>)"
    obtain q where q: "parse_aprs_3rdparty ?m ?p (pb_info_start pb) = Inr (q, ?n)"
      using assms(3) by (auto simp: add_type_def parse_aprs_3rdparty_def Let_def split: if_splits option.splits)
    obtain nm where nm: "q = ?p\<lparr>pb_srcname := nm\<rparr>" using parse_aprs_3rdparty_advances(3) [OF q] by blast
    have "parse_aprs_switch ?m q ?n ?k = Bad_Read q"
      unfolding parse_aprs_switch_def Let_def cr using W(2,4) by (simp add: parse_aprs_anywhere_def nm)
    then have "parse_aprs_body ?m q ?n = Bad_Read q"
      using k cr by (subst parse_aprs_body.simps) (simp add: Let_def nm del: rd_in)
    then show ?thesis using k ty q by (subst parse_aprs_body.simps) (simp add: Let_def del: rd_in)
  qed
  then show ?thesis using W(5) by (simp add: parse_aprs_def Let_def)
qed
section \<open>Printing and parsing positions\<close>

text \<open>Four digits to the base 91, and decimal digits.\<close>

definition base91_digits :: "nat \<Rightarrow> string" where
  "base91_digits n = map (\<lambda>k. char_of (n div 91 ^ k mod 91 + 33)) [3, 2, 1, 0]"

definition dec_digits :: "nat \<Rightarrow> nat \<Rightarrow> string" where
  "dec_digits w n = map (\<lambda>k. char_of (n div 10 ^ k mod 10 + 48)) (rev [0..<w])"

lemma base91_roundtrip:
  assumes "n < 91 ^ 4"
  shows "base91_val (base91_digits n) = int n" and "\<forall>c \<in> set (base91_digits n). between 0x21 0x7B c"
proof -
  have b: "byte_code (char_of (m mod 91 + 33)) = m mod 91 + 33" for m :: nat
  proof -
    have "m mod 91 + 33 < 256" using pos_mod_bound [of 91 m] by (simp add: less_trans [of _ "91 + 33"])
    then show ?thesis by simp
  qed
  have horner: "p = q * 91 + b \<Longrightarrow> m = p * 91 + c \<Longrightarrow> k = m * 91 + e \<Longrightarrow> k = ((q * 91 + b) * 91 + c) * 91 + e"
    for p q b m c k e :: nat by simp
  have top: "n div 753571 mod 91 = n div 753571" using assms by (simp add: div_less_iff_less_mult)
  have "n div 8281 = n div 753571 * 91 + n div 8281 mod 91"
    using div_mult_mod_eq [of "n div 8281" 91] by (simp add: div_mult2_eq [symmetric])
  moreover have "n div 91 = n div 8281 * 91 + n div 91 mod 91"
    using div_mult_mod_eq [of "n div 91" 91] by (simp add: div_mult2_eq [symmetric])
  moreover have "n = n div 91 * 91 + n mod 91" by simp
  ultimately have "n = ((n div 753571 mod 91 * 91 + n div 8281 mod 91) * 91 + n div 91 mod 91) * 91 + n mod 91"
    unfolding top by (rule horner)
  then have "int n = ((int (n div 753571 mod 91) * 91 + int (n div 8281 mod 91)) * 91 + int (n div 91 mod 91)) * 91 + int (n mod 91)"
    by (metis of_nat_add of_nat_mult of_nat_numeral)
  moreover have "base91_digits n = [char_of (n div 753571 mod 91 + 33), char_of (n div 8281 mod 91 + 33),
      char_of (n div 91 mod 91 + 33), char_of (n mod 91 + 33)]"
    by (simp add: base91_digits_def)
  ultimately show "base91_val (base91_digits n) = int n"
    unfolding base91_val_def by (simp only: foldl.simps b of_nat_add of_nat_numeral add_diff_cancel mult_zero_left add_0)
  have "m mod 91 < 91" for m :: nat by simp
  then show "\<forall>c \<in> set (base91_digits n). between 0x21 0x7B c"
    by (auto simp: base91_digits_def between_def b less_Suc_eq_le simp del: byte_code_char_of intro: order.trans)
qed


lemma dec_digits_ok:
  "length (dec_digits w n) = w" "\<forall>c \<in> set (dec_digits w n). is_digit c"
proof -
  have "byte_code (char_of (m mod 10 + 48)) = m mod 10 + 48" for m :: nat
  proof -
    have "m mod 10 + 48 < 256" using mod_less_divisor [of 10 m] by linarith
    then show ?thesis by simp
  qed
  moreover have "m mod 10 \<le> 9" for m :: nat by simp
  ultimately show "\<forall>c \<in> set (dec_digits w n). is_digit c"
    by (auto simp: dec_digits_def is_digit_def simp del: byte_code_char_of)
qed (simp add: dec_digits_def)

lemma num_val_dec: "n < 10 ^ w \<Longrightarrow> num_val 10 (dec_digits w n) = n"
proof -
  have dv: "digit_val (char_of (m mod 10 + 48)) = m mod 10" for m :: nat
  proof -
    have "m mod 10 + 48 < 256" using mod_less_divisor [of 10 m] by linarith
    moreover have "m mod 10 \<le> 9" by simp
    ultimately show ?thesis by (simp add: digit_val_def is_digit_def)
  qed
  have "num_val 10 (dec_digits w n) = n mod 10 ^ w"
  proof (induction w arbitrary: n)
    case (Suc w)
    have "dec_digits (Suc w) n = dec_digits w (n div 10) @ [char_of (n mod 10 + 48)]"
    proof -
      have "rev [0..<Suc w] = map Suc (rev [0..<w]) @ [0]"
        by (metis map_Suc_upt rev.simps(2) rev_map upt_conv_Cons zero_less_Suc)
      then show ?thesis by (simp add: dec_digits_def div_mult2_eq)
    qed
    then have "num_val 10 (dec_digits (Suc w) n) = n div 10 mod 10 ^ w * 10 + n mod 10"
      by (simp add: num_val_append Suc.IH dv del: upt_Suc)
    also have "\<dots> = n mod 10 ^ Suc w" by (simp add: mod_mult2_eq mult.commute)
    finally show ?case .
  qed (simp add: dec_digits_def num_val_def)
  then show "n < 10 ^ w \<Longrightarrow> num_val 10 (dec_digits w n) = n" by simp
qed

lemma scan_dec:
  assumes "n < 10 ^ w" and "0 < w" and "w \<le> 9"
  shows "scan_uint w (dec_digits w n @ rest) = Some (of_nat n, rest)" and "unat (of_nat n :: u32) = n"
  using scan_uint_digits [OF dec_digits_ok(2) dec_digits_ok(1) assms(2,3), of n] num_val_dec [OF assms(1)] by simp_all

definition dms_text :: "nat \<Rightarrow> nat \<Rightarrow> nat \<Rightarrow> nat \<Rightarrow> char \<Rightarrow> char \<Rightarrow> string" where
  "dms_text w deg mins frag hemi sy =
     dec_digits w deg @ dec_digits 2 mins @ CHR ''.'' # dec_digits 2 frag @ [hemi, sy]"

lemma scan_dms_text:
  assumes "deg < 10 ^ w" and "0 < w" and "w \<le> 9" and "mins < 100" and "frag < 100"
  shows "scan_dms w (dms_text w deg mins frag hemi sy @ rest) = Some ((of_nat deg, of_nat mins, of_nat frag, hemi, sy), rest)"
  using assms by (simp add: scan_dms_def dms_text_def scan_dec scan_lit_def scan_char_def)

lemma dms_of_nat:
  "deg < 1000 \<Longrightarrow> mins < 100 \<Longrightarrow> frag < 100 \<Longrightarrow>
     dms (of_nat deg) (of_nat mins) (of_nat frag) = real deg + real mins / 60 + real frag / 6000"
  using scan_dec(2) [of deg 3] scan_dec(2) [of mins 2] scan_dec(2) [of frag 2] by (simp add: dms_def)

lemma fill_ambiguity_id: "\<forall>i \<in> {2, 3, 5, 6, 12, 13, 15, 16}. rd s i \<noteq> CHR '' '' \<Longrightarrow> fill_ambiguity s = s"
  by (simp add: fill_ambiguity_def blank_to_def)

lemma dms_text_chars:
  "length (dms_text w deg mins frag hemi sy) = w + 7"
  "c \<in> set (dms_text w deg mins frag hemi sy) \<Longrightarrow> is_digit c \<or> c \<in> {CHR ''.'', hemi, sy}"
  "i < w + 2 \<Longrightarrow> is_digit (dms_text w deg mins frag hemi sy ! i)"
  "i \<in> {w + 3, w + 4} \<Longrightarrow> is_digit (dms_text w deg mins frag hemi sy ! i)"
proof -
  show "length (dms_text w deg mins frag hemi sy) = w + 7" by (simp add: dms_text_def dec_digits_ok(1))
  show "is_digit c \<or> c \<in> {CHR ''.'', hemi, sy}" if "c \<in> set (dms_text w deg mins frag hemi sy)"
    using that dec_digits_ok(2) by (auto simp: dms_text_def)
  have d: "is_digit (dec_digits v n ! j)" if "j < v" for v n j
    using that dec_digits_ok by (metis nth_mem)
  show "is_digit (dms_text w deg mins frag hemi sy ! i)" if "i < w + 2"
    using that d [of i w deg] d [of "i - w" 2 mins] by (auto simp: dms_text_def nth_append dec_digits_ok(1))
  show "is_digit (dms_text w deg mins frag hemi sy ! i)" if "i \<in> {w + 3, w + 4}"
    using that d [of "i - w - 3" 2 frag] by (auto simp: dms_text_def nth_append dec_digits_ok(1) nth_Cons')
qed

text \<open>C14. An uncompressed position is read back as the numbers it was printed from; minutes are not required to be
  below sixty.\<close>

theorem uncompressed_roundtrip:
  assumes "lad \<le> 89" and "lam < 100" and "laf < 100" and "lod \<le> 179" and "lom < 100" and "lof < 100"
    and "ns \<in> {CHR ''N'', CHR ''S''}" and "ew \<in> {CHR ''E'', CHR ''W''}" and "tab \<noteq> NUL" and "code \<noteq> NUL"
    and "mem = pre @ dms_text 2 lad lam laf ns tab @ dms_text 3 lod lom lof ew code @ rest"
    and "length pre + 19 \<le> body_end"
    and "lat = real lad + real lam / 60 + real laf / 6000" and "lng = real lod + real lom / 60 + real lof / 6000"
  shows "parse_aprs_uncompressed mem pb (length pre) body_end =
    pbuf_fill_pos pb (Fin (if ns = CHR ''S'' then - lat else lat)) (Fin (if ew = CHR ''W'' then - lng else lng))
      (if valid_sym_table_uncompressed tab then tab else NUL) code"
proof -
  let ?a = "dms_text 2 lad lam laf ns tab" and ?b = "dms_text 3 lod lom lof ew code"
  note L = dms_text_chars
  have tx: "sub mem (length pre) (length pre + 19) = ?a @ ?b" by (simp add: assms(11) sub_def L(1))
  have dig: "is_digit ((?a @ ?b) ! i)" if "i \<in> {2, 3, 5, 6, 12, 13, 15, 16}" for i
    using that L(3) [of i 2] L(4) [of i 2] L(3) [of "i - 9" 3] L(4) [of "i - 9" 3]
    by (auto simp: nth_append L(1))
  have fill: "fill_ambiguity (?a @ ?b) = ?a @ ?b"
  proof (rule fill_ambiguity_id, rule ballI)
    fix i :: nat assume i: "i \<in> {2, 3, 5, 6, 12, 13, 15, 16}"
    then have "i < length (?a @ ?b)" by (auto simp: L(1))
    moreover have "\<not> is_digit (CHR '' '')" by (simp add: is_digit_def byte_code_def)
    ultimately show "rd (?a @ ?b) i \<noteq> CHR '' ''" using dig [OF i] by (metis rd_in)
  qed
  have "NUL \<notin> set (?a @ ?b)"
  proof
    assume "NUL \<in> set (?a @ ?b)"
    then have "is_digit NUL \<or> NUL \<in> {CHR ''.'', ns, tab} \<or> NUL \<in> {CHR ''.'', ew, code}"
      using L(2) [of NUL 2 lad lam laf ns tab] L(2) [of NUL 3 lod lom lof ew code] by auto
    then show False using assms(7-10) by (auto simp: is_digit_def byte_code_def)
  qed
  then have cstr: "cstr_at (?a @ ?b) 0 = ?a @ ?b" by (auto simp: cstr_at_def takeWhile_eq_all_conv)
  have scan: "scan_dms 2 (?a @ ?b) = Some ((of_nat lad, of_nat lam, of_nat laf, ns, tab), ?b)"
    "scan_dms 3 ?b = Some ((of_nat lod, of_nat lom, of_nat lof, ew, code), [])"
    using scan_dms_text [of lad 2 lam laf ns tab ?b] scan_dms_text [of lod 3 lom lof ew code "[]"] assms(1-6) by simp_all
  have deg: "\<not> (89 :: u32) < of_nat lad" "\<not> (179 :: u32) < of_nat lod"
    using assms(1,4) by (simp_all add: word_less_nat_alt unat_of_nat)
  have val: "dms (of_nat lad) (of_nat lam) (of_nat laf) = lat" "dms (of_nat lod) (of_nat lom) (of_nat lof) = lng"
    using assms(1-6,13,14) by (simp_all add: dms_of_nat)
  show ?thesis
    using assms(7,8,12) deg unfolding parse_aprs_uncompressed_def tx fill cstr scan
    by (auto simp: scan val Let_def)
qed

section \<open>Concrete packets\<close>

definition demo_line :: "string \<Rightarrow> nat \<Rightarrow> pbuf_t" where
  "demo_line info addr =
     (let d = ''OH7LZB>APRS,qAC,T2FIN:'' @ info @ CRLF
      in (pbuf_zero addr 100)\<lparr>pb_data := d, pb_packet_len := length d, pb_srcname := ''OH7LZB'', pb_srccall_end := 6,
           pb_dstcall_end_or_ssid := 11, pb_dstcall_end := 11, pb_dstcall_len := 4, pb_qconst_start := 12,
           pb_info_start := 22\<rparr>)"

definition demo_position :: pbuf_t where
  "demo_position = demo_line ''!6028.51N/02505.68E#'' 1"

lemma demo_position_wf: "packet_wf demo_position"
  by (simp add: packet_wf_def demo_position_def demo_line_def Let_def pbuf_zero_def len_defs)

lemma demo_position_text:
  "pb_data demo_position @ NUL # stale =
     ''OH7LZB>APRS,qAC,T2FIN:!'' @ dms_text 2 60 28 51 CHR ''N'' CHR ''/'' @ dms_text 3 25 5 68 CHR ''E'' CHR ''#'' @ CRLF @ NUL # stale"
  by (simp add: demo_position_def demo_line_def Let_def pbuf_zero_def dms_text_def dec_digits_def char_of_def upt_rec bit_0)

lemma demo_position_parse:
  "\<exists>pb'. parse_aprs stale demo_position = Parsed 1 pb' \<and> has_flag (pb_flags pb') F_HASPOS"
proof -
  let ?m = "data_mem stale demo_position"
  have pos: "pb_info_start demo_position = 22" "pb_packet_len demo_position = 44" "pb_data demo_position ! 1 = CHR ''H''"
    by (simp_all add: demo_position_def demo_line_def Let_def pbuf_zero_def)
  have rd: "rd ?m 22 = CHR ''!''" "rd ?m 23 = CHR ''6''" "rd ?m 1 = CHR ''H''"
    by (simp_all add: demo_position_def demo_line_def Let_def pbuf_zero_def)
  have un: "parse_aprs_uncompressed ?m pb 23 42 =
      pbuf_fill_pos pb (Fin (60 + 28 / 60 + 51 / 6000)) (Fin (25 + 5 / 60 + 68 / 6000)) CHR ''/'' CHR ''#''" for pb
    using uncompressed_roundtrip [of 60 28 51 25 5 68 "CHR ''N''" "CHR ''E''" "CHR ''/''" "CHR ''#''" ?m
        "''OH7LZB>APRS,qAC,T2FIN:!''" "CRLF @ NUL # stale" 42 "60 + 28 / 60 + 51 / 6000" "25 + 5 / 60 + 68 / 6000" pb]
    by (simp add: demo_position_text valid_sym_table_uncompressed_def eval_nat_numeral(2,3) del: rd_in)
  have "parse_aprs stale demo_position =
      pbuf_fill_pos (add_type T_POSITION (demo_position\<lparr>pb_packettype := T_ALL\<rparr>))
        (Fin (60 + 28 / 60 + 51 / 6000)) (Fin (25 + 5 / 60 + 68 / 6000)) CHR ''/'' CHR ''#''"
    unfolding parse_aprs_def Let_def rd
    by (subst parse_aprs_body.simps)
      (simp add: pos rd un Let_def parse_aprs_switch_def parse_aprs_position_def valid_sym_table_compressed_def between_def
        byte_code_def is_digit_def del: rd_in)
  then show ?thesis
    by (simp add: pbuf_fill_pos_def Let_def position_bad_def cf_in_def cf_le_def has_flag_or_self F_HASPOS_def)
qed

lemma demo_position_flags: "pb_flags demo_position = 0" "0 < pb_info_start demo_position"
  by (simp_all add: demo_position_def demo_line_def Let_def pbuf_zero_def)


theorem parse_aprs_reads_packet_witness:
  "parse_aprs ''!4903.50N/07201.75W-'' demo_position = parse_aprs [] demo_position"
proof -
  have "pb_data demo_position ! pb_info_start demo_position \<noteq> CHR 0x7D"
    by (simp add: demo_position_def demo_line_def Let_def pbuf_zero_def)
  from parse_aprs_reads_packet [OF demo_position_wf this] show ?thesis by blast
qed

definition demo_empty_inner :: pbuf_t where
  "demo_empty_inner = demo_line ''}OH2A>APRS,NET,OH7LZB*:'' 1"

lemma demo_empty_inner_head:
  "parse_aprs_3rdparty (data_mem stale demo_empty_inner) demo_empty_inner 22 = Inr (demo_empty_inner\<lparr>pb_srcname := ''OH2A''\<rparr>, 45)"
  by (simp add: demo_empty_inner_def demo_line_def Let_def pbuf_zero_def parse_aprs_3rdparty_def memchr_def cstr_simps
      check_invalid_src_dst_def scan_def sub_def check_path_calls_def check_path_loop.simps check_invalid_path_callsign_def len_defs)

theorem parse_aprs_empty_inner_witness:
  "packet_wf demo_empty_inner \<and> (\<exists>q. parse_aprs [] demo_empty_inner = Bad_Read q)"
proof -
  have wf: "packet_wf demo_empty_inner"
    by (simp add: packet_wf_def demo_empty_inner_def demo_line_def Let_def pbuf_zero_def len_defs)
  have i: "pb_info_start demo_empty_inner = 22" "pb_packet_len demo_empty_inner - 2 = 45"
    "pb_data demo_empty_inner ! 22 = CHR 0x7D"
    by (simp_all add: demo_empty_inner_def demo_line_def Let_def pbuf_zero_def)
  from parse_aprs_empty_inner [OF wf, unfolded i, OF refl demo_empty_inner_head] wf show ?thesis by blast
qed


theorem uncompressed_roundtrip_witness:
  "parse_aprs_uncompressed (dms_text 2 60 28 51 CHR ''N'' CHR ''/'' @ dms_text 3 25 5 68 CHR ''W'' CHR ''#'' @ CRLF) (pbuf_zero 1 100) 0 19 =
     pbuf_fill_pos (pbuf_zero 1 100) (Fin (60 + 28 / 60 + 51 / 6000)) (Fin (- (25 + 5 / 60 + 68 / 6000))) CHR ''/'' CHR ''#''"
  using uncompressed_roundtrip [of 60 28 51 25 5 68 "CHR ''N''" "CHR ''W''" "CHR ''/''" "CHR ''#''" _ "[]" CRLF 19 _ _ "pbuf_zero 1 100",
      OF _ _ _ _ _ _ _ _ _ _ refl _ refl refl]
  by (simp add: valid_sym_table_uncompressed_def)

definition demo_nan :: pbuf_t where
  "demo_nan = demo_line ''$GPGLL,60nan,N,02505.68,E,'' 1"

lemma demo_nan_text:
  "data_mem [] demo_nan = ''OH7LZB>APRS,qAC,T2FIN:$GPGLL,60nan,N,02505.68,E,'' @ CRLF @ [NUL]"
  by (simp add: demo_nan_def demo_line_def Let_def pbuf_zero_def)

lemma demo_nan_parts:
  "pb_info_start demo_nan = 22" "pb_packet_len demo_nan = 50" "pb_srccall_end demo_nan = 6"
  "pb_dstcall_end_or_ssid demo_nan = 11" "pb_flags demo_nan = 0"
  by (simp_all add: demo_nan_def demo_line_def Let_def pbuf_zero_def)

lemma demo_nan_fields:
  "nmea_fields (data_mem [] demo_nan) 23 48 = Inr (Some (29, 37))"
  unfolding demo_nan_text nmea_fields_def Let_def
  by (simp add: sub_def over_coordinate_def over_field_def skip_char_def skip_other_def scan_def)

lemma demo_nan_lat: "nmea_coordinate 2 (cstr_at (data_mem [] demo_nan) 29) = Some (60, NaN, CHR ''N'')"
  unfolding demo_nan_text
  by (simp add: cstr_at_def nmea_coordinate_def scan_int_def scan_float_def scan_special_def has_prefix_ci_def scan_lit_def
      scan_char_def cstr_simps Let_def)

lemma demo_nan_lng: "nmea_coordinate 3 (cstr_at (data_mem [] demo_nan) 37) = Some (25, Fin (5 + 68 / 100), CHR ''E'')"
  unfolding demo_nan_text
  by (simp add: cstr_at_def nmea_coordinate_def scan_int_def scan_float_def scan_special_def has_prefix_ci_def scan_lit_def
      scan_char_def cstr_simps Let_def scan_mantissa_def scan_exponent_def)

lemma demo_nan_symbol: "get_symbol_from_dstcall (data_mem [] demo_nan) pb = None"
  if "pb_srccall_end pb = 6" "pb_dstcall_end_or_ssid pb = 11"
  using that by (simp add: get_symbol_from_dstcall_def Let_def)

text \<open>A sentence with the word for a coordinate that is not a number passes the test of the range, and the
  packet is marked as having a position.\<close>

theorem nmea_nan_accepted:
  "parse_aprs [] demo_nan =
     Nan_Pos (demo_nan\<lparr>pb_packettype := T_ALL OR T_POSITION, pb_symbol := ''  '', pb_flags := F_HASPOS\<rparr>)"
proof -
  let ?m = "data_mem [] demo_nan"
  have rd: "rd ?m 1 = CHR ''H''" "rd ?m 22 = CHR 0x24" unfolding demo_nan_text by simp_all
  have ult: "sub ?m 23 (23 + 3) = ''GPG''" unfolding demo_nan_text by (simp add: sub_def)
  have "parse_aprs [] demo_nan = parse_aprs_nmea ?m (demo_nan\<lparr>pb_packettype := T_ALL\<rparr>) 23 48"
    unfolding parse_aprs_def Let_def rd demo_nan_parts
    by (subst parse_aprs_body.simps) (simp add: Let_def demo_nan_parts rd parse_aprs_switch_def del: rd_in)
  also have "\<dots> = Nan_Pos (demo_nan\<lparr>pb_packettype := T_ALL OR T_POSITION, pb_symbol := ''  '', pb_flags := F_HASPOS\<rparr>)"
    unfolding parse_aprs_nmea_def Let_def ult demo_nan_fields demo_nan_lat demo_nan_lng
    by (simp add: demo_nan_symbol demo_nan_parts demo_nan_fields demo_nan_lat demo_nan_lng pbuf_fill_pos_def position_bad_def cf_in_def
        cf_le_def add_type_def del: rd_in)
  finally show ?thesis .
qed

end
