(* ===== verification/Client_IO.thy ===== *)
theory Client_IO
  imports Worker_Types
begin

text \<open>
  The buffers between a client's socket and the server, from \<^verbatim>\<open>src/src/worker.c\<close>: the output buffer and the two
  functions that write it to the socket, and the input buffer with the splitting of the stream into lines.

  The results of \<^verbatim>\<open>write\<close> and \<^verbatim>\<open>read\<close> are arguments. A call interrupted by a signal is repeated, so \<^verbatim>\<open>EINTR\<close> is
  not among the results of \<^verbatim>\<open>write\<close> in \<^verbatim>\<open>tcp_client_write\<close>.
\<close>

section \<open>The output buffer\<close>

datatype errno = EPIPE | EAGAIN | EINTR | Other_errno

datatype io_result = Done nat | Fail errno

definition OBUF_SIZE :: nat where "OBUF_SIZE = 8000"
definition IBUF_SIZE :: nat where "IBUF_SIZE = 8000"

definition obuf_init :: "ctime \<Rightarrow> obuf_t" where
  "obuf_init tick = \<lparr>ob_mem = replicate OBUF_SIZE NUL, ob_size = OBUF_SIZE, ob_start = 0, ob_end = 0,
     ob_flushsize = 0, ob_writes = 0, ob_wtime = tick, ob_poll = False\<rparr>"

text \<open>The data not yet written.\<close>

definition pending :: "obuf_t \<Rightarrow> string" where
  "pending ob = sub (ob_mem ob) (ob_start ob) (ob_end ob)"

text \<open>The offset of the room for \<open>len\<close> bytes, None when they do not fit.\<close>

definition client_buffer_outgoing_allocate :: "nat \<Rightarrow> obuf_t \<Rightarrow> (nat \<times> obuf_t) option" where
  "client_buffer_outgoing_allocate len ob =
     (if ob_size ob < ob_end ob + len then
        if int len > int (ob_size ob) - (int (ob_end ob) - int (ob_start ob)) then None
        else
          let n = ob_end ob - ob_start ob;
              mem = (if 0 < ob_start ob then sub (ob_mem ob) (ob_start ob) (ob_end ob) @ drop n (ob_mem ob) else ob_mem ob)
          in Some (n, ob\<lparr>ob_mem := mem, ob_end := n, ob_start := 0\<rparr>)
      else Some (ob_end ob, ob))"

text \<open>None when the client is closed for lack of room, with the return code -12.\<close>

definition client_buffer_outgoing_data :: "string \<Rightarrow> obuf_t \<Rightarrow> obuf_t option" where
  "client_buffer_outgoing_data p ob =
     (case client_buffer_outgoing_allocate (length p) ob of
        None \<Rightarrow> None
      | Some (tail, ob1) \<Rightarrow>
          Some (ob1\<lparr>ob_mem := take tail (ob_mem ob1) @ p @ drop (tail + length p) (ob_mem ob1),
                    ob_end := ob_end ob1 + length p\<rparr>))"

text \<open>The end of \<^verbatim>\<open>tcp_client_write\<close>: an empty buffer is reset.\<close>

definition obuf_settle :: "obuf_t \<Rightarrow> obuf_t" where
  "obuf_settle ob =
     (if ob_end ob \<le> ob_start ob then ob\<lparr>ob_start := 0, ob_end := 0\<rparr> else ob\<lparr>ob_poll := True\<rparr>)"

text \<open>The return code, the buffer (None when the client was closed) and the bytes given to the socket. The
  branch for clients with a UDP downstream is \<open>client_write\<close> below.\<close>

definition tcp_client_write :: "io_result \<Rightarrow> ctime \<Rightarrow> string \<Rightarrow> obuf_t \<Rightarrow> int \<times> obuf_t option \<times> string" where
  "tcp_client_write res tick p ob =
     (case client_buffer_outgoing_data p (ob\<lparr>ob_writes := ob_writes ob + 1\<rparr>) of
        None \<Rightarrow> (-12, None, [])
      | Some ob1 \<Rightarrow>
          if ob_flushsize ob1 < ob_end ob1 \<or> (p = [] \<and> ob_start ob1 < ob_end ob1) then
            (case res of
               Done i \<Rightarrow>
                 let ob2 = (if 0 < i then ob1\<lparr>ob_start := ob_start ob1 + i, ob_wtime := tick\<rparr> else ob1)
                 in (int (length p), Some (obuf_settle ob2), take i (pending ob1))
             | Fail e \<Rightarrow>
                 if e = EPIPE then (-9, None, [])
                 else if e = EAGAIN then (-1, Some ob1, [])
                 else if p \<noteq> [] then (-11, None, [])
                 else (int (length p), Some (obuf_settle ob1), []))
          else (int (length p), Some (obuf_settle ob1), []))"

text \<open>A datagram to a client that asked for UDP: the packet without its CR LF.\<close>

definition udp_client_write :: "(string \<Rightarrow> int) \<Rightarrow> string \<Rightarrow> int \<times> string" where
  "udp_client_write sendto p = (sendto (take (length p - 2) p), take (length p - 2) p)"

text \<open>\<^verbatim>\<open>tcp_client_write\<close> with its first test: the code, the buffer, the bytes for the socket, the datagram.\<close>

definition client_write ::
    "(string \<Rightarrow> int) \<Rightarrow> io_result \<Rightarrow> ctime \<Rightarrow> client_t \<Rightarrow> string \<Rightarrow> obuf_t \<Rightarrow> int \<times> obuf_t option \<times> string \<times> string option" where
  "client_write sendto res tick c p ob =
     (if c_udp_port c \<noteq> 0 \<and> c_udpclient c \<and> p \<noteq> [] \<and> hd p \<noteq> CHR ''#'' then
        let (i, d) = udp_client_write sendto p in (i, Some ob, [], Some d)
      else let (rc, ob', out) = tcp_client_write res tick p ob in (rc, ob', out, None))"

definition handle_client_writable :: "io_result \<Rightarrow> obuf_t \<Rightarrow> int \<times> obuf_t option \<times> string" where
  "handle_client_writable res ob =
     (case res of
        Fail e \<Rightarrow> if e = EINTR \<or> e = EAGAIN then (0, Some ob, []) else (-1, None, [])
      | Done r \<Rightarrow>
          let ob1 = ob\<lparr>ob_start := ob_start ob + r\<rparr>
          in (0, Some (if ob_start ob1 = ob_end ob1 then ob1\<lparr>ob_poll := False, ob_start := 0, ob_end := 0\<rparr> else ob1),
              take r (pending ob)))"

text \<open>The output half of \<^verbatim>\<open>handle_client_event\<close>.\<close>

definition handle_client_event_out :: "io_result \<Rightarrow> obuf_t \<Rightarrow> int \<times> obuf_t option \<times> string" where
  "handle_client_event_out res ob =
     (if ob_start ob = ob_end ob then (0, Some (ob\<lparr>ob_poll := False, ob_start := 0, ob_end := 0\<rparr>), [])
      else handle_client_writable res ob)"

section \<open>The input buffer\<close>

definition is_eol :: "char \<Rightarrow> bool" where
  "is_eol c \<longleftrightarrow> c = CHR 0x0D \<or> c = CHR 0x0A"

text \<open>The loop of \<^verbatim>\<open>deframe_aprsis_input_lines\<close>. \<open>h\<close> is \<^verbatim>\<open>handler_line_in\<close>, from a state and a line to a return
  code and a state; the result is the number of bytes consumed, or -1 when the handler failed.\<close>

function deframe_loop :: "('s \<Rightarrow> string \<Rightarrow> int \<times> 's) \<Rightarrow> string \<Rightarrow> nat \<Rightarrow> nat \<Rightarrow> 's \<Rightarrow> int \<times> 's" where
  "deframe_loop h buf i row_start st =
     (if i < length buf then
        if is_eol (buf ! i) then
          (let (rc, st') = (if 0 < i - row_start then h st (sub buf row_start i) else (0, st))
           in if rc < 0 then (-1, st')
              else
                let i' = scan is_eol buf (i + 1) (length buf)
                in deframe_loop h buf (i' + 1) i' st')
        else deframe_loop h buf (i + 1) row_start st
      else (int row_start, st))"
  by auto

termination deframe_loop
proof (relation "measure (\<lambda>(h, buf, i, r, st). length buf - i)", goal_cases)
  case (2 h buf i row_start st x rc st' i')
  have "i + 1 \<le> i'" unfolding 2(6) by (rule scan_ge)
  then show ?case using 2(1) by (simp add: diff_less_mono2)
qed auto

declare deframe_loop.simps [simp del]

definition deframe_aprsis_input_lines :: "('s \<Rightarrow> string \<Rightarrow> int \<times> 's) \<Rightarrow> string \<Rightarrow> 's \<Rightarrow> int \<times> 's" where
  "deframe_aprsis_input_lines h ibuf st = deframe_loop h ibuf 0 0 st"

text \<open>\<open>ibuf\<close> is the used part of the buffer, \<open>r\<close> the bytes just read behind it.\<close>

definition client_postread :: "('s \<Rightarrow> string \<Rightarrow> int \<times> 's) \<Rightarrow> string \<Rightarrow> string \<Rightarrow> 's \<Rightarrow> int \<times> string \<times> 's" where
  "client_postread h r ibuf st =
     (let buf = ibuf @ r;
          (consumed, st') = deframe_aprsis_input_lines h buf st
      in if consumed = -1 then (-1, buf, st')
         else if int (length buf) \<le> consumed then (0, [], st')
         else if 0 < consumed then (0, drop (nat consumed) buf, st')
         else (0, buf, st'))"

text \<open>\<open>Inl\<close> for a failed read, \<open>Inr\<close> for the bytes read; None for the buffer when the client is closed.\<close>

definition handle_client_readable ::
    "('s \<Rightarrow> string \<Rightarrow> int \<times> 's) \<Rightarrow> errno + string \<Rightarrow> string \<Rightarrow> 's \<Rightarrow> int \<times> string option \<times> 's" where
  "handle_client_readable h res ibuf st =
     (case res of
        Inl e \<Rightarrow> if e = EINTR \<or> e = EAGAIN then (0, Some ibuf, st) else (-1, None, st)
      | Inr [] \<Rightarrow> (-1, None, st)
      | Inr r \<Rightarrow> let (rc, ibuf', st') = client_postread h r ibuf st in (rc, Some ibuf', st'))"

text \<open>The room \<^verbatim>\<open>read\<close> is given.\<close>

definition ibuf_room :: "string \<Rightarrow> nat" where
  "ibuf_room ibuf = IBUF_SIZE - length ibuf - 1"

section \<open>The output stream\<close>

definition obuf_inv :: "obuf_t \<Rightarrow> bool" where
  "obuf_inv ob \<longleftrightarrow> ob_start ob \<le> ob_end ob \<and> ob_end ob \<le> ob_size ob \<and> length (ob_mem ob) = ob_size ob"

text \<open>What the sources rely on of \<^verbatim>\<open>write\<close>: it writes no more than it is given.\<close>

definition result_fits :: "io_result \<Rightarrow> nat \<Rightarrow> bool" where
  "result_fits res n \<longleftrightarrow> (case res of Done i \<Rightarrow> i \<le> n | Fail _ \<Rightarrow> True)"

lemma length_pending: "obuf_inv ob \<Longrightarrow> length (pending ob) = ob_end ob - ob_start ob"
  by (auto simp: pending_def obuf_inv_def min_def)

lemma allocate_ok:
  assumes "obuf_inv ob" and "client_buffer_outgoing_allocate len ob = Some (tail, ob')"
  shows "obuf_inv ob' \<and> pending ob' = pending ob \<and> tail = ob_end ob' \<and> ob_end ob' + len \<le> ob_size ob' \<and>
    ob_size ob' = ob_size ob \<and> ob_flushsize ob' = ob_flushsize ob"
proof (cases "ob_size ob < ob_end ob + len")
  case True
  let ?n = "ob_end ob - ob_start ob"
  have fit: "?n + len \<le> ob_size ob" and ob': "tail = ?n" "ob_end ob' = ?n" "ob_start ob' = 0" "ob_size ob' = ob_size ob"
    "ob_flushsize ob' = ob_flushsize ob"
    "ob_mem ob' = (if 0 < ob_start ob then sub (ob_mem ob) (ob_start ob) (ob_end ob) @ drop ?n (ob_mem ob) else ob_mem ob)"
    using assms True by (auto simp: client_buffer_outgoing_allocate_def obuf_inv_def Let_def split: if_splits)
  have len: "length (sub (ob_mem ob) (ob_start ob) (ob_end ob)) = ?n" using assms(1) by (auto simp: obuf_inv_def min_def)
  have "length (ob_mem ob') = ob_size ob" using ob'(6) assms(1) fit by (auto simp: obuf_inv_def)
  moreover have "sub (ob_mem ob') 0 ?n = sub (ob_mem ob) (ob_start ob) (ob_end ob)"
    using ob'(6) len by (auto simp: sub_def)
  ultimately show ?thesis using ob' fit by (simp add: obuf_inv_def pending_def)
next
  case False
  with assms show ?thesis by (auto simp: client_buffer_outgoing_allocate_def obuf_inv_def)
qed

lemma allocate_None:
  "obuf_inv ob \<Longrightarrow> client_buffer_outgoing_allocate len ob = None \<longleftrightarrow> ob_size ob < length (pending ob) + len"
  by (auto simp: client_buffer_outgoing_allocate_def length_pending obuf_inv_def Let_def)

lemma sub_overwrite:
  assumes "a \<le> n" and "n \<le> length m"
  shows "sub (take n m @ p @ r) a (n + length p) = sub m a n @ p"
  using assms by (simp add: sub_def drop_append drop_take)

lemma buffer_data_ok:
  assumes "obuf_inv ob" and "client_buffer_outgoing_data p ob = Some ob'"
  shows "obuf_inv ob' \<and> pending ob' = pending ob @ p \<and> ob_size ob' = ob_size ob \<and> ob_flushsize ob' = ob_flushsize ob"
proof -
  obtain tail ob1 where A: "client_buffer_outgoing_allocate (length p) ob = Some (tail, ob1)"
    and ob': "ob' = ob1\<lparr>ob_mem := take tail (ob_mem ob1) @ p @ drop (tail + length p) (ob_mem ob1), ob_end := ob_end ob1 + length p\<rparr>"
    using assms(2) by (auto simp: client_buffer_outgoing_data_def split: option.splits)
  note R = allocate_ok [OF assms(1) A]
  have inv: "ob_start ob1 \<le> tail" "tail + length p \<le> length (ob_mem ob1)" using R by (auto simp: obuf_inv_def)
  have "obuf_inv ob'" using R inv by (auto simp: ob' obuf_inv_def)
  moreover have "pending ob' = pending ob1 @ p"
    using R inv sub_overwrite [of "ob_start ob1" tail "ob_mem ob1" p] by (simp add: ob' pending_def)
  ultimately show ?thesis using R by (simp add: ob')
qed

lemma sent_ok:
  assumes "obuf_inv ob" and "i \<le> length (pending ob)"
  shows "obuf_inv (ob\<lparr>ob_start := ob_start ob + i\<rparr>)"
    and "take i (pending ob) @ pending (ob\<lparr>ob_start := ob_start ob + i\<rparr>) = pending ob"
proof -
  have i: "ob_start ob + i \<le> ob_end ob" using assms(2) unfolding length_pending [OF assms(1)]
    using assms(1) by (auto simp: obuf_inv_def)
  then show "obuf_inv (ob\<lparr>ob_start := ob_start ob + i\<rparr>)" using assms(1) by (simp add: obuf_inv_def)
  have "pending (ob\<lparr>ob_start := ob_start ob + i\<rparr>) = drop i (pending ob)"
    using i by (simp add: pending_def sub_def drop_take add.commute)
  then show "take i (pending ob) @ pending (ob\<lparr>ob_start := ob_start ob + i\<rparr>) = pending ob" by simp
qed

lemma settle_ok: "obuf_inv ob \<Longrightarrow> obuf_inv (obuf_settle ob) \<and> pending (obuf_settle ob) = pending ob \<and>
    ob_size (obuf_settle ob) = ob_size ob"
  by (auto simp: obuf_settle_def obuf_inv_def pending_def)

lemma pending_updates [simp]:
  "pending (ob\<lparr>ob_writes := n\<rparr>) = pending ob" "pending (ob\<lparr>ob_wtime := t\<rparr>) = pending ob"
  "obuf_inv (ob\<lparr>ob_writes := n\<rparr>) = obuf_inv ob" "obuf_inv (ob\<lparr>ob_wtime := t\<rparr>) = obuf_inv ob"
  by (simp_all add: pending_def obuf_inv_def)

text \<open>The contract of a function that adds \<open>d\<close> to the stream: what it gives to the socket followed by what it
  leaves in the buffer is what was in the buffer followed by \<open>d\<close>.\<close>

locale stream_writer =
  fixes put :: "io_result \<Rightarrow> 'a \<Rightarrow> obuf_t \<Rightarrow> int \<times> obuf_t option \<times> string"
    and payload :: "'a \<Rightarrow> string"
  assumes put_stream: "obuf_inv ob \<Longrightarrow> result_fits res (length (pending ob) + length (payload x)) \<Longrightarrow>
      put res x ob = (rc, Some ob', out) \<Longrightarrow>
      obuf_inv ob' \<and> ob_size ob' = ob_size ob \<and> out @ pending ob' = pending ob @ payload x"
    and put_closed: "put res x ob = (rc, None, out) \<Longrightarrow> rc < 0 \<and> out = []"
begin

lemma put_bounded:
  assumes "obuf_inv ob" and "result_fits res (length (pending ob) + length (payload x))"
    and "put res x ob = (rc, Some ob', out)"
  shows "length (pending ob') \<le> ob_size ob"
  using put_stream [OF assms] by (auto simp: length_pending obuf_inv_def)

lemma put_sends_in_order:
  assumes "obuf_inv ob" and "result_fits res (length (pending ob) + length (payload x))"
    and "put res x ob = (rc, Some ob', out)"
  shows "out = take (length out) (pending ob @ payload x) \<and> pending ob' = drop (length out) (pending ob @ payload x)"
proof -
  have "out @ pending ob' = pending ob @ payload x" using put_stream [OF assms] by blast
  then show ?thesis by (metis append_eq_conv_conj)
qed

end

lemma tcp_client_write_stream:
  assumes inv: "obuf_inv ob" and fit: "result_fits res (length (pending ob) + length p)"
    and w: "tcp_client_write res tick p ob = (rc, Some ob', out)"
  shows "obuf_inv ob' \<and> ob_size ob' = ob_size ob \<and> out @ pending ob' = pending ob @ p"
proof -
  let ?ob = "ob\<lparr>ob_writes := ob_writes ob + 1\<rparr>"
  obtain ob1 where B: "client_buffer_outgoing_data p ?ob = Some ob1"
    using w by (cases "client_buffer_outgoing_data p ?ob") (auto simp: tcp_client_write_def)
  have D: "obuf_inv ob1" "pending ob1 = pending ob @ p" "ob_size ob1 = ob_size ob"
    using buffer_data_ok [OF _ B] inv by simp_all
  note T = w [unfolded tcp_client_write_def B]
  show ?thesis
  proof (cases "\<exists>i. res = Done i \<and> (ob_flushsize ob1 < ob_end ob1 \<or> p = [] \<and> ob_start ob1 < ob_end ob1)")
    case True
    then obtain i where i: "res = Done i" "ob_flushsize ob1 < ob_end ob1 \<or> p = [] \<and> ob_start ob1 < ob_end ob1" by blast
    let ?ob2 = "if 0 < i then ob1\<lparr>ob_start := ob_start ob1 + i, ob_wtime := tick\<rparr> else ob1"
    have ob': "ob' = obuf_settle ?ob2" "out = take i (pending ob1)" using T i by (auto simp: Let_def)
    have le: "i \<le> length (pending ob1)" using fit i D(2) by (simp add: result_fits_def)
    have "obuf_inv ?ob2 \<and> take i (pending ob1) @ pending ?ob2 = pending ob1 \<and> ob_size ?ob2 = ob_size ob1"
    proof (cases "0 < i")
      case True
      then show ?thesis
        using sent_ok [OF D(1) le] pending_updates(2,4) [where ob = "ob1\<lparr>ob_start := ob_start ob1 + i\<rparr>" and t = tick] by simp
    qed (use D(1) in simp)
    then show ?thesis using settle_ok [of ?ob2] ob' D by simp
  next
    case False
    then have "out = []" "ob' = ob1 \<or> ob' = obuf_settle ob1"
      using T by (auto split: io_result.splits if_splits)
    then show ?thesis using settle_ok [OF D(1)] D by auto
  qed
qed

lemma tcp_client_write_closed:
  "tcp_client_write res tick p ob = (rc, None, out) \<Longrightarrow> rc < 0 \<and> out = []"
  by (auto simp: tcp_client_write_def Let_def split: option.splits io_result.splits if_splits)

interpretation tcp: stream_writer "\<lambda>res (tick, p). tcp_client_write res tick p" snd
  by unfold_locales (auto dest: tcp_client_write_stream tcp_client_write_closed)

lemma handle_client_event_out_stream:
  assumes "obuf_inv ob" and "result_fits res (length (pending ob))"
    and "handle_client_event_out res ob = (rc, Some ob', out)"
  shows "obuf_inv ob' \<and> ob_size ob' = ob_size ob \<and> out @ pending ob' = pending ob"
proof (cases "\<exists>i. res = Done i \<and> ob_start ob \<noteq> ob_end ob")
  case True
  then obtain i where i: "res = Done i" "ob_start ob \<noteq> ob_end ob" by blast
  then have le: "i \<le> length (pending ob)" using assms(2) by (simp add: result_fits_def)
  let ?ob = "ob\<lparr>ob_start := ob_start ob + i\<rparr>"
  have ob': "ob' = (if ob_start ?ob = ob_end ?ob then ?ob\<lparr>ob_poll := False, ob_start := 0, ob_end := 0\<rparr> else ?ob)"
    "out = take i (pending ob)"
    using assms(3) i by (simp_all add: handle_client_event_out_def handle_client_writable_def Let_def)
  show ?thesis
    using sent_ok [OF assms(1) le] ob' by (auto simp: obuf_inv_def pending_def split: if_splits)
next
  case False
  then show ?thesis
    using assms(1,3)
    by (auto simp: handle_client_event_out_def handle_client_writable_def pending_def obuf_inv_def
        split: io_result.splits if_splits)
qed

interpretation flusher: stream_writer "\<lambda>res (_ :: unit). handle_client_event_out res" "\<lambda>_. []"
  by unfold_locales
    (auto dest: handle_client_event_out_stream
      simp: handle_client_event_out_def handle_client_writable_def Let_def split: if_splits io_result.splits)

section \<open>Runs\<close>

text \<open>The output buffer through the life of a connection: calls to write data and turns of the poller, each with
  the result of its system call.\<close>

datatype io_op = Op_Write io_result ctime string | Op_Writable io_result

fun op_data :: "io_op \<Rightarrow> string" where
  "op_data (Op_Write res tick p) = p"
| "op_data (Op_Writable res) = []"

fun run_op :: "io_op \<Rightarrow> obuf_t \<Rightarrow> int \<times> obuf_t option \<times> string" where
  "run_op (Op_Write res tick p) ob = tcp_client_write res tick p ob"
| "run_op (Op_Writable res) ob = handle_client_event_out res ob"

fun op_result :: "io_op \<Rightarrow> io_result" where
  "op_result (Op_Write res tick p) = res"
| "op_result (Op_Writable res) = res"

text \<open>The buffer at the end, None once the client is closed, and all bytes given to the socket.\<close>

fun io_run :: "io_op list \<Rightarrow> obuf_t \<Rightarrow> obuf_t option \<times> string" where
  "io_run [] ob = (Some ob, [])"
| "io_run (x # xs) ob =
     (case run_op x ob of
        (rc, None, out) \<Rightarrow> (None, out)
      | (rc, Some ob', out) \<Rightarrow> let (r, outs) = io_run xs ob' in (r, out @ outs))"

text \<open>No call of the run writes more than it is offered.\<close>

fun run_fits :: "io_op list \<Rightarrow> obuf_t \<Rightarrow> bool" where
  "run_fits [] ob \<longleftrightarrow> True"
| "run_fits (x # xs) ob \<longleftrightarrow>
     result_fits (op_result x) (length (pending ob) + length (op_data x)) \<and>
     (case run_op x ob of (_, None, _) \<Rightarrow> True | (_, Some ob', _) \<Rightarrow> run_fits xs ob')"

lemma io_op_stream:
  assumes "obuf_inv ob" and "result_fits (op_result x) (length (pending ob) + length (op_data x))"
    and "run_op x ob = (rc, Some ob', out)"
  shows "obuf_inv ob' \<and> ob_size ob' = ob_size ob \<and> out @ pending ob' = pending ob @ op_data x"
proof (cases x)
  case (Op_Write res tick p)
  then show ?thesis using tcp.put_stream [of ob res "(tick, p)" rc ob' out] assms by simp
next
  case (Op_Writable res)
  then show ?thesis using flusher.put_stream [of ob res rc ob' out] assms by simp
qed

lemma io_op_closed: "run_op x ob = (rc, None, out) \<Longrightarrow> out = []"
  by (cases x) (auto dest: tcp_client_write_closed flusher.put_closed)

lemma io_run_stream:
  assumes "obuf_inv ob" and "run_fits xs ob"
  shows "case io_run xs ob of
      (Some ob', sent) \<Rightarrow> obuf_inv ob' \<and> ob_size ob' = ob_size ob \<and> sent @ pending ob' = pending ob @ concat (map op_data xs)
    | (None, sent) \<Rightarrow> \<exists>rest. sent @ rest = pending ob @ concat (map op_data xs)"
  using assms
proof (induction xs arbitrary: ob)
  case (Cons x xs)
  obtain rc r out where X: "run_op x ob = (rc, r, out)" by (metis prod_cases3)
  show ?case
  proof (cases r)
    case None
    moreover from this X have "out = []" using io_op_closed by blast
    ultimately show ?thesis using X by simp
  next
    case (Some ob1)
    have S: "obuf_inv ob1" "ob_size ob1 = ob_size ob" "out @ pending ob1 = pending ob @ op_data x"
      using io_op_stream [of ob x rc ob1 out] Cons.prems X Some by auto
    have "run_fits xs ob1" using Cons.prems X Some by simp
    note IH = Cons.IH [OF S(1) this]
    obtain r2 outs where Y: "io_run xs ob1 = (r2, outs)" by fastforce
    show ?thesis
    proof (cases r2)
      case None
      then obtain rest where "outs @ rest = pending ob1 @ concat (map op_data xs)" using IH Y by auto
      then have "(out @ outs) @ rest = pending ob @ concat (map op_data (x # xs))" using S(3) by simp
      then show ?thesis using X Some Y None by auto
    next
      case (Some ob2)
      then have "outs @ pending ob2 = pending ob1 @ concat (map op_data xs)" "obuf_inv ob2" "ob_size ob2 = ob_size ob1"
        using IH Y by auto
      then show ?thesis using X \<open>r = Some ob1\<close> Y Some S(2,3) by simp
    qed
  qed
qed simp

text \<open>C26. The bytes a client receives are the bytes written to it, in order, none lost and none repeated, whatever the
  socket accepts of each write: at every moment the socket has been given the data written so far except what is
  still in the buffer, which holds at most \<^verbatim>\<open>OBUF_SIZE\<close> bytes. When the connection is closed, it has been given a prefix.\<close>

theorem output_stream:
  assumes "run_fits xs (obuf_init t0)"
  shows "case io_run xs (obuf_init t0) of
      (Some ob', sent) \<Rightarrow> sent @ pending ob' = concat (map op_data xs) \<and> length (pending ob') \<le> OBUF_SIZE
    | (None, sent) \<Rightarrow> \<exists>rest. sent @ rest = concat (map op_data xs)"
proof -
  have init: "obuf_inv (obuf_init t0)" "pending (obuf_init t0) = []" "ob_size (obuf_init t0) = OBUF_SIZE"
    by (simp_all add: obuf_init_def obuf_inv_def pending_def)
  show ?thesis
    using io_run_stream [OF init(1) assms] init(2,3)
    by (auto simp: length_pending obuf_inv_def split: prod.splits option.splits)
qed

section \<open>The input stream\<close>

text \<open>The meaning of a stream: its non-empty lines, ended by CR or LF, and the incomplete line at its end.\<close>

fun stream_lines :: "string \<Rightarrow> string \<Rightarrow> string list \<times> string" where
  "stream_lines acc [] = ([], acc)"
| "stream_lines acc (c # s) =
     (if is_eol c then let (ls, r) = stream_lines [] s in (if acc = [] then ls else acc # ls, r)
      else stream_lines (acc @ [c]) s)"

definition lines_of :: "string \<Rightarrow> string list" where
  "lines_of s = fst (stream_lines [] s)"

definition partial_of :: "string \<Rightarrow> string" where
  "partial_of s = snd (stream_lines [] s)"

lemma stream_lines_append:
  "stream_lines acc (s @ t) =
     (fst (stream_lines acc s) @ fst (stream_lines (snd (stream_lines acc s)) t), snd (stream_lines (snd (stream_lines acc s)) t))"
  by (induction acc s rule: stream_lines.induct) (auto simp: Let_def split: prod.splits)

lemma stream_lines_eols: "\<forall>c \<in> set s. is_eol c \<Longrightarrow> stream_lines [] (s @ t) = stream_lines [] t"
  by (induction s) (auto simp: Let_def)

lemma stream_lines_text: "\<forall>c \<in> set s. \<not> is_eol c \<Longrightarrow> stream_lines acc (s @ t) = stream_lines (acc @ s) t"
  by (induction s arbitrary: acc) auto

lemma partial_no_eol: "\<forall>c \<in> set acc. \<not> is_eol c \<Longrightarrow> \<forall>c \<in> set (snd (stream_lines acc s)). \<not> is_eol c"
proof (induction s arbitrary: acc)
  case (Cons c s)
  have "snd (stream_lines acc (c # s)) = snd (stream_lines (if is_eol c then [] else acc @ [c]) s)"
    by (simp add: case_prod_beta Let_def)
  moreover have "\<forall>x \<in> set (if is_eol c then [] else acc @ [c]). \<not> is_eol x" using Cons.prems by auto
  ultimately show ?case using Cons.IH by metis
qed simp

lemma partial_lines: "stream_lines [] (partial_of s) = ([], partial_of s)"
  using stream_lines_text [of "partial_of s" "[]" "[]"] partial_no_eol [of "[]" s] by (simp add: partial_of_def)

text \<open>A handler run over lines as long as it does not fail.\<close>

fun handle_lines :: "('s \<Rightarrow> string \<Rightarrow> int \<times> 's) \<Rightarrow> string list \<Rightarrow> 's \<Rightarrow> bool \<times> 's" where
  "handle_lines h [] st = (True, st)"
| "handle_lines h (l # ls) st = (let (rc, st') = h st l in if rc < 0 then (False, st') else handle_lines h ls st')"

lemma handle_lines_append:
  "handle_lines h (xs @ ys) st = (let (ok, st') = handle_lines h xs st in if ok then handle_lines h ys st' else (False, st'))"
proof (induction xs arbitrary: st)
  case (Cons x xs)
  show ?case using Cons.IH by (cases "h st x") simp
qed simp

text \<open>The loop passes on the lines of the buffer, and consumes all of it but the incomplete line.\<close>

lemma scan_eol_stop:
  assumes "i \<le> length buf"
  shows "scan is_eol buf i (length buf) \<le> length buf"
    and "\<forall>c \<in> set (sub buf i (scan is_eol buf i (length buf))). is_eol c"
    and "scan is_eol buf i (length buf) < length buf \<Longrightarrow> \<not> is_eol (buf ! scan is_eol buf i (length buf))"
  using scan_le [OF assms, of is_eol buf] sub_scan_all [of buf i is_eol "length buf"] scan_stop [of is_eol buf i "length buf"]
  by auto

lemma drop_sub: "a \<le> b \<Longrightarrow> b \<le> length s \<Longrightarrow> drop a s = sub s a b @ drop b s"
  by (metis append_take_drop_id drop_drop le_add_diff_inverse2 sub_def)

lemma deframe_loop_lines:
  assumes "r \<le> i" and "r \<le> length buf" and "\<forall>c \<in> set (sub buf r i). \<not> is_eol c" and "i \<le> length buf + 1"
  shows "deframe_loop h buf i r st =
    (let (ok, st') = handle_lines h (fst (stream_lines [] (drop r buf))) st
     in if ok then (int (length buf) - int (length (snd (stream_lines [] (drop r buf)))), st') else (-1, st'))"
  using assms
proof (induction h buf i r st rule: deframe_loop.induct)
  case (1 h buf i r st)
  show ?case
  proof (cases "i < length buf")
    case False
    then have "drop r buf = sub buf r i" using "1.prems" by (simp add: sub_def)
    then have "stream_lines [] (drop r buf) = ([], drop r buf)"
      using stream_lines_text [of "drop r buf" "[]" "[]"] "1.prems"(3) by simp
    then show ?thesis using False "1.prems"(2) by (subst deframe_loop.simps) simp
  next
    case True
    show ?thesis
    proof (cases "is_eol (buf ! i)")
      case False
      have "sub buf r (i + 1) = sub buf r i @ [buf ! i]"
        using True "1.prems"(1) by (simp add: sub_def Suc_diff_le take_Suc_conv_app_nth)
      then have "\<forall>c \<in> set (sub buf r (i + 1)). \<not> is_eol c" using "1.prems"(3) False by auto
      with "1.IH"(2) [OF True False] "1.prems" True show ?thesis by (subst deframe_loop.simps) (simp add: True False)
    next
      case eol: True
      let ?l = "sub buf r i" let ?i' = "scan is_eol buf (i + 1) (length buf)"
      note E = scan_eol_stop [of "i + 1" buf]
      have i1: "i + 1 \<le> length buf" using True by simp
      have split: "drop r buf = ?l @ buf ! i # sub buf (i + 1) ?i' @ drop ?i' buf"
      proof -
        have "drop r buf = ?l @ drop i buf" using drop_sub "1.prems"(1) True by auto
        also have "drop i buf = buf ! i # drop (i + 1) buf" using True by (simp add: Cons_nth_drop_Suc)
        also have "drop (i + 1) buf = sub buf (i + 1) ?i' @ drop ?i' buf" using E(1) i1 by (intro drop_sub) auto
        finally show ?thesis .
      qed
      have L: "stream_lines [] (drop r buf) =
          (let (ls, rest) = stream_lines [] (drop ?i' buf) in (if ?l = [] then ls else ?l # ls, rest))"
        unfolding split using eol "1.prems"(3) E(2) i1 by (simp add: stream_lines_text stream_lines_eols)
      have empty: "?l = [] \<longleftrightarrow> \<not> 0 < i - r" using True "1.prems" by (auto simp: sub_def)
      have next_ok: "?i' \<le> length buf" "\<forall>c \<in> set (sub buf ?i' (?i' + 1)). \<not> is_eol c"
      proof -
        show "?i' \<le> length buf" using E(1) i1 by blast
        show "\<forall>c \<in> set (sub buf ?i' (?i' + 1)). \<not> is_eol c"
        proof (cases "?i' < length buf")
          case True
          then have "sub buf ?i' (?i' + 1) = [buf ! ?i']" by (simp add: sub_def take_Suc_conv_app_nth)
          then show ?thesis using E(3) [OF i1 True] by simp
        qed (simp add: sub_def)
      qed
      obtain rc st1 where H: "(if 0 < i - r then h st ?l else (0, st)) = (rc, st1)" by fastforce
      have step: "deframe_loop h buf i r st = (if rc < 0 then (-1, st1) else deframe_loop h buf (?i' + 1) ?i' st1)"
        by (subst deframe_loop.simps) (simp only: True eol H if_True Let_def prod.case)
      show ?thesis
      proof (cases "rc < 0")
        case True
        then have "?l \<noteq> []" using H empty by (auto split: if_splits)
        then show ?thesis using True H step L empty by (auto simp: Let_def split: prod.splits if_splits)
      next
        case False
        have "deframe_loop h buf (?i' + 1) ?i' st1 =
            (let (ok, st') = handle_lines h (fst (stream_lines [] (drop ?i' buf))) st1
             in if ok then (int (length buf) - int (length (snd (stream_lines [] (drop ?i' buf)))), st') else (-1, st'))"
          using "1.IH"(1) [OF True eol refl H [symmetric] False refl] next_ok by simp
        then show ?thesis
          using step False L H empty by (auto simp: Let_def split: prod.splits if_splits)
      qed
    qed
  qed
qed

lemma partial_suffix: "\<exists>pre. acc @ s = pre @ snd (stream_lines acc s)"
proof (induction s arbitrary: acc)
  case (Cons c s)
  have 1: "snd (stream_lines acc (c # s)) = snd (stream_lines (if is_eol c then [] else acc @ [c]) s)"
    by (simp add: case_prod_beta Let_def)
  obtain pre where P: "(if is_eol c then [] else acc @ [c]) @ s = pre @ snd (stream_lines acc (c # s))"
    using Cons.IH unfolding 1 by blast
  have "acc @ c # s = (if is_eol c then acc @ [c] else []) @ (if is_eol c then [] else acc @ [c]) @ s" by simp
  then show ?case unfolding P by (metis append.assoc)
qed simp

lemma client_postread_lines:
  "client_postread h r ibuf st =
     (let (ok, st') = handle_lines h (lines_of (ibuf @ r)) st
      in if ok then (0, partial_of (ibuf @ r), st') else (-1, ibuf @ r, st'))"
proof -
  let ?b = "ibuf @ r"
  obtain ok st' where H: "handle_lines h (lines_of ?b) st = (ok, st')" by fastforce
  have D: "deframe_aprsis_input_lines h ?b st =
      (if ok then (int (length ?b) - int (length (partial_of ?b)), st') else (-1, st'))"
    unfolding deframe_aprsis_input_lines_def
    using deframe_loop_lines [of 0 0 ?b h st] H by (simp add: lines_of_def partial_of_def)
  obtain pre where pre: "?b = pre @ partial_of ?b" using partial_suffix [of "[]" ?b] by (auto simp: partial_of_def)
  have len: "length ?b = length pre + length (partial_of ?b)" by (subst pre) simp
  have rest: "drop (length pre) ?b = partial_of ?b" by (subst pre) simp
  show ?thesis
  proof (cases ok)
    case True
    have "nat (int (length ?b) - int (length (partial_of ?b))) = length pre" using len by simp
    moreover have "length pre = 0 \<Longrightarrow> partial_of ?b = ?b" using rest by simp
    moreover have "length ?b \<le> length pre \<Longrightarrow> partial_of ?b = []" using rest by simp
    ultimately show ?thesis
      using True len rest unfolding client_postread_def Let_def H D by (auto simp del: append_eq_append_conv)
  next
    case False
    then show ?thesis unfolding client_postread_def Let_def H D by simp
  qed
qed

text \<open>Reading a stream in pieces.\<close>

fun read_chunks :: "('s \<Rightarrow> string \<Rightarrow> int \<times> 's) \<Rightarrow> string list \<Rightarrow> string \<Rightarrow> 's \<Rightarrow> bool \<times> string \<times> 's" where
  "read_chunks h [] ibuf st = (True, ibuf, st)"
| "read_chunks h (r # rs) ibuf st =
     (let (rc, ibuf', st') = client_postread h r ibuf st
      in if rc < 0 then (False, ibuf', st') else read_chunks h rs ibuf' st')"

lemma read_chunks_lines:
  assumes "fst (handle_lines h (lines_of (ibuf @ concat rs)) st)" and "stream_lines [] ibuf = ([], ibuf)"
  shows "read_chunks h rs ibuf st =
    (True, partial_of (ibuf @ concat rs), snd (handle_lines h (lines_of (ibuf @ concat rs)) st))"
  using assms
proof (induction rs arbitrary: ibuf st)
  case Nil
  then show ?case by (simp add: partial_of_def lines_of_def)
next
  case (Cons r rs)
  let ?b = "ibuf @ r"
  have L: "lines_of (?b @ concat rs) = lines_of ?b @ lines_of (partial_of ?b @ concat rs)"
    "partial_of (?b @ concat rs) = partial_of (partial_of ?b @ concat rs)"
  proof -
    have "stream_lines [] (partial_of ?b @ t) = stream_lines (partial_of ?b) t" for t
      using stream_lines_text [of "partial_of ?b" "[]" t] partial_no_eol [of "[]" ?b] by (simp add: partial_of_def)
    then show "lines_of (?b @ concat rs) = lines_of ?b @ lines_of (partial_of ?b @ concat rs)"
      "partial_of (?b @ concat rs) = partial_of (partial_of ?b @ concat rs)"
      using stream_lines_append [of "[]" ?b "concat rs"] unfolding lines_of_def partial_of_def by simp_all
  qed
  obtain ok st1 where H: "handle_lines h (lines_of ?b) st = (ok, st1)" by fastforce
  have all: "fst (handle_lines h (lines_of (?b @ concat rs)) st)" using Cons.prems(1) by simp
  have ok: "ok" and rest: "fst (handle_lines h (lines_of (partial_of ?b @ concat rs)) st1)"
    using all unfolding L(1) handle_lines_append H by (simp_all split: if_splits)
  have "client_postread h r ibuf st = (0, partial_of ?b, st1)"
    using client_postread_lines [of h r ibuf st] H ok by simp
  then have "read_chunks h (r # rs) ibuf st = read_chunks h rs (partial_of ?b) st1" by simp
  also have "\<dots> = (True, partial_of (partial_of ?b @ concat rs), snd (handle_lines h (lines_of (partial_of ?b @ concat rs)) st1))"
    by (rule Cons.IH [OF rest partial_lines])
  also have "\<dots> = (True, partial_of (?b @ concat rs), snd (handle_lines h (lines_of (?b @ concat rs)) st))"
    unfolding L handle_lines_append H using ok by simp
  finally show ?case by simp
qed


text \<open>A line whose handler fails without closing the client stays in the buffer with all lines before it, and
  all of them are handled again with the next data.\<close>

theorem input_repeats_after_failure:
  assumes "\<not> fst (handle_lines h (lines_of (ibuf @ r)) st)"
  shows "client_postread h r ibuf st = (-1, ibuf @ r, snd (handle_lines h (lines_of (ibuf @ r)) st)) \<and>
    lines_of ((ibuf @ r) @ r') = lines_of (ibuf @ r) @ lines_of (partial_of (ibuf @ r) @ r')"
proof
  show "client_postread h r ibuf st = (-1, ibuf @ r, snd (handle_lines h (lines_of (ibuf @ r)) st))"
    using assms client_postread_lines [of h r ibuf st] by (simp add: case_prod_beta Let_def)
  have "stream_lines [] (partial_of (ibuf @ r) @ r') = stream_lines (partial_of (ibuf @ r)) r'"
    using stream_lines_text [of "partial_of (ibuf @ r)" "[]" r'] partial_no_eol [of "[]" "ibuf @ r"] by (simp add: partial_of_def)
  then show "lines_of ((ibuf @ r) @ r') = lines_of (ibuf @ r) @ lines_of (partial_of (ibuf @ r) @ r')"
    using stream_lines_append [of "[]" "ibuf @ r" r'] unfolding lines_of_def partial_of_def by simp
qed

section \<open>Concrete runs\<close>

definition demo_ops :: "io_op list" where
  "demo_ops = [Op_Write (Done 2) 5 ''abc'', Op_Write (Fail EAGAIN) 6 ''de'', Op_Writable (Done 2)]"

lemma demo_ops_run:
  "run_fits demo_ops (obuf_init 0) \<and>
   (case io_run demo_ops (obuf_init 0) of (Some ob, sent) \<Rightarrow> sent = ''abcd'' \<and> pending ob = ''e'' | _ \<Rightarrow> False)"
  by (simp add: demo_ops_def obuf_init_def tcp_client_write_def client_buffer_outgoing_data_def OBUF_SIZE_def Let_def
      client_buffer_outgoing_allocate_def handle_client_event_out_def handle_client_writable_def obuf_settle_def
      pending_def sub_def result_fits_def)

theorem output_stream_witness:
  "\<exists>ob. io_run demo_ops (obuf_init 0) = (Some ob, ''abcd'') \<and> ''abcd'' @ pending ob = ''abcde''"
proof -
  obtain ob where R: "io_run demo_ops (obuf_init 0) = (Some ob, ''abcd'')"
    using demo_ops_run by (auto split: prod.splits option.splits)
  have "concat (map op_data demo_ops) = ''abcde''" by (simp add: demo_ops_def)
  with output_stream [OF conjunct1 [OF demo_ops_run]] R show ?thesis by simp
qed

definition demo_handler :: "string list \<Rightarrow> string \<Rightarrow> int \<times> string list" where
  "demo_handler st l = (if l = ''bad'' then (-1, st) else (0, st @ [l]))"


theorem input_repeats_after_failure_witness:
  "client_postread demo_handler (''bad'' @ [CHR 0x0A]) (''abc'' @ [CHR 0x0A]) [] =
     (-1, ''abc'' @ [CHR 0x0A] @ ''bad'' @ [CHR 0x0A], [''abc''])"
  using input_repeats_after_failure [of demo_handler "''abc'' @ [CHR 0x0A]" "''bad'' @ [CHR 0x0A]" "[]" "[]"]
  by (simp add: lines_of_def is_eol_def demo_handler_def)

end
