(* ===== verification/Client_Links.thy ===== *)
theory Client_Links
  imports Main
begin

text \<open>
  Lists threaded through structures by a \<^verbatim>\<open>next\<close> pointer and a \<^verbatim>\<open>prevp\<close> pointer to the pointer that leads to them, as
  \<^verbatim>\<open>src/src/worker.c\<close> keeps the clients of a worker. The heap is a pair of functions from addresses;
  \<open>heap_lists\<close> relates it to the lists it stands for, and insertion and removal are shown to be those of lists.
\<close>

section \<open>Lists threaded through the structures\<close>

text \<open>The address of a pointer: the head of a list, or the \<^verbatim>\<open>next\<close> field of a structure.\<close>

datatype 'h slot = Head 'h | Next nat

text \<open>The heads, and the fields \<^verbatim>\<open>next\<close> and \<^verbatim>\<open>prevp\<close> of the structures at each address.\<close>

record 'h links =
  l_head :: "'h \<Rightarrow> nat option"
  l_next :: "nat \<Rightarrow> nat option"
  l_prevp :: "nat \<Rightarrow> 'h slot option"

definition no_links :: "'h links" where
  "no_links = \<lparr>l_head = (\<lambda>_. None), l_next = (\<lambda>_. None), l_prevp = (\<lambda>_. None)\<rparr>"

text \<open>\<^verbatim>\<open>*p = v\<close>.\<close>

fun store_slot :: "'h slot \<Rightarrow> nat option \<Rightarrow> 'h links \<Rightarrow> 'h links" where
  "store_slot (Head h) v s = s\<lparr>l_head := (l_head s)(h := v)\<rparr>"
| "store_slot (Next x) v s = s\<lparr>l_next := (l_next s)(x := v)\<rparr>"

definition set_prevp :: "nat option \<Rightarrow> 'h slot option \<Rightarrow> 'h links \<Rightarrow> 'h links" where
  "set_prevp p v s = (case p of None \<Rightarrow> s | Some y \<Rightarrow> s\<lparr>l_prevp := (l_prevp s)(y := v)\<rparr>)"

definition link_front :: "'h \<Rightarrow> nat \<Rightarrow> 'h links \<Rightarrow> 'h links" where
  "link_front h x s =
     (let s1 = s\<lparr>l_next := (l_next s)(x := l_head s h)\<rparr>;
          s2 = set_prevp (l_next s1 x) (Some (Next x)) s1;
          s3 = s2\<lparr>l_head := (l_head s2)(h := Some x)\<rparr>
      in s3\<lparr>l_prevp := (l_prevp s3)(x := Some (Head h))\<rparr>)"

text \<open>Appending to a list whose last structure is known.\<close>

definition link_back :: "'h \<Rightarrow> nat option \<Rightarrow> nat \<Rightarrow> 'h links \<Rightarrow> 'h links" where
  "link_back h l x s =
     (let s1 = s\<lparr>l_next := (l_next s)(x := None)\<rparr>
      in case l of
           Some y \<Rightarrow> s1\<lparr>l_next := (l_next s1)(y := Some x), l_prevp := (l_prevp s1)(x := Some (Next y))\<rparr>
         | None \<Rightarrow> s1\<lparr>l_head := (l_head s1)(h := Some x), l_prevp := (l_prevp s1)(x := Some (Head h))\<rparr>)"

text \<open>Taking a structure out; None for a store through a null pointer.\<close>

definition unlink :: "nat \<Rightarrow> 'h links \<Rightarrow> 'h links option" where
  "unlink x s =
     (let s1 = set_prevp (l_next s x) (l_prevp s x) s
      in case l_prevp s1 x of None \<Rightarrow> None | Some sl \<Rightarrow> Some (store_slot sl (l_next s1 x) s1))"

text \<open>The fields after \<^verbatim>\<open>memset\<close>.\<close>

definition clear_links :: "nat \<Rightarrow> 'h links \<Rightarrow> 'h links" where
  "clear_links x s = s\<lparr>l_next := (l_next s)(x := None), l_prevp := (l_prevp s)(x := None)\<rparr>"

section \<open>The lists they stand for\<close>

fun linked :: "'h links \<Rightarrow> 'h slot \<Rightarrow> nat option \<Rightarrow> nat list \<Rightarrow> bool" where
  "linked s sl p [] \<longleftrightarrow> p = None"
| "linked s sl p (x # xs) \<longleftrightarrow> p = Some x \<and> l_prevp s x = Some sl \<and> linked s (Next x) (l_next s x) xs"

text \<open>The list behind each head; no structure is in two of them.\<close>

definition heap_lists :: "'h links \<Rightarrow> ('h \<Rightarrow> nat list) \<Rightarrow> bool" where
  "heap_lists s ls \<longleftrightarrow>
     (\<forall>h. linked s (Head h) (l_head s h) (ls h) \<and> distinct (ls h)) \<and>
     (\<forall>h k. h \<noteq> k \<longrightarrow> set (ls h) \<inter> set (ls k) = {})"

lemma lists_no_links: "heap_lists no_links (\<lambda>_. [])"
  by (simp add: heap_lists_def no_links_def)

lemma linked_frame:
  assumes "\<forall>x \<in> set xs. l_prevp s' x = l_prevp s x \<and> l_next s' x = l_next s x"
  shows "linked s' sl p xs = linked s sl p xs"
  using assms by (induction xs arbitrary: sl p) auto

lemma linked_retarget:
  assumes "linked s sl p (x # xs)" and "x \<notin> set xs" and "l_prevp s' x = Some sl'" and "l_next s' x = l_next s x"
    and "\<forall>y \<in> set xs. l_prevp s' y = l_prevp s y \<and> l_next s' y = l_next s y"
  shows "linked s' sl' p (x # xs)"
  using assms linked_frame [of xs s' s "Next x" "l_next s x"] by simp

lemma linked_split:
  "linked s sl p (xs @ x # ys) \<Longrightarrow>
     \<exists>sl' . l_prevp s x = Some sl' \<and> linked s sl' (Some x) (x # ys) \<and>
       (if xs = [] then sl' = sl \<and> p = Some x else sl' = Next (last xs) \<and> l_next s (last xs) = Some x)"
proof (induction xs arbitrary: sl p)
  case (Cons a xs)
  then show ?case by (cases xs) auto
qed simp

text \<open>What follows a list segment may be replaced, when the pointer at its end is.\<close>

lemma linked_replace_tail:
  assumes "linked s sl p (xs @ ys)" and "distinct xs" and "xs \<noteq> []"
    and "\<forall>y \<in> set (butlast xs). l_next s' y = l_next s y" and "\<forall>y \<in> set xs. l_prevp s' y = l_prevp s y"
    and "linked s' (Next (last xs)) (l_next s' (last xs)) zs"
  shows "linked s' sl p (xs @ zs)"
  using assms
proof (induction xs arbitrary: sl p)
  case (Cons a xs)
  then show ?case by (cases xs) auto
qed simp

lemma lists_updI:
  assumes "heap_lists s ls" and "set xs \<subseteq> A \<union> set (ls h)" and "\<forall>k. A \<inter> set (ls k) = {}" and "distinct xs"
    and "linked s' (Head h) (l_head s' h) xs"
    and "\<And>k. k \<noteq> h \<Longrightarrow> linked s' (Head k) (l_head s' k) (ls k)"
  shows "heap_lists s' (ls(h := xs))"
  unfolding heap_lists_def
proof (intro conjI allI impI)
  fix k show "linked s' (Head k) (l_head s' k) ((ls(h := xs)) k)" using assms(5,6) by simp
  show "distinct ((ls(h := xs)) k)" using assms(1,4) by (simp add: heap_lists_def)
next
  fix k k' :: 'a assume "k \<noteq> k'"
  have "set xs \<inter> set (ls j) = {}" if "j \<noteq> h" for j
  proof -
    have "set (ls h) \<inter> set (ls j) = {}" using assms(1) that unfolding heap_lists_def by metis
    then show ?thesis using assms(2,3) by blast
  qed
  moreover have "set (ls k) \<inter> set (ls k') = {}" using assms(1) \<open>k \<noteq> k'\<close> by (simp add: heap_lists_def)
  ultimately show "set ((ls(h := xs)) k) \<inter> set ((ls(h := xs)) k') = {}"
    using \<open>k \<noteq> k'\<close> by (cases "k = h"; cases "k' = h") (auto simp: inf_commute)
qed

lemma lists_clear:
  assumes "heap_lists s ls" and "\<forall>k. x \<notin> set (ls k)"
  shows "heap_lists (clear_links x s) ls"
proof -
  have "linked (clear_links x s) (Head k) (l_head s k) (ls k) = linked s (Head k) (l_head s k) (ls k)" for k
    using assms(2) by (intro linked_frame) (auto simp: clear_links_def)
  then show ?thesis using assms(1) by (simp add: heap_lists_def clear_links_def)
qed

lemma lists_link_front:
  assumes L: "heap_lists s ls" and fresh: "\<forall>k. x \<notin> set (ls k)"
  shows "heap_lists (link_front h x s) (ls(h := x # ls h))"
proof (rule lists_updI [where A = "{x}", OF L])
  let ?s = "link_front h x s"
  fix k assume "k \<noteq> h"
  then have "set (ls k) \<inter> set (ls h) = {}" using L by (simp add: heap_lists_def)
  moreover have "l_head s h = Some y \<Longrightarrow> y \<in> set (ls h)" for y
    using L unfolding heap_lists_def by (cases "ls h") (auto dest!: spec [of _ h])
  ultimately have "\<forall>y \<in> set (ls k). l_prevp ?s y = l_prevp s y \<and> l_next ?s y = l_next s y"
    using fresh by (auto simp: link_front_def set_prevp_def Let_def split: option.split)
  moreover have "l_head ?s k = l_head s k"
    using \<open>k \<noteq> h\<close> by (simp add: link_front_def set_prevp_def Let_def split: option.split)
  ultimately show "linked ?s (Head k) (l_head ?s k) (ls k)" using L linked_frame by (metis heap_lists_def)
next
  let ?s = "link_front h x s"
  show "linked ?s (Head h) (l_head ?s h) (x # ls h)"
  proof (cases "ls h")
    case Nil
    then have "l_head s h = None" using L by (metis linked.simps(1) heap_lists_def)
    with Nil show ?thesis by (simp add: link_front_def set_prevp_def)
  next
    case (Cons y ys)
    have L1: "linked s (Head h) (l_head s h) (y # ys)" "distinct (y # ys)" using L Cons by (metis heap_lists_def)+
    have "y \<noteq> x" "x \<notin> set ys" using fresh Cons by (metis list.set_intros)+
    then have "linked ?s (Next x) (l_head s h) (y # ys)"
      using L1 by (intro linked_retarget [OF L1(1)]) (auto simp: link_front_def set_prevp_def Let_def)
    moreover have "l_next ?s x = l_head s h" "l_head ?s h = Some x" "l_prevp ?s x = Some (Head h)"
      by (auto simp: link_front_def set_prevp_def Let_def split: option.split)
    ultimately show ?thesis using Cons by simp
  qed
qed (use assms in \<open>auto simp: heap_lists_def\<close>)

text \<open>What taking out a structure changes.\<close>

lemma unlink_effect:
  assumes "heap_lists s ls" and split: "ls h = as @ x # bs"
  shows "\<exists>s'. unlink x s = Some s' \<and>
    (\<forall>k. l_head s' k = (if k = h \<and> as = [] then l_next s x else l_head s k)) \<and>
    (\<forall>y. l_next s' y = (if as \<noteq> [] \<and> y = last as then l_next s x else l_next s y)) \<and>
    (\<forall>y. l_prevp s' y = (if l_next s x = Some y then l_prevp s x else l_prevp s y))"
proof -
  have Lh: "linked s (Head h) (l_head s h) (as @ x # bs)" "distinct (as @ x # bs)"
    using assms(1) split by (metis heap_lists_def)+
  obtain sl where sl: "l_prevp s x = Some sl" "linked s sl (Some x) (x # bs)"
    "if as = [] then sl = Head h \<and> l_head s h = Some x else sl = Next (last as) \<and> l_next s (last as) = Some x"
    using linked_split [OF Lh(1)] by blast
  let ?s1 = "set_prevp (l_next s x) (Some sl) s"
  have "l_next s x \<noteq> Some x" using sl(2) Lh(2) by (cases bs) auto
  then have s1: "l_next ?s1 = l_next s" "l_head ?s1 = l_head s" "l_prevp ?s1 x = Some sl"
    using sl(1) by (auto simp: set_prevp_def split: option.split)
  have "unlink x s = Some (store_slot sl (l_next s x) ?s1)" unfolding unlink_def Let_def sl(1) using s1 by simp
  moreover have "l_prevp (store_slot sl (l_next s x) ?s1) y = (if l_next s x = Some y then l_prevp s x else l_prevp s y)" for y
    using sl(1) by (cases sl) (auto simp: set_prevp_def split: option.split)
  ultimately show ?thesis using sl(3) s1 by (cases "as = []") auto
qed

lemma lists_unlink:
  assumes L: "heap_lists s ls" and x: "x \<in> set (ls h)"
  shows "\<exists>s'. unlink x s = Some s' \<and> heap_lists s' (ls(h := remove1 x (ls h)))"
proof -
  have Lh: "linked s (Head h) (l_head s h) (ls h)" "distinct (ls h)" using L by (simp_all add: heap_lists_def)
  obtain as bs where split: "ls h = as @ x # bs" using x by (meson split_list)
  have dist: "x \<notin> set as" "x \<notin> set bs" "set as \<inter> set bs = {}" "distinct as" "distinct bs" using Lh(2) split by auto
  obtain sl where sl: "l_prevp s x = Some sl" "linked s sl (Some x) (x # bs)"
    "if as = [] then sl = Head h \<and> l_head s h = Some x else sl = Next (last as) \<and> l_next s (last as) = Some x"
    using linked_split [of s "Head h" "l_head s h" as x bs] Lh(1) split by auto
  obtain s' where U: "unlink x s = Some s'"
    and head: "\<And>k. l_head s' k = (if k = h \<and> as = [] then l_next s x else l_head s k)"
    and nxt: "\<And>y. l_next s' y = (if as \<noteq> [] \<and> y = last as then l_next s x else l_next s y)"
    and prevp: "\<And>y. l_prevp s' y = (if l_next s x = Some y then l_prevp s x else l_prevp s y)"
    using unlink_effect [of s ls h as x bs, OF L split] by blast
  have tail: "linked s (Next x) (l_next s x) bs" using sl(2) by simp
  have next_in: "l_next s x = Some y \<Longrightarrow> y \<in> set bs" for y using tail by (cases bs) auto
  have bs': "linked s' sl (l_next s x) bs"
  proof (cases bs)
    case (Cons b bs')
    have nb: "l_next s x = Some b" using tail Cons by simp
    show ?thesis
      unfolding Cons
    proof (rule linked_retarget [of s "Next x"])
      have "last as \<notin> set bs" if "as \<noteq> []" using that dist(3) last_in_set by (metis IntI empty_iff)
      then have next_same: "l_next s' y = l_next s y" if "y \<in> set bs" for y using nxt that by auto
      then show "l_next s' b = l_next s b" using Cons by simp
      show "\<forall>y \<in> set bs'. l_prevp s' y = l_prevp s y \<and> l_next s' y = l_next s y"
        using next_same prevp nb dist(5) Cons by auto
    qed (use tail Cons dist(5) prevp nb sl(1) in auto)
  qed (use tail in simp)
  have this_list: "linked s' (Head h) (l_head s' h) (as @ bs)"
  proof (cases "as = []")
    case False
    have "linked s' (Head h) (l_head s h) (as @ bs)"
    proof (rule linked_replace_tail [of s "Head h" "l_head s h" as "x # bs"])
      have "y \<noteq> last as" if "y \<in> set (butlast as)" for y
        using that dist(4) False by (metis append_butlast_last_id distinct_append IntI empty_iff list.set_intros(1))
      then show "\<forall>y \<in> set (butlast as). l_next s' y = l_next s y" using nxt by simp
      show "\<forall>y \<in> set as. l_prevp s' y = l_prevp s y" using prevp next_in dist(3) by (metis IntI empty_iff)
    qed (use Lh split dist(4) False bs' sl(3) nxt in auto)
    then show ?thesis using head False by simp
  qed (use bs' sl(3) head in simp)
  have "remove1 x (ls h) = as @ bs" using split dist by (simp add: remove1_append)
  moreover have "heap_lists s' (ls(h := as @ bs))"
  proof (rule lists_updI [where A = "{}", OF L])
    fix k assume "k \<noteq> h"
    then have disj: "set (ls k) \<inter> set (ls h) = {}" using L by (simp add: heap_lists_def)
    have "\<forall>y \<in> set (ls k). l_prevp s' y = l_prevp s y \<and> l_next s' y = l_next s y"
      using prevp nxt next_in disj split by (auto dest: last_in_set)
    then show "linked s' (Head k) (l_head s' k) (ls k)"
      using L linked_frame [of "ls k" s' s "Head k" "l_head s k"] head \<open>k \<noteq> h\<close> by (simp add: heap_lists_def)
  qed (use this_list split dist in auto)
  ultimately show ?thesis using U by metis
qed

lemma unlink_frame:
  assumes "heap_lists s ls" and "x \<in> set (ls h)" and "unlink x s = Some s'" and "y \<notin> set (ls h)"
  shows "l_next s' y = l_next s y"
proof -
  obtain as bs where split: "ls h = as @ x # bs" using assms(2) by (meson split_list)
  then have "as \<noteq> [] \<Longrightarrow> y \<noteq> last as" using assms(4) last_in_set by force
  then show ?thesis using unlink_effect [of s ls h as x bs, OF assms(1) split] assms(3) by auto
qed

lemma lists_link_back:
  assumes L: "heap_lists s ls" and fresh: "\<forall>k. x \<notin> set (ls k)" and l: "l = (if ls h = [] then None else Some (last (ls h)))"
  shows "heap_lists (link_back h l x s) (ls(h := ls h @ [x]))"
proof (rule lists_updI [where A = "{x}", OF L])
  let ?s = "link_back h l x s"
  show "linked ?s (Head h) (l_head ?s h) (ls h @ [x])"
  proof (cases "ls h = []")
    case False
    have Lh: "linked s (Head h) (l_head s h) (ls h @ [])" "distinct (ls h)" using L by (simp_all add: heap_lists_def)
    have y: "last (ls h) \<noteq> x" using fresh False by (metis last_in_set)
    have "\<forall>y \<in> set (butlast (ls h)). y \<noteq> last (ls h)"
      using Lh(2) False by (metis append_butlast_last_id distinct_append IntI empty_iff list.set_intros(1))
    then have "linked ?s (Head h) (l_head s h) (ls h @ [x])"
      using y fresh l False by (intro linked_replace_tail [OF Lh False]) (auto simp: link_back_def dest: in_set_butlastD)
    then show ?thesis using l False by (simp add: link_back_def)
  qed (use l in \<open>simp add: link_back_def\<close>)
next
  let ?s = "link_back h l x s"
  fix k assume "k \<noteq> h"
  then have "set (ls k) \<inter> set (ls h) = {}" using L by (simp add: heap_lists_def)
  then have "\<forall>y \<in> set (ls k). l_prevp ?s y = l_prevp s y \<and> l_next ?s y = l_next s y"
    using fresh l by (auto simp: link_back_def Let_def dest: last_in_set)
  moreover have "l_head ?s k = l_head s k" using \<open>k \<noteq> h\<close> l by (simp add: link_back_def)
  ultimately show "linked ?s (Head k) (l_head ?s k) (ls k)" using L linked_frame by (metis heap_lists_def)
qed (use assms in \<open>auto simp: heap_lists_def\<close>)

end
