(* ===== verification/Worker_Clients.thy ===== *)
theory Worker_Clients
  imports Client_Links Client_IO Clientlist Client_Heard
begin

text \<open>
  The life of a client in a worker thread, from \<^verbatim>\<open>src/src/worker.c\<close>: the queue of new clients, the list of all
  clients and the four lists of classified clients the outgoing packets go to, keepalives and timeouts, and the
  end of a connection. Structures are addresses in a store, so that an access to a closed client is visible.

  Accounting, the poller and the handlers for reading are left out.
\<close>

section \<open>State\<close>

datatype client_head = Clients_Head | New_Clients_Head

datatype client_class = Class_Ro | Class_Ups | Class_Dupe | Class_Other

datatype client_event =
    Sent nat string
  | Datagram nat string
  | Closed_Fd int
  | Shutdown_Fd int
  | Uplink_Closed nat

definition MAX_COREPEERS :: nat where "MAX_COREPEERS = 16"

text \<open>The clients of one worker thread. \<open>cs_store\<close> has the allocated structures, by address; \<open>cs_links\<close> the fields
  \<^verbatim>\<open>next\<close> and \<^verbatim>\<open>prevp\<close> with the heads \<^verbatim>\<open>clients\<close> and \<^verbatim>\<open>new_clients\<close>, \<open>cs_class\<close> the fields \<^verbatim>\<open>class_next\<close> and \<^verbatim>\<open>class_prevp\<close> with
  the four heads of classified clients; \<open>cs_peers\<close> the array of peers and \<open>cs_clientlist\<close> the list of logins.\<close>

record clients_state =
  cs_store :: "nat \<Rightarrow> client_t option"
  cs_links :: "client_head links"
  cs_class :: "client_class links"
  cs_new_last :: "nat option"
  cs_count :: int
  cs_peers :: "nat list"
  cs_clientlist :: "clientlist_t table"
  cs_events :: "client_event list"

text \<open>The outside world: what \<^verbatim>\<open>write\<close>, \<^verbatim>\<open>sendto\<close> and the writers for TLS and SCTP return, whether \<^verbatim>\<open>xpoll_add\<close> finds
  room, the version strings, the text of the time, and the clock.\<close>

record clients_env =
  we_write :: "client_t \<Rightarrow> string \<Rightarrow> io_result"
  we_sendto :: "client_t \<Rightarrow> string \<Rightarrow> int"
  we_other :: "client_writer \<Rightarrow> client_t \<Rightarrow> string \<Rightarrow> int"
  we_xpoll_add :: "int \<Rightarrow> bool"
  we_version :: string
  we_verstr :: string
  we_time :: string
  we_serverid :: string
  we_tick :: ctime
  we_ssl :: "client_t \<Rightarrow> bool"

record timeouts =
  sock_write_expire :: ctime
  keepalive_interval :: ctime
  obuf_writes_threshold :: nat
  obuf_writes_threshold_hys :: nat
  client_login_timeout :: ctime
  client_timeout :: ctime
  upstream_timeout :: ctime
  heard_list_storetime :: ctime
  courtesy_list_storetime :: ctime

definition log_event :: "client_event \<Rightarrow> clients_state \<Rightarrow> clients_state" where
  "log_event e st = st\<lparr>cs_events := cs_events st @ [e]\<rparr>"

definition set_client :: "nat \<Rightarrow> client_t \<Rightarrow> clients_state \<Rightarrow> clients_state" where
  "set_client cid c st = st\<lparr>cs_store := (cs_store st)(cid \<mapsto> c)\<rparr>"

section \<open>Releasing and closing\<close>

definition client_free :: "nat \<Rightarrow> client_t \<Rightarrow> clients_state \<Rightarrow> clients_state" where
  "client_free cid c st =
     (let st1 = (if 0 \<le> c_fd c then log_event (Closed_Fd (c_fd c)) st else st)
      in st1\<lparr>cs_clientlist := clientlist_remove c (cs_clientlist st1), cs_links := clear_links cid (cs_links st1),
             cs_class := clear_links cid (cs_class st1), cs_store := (cs_store st1)(cid := None)\<rparr>)"

text \<open>Two assignments of the class list are in the other order there; they go to different fields. None is a
  store through a null pointer or an access to freed memory.\<close>

definition client_close :: "nat \<Rightarrow> clients_state \<Rightarrow> clients_state option" where
  "client_close cid st =
     (case cs_store st cid of
        None \<Rightarrow> None
      | Some c \<Rightarrow>
          let st1 = (if 0 \<le> c_fd c then log_event (Closed_Fd (c_fd c)) st else st);
              c1 = c\<lparr>c_fd := -1\<rparr>
          in case unlink cid (cs_links st1) of
               None \<Rightarrow> None
             | Some l \<Rightarrow>
                 (case (if l_prevp (cs_class st1) cid = None then Some (cs_class st1) else unlink cid (cs_class st1)) of
                    None \<Rightarrow> None
                  | Some k \<Rightarrow>
                      let st2 = st1\<lparr>cs_links := l, cs_class := k\<rparr>;
                          st3 = (if has_flag (c_flags c) CLFLAGS_UPLINKPORT \<and> c_state c \<noteq> CSTATE_COREPEER
                                 then log_event (Uplink_Closed cid) st2 else st2);
                          st4 = client_free cid c1 st3
                      in Some (st4\<lparr>cs_count := cs_count st4 - 1\<rparr>)))"

fun close_clients :: "nat list \<Rightarrow> clients_state \<Rightarrow> clients_state option" where
  "close_clients [] st = Some st"
| "close_clients (x # xs) st = (case client_close x st of None \<Rightarrow> None | Some st' \<Rightarrow> close_clients xs st')"

definition corepeer_close_all :: "clients_state \<Rightarrow> clients_state option" where
  "corepeer_close_all st = map_option (\<lambda>st'. st'\<lparr>cs_peers := []\<rparr>) (close_clients (cs_peers st) st)"

section \<open>Writing to a client\<close>

text \<open>A call through \<^verbatim>\<open>c->write\<close>: the return code and the state. The writers close the client exactly when they
  return less than -2.\<close>

definition write_client :: "clients_env \<Rightarrow> nat \<Rightarrow> string \<Rightarrow> clients_state \<Rightarrow> (int \<times> clients_state) option" where
  "write_client env cid s st =
     (case cs_store st cid of
        None \<Rightarrow> None
      | Some c \<Rightarrow>
          (case c_write c of
             None \<Rightarrow> None
           | Some Tcp_Client_Write \<Rightarrow>
               let (rc, ob, out, dg) = client_write (we_sendto env c) (we_write env c s) (we_tick env) c s (c_obuf c)
               in (case ob of
                     None \<Rightarrow> map_option (Pair rc) (client_close cid st)
                   | Some ob' \<Rightarrow>
                       let st1 = set_client cid (c\<lparr>c_obuf := ob'\<rparr>) st;
                           st2 = (case dg of None \<Rightarrow> st1 | Some d \<Rightarrow> log_event (Datagram cid d) st1)
                       in Some (rc, if out = [] then st2 else log_event (Sent cid out) st2))
           | Some Udp_Client_Write \<Rightarrow>
               let (rc, d) = udp_client_write (we_sendto env c) s in Some (rc, log_event (Datagram cid d) st)
           | Some w \<Rightarrow>
               let rc = we_other env w c s
               in if rc < -2 then map_option (Pair rc) (client_close cid st) else Some (rc, st)))"

definition printf_client :: "clients_env \<Rightarrow> nat \<Rightarrow> string \<Rightarrow> clients_state \<Rightarrow> (int \<times> clients_state) option" where
  "printf_client env cid s st = (if PACKETLEN_MAX \<le> length s then Some (-1, st) else write_client env cid s st)"

section \<open>Classes\<close>

definition client_class_of :: "client_t \<Rightarrow> client_class option" where
  "client_class_of c =
     (if has_flag (c_flags c) CLFLAGS_PORT_RO then Some Class_Ro
      else if c_state c = CSTATE_COREPEER \<or> has_flag (c_flags c) CLFLAGS_UPLINKPORT then Some Class_Ups
      else if has_flag (c_flags c) CLFLAGS_DUPEFEED then Some Class_Dupe
      else if has_flag (c_flags c) CLFLAGS_INPORT then Some Class_Other
      else None)"

definition worker_classify_client :: "nat \<Rightarrow> client_t \<Rightarrow> clients_state \<Rightarrow> clients_state" where
  "worker_classify_client cid c st =
     (case client_class_of c of None \<Rightarrow> st | Some k \<Rightarrow> st\<lparr>cs_class := link_front k cid (cs_class st)\<rparr>)"

definition worker_mark_client_connected :: "nat \<Rightarrow> client_t \<Rightarrow> clients_state \<Rightarrow> clients_state" where
  "worker_mark_client_connected cid c st =
     (let c' = c\<lparr>c_state := CSTATE_CONNECTED\<rparr> in worker_classify_client cid c' (set_client cid c' st))"

section \<open>New clients\<close>

definition pass_client_to_worker :: "nat \<Rightarrow> clients_state \<Rightarrow> clients_state" where
  "pass_client_to_worker cid st =
     st\<lparr>cs_links := link_back New_Clients_Head (cs_new_last st) cid (cs_links st), cs_new_last := Some cid\<rparr>"

text \<open>Into the list of clients and, when it is connected already, into the list of its class.\<close>

definition collect_link :: "nat \<Rightarrow> client_t \<Rightarrow> clients_state \<Rightarrow> clients_state" where
  "collect_link cid c st =
     (let st1 = st\<lparr>cs_count := cs_count st + 1, cs_links := link_front Clients_Head cid (cs_links st)\<rparr>
      in if c_state c = CSTATE_CONNECTED \<or> c_state c = CSTATE_COREPEER then worker_classify_client cid c st1 else st1)"

definition collect_writer :: "clients_env \<Rightarrow> client_t \<Rightarrow> client_writer" where
  "collect_writer env c =
     (if c_ai_protocol c = IPPROTO_SCTP then Sctp_Client_Write
      else if we_ssl env c then Ssl_Client_Write else Tcp_Client_Write)"

text \<open>One new client of the loop in \<^verbatim>\<open>collect_new_clients\<close>. None also stands for the call of \<^verbatim>\<open>exit\<close>.\<close>

definition collect_one :: "clients_env \<Rightarrow> nat \<Rightarrow> clients_state \<Rightarrow> clients_state option" where
  "collect_one env cid st =
     (case cs_store st cid of
        None \<Rightarrow> None
      | Some c \<Rightarrow>
          if c_fd c < -1 then
            (case (if c_fd c = -2 then corepeer_close_all st else Some st) of
               None \<Rightarrow> None | Some st1 \<Rightarrow> Some (client_free cid c st1))
          else
            let st2 = collect_link cid c st
            in if c_state c = CSTATE_COREPEER then
                 if length (cs_peers st2) = MAX_COREPEERS then None
                 else Some (set_client cid (c\<lparr>c_fd := int (length (cs_peers st2)) * -1 - 100, c_write := Some Udp_Client_Write\<rparr>)
                        (st2\<lparr>cs_peers := cs_peers st2 @ [cid]\<rparr>))
               else if \<not> we_xpoll_add env (c_fd c) then Some (log_event (Shutdown_Fd (c_fd c)) st2)
               else
                 let st3 = set_client cid (c\<lparr>c_write := Some (collect_writer env c)\<rparr>) st2
                 in if has_flag (c_flags c) CLFLAGS_INPORT
                    then map_option snd (printf_client env cid (''# '' @ we_version env @ CRLF) st3)
                    else Some st3)"

partial_function (option) collect_loop :: "clients_env \<Rightarrow> nat option \<Rightarrow> clients_state \<Rightarrow> clients_state option" where
  "collect_loop env p st =
     (case p of
        None \<Rightarrow> Some st
      | Some cid \<Rightarrow>
          let nx = l_next (cs_links st) cid
          in case collect_one env cid st of None \<Rightarrow> None | Some st' \<Rightarrow> collect_loop env nx st')"

definition collect_new_clients :: "clients_env \<Rightarrow> clients_state \<Rightarrow> clients_state option" where
  "collect_new_clients env st =
     collect_loop env (l_head (cs_links st) New_Clients_Head)
       (st\<lparr>cs_links := (cs_links st)\<lparr>l_head := (l_head (cs_links st))(New_Clients_Head := None)\<rparr>, cs_new_last := None\<rparr>)"
section \<open>Keepalives and timeouts\<close>

definition keepalive_text :: "clients_env \<Rightarrow> client_t \<Rightarrow> string" where
  "keepalive_text env c =
     ''# '' @ take 40 (we_verstr env) @ '' '' @ we_time env @ '' '' @ we_serverid env @ '' '' @ c_addr_loc c @ CRLF"

definition set_flushsize :: "nat \<Rightarrow> client_t \<Rightarrow> client_t" where
  "set_flushsize n c = c\<lparr>c_obuf := (c_obuf c)\<lparr>ob_flushsize := n\<rparr>\<rparr>"

text \<open>The keepalive, or the flush between two of them; the flag says whether the client is still there.\<close>

definition keepalive_write :: "clients_env \<Rightarrow> timeouts \<Rightarrow> nat \<Rightarrow> client_t \<Rightarrow> clients_state \<Rightarrow> (bool \<times> clients_state) option" where
  "keepalive_write env tmo cid c st =
     (if c_keepalive c \<le> we_tick env \<or> we_tick env + keepalive_interval tmo < c_keepalive c then
        let flushlevel = ob_flushsize (c_obuf c);
            c1 = set_flushsize 0 (c\<lparr>c_keepalive := we_tick env + keepalive_interval tmo\<rparr>)
        in case write_client env cid (keepalive_text env c) (set_client cid c1 st) of
             None \<Rightarrow> None
           | Some (rc, st1) \<Rightarrow>
               if rc < -2 then Some (False, st1)
               else (case cs_store st1 cid of
                       None \<Rightarrow> None
                     | Some c2 \<Rightarrow> Some (True, set_client cid (set_flushsize flushlevel c2) st1))
      else if c_ai_protocol c = IPPROTO_TCP \<or> c_ai_protocol c = IPPROTO_SCTP then
        (case write_client env cid [] st of
           None \<Rightarrow> None
         | Some (rc, st1) \<Rightarrow> Some (\<not> rc < -2, st1))
      else Some (True, st))"

definition input_timed_out :: "timeouts \<Rightarrow> ctime \<Rightarrow> client_t \<Rightarrow> bool" where
  "input_timed_out tmo tick c \<longleftrightarrow>
     (if has_flag (c_flags c) CLFLAGS_INPORT then
        if c_state c \<noteq> CSTATE_CONNECTED then c_connect_tick c \<le> tick - client_login_timeout tmo
        else c_last_read c \<le> tick - client_timeout tmo
      else c_last_read c \<le> tick - upstream_timeout tmo)"

definition output_timed_out :: "timeouts \<Rightarrow> ctime \<Rightarrow> client_t \<Rightarrow> bool" where
  "output_timed_out tmo tick c \<longleftrightarrow>
     ob_wtime (c_obuf c) < tick - sock_write_expire tmo \<and> c_state c \<noteq> CSTATE_UDP"

definition adjust_buffering :: "timeouts \<Rightarrow> client_t \<Rightarrow> client_t" where
  "adjust_buffering tmo c =
     (let ob = c_obuf c;
          ob1 = (if obuf_writes_threshold tmo < ob_writes ob then
                   if ob_flushsize ob = 0 then ob\<lparr>ob_flushsize := ob_size ob div 2\<rparr> else ob
                 else if ob_flushsize ob \<noteq> 0 \<and> ob_writes ob < obuf_writes_threshold_hys tmo then ob\<lparr>ob_flushsize := 0\<rparr>
                 else ob)
      in c\<lparr>c_obuf := ob1\<lparr>ob_writes := 0\<rparr>\<rparr>)"

definition cleanup_heard :: "timeouts \<Rightarrow> ctime \<Rightarrow> client_t \<Rightarrow> client_t" where
  "cleanup_heard tmo tick c =
     (if c_cleanup c \<le> tick \<or> tick + 120 + 120 < c_cleanup c
      then client_heard_expire tick (heard_list_storetime tmo) (courtesy_list_storetime tmo) (c\<lparr>c_cleanup := tick + 120\<rparr>)
      else c)"

text \<open>One client of the loop.\<close>

definition keepalive_one ::
    "clients_env \<Rightarrow> timeouts \<Rightarrow> nat \<Rightarrow> clients_state \<Rightarrow> clients_state option" where
  "keepalive_one env tmo cid st =
     (case cs_store st cid of
        None \<Rightarrow> None
      | Some c \<Rightarrow>
          if c_state c = CSTATE_COREPEER then Some st
          else
            let tick = we_tick env;
                c1 = cleanup_heard tmo tick c
            in case keepalive_write env tmo cid c1 (set_client cid c1 st) of
                 None \<Rightarrow> None
               | Some (alive, st1) \<Rightarrow>
                   if \<not> alive then Some st1
                   else (case cs_store st1 cid of
                           None \<Rightarrow> None
                         | Some c2 \<Rightarrow>
                             if input_timed_out tmo tick c2 \<or> output_timed_out tmo tick c2 then client_close cid st1
                             else Some (set_client cid (adjust_buffering tmo c2) st1)))"

partial_function (option) keepalive_loop ::
    "clients_env \<Rightarrow> timeouts \<Rightarrow> nat option \<Rightarrow> clients_state \<Rightarrow> clients_state option" where
  "keepalive_loop env tmo p st =
     (case p of
        None \<Rightarrow> Some st
      | Some cid \<Rightarrow>
          let cnext = l_next (cs_links st) cid
          in case keepalive_one env tmo cid st of
               None \<Rightarrow> None | Some st' \<Rightarrow> keepalive_loop env tmo cnext st')"

definition send_keepalives :: "clients_env \<Rightarrow> timeouts \<Rightarrow> clients_state \<Rightarrow> clients_state option" where
  "send_keepalives env tmo st = keepalive_loop env tmo (l_head (cs_links st) Clients_Head) st"

text \<open>The end of a thread that is not stopped for a live upgrade.\<close>

partial_function (option) close_all_loop :: "clients_state \<Rightarrow> clients_state option" where
  "close_all_loop st =
     (case l_head (cs_links st) Clients_Head of
        None \<Rightarrow> Some st
      | Some cid \<Rightarrow> (case client_close cid st of None \<Rightarrow> None | Some st' \<Rightarrow> close_all_loop st'))"
section \<open>The lists of clients\<close>

text \<open>The class a client gets packets through: none before it is connected.\<close>

definition serves :: "client_t \<Rightarrow> client_class option" where
  "serves c = (if c_state c = CSTATE_CONNECTED \<or> c_state c = CSTATE_COREPEER then client_class_of c else None)"

definition two_lists :: "nat list \<Rightarrow> nat list \<Rightarrow> client_head \<Rightarrow> nat list" where
  "two_lists xs ys h = (case h of Clients_Head \<Rightarrow> xs | New_Clients_Head \<Rightarrow> ys)"

lemma two_lists_simps [simp]:
  "two_lists xs ys Clients_Head = xs" "two_lists xs ys New_Clients_Head = ys"
  "(two_lists xs ys)(Clients_Head := zs) = two_lists zs ys" "(two_lists xs ys)(New_Clients_Head := zs) = two_lists xs zs"
  by (auto simp: two_lists_def fun_eq_iff split: client_head.split)

text \<open>The class lists \<open>ks\<close> over the clients \<open>xs\<close>: each client is in the list of its class and in no other.\<close>

definition class_ok :: "clients_state \<Rightarrow> nat list \<Rightarrow> (client_class \<Rightarrow> nat list) \<Rightarrow> bool" where
  "class_ok st xs ks \<longleftrightarrow>
     heap_lists (cs_class st) ks \<and>
     (\<forall>k. set (ks k) = {x \<in> set xs. \<exists>c. cs_store st x = Some c \<and> serves c = Some k}) \<and>
     (\<forall>x. (\<forall>k. x \<notin> set (ks k)) \<longrightarrow> l_prevp (cs_class st) x = None)"

definition peers_ok :: "clients_state \<Rightarrow> nat list \<Rightarrow> bool" where
  "peers_ok st xs \<longleftrightarrow>
     distinct (cs_peers st) \<and>
     set (cs_peers st) = {x \<in> set xs. \<exists>c. cs_store st x = Some c \<and> c_state c = CSTATE_COREPEER}"

text \<open>\<open>xs\<close> are the clients of the worker and \<open>ys\<close> its new clients.\<close>

definition lists_ok :: "clients_state \<Rightarrow> nat list \<Rightarrow> nat list \<Rightarrow> bool" where
  "lists_ok st xs ys \<longleftrightarrow>
     heap_lists (cs_links st) (two_lists xs ys) \<and>
     cs_new_last st = (if ys = [] then None else Some (last ys)) \<and>
     (\<forall>x. x \<in> set xs \<union> set ys \<longrightarrow> cs_store st x \<noteq> None) \<and>
     cs_count st = int (length xs) \<and> (\<exists>ks. class_ok st xs ks)"

definition clients_ok :: "clients_state \<Rightarrow> nat list \<Rightarrow> nat list \<Rightarrow> bool" where
  "clients_ok st xs ys \<longleftrightarrow> lists_ok st xs ys \<and> peers_ok st xs"

lemma class_ok_unique: "class_ok st xs ks \<Longrightarrow> x \<in> set (ks k) \<Longrightarrow> x \<in> set (ks k') \<Longrightarrow> k = k'"
  by (auto simp: class_ok_def)

lemma clients_disjoint:
  assumes "lists_ok st xs ys"
  shows "set xs \<inter> set ys = {}" "distinct xs" "distinct ys"
proof -
  have "heap_lists (cs_links st) (two_lists xs ys)" using assms by (simp add: lists_ok_def)
  then have "set (two_lists xs ys Clients_Head) \<inter> set (two_lists xs ys New_Clients_Head) = {}"
    "distinct (two_lists xs ys Clients_Head)" "distinct (two_lists xs ys New_Clients_Head)"
    unfolding heap_lists_def by blast+
  then show "set xs \<inter> set ys = {}" "distinct xs" "distinct ys" by simp_all
qed

text \<open>Fields the lists do not depend on may change.\<close>

lemma class_ok_set_client:
  assumes "class_ok st xs ks" and "cs_store st cid = Some c" and "serves c' = serves c"
  shows "class_ok (set_client cid c' st) xs ks"
  using assms by (auto simp: class_ok_def set_client_def)

lemma clients_ok_set_client:
  assumes "clients_ok st xs ys" and "cs_store st cid = Some c" and "c_state c' = c_state c" and "c_flags c' = c_flags c"
  shows "clients_ok (set_client cid c' st) xs ys"
proof -
  have "serves c' = serves c" using assms(3,4) by (simp add: serves_def client_class_of_def)
  then have "\<exists>ks. class_ok (set_client cid c' st) xs ks"
    using class_ok_set_client assms(1,2) unfolding clients_ok_def lists_ok_def by blast
  moreover have "peers_ok (set_client cid c' st) xs" using assms by (auto simp: clients_ok_def peers_ok_def set_client_def)
  ultimately show ?thesis using assms(1,2) by (auto simp: clients_ok_def lists_ok_def set_client_def)
qed

lemma clients_ok_log [simp]: "clients_ok (log_event e st) xs ys = clients_ok st xs ys"
  by (simp add: clients_ok_def lists_ok_def class_ok_def peers_ok_def log_event_def)

lemma log_event_simps [simp]:
  "cs_store (log_event e st) = cs_store st" "cs_links (log_event e st) = cs_links st" "cs_class (log_event e st) = cs_class st"
  "cs_peers (log_event e st) = cs_peers st" "cs_count (log_event e st) = cs_count st" "cs_new_last (log_event e st) = cs_new_last st"
  "cs_clientlist (log_event e st) = cs_clientlist st"
  by (simp_all add: log_event_def)

lemma set_client_simps [simp]:
  "cs_store (set_client cid c st) = (cs_store st)(cid \<mapsto> c)" "cs_links (set_client cid c st) = cs_links st"
  "cs_peers (set_client cid c st) = cs_peers st" "cs_class (set_client cid c st) = cs_class st"
  "cs_count (set_client cid c st) = cs_count st" "cs_new_last (set_client cid c st) = cs_new_last st"
  by (simp_all add: set_client_def)

section \<open>Closing\<close>

text \<open>Taking a client out of the lists of classes, whether it is in one or not.\<close>

lemma class_unlink:
  assumes K: "class_ok st xs ks" and x: "x \<in> set xs"
  shows "\<exists>k. (if l_prevp (cs_class st) x = None then Some (cs_class st) else unlink x (cs_class st)) = Some k \<and>
    heap_lists k (\<lambda>h. remove1 x (ks h)) \<and> (\<forall>y. (\<forall>h. y \<notin> set (ks h)) \<longrightarrow> l_prevp k y = None)"
proof (cases "\<exists>h. x \<in> set (ks h)")
  case True
  then obtain h where h: "x \<in> set (ks h)" by blast
  have L: "heap_lists (cs_class st) ks" using K by (simp add: class_ok_def)
  obtain as bs where split: "ks h = as @ x # bs" using h by (meson split_list)
  obtain s' where s': "unlink x (cs_class st) = Some s'" "heap_lists s' (ks(h := remove1 x (ks h)))"
    using lists_unlink [OF L h] by blast
  have P: "l_prevp s' y = (if l_next (cs_class st) x = Some y then l_prevp (cs_class st) x else l_prevp (cs_class st) y)" for y
    using unlink_effect [of "cs_class st" ks h as x bs, OF L split] s'(1) by auto
  obtain sl where sl: "l_prevp (cs_class st) x = Some sl" "linked (cs_class st) sl (Some x) (x # bs)"
  proof -
    have "linked (cs_class st) (Head h) (l_head (cs_class st) h) (as @ x # bs)" using L split by (metis heap_lists_def)
    from linked_split [OF this] show ?thesis using that by blast
  qed
  have "l_next (cs_class st) x = Some y \<Longrightarrow> y \<in> set (ks h)" for y using sl(2) split by (cases bs) auto
  then have "\<forall>y. (\<forall>h. y \<notin> set (ks h)) \<longrightarrow> l_prevp s' y = None" using P K by (auto simp: class_ok_def)
  moreover have "ks(h := remove1 x (ks h)) = (\<lambda>h. remove1 x (ks h))"
    using class_ok_unique [OF K h] by (intro ext) (metis fun_upd_apply remove1_idem)
  ultimately show ?thesis using s' sl(1) by (intro exI [of _ s']) auto
next
  case False
  then have "l_prevp (cs_class st) x = None" "(\<lambda>h. remove1 x (ks h)) = ks"
    using K by (auto simp: class_ok_def remove1_idem)
  then show ?thesis using K by (auto simp: class_ok_def)
qed

lemma client_close_effect:
  assumes "cs_store st x = Some c" and "unlink x (cs_links st) = Some l"
    and "(if l_prevp (cs_class st) x = None then Some (cs_class st) else unlink x (cs_class st)) = Some k"
  shows "\<exists>st'. client_close x st = Some st' \<and> cs_store st' = (cs_store st)(x := None) \<and> cs_class st' = clear_links x k \<and>
    cs_links st' = clear_links x l \<and> cs_peers st' = cs_peers st \<and> cs_new_last st' = cs_new_last st \<and>
    cs_count st' = cs_count st - 1 \<and> cs_clientlist st' = clientlist_remove (c\<lparr>c_fd := -1\<rparr>) (cs_clientlist st)"
  using assms
  by (cases "0 \<le> c_fd c"; cases "l_prevp (cs_class st) x = None") (auto simp: client_close_def client_free_def Let_def)

lemma client_close_lists:
  assumes ok: "lists_ok st xs ys" and x: "x \<in> set xs" and c: "cs_store st x = Some c"
  shows "\<exists>st'. client_close x st = Some st' \<and> lists_ok st' (remove1 x xs) ys \<and>
    cs_store st' = (cs_store st)(x := None) \<and> cs_peers st' = cs_peers st \<and>
    cs_clientlist st' = clientlist_remove (c\<lparr>c_fd := -1\<rparr>) (cs_clientlist st) \<and>
    (\<forall>y. y \<notin> set xs \<longrightarrow> l_next (cs_links st') y = l_next (cs_links st) y)"
proof -
  have L: "heap_lists (cs_links st) (two_lists xs ys)" using ok by (simp add: lists_ok_def)
  obtain ks where K: "class_ok st xs ks" using ok by (auto simp: lists_ok_def)
  note D = clients_disjoint [OF ok]
  obtain l where l: "unlink x (cs_links st) = Some l" "heap_lists l (two_lists (remove1 x xs) ys)"
    using lists_unlink [OF L, of x Clients_Head] x by auto
  obtain k where k: "(if l_prevp (cs_class st) x = None then Some (cs_class st) else unlink x (cs_class st)) = Some k"
    "heap_lists k (\<lambda>h. remove1 x (ks h))" "\<forall>y. (\<forall>h. y \<notin> set (ks h)) \<longrightarrow> l_prevp k y = None"
    using class_unlink [OF K x] by blast
  have out: "\<forall>h. x \<notin> set (two_lists (remove1 x xs) ys h)"
    using D x by (auto simp: two_lists_def split: client_head.split)
  have Kd: "\<And>h. distinct (ks h)" using K by (simp add: class_ok_def heap_lists_def)
  obtain st' where st': "client_close x st = Some st'" "cs_store st' = (cs_store st)(x := None)" "cs_class st' = clear_links x k"
    "cs_links st' = clear_links x l" "cs_peers st' = cs_peers st" "cs_new_last st' = cs_new_last st"
    "cs_count st' = cs_count st - 1" "cs_clientlist st' = clientlist_remove (c\<lparr>c_fd := -1\<rparr>) (cs_clientlist st)"
    using client_close_effect [OF c l(1) k(1)] by blast
  have "class_ok st' (remove1 x xs) (\<lambda>h. remove1 x (ks h))"
    unfolding class_ok_def
  proof (intro conjI allI impI)
    show "heap_lists (cs_class st') (\<lambda>h. remove1 x (ks h))" using k(2) Kd by (auto simp: st'(3) intro!: lists_clear)
    show "set (remove1 x (ks h)) = {y \<in> set (remove1 x xs). \<exists>c. cs_store st' y = Some c \<and> serves c = Some h}" for h
      using K Kd D(2) by (auto simp: class_ok_def st'(2) set_remove1_eq)
    fix y assume "\<forall>h. y \<notin> set (remove1 x (ks h))"
    then show "l_prevp (cs_class st') y = None" using k(3) Kd by (auto simp: st'(3) clear_links_def set_remove1_eq)
  qed
  moreover have "heap_lists (cs_links st') (two_lists (remove1 x xs) ys)" using lists_clear [OF l(2) out] st'(4) by simp
  moreover have "int (length (remove1 x xs)) = int (length xs) - 1"
    using x length_pos_if_in_set [OF x] by (simp add: length_remove1 int_ops(6))
  ultimately have "lists_ok st' (remove1 x xs) ys"
    using ok D x by (auto simp: lists_ok_def st'(2,6,7) set_remove1_eq)
  moreover have "\<forall>y. y \<notin> set xs \<longrightarrow> l_next (cs_links st') y = l_next (cs_links st) y"
    using unlink_frame [OF L _ l(1), of Clients_Head] x st'(4) by (auto simp: clear_links_def)
  ultimately show ?thesis using st' by blast
qed

lemma client_close_ok:
  assumes ok: "clients_ok st xs ys" and x: "x \<in> set xs" and c: "cs_store st x = Some c" "c_state c \<noteq> CSTATE_COREPEER"
  shows "\<exists>st'. client_close x st = Some st' \<and> clients_ok st' (remove1 x xs) ys \<and> cs_store st' = (cs_store st)(x := None) \<and>
    cs_peers st' = cs_peers st \<and> (\<forall>y. y \<notin> set xs \<longrightarrow> l_next (cs_links st') y = l_next (cs_links st) y)"
proof -
  have L: "lists_ok st xs ys" using ok by (simp add: clients_ok_def)
  obtain st' where S: "client_close x st = Some st'" "lists_ok st' (remove1 x xs) ys" "cs_store st' = (cs_store st)(x := None)"
    "cs_peers st' = cs_peers st" "\<forall>y. y \<notin> set xs \<longrightarrow> l_next (cs_links st') y = l_next (cs_links st) y"
    using client_close_lists [OF L x c(1)] by blast
  have "peers_ok st' (remove1 x xs)"
    using ok c clients_disjoint(2) [OF L] unfolding clients_ok_def peers_ok_def by (auto simp: S set_remove1_eq)
  then show ?thesis using S by (auto simp: clients_ok_def)
qed

text \<open>Closing all peers.\<close>

lemma close_clients_ok:
  assumes "lists_ok st xs ys" and "distinct ps" and "set ps \<subseteq> set xs"
  shows "\<exists>st' zs. close_clients ps st = Some st' \<and> lists_ok st' zs ys \<and> set zs = set xs - set ps \<and>
    (\<forall>y. y \<notin> set ps \<longrightarrow> cs_store st' y = cs_store st y) \<and>
    (\<forall>y. y \<notin> set xs \<longrightarrow> l_next (cs_links st') y = l_next (cs_links st) y)"
  using assms
proof (induction ps arbitrary: st xs)
  case (Cons p ps)
  have p: "p \<in> set xs" using Cons.prems by simp
  obtain c where c: "cs_store st p = Some c" using Cons.prems(1) p by (auto simp: lists_ok_def)
  have d: "set (remove1 p xs) = set xs - {p}" using clients_disjoint(2) [OF Cons.prems(1)] by (simp add: set_remove1_eq)
  obtain st1 where S: "client_close p st = Some st1" "lists_ok st1 (remove1 p xs) ys" "cs_store st1 = (cs_store st)(p := None)"
    "\<forall>y. y \<notin> set xs \<longrightarrow> l_next (cs_links st1) y = l_next (cs_links st) y"
    using client_close_lists [OF Cons.prems(1) p c] by blast
  have "set ps \<subseteq> set (remove1 p xs)" using Cons.prems d by auto
  then obtain st' zs where I: "close_clients ps st1 = Some st'" "lists_ok st' zs ys" "set zs = set (remove1 p xs) - set ps"
    "\<forall>y. y \<notin> set ps \<longrightarrow> cs_store st' y = cs_store st1 y"
    "\<forall>y. y \<notin> set (remove1 p xs) \<longrightarrow> l_next (cs_links st') y = l_next (cs_links st1) y"
    using Cons.IH [OF S(2)] Cons.prems(2) by auto
  have "set zs = set xs - set (p # ps)" using I(3) d by auto
  moreover have "\<forall>y. y \<notin> set xs \<longrightarrow> l_next (cs_links st') y = l_next (cs_links st) y" using I(5) S(4) d by auto
  ultimately show ?case using S(1,3) I(1,2,4) by (intro exI [of _ st'] exI [of _ zs]) auto
qed auto

lemma lists_ok_peers [simp]: "lists_ok (st\<lparr>cs_peers := ps\<rparr>) xs ys = lists_ok st xs ys"
  by (simp add: lists_ok_def class_ok_def)

lemma corepeer_close_all_ok:
  assumes "clients_ok st xs ys"
  shows "\<exists>st' zs. corepeer_close_all st = Some st' \<and> clients_ok st' zs ys \<and> set zs \<subseteq> set xs \<and> cs_peers st' = [] \<and>
    (\<forall>y. y \<in> set zs \<or> y \<notin> set xs \<longrightarrow> cs_store st' y = cs_store st y) \<and>
    (\<forall>y. y \<notin> set xs \<longrightarrow> l_next (cs_links st') y = l_next (cs_links st) y)"
proof -
  have P: "distinct (cs_peers st)" "set (cs_peers st) = {x \<in> set xs. \<exists>c. cs_store st x = Some c \<and> c_state c = CSTATE_COREPEER}"
    using assms by (simp_all add: clients_ok_def peers_ok_def)
  obtain st1 zs where S: "close_clients (cs_peers st) st = Some st1" "lists_ok st1 zs ys" "set zs = set xs - set (cs_peers st)"
    "\<forall>y. y \<notin> set (cs_peers st) \<longrightarrow> cs_store st1 y = cs_store st y"
    "\<forall>y. y \<notin> set xs \<longrightarrow> l_next (cs_links st1) y = l_next (cs_links st) y"
    using close_clients_ok [of st xs ys "cs_peers st"] assms P by (auto simp: clients_ok_def)
  have "peers_ok (st1\<lparr>cs_peers := []\<rparr>) zs" using S(3,4) P(2) by (auto simp: peers_ok_def)
  then have "clients_ok (st1\<lparr>cs_peers := []\<rparr>) zs ys" using S(2) by (simp add: clients_ok_def)
  then show ?thesis
    using S P(2) unfolding corepeer_close_all_def by (intro exI [of _ "st1\<lparr>cs_peers := []\<rparr>"] exI [of _ zs]) auto
qed

section \<open>Classification and the queue of new clients\<close>

text \<open>A client the lists \<open>ks\<close> over \<open>zs\<close> do not have yet.\<close>

lemma classify_ok:
  assumes K: "class_ok st zs ks" and x: "x \<notin> set zs" and c: "cs_store st x = Some c" "serves c = client_class_of c"
    and xs: "set xs = insert x (set zs)"
  shows "\<exists>ks'. class_ok (worker_classify_client x c st) xs ks'"
proof (cases "client_class_of c")
  case None
  then have "class_ok st xs ks" using K c xs by (auto simp: class_ok_def)
  then show ?thesis using None by (auto simp: worker_classify_client_def)
next
  case (Some k)
  have fresh: "\<forall>h. x \<notin> set (ks h)" using K x by (auto simp: class_ok_def)
  have "l_prevp (link_front k x (cs_class st)) y = None" if "\<forall>h. y \<notin> set ((ks(k := x # ks k)) h)" for y
  proof -
    have y: "y \<noteq> x" "\<forall>h. y \<notin> set (ks h)" using that by (auto simp: fun_upd_def split: if_splits)
    have "l_head (cs_class st) k \<noteq> Some y"
    proof
      assume h: "l_head (cs_class st) k = Some y"
      have "linked (cs_class st) (Head k) (l_head (cs_class st) k) (ks k)" using K by (simp add: class_ok_def heap_lists_def)
      with h spec [OF y(2), of k] show False by (cases "ks k") auto
    qed
    then show ?thesis using y K by (auto simp: link_front_def set_prevp_def Let_def class_ok_def split: option.split)
  qed
  moreover have "heap_lists (link_front k x (cs_class st)) (ks(k := x # ks k))"
    using K by (intro lists_link_front fresh) (simp add: class_ok_def)
  moreover have "set ((ks(k := x # ks k)) h) = {y \<in> set xs. \<exists>c. cs_store st y = Some c \<and> serves c = Some h}" for h
    using K c Some xs x by (auto simp: class_ok_def)
  ultimately show ?thesis
    unfolding worker_classify_client_def Some class_ok_def by (intro exI [of _ "ks(k := x # ks k)"]) auto
qed

lemma classify_simps [simp]:
  "cs_store (worker_classify_client x c st) = cs_store st" "cs_links (worker_classify_client x c st) = cs_links st"
  "cs_peers (worker_classify_client x c st) = cs_peers st" "cs_count (worker_classify_client x c st) = cs_count st"
  "cs_new_last (worker_classify_client x c st) = cs_new_last st" "cs_clientlist (worker_classify_client x c st) = cs_clientlist st"
  by (simp_all add: worker_classify_client_def split: option.split)

lemma mark_connected_ok:
  assumes ok: "clients_ok st xs ys" and x: "x \<in> set xs"
    and c: "cs_store st x = Some c" "c_state c \<noteq> CSTATE_CONNECTED" "c_state c \<noteq> CSTATE_COREPEER"
    and c': "c_flags c' = c_flags c"
  shows "clients_ok (worker_mark_client_connected x c' st) xs ys"
proof -
  have L: "lists_ok st xs ys" using ok by (simp add: clients_ok_def)
  obtain ks where K: "class_ok st xs ks" using L by (auto simp: lists_ok_def)
  let ?c = "c'\<lparr>c_state := CSTATE_CONNECTED\<rparr>" let ?st = "set_client x ?c st"
  have D: "set (remove1 x xs) = set xs - {x}" using clients_disjoint(2) [OF L] by (simp add: set_remove1_eq)
  have "class_ok ?st (remove1 x xs) ks" using K c D by (auto simp: class_ok_def serves_def)
  then have "\<exists>ks'. class_ok (worker_classify_client x ?c ?st) xs ks'"
    by (rule classify_ok) (use D x in \<open>auto simp: serves_def\<close>)
  moreover have "peers_ok (worker_classify_client x ?c ?st) xs" using ok c by (auto simp: clients_ok_def peers_ok_def)
  ultimately show ?thesis
    using L unfolding worker_mark_client_connected_def Let_def clients_ok_def lists_ok_def by auto
qed

lemma pass_client_ok:
  assumes ok: "clients_ok st xs ys" and x: "x \<notin> set xs" "x \<notin> set ys" and c: "cs_store st x \<noteq> None"
  shows "clients_ok (pass_client_to_worker x st) xs (ys @ [x])"
proof -
  have "heap_lists (link_back New_Clients_Head (cs_new_last st) x (cs_links st)) (two_lists xs (ys @ [x]))"
    using ok x lists_link_back [of "cs_links st" "two_lists xs ys" x "cs_new_last st" New_Clients_Head]
    by (auto simp: clients_ok_def lists_ok_def two_lists_def split: client_head.splits)
  then show ?thesis
    using ok c by (auto simp: clients_ok_def lists_ok_def class_ok_def peers_ok_def pass_client_to_worker_def)
qed

section \<open>Writing\<close>

text \<open>What is relied on of the system and of the writers for TLS and SCTP: \<^verbatim>\<open>sendto\<close> returns at least -1, and room
  is found in the poller.\<close>

definition clients_env_ok :: "clients_env \<Rightarrow> bool" where
  "clients_env_ok env \<longleftrightarrow> (\<forall>c s. -1 \<le> we_sendto env c s) \<and> (\<forall>fd. we_xpoll_add env fd)"

lemma client_write_gone:
  assumes "\<forall>s. -1 \<le> sendto s" and "client_write sendto res tick c p ob = (rc, ob', out, dg)"
  shows "ob' = None \<longleftrightarrow> rc < -2"
proof -
  have 1: "-1 \<le> sendto (take (length p - 2) p)" using assms(1) by blast
  have "fst (snd (tcp_client_write res tick p ob)) = None \<longleftrightarrow> fst (tcp_client_write res tick p ob) < -2"
    by (auto simp: tcp_client_write_def Let_def split: option.split io_result.split)
  then show ?thesis using assms(2) 1 by (auto simp: client_write_def udp_client_write_def Let_def case_prod_beta split: if_splits)
qed

text \<open>After a write the client is there with a new buffer, or closed.\<close>

lemma write_client_ok:
  assumes ok: "clients_ok st xs ys" and x: "x \<in> set xs" and env: "clients_env_ok env"
    and c: "cs_store st x = Some c" "c_state c \<noteq> CSTATE_COREPEER" "c_write c \<noteq> None"
  shows "\<exists>rc st'. write_client env x s st = Some (rc, st') \<and>
    (if rc < -2 then clients_ok st' (remove1 x xs) ys \<and> cs_store st' = (cs_store st)(x := None)
     else clients_ok st' xs ys \<and> (\<exists>ob. cs_store st' = (cs_store st)(x \<mapsto> c\<lparr>c_obuf := ob\<rparr>))) \<and>
    cs_peers st' = cs_peers st \<and> (\<forall>y. y \<notin> set xs \<longrightarrow> l_next (cs_links st') y = l_next (cs_links st) y)"
proof -
  obtain st1 where C: "client_close x st = Some st1" "clients_ok st1 (remove1 x xs) ys" "cs_store st1 = (cs_store st)(x := None)"
    "cs_peers st1 = cs_peers st" "\<forall>y. y \<notin> set xs \<longrightarrow> l_next (cs_links st1) y = l_next (cs_links st) y"
    using client_close_ok [OF ok x c(1,2)] by blast
  obtain w where w: "c_write c = Some w" using c(3) by auto
  have same: "c\<lparr>c_obuf := c_obuf c\<rparr> = c" by simp
  have keep: "\<exists>ob. cs_store st = (cs_store st)(x \<mapsto> c\<lparr>c_obuf := ob\<rparr>)" using same c(1) by (metis map_upd_triv)
  show ?thesis
  proof (cases w)
    case Tcp_Client_Write
    obtain rc ob out dg where W: "client_write (we_sendto env c) (we_write env c s) (we_tick env) c s (c_obuf c) = (rc, ob, out, dg)"
      by (metis prod_cases4)
    have gone: "ob = None \<longleftrightarrow> rc < -2" using client_write_gone [OF _ W] env by (auto simp: clients_env_ok_def)
    show ?thesis
    proof (cases ob)
      case None
      then show ?thesis using c(1) w Tcp_Client_Write W C gone by (simp add: write_client_def)
    next
      case (Some ob')
      have "clients_ok (set_client x (c\<lparr>c_obuf := ob'\<rparr>) st) xs ys" by (rule clients_ok_set_client [OF ok c(1)]) simp_all
      then show ?thesis using c(1) w Tcp_Client_Write W gone Some by (auto simp: write_client_def Let_def split: option.split)
    qed
  next
    case Udp_Client_Write
    have "-1 \<le> we_sendto env c (take (length s - 2) s)" using env by (simp add: clients_env_ok_def)
    then have "\<not> we_sendto env c (take (length s - 2) s) < -2" by simp
    then show ?thesis using Udp_Client_Write c(1) w ok keep by (auto simp: write_client_def udp_client_write_def)
  next
    case Ssl_Client_Write
    then show ?thesis using c(1) w ok C keep by (auto simp: write_client_def Let_def)
  next
    case Sctp_Client_Write
    then show ?thesis using c(1) w ok C keep by (auto simp: write_client_def Let_def)
  qed
qed
section \<open>Collecting new clients\<close>

fun next_path :: "'h links \<Rightarrow> nat option \<Rightarrow> nat list \<Rightarrow> bool" where
  "next_path s p [] \<longleftrightarrow> p = None"
| "next_path s p (x # xs) \<longleftrightarrow> p = Some x \<and> next_path s (l_next s x) xs"

lemma linked_next_path: "linked s sl p xs \<Longrightarrow> next_path s p xs"
  by (induction xs arbitrary: sl p) auto

lemma next_path_frame: "\<forall>x \<in> set xs. l_next s' x = l_next s x \<Longrightarrow> next_path s' p xs = next_path s p xs"
  by (induction xs arbitrary: p) auto

definition wired :: "clients_state \<Rightarrow> nat list \<Rightarrow> bool" where
  "wired st xs \<longleftrightarrow> (\<forall>x \<in> set xs. \<exists>c. cs_store st x = Some c \<and> c_write c \<noteq> None)"

definition num_peers :: "clients_state \<Rightarrow> nat list \<Rightarrow> nat" where
  "num_peers st zs = length (filter (\<lambda>x. \<exists>c. cs_store st x = Some c \<and> c_state c = CSTATE_COREPEER) zs)"

text \<open>The result of collecting one client: it is in the list, or it has been closed or freed.\<close>

definition collected :: "clients_state \<Rightarrow> nat list \<Rightarrow> nat \<Rightarrow> clients_state \<Rightarrow> bool" where
  "collected st xs x st' \<longleftrightarrow>
     (\<exists>xs'. clients_ok st' xs' [] \<and> wired st' xs' \<and> set xs' \<subseteq> insert x (set xs)) \<and>
     (\<forall>y. y \<notin> insert x (set xs) \<longrightarrow> cs_store st' y = cs_store st y \<and> l_next (cs_links st') y = l_next (cs_links st) y) \<and>
     length (cs_peers st') \<le> length (cs_peers st) + num_peers st [x] \<and>
     (length (cs_peers st) \<le> MAX_COREPEERS \<longrightarrow> length (cs_peers st') \<le> MAX_COREPEERS)"

lemma collect_freed:
  assumes ok: "clients_ok st xs []" "wired st xs" and x: "x \<notin> set xs" and c: "cs_store st x = Some c" "c_fd c < -1"
  shows "\<exists>st'. collect_one env x st = Some st' \<and> collected st xs x st'"
proof -
  obtain st1 zs where S: "(if c_fd c = -2 then corepeer_close_all st else Some st) = Some st1"
    "clients_ok st1 zs []" "set zs \<subseteq> set xs" "length (cs_peers st1) \<le> length (cs_peers st)"
    "\<forall>y. y \<in> set zs \<or> y \<notin> set xs \<longrightarrow> cs_store st1 y = cs_store st y"
    "\<forall>y. y \<notin> set xs \<longrightarrow> l_next (cs_links st1) y = l_next (cs_links st) y"
  proof (cases "c_fd c = -2")
    case True
    then show ?thesis using corepeer_close_all_ok [OF ok(1)] that by fastforce
  qed (use ok(1) that in auto)
  let ?st = "client_free x c st1"
  have eq: "cs_store ?st = (cs_store st1)(x := None)" "cs_links ?st = clear_links x (cs_links st1)"
    "cs_class ?st = clear_links x (cs_class st1)" "cs_peers ?st = cs_peers st1" "cs_count ?st = cs_count st1"
    "cs_new_last ?st = cs_new_last st1"
    using c(2) by (simp_all add: client_free_def)
  have xz: "x \<notin> set zs" using x S(3) by blast
  obtain ks where K: "class_ok st1 zs ks" using S(2) by (auto simp: clients_ok_def lists_ok_def)
  have "\<forall>h. x \<notin> set (ks h)" using K xz by (auto simp: class_ok_def)
  then have "class_ok ?st zs ks" using K xz by (auto simp: class_ok_def eq clear_links_def intro: lists_clear [unfolded clear_links_def])
  moreover have "heap_lists (cs_links ?st) (two_lists zs [])"
    using S(2) xz unfolding eq by (intro lists_clear) (auto simp: clients_ok_def lists_ok_def two_lists_def split: client_head.split)
  ultimately have "clients_ok ?st zs []"
    using S(2) xz by (auto simp: clients_ok_def lists_ok_def peers_ok_def eq)
  moreover have "wired ?st zs" using ok(2) S(3,5) xz by (auto simp: wired_def eq)
  ultimately have "collected st xs x ?st"
    using S xz unfolding collected_def eq by (intro conjI exI [of _ zs]) (auto simp: clear_links_def)
  then show ?thesis using c S(1) by (auto simp: collect_one_def)
qed

text \<open>The state after the client has been put into its lists.\<close>

lemma collect_linked:
  assumes ok: "clients_ok st xs []" and x: "x \<notin> set xs" and c: "cs_store st x = Some c"
  shows "lists_ok (collect_link x c st) (x # xs) [] \<and> cs_store (collect_link x c st) = cs_store st \<and>
    cs_peers (collect_link x c st) = cs_peers st \<and>
    (\<forall>y. y \<noteq> x \<longrightarrow> l_next (cs_links (collect_link x c st)) y = l_next (cs_links st) y)"
proof -
  define st1 where st1: "st1 = st\<lparr>cs_count := cs_count st + 1, cs_links := link_front Clients_Head x (cs_links st)\<rparr>"
  define st2 where "st2 = collect_link x c st"
  have st2: "st2 = (if c_state c = CSTATE_CONNECTED \<or> c_state c = CSTATE_COREPEER then worker_classify_client x c st1 else st1)"
    by (simp add: st2_def st1 collect_link_def)
  obtain ks where "class_ok st xs ks" using ok by (auto simp: clients_ok_def lists_ok_def)
  then have K: "class_ok st1 xs ks" by (simp add: class_ok_def st1)
  have "\<exists>ks'. class_ok st2 (x # xs) ks'"
  proof (cases "c_state c = CSTATE_CONNECTED \<or> c_state c = CSTATE_COREPEER")
    case True
    then show ?thesis using classify_ok [OF K x, of c "x # xs"] c by (auto simp: st2 st1 serves_def)
  next
    case False
    then have "class_ok st2 (x # xs) ks" using K c by (auto simp: class_ok_def st2 st1 serves_def)
    then show ?thesis by blast
  qed
  moreover have "heap_lists (cs_links st1) (two_lists (x # xs) [])"
    using ok x lists_link_front [of "cs_links st" "two_lists xs []" x Clients_Head]
    by (auto simp: st1 clients_ok_def lists_ok_def two_lists_def split: client_head.splits)
  moreover have "\<forall>y. y \<noteq> x \<longrightarrow> l_next (cs_links st1) y = l_next (cs_links st) y"
    by (auto simp: st1 link_front_def set_prevp_def Let_def split: option.split)
  ultimately show ?thesis unfolding st2_def [symmetric] using ok c by (auto simp: st2 st1 clients_ok_def lists_ok_def)
qed
lemma collect_peer:
  assumes ok: "clients_ok st xs []" "wired st xs" and x: "x \<notin> set xs" and c: "cs_store st x = Some c" "\<not> c_fd c < -1"
    and peer: "c_state c = CSTATE_COREPEER" and room: "length (cs_peers st) < MAX_COREPEERS"
  shows "\<exists>st'. collect_one env x st = Some st' \<and> collected st xs x st'"
proof -
  define st2 where "st2 = collect_link x c st"
  have S: "lists_ok st2 (x # xs) []" "cs_store st2 = cs_store st" "cs_peers st2 = cs_peers st"
    "\<forall>y. y \<noteq> x \<longrightarrow> l_next (cs_links st2) y = l_next (cs_links st) y"
    using collect_linked [OF ok(1) x c(1)] unfolding st2_def by blast+
  let ?c = "c\<lparr>c_fd := int (length (cs_peers st2)) * -1 - 100, c_write := Some Udp_Client_Write\<rparr>"
  let ?st = "set_client x ?c (st2\<lparr>cs_peers := cs_peers st2 @ [x]\<rparr>)"
  have run: "collect_one env x st = Some ?st"
    using c peer room S(3) by (simp add: collect_one_def Let_def st2_def)
  obtain ks where K: "class_ok st2 (x # xs) ks" using S(1) by (auto simp: lists_ok_def)
  have "serves ?c = serves c" by (simp add: serves_def client_class_of_def)
  then have "class_ok (set_client x ?c st2) (x # xs) ks" using K class_ok_set_client S(2) c(1) by metis
  then have "class_ok ?st (x # xs) ks" by (simp add: class_ok_def set_client_def)
  then have L: "lists_ok ?st (x # xs) []" using S(1) by (auto simp: lists_ok_def)
  have P: "peers_ok st xs" using ok(1) by (simp add: clients_ok_def)
  then have "x \<notin> set (cs_peers st)" using x by (simp add: peers_ok_def)
  then have "peers_ok ?st (x # xs)" using P S(2,3) peer x by (auto simp: peers_ok_def)
  moreover have "wired ?st (x # xs)" using ok(2) S(2) x by (auto simp: wired_def)
  ultimately have "\<exists>xs'. clients_ok ?st xs' [] \<and> wired ?st xs' \<and> set xs' \<subseteq> insert x (set xs)"
    using L by (intro exI [of _ "x # xs"]) (auto simp: clients_ok_def)
  then have "collected st xs x ?st" using S c peer room by (auto simp: collected_def num_peers_def)
  then show ?thesis using run by blast
qed

lemma collect_client:
  assumes ok: "clients_ok st xs []" "wired st xs" and x: "x \<notin> set xs" and c: "cs_store st x = Some c" "\<not> c_fd c < -1"
    and peer: "c_state c \<noteq> CSTATE_COREPEER" and env: "clients_env_ok env"
  shows "\<exists>st'. collect_one env x st = Some st' \<and> collected st xs x st'"
proof -
  define st2 where "st2 = collect_link x c st"
  define w where "w = collect_writer env c"
  have S: "lists_ok st2 (x # xs) []" "cs_store st2 = cs_store st" "cs_peers st2 = cs_peers st"
    "\<forall>y. y \<noteq> x \<longrightarrow> l_next (cs_links st2) y = l_next (cs_links st) y"
    using collect_linked [OF ok(1) x c(1)] unfolding st2_def by blast+
  let ?c = "c\<lparr>c_write := Some w\<rparr>" let ?st = "set_client x ?c st2"
  have "peers_ok st2 (x # xs)" using ok(1) c(1) peer by (auto simp: clients_ok_def peers_ok_def S)
  then have C2: "clients_ok st2 (x # xs) []" using S(1) by (simp add: clients_ok_def)
  have "cs_store st2 x = Some c" using S(2) c(1) by simp
  then have C: "clients_ok ?st (x # xs) []" using clients_ok_set_client [OF C2] by simp
  have W: "wired ?st (x # xs)" using ok(2) S(2) x by (auto simp: wired_def)
  have run: "collect_one env x st =
      (if has_flag (c_flags c) CLFLAGS_INPORT then map_option snd (printf_client env x (''# '' @ we_version env @ CRLF) ?st) else Some ?st)"
    using c peer env by (simp add: collect_one_def Let_def st2_def w_def clients_env_ok_def)
  have plain: "collected st xs x ?st" using C W S by (auto simp: collected_def)
  have "\<exists>st'. map_option snd (printf_client env x s ?st) = Some st' \<and> collected st xs x st'" for s
  proof (cases "PACKETLEN_MAX \<le> length s")
    case True
    then show ?thesis using plain by (simp add: printf_client_def)
  next
    case False
    obtain rc st' where R: "write_client env x s ?st = Some (rc, st')"
      "if rc < -2 then clients_ok st' (remove1 x (x # xs)) [] \<and> cs_store st' = (cs_store ?st)(x := None)
       else clients_ok st' (x # xs) [] \<and> (\<exists>ob. cs_store st' = (cs_store ?st)(x \<mapsto> ?c\<lparr>c_obuf := ob\<rparr>))"
      "cs_peers st' = cs_peers ?st" "\<forall>y. y \<notin> set (x # xs) \<longrightarrow> l_next (cs_links st') y = l_next (cs_links ?st) y"
      using write_client_ok [OF C _ env, of x ?c s] peer by auto
    have lists: "\<exists>xs'. clients_ok st' xs' [] \<and> wired st' xs' \<and> set xs' \<subseteq> insert x (set xs)"
    proof (cases "rc < -2")
      case True
      then have "clients_ok st' xs []" "wired st' xs" using R(2) x W by (auto simp: wired_def)
      then show ?thesis by blast
    next
      case False
      then obtain ob where O: "clients_ok st' (x # xs) []" "cs_store st' = (cs_store ?st)(x \<mapsto> ?c\<lparr>c_obuf := ob\<rparr>)"
        using R(2) by auto
      have "wired st' (x # xs)" using W by (auto simp: wired_def O(2))
      with O(1) show ?thesis by (intro exI [of _ "x # xs"]) simp
    qed
    have frame: "cs_store st' y = cs_store st y \<and> l_next (cs_links st') y = l_next (cs_links st) y" if "y \<notin> insert x (set xs)" for y
      using that R(2,4) S(2,4) by (auto split: if_splits)
    have "collected st xs x st'"
      unfolding collected_def
    proof (intro conjI allI impI)
      show "length (cs_peers st') \<le> length (cs_peers st) + num_peers st [x]" using R(3) S(3) by simp
      show "length (cs_peers st') \<le> MAX_COREPEERS" if "length (cs_peers st) \<le> MAX_COREPEERS" using that R(3) S(3) by simp
    qed (use lists frame in auto)
    then show ?thesis using R(1) False by (simp add: printf_client_def)
  qed
  then show ?thesis using run plain by auto
qed
lemma collect_one_ok:
  assumes "clients_ok st xs []" "wired st xs" and "x \<notin> set xs" and "cs_store st x \<noteq> None"
    and "length (cs_peers st) + num_peers st [x] \<le> MAX_COREPEERS" and "clients_env_ok env"
  shows "\<exists>st'. collect_one env x st = Some st' \<and> collected st xs x st'"
proof -
  obtain c where c: "cs_store st x = Some c" using assms(4) by blast
  show ?thesis
  proof (cases "c_fd c < -1")
    case True
    then show ?thesis using collect_freed [OF assms(1-3) c] by blast
  next
    case False
    show ?thesis
    proof (cases "c_state c = CSTATE_COREPEER")
      case True
      then have "length (cs_peers st) < MAX_COREPEERS" using assms(5) c by (simp add: num_peers_def)
      then show ?thesis using collect_peer [OF assms(1-3) c False True] by blast
    next
      case other: False
      then show ?thesis using collect_client [OF assms(1-3) c False other assms(6)] by blast
    qed
  qed
qed

lemma collect_loop_ok:
  assumes "clients_ok st xs []" "wired st xs" and "next_path (cs_links st) p zs" and "distinct zs"
    and "\<forall>z \<in> set zs. z \<notin> set xs \<and> cs_store st z \<noteq> None"
    and "length (cs_peers st) + num_peers st zs \<le> MAX_COREPEERS" and env: "clients_env_ok env"
  shows "\<exists>st' xs'. collect_loop env p st = Some st' \<and> clients_ok st' xs' [] \<and> wired st' xs' \<and> set xs' \<subseteq> set xs \<union> set zs"
  using assms(1-6)
proof (induction zs arbitrary: st xs p)
  case Nil
  then show ?case by (subst collect_loop.simps) auto
next
  case (Cons z zs)
  have z: "z \<notin> set xs" "cs_store st z \<noteq> None" "p = Some z" "next_path (cs_links st) (l_next (cs_links st) z) zs" "z \<notin> set zs"
    using Cons.prems(3-5) by auto
  have N: "num_peers st (z # zs) = num_peers st [z] + num_peers st zs" by (simp add: num_peers_def)
  then have room: "length (cs_peers st) + num_peers st [z] \<le> MAX_COREPEERS" using Cons.prems(6) by simp
  obtain st1 where S: "collect_one env z st = Some st1" "collected st xs z st1"
    using collect_one_ok [OF Cons.prems(1,2) z(1,2) room env] by blast
  obtain xs1 where X: "clients_ok st1 xs1 []" "wired st1 xs1" "set xs1 \<subseteq> insert z (set xs)" using S(2) by (auto simp: collected_def)
  have frame: "\<forall>y \<in> set zs. cs_store st1 y = cs_store st y \<and> l_next (cs_links st1) y = l_next (cs_links st) y"
    using S(2) Cons.prems(5) z(5) by (auto simp: collected_def)
  have "next_path (cs_links st1) (l_next (cs_links st) z) zs" using z(4) next_path_frame [of zs] frame by blast
  moreover have "\<forall>y \<in> set zs. y \<notin> set xs1 \<and> cs_store st1 y \<noteq> None" using X(3) z(5) Cons.prems(5) frame by auto
  moreover have "num_peers st1 zs = num_peers st zs"
    unfolding num_peers_def using frame by (intro arg_cong [of _ _ length] filter_cong) auto
  then have "length (cs_peers st1) + num_peers st1 zs \<le> MAX_COREPEERS"
    using S(2) N Cons.prems(6) by (simp add: collected_def)
  moreover have "distinct zs" using Cons.prems(4) by simp
  ultimately obtain st' xs' where I: "collect_loop env (l_next (cs_links st) z) st1 = Some st'" "clients_ok st' xs' []"
    "wired st' xs'" "set xs' \<subseteq> set xs1 \<union> set zs"
    using Cons.IH [OF X(1,2)] by blast
  have "collect_loop env p st = Some st'" unfolding z(3) by (subst collect_loop.simps) (simp add: S(1) I(1) Let_def)
  then show ?case using I X(3) by (intro exI [of _ st'] exI [of _ xs']) auto
qed

lemma grab_new_clients:
  assumes "clients_ok st xs ys"
  defines "st0 \<equiv> st\<lparr>cs_links := (cs_links st)\<lparr>l_head := (l_head (cs_links st))(New_Clients_Head := None)\<rparr>, cs_new_last := None\<rparr>"
  shows "clients_ok st0 xs []" "next_path (cs_links st0) (l_head (cs_links st) New_Clients_Head) ys"
proof -
  have L: "lists_ok st xs ys" using assms(1) by (simp add: clients_ok_def)
  let ?l = "(cs_links st)\<lparr>l_head := (l_head (cs_links st))(New_Clients_Head := None)\<rparr>"
  have links: "linked (cs_links st) (Head h) (l_head (cs_links st) h) (two_lists xs ys h)" for h
    using L by (simp add: lists_ok_def heap_lists_def)
  have frame: "linked ?l sl p zs = linked (cs_links st) sl p zs" for sl p zs by (rule linked_frame) simp
  have "heap_lists ?l (two_lists xs [])"
    unfolding heap_lists_def
  proof (intro conjI allI impI)
    show "linked ?l (Head h) (l_head ?l h) (two_lists xs [] h)" for h using links [of h] frame by (cases h) auto
  qed (use clients_disjoint(2) [OF L] in \<open>auto simp: two_lists_def split: client_head.splits\<close>)
  then show "clients_ok st0 xs []"
    using assms(1) unfolding st0_def clients_ok_def lists_ok_def class_ok_def peers_ok_def by simp
  show "next_path (cs_links st0) (l_head (cs_links st) New_Clients_Head) ys"
    using linked_next_path [OF links [of New_Clients_Head]] next_path_frame [of ys "cs_links st0" "cs_links st"]
    unfolding st0_def by simp
qed

lemma collect_new_clients_ok:
  assumes ok: "clients_ok st xs ys" "wired st xs" and room: "num_peers st (xs @ ys) \<le> MAX_COREPEERS" and env: "clients_env_ok env"
  shows "\<exists>st' xs'. collect_new_clients env st = Some st' \<and> clients_ok st' xs' [] \<and> wired st' xs' \<and> set xs' \<subseteq> set xs \<union> set ys"
proof -
  let ?st = "st\<lparr>cs_links := (cs_links st)\<lparr>l_head := (l_head (cs_links st))(New_Clients_Head := None)\<rparr>, cs_new_last := None\<rparr>"
  have L: "lists_ok st xs ys" using ok(1) by (simp add: clients_ok_def)
  note C = grab_new_clients(1) [OF ok(1)] and path = grab_new_clients(2) [OF ok(1)]
  have "length (cs_peers st) \<le> num_peers st xs"
  proof -
    have "peers_ok st xs" using ok(1) by (simp add: clients_ok_def)
    then have "length (cs_peers st) = card {x \<in> set xs. \<exists>c. cs_store st x = Some c \<and> c_state c = CSTATE_COREPEER}"
      unfolding peers_ok_def using distinct_card by metis
    also have "\<dots> \<le> num_peers st xs" unfolding num_peers_def set_filter [symmetric] by (rule card_length)
    finally show ?thesis .
  qed
  then have "length (cs_peers ?st) + num_peers ?st ys \<le> MAX_COREPEERS" using room by (simp add: num_peers_def)
  moreover have "\<forall>z \<in> set ys. z \<notin> set xs \<and> cs_store ?st z \<noteq> None"
    using L clients_disjoint(1) [OF L] by (auto simp: lists_ok_def)
  moreover have "wired ?st xs" using ok(2) by (simp add: wired_def)
  ultimately show ?thesis
    unfolding collect_new_clients_def using collect_loop_ok [OF C _ path clients_disjoint(3) [OF L] _ _ env] by simp
qed

section \<open>Keepalives and the end of the thread\<close>

text \<open>What a keepalive round does not change in a client.\<close>

definition same_base :: "client_t \<Rightarrow> client_t \<Rightarrow> bool" where
  "same_base c c' \<longleftrightarrow> c_state c' = c_state c \<and> c_flags c' = c_flags c \<and> c_write c' = c_write c \<and>
     c_last_read c' = c_last_read c \<and> c_connect_tick c' = c_connect_tick c"

text \<open>The client \<open>x\<close> is still there, with the same base, or it is gone.\<close>

definition kept :: "clients_state \<Rightarrow> nat list \<Rightarrow> nat list \<Rightarrow> nat \<Rightarrow> client_t \<Rightarrow> clients_state \<Rightarrow> bool" where
  "kept st xs ys x c st' \<longleftrightarrow>
     clients_ok st' xs ys \<and> cs_peers st' = cs_peers st \<and> (\<exists>c'. cs_store st' = (cs_store st)(x \<mapsto> c') \<and> same_base c c')"

definition gone :: "clients_state \<Rightarrow> nat list \<Rightarrow> nat list \<Rightarrow> nat \<Rightarrow> clients_state \<Rightarrow> bool" where
  "gone st xs ys x st' \<longleftrightarrow>
     clients_ok st' (remove1 x xs) ys \<and> cs_peers st' = cs_peers st \<and> cs_store st' = (cs_store st)(x := None)"

lemma same_base_trans: "same_base a b \<Longrightarrow> same_base b c \<Longrightarrow> same_base a c"
  by (simp add: same_base_def)

lemma kept_refl: "clients_ok st xs ys \<Longrightarrow> cs_store st x = Some c \<Longrightarrow> kept st xs ys x c st"
  unfolding kept_def by (auto simp: same_base_def intro!: exI [of _ c])

lemma kept_set:
  assumes "kept st xs ys x c st'" and "cs_store st' x = Some c2" and "same_base c2 c3"
  shows "kept st xs ys x c (set_client x c3 st')"
proof -
  obtain c' where C: "clients_ok st' xs ys" "cs_store st' = (cs_store st)(x \<mapsto> c')" "same_base c c'" "cs_peers st' = cs_peers st"
    using assms(1) by (auto simp: kept_def)
  have "c' = c2" using C(2) assms(2) by simp
  then have "same_base c c3" using C(3) assms(3) same_base_trans by blast
  moreover have "clients_ok (set_client x c3 st') xs ys"
    using clients_ok_set_client [OF C(1) assms(2)] assms(3) by (simp add: same_base_def)
  ultimately show ?thesis using C(2,4) by (auto simp: kept_def)
qed

lemma write_kept:
  assumes ok: "clients_ok st xs ys" and x: "x \<in> set xs" and env: "clients_env_ok env"
    and c: "cs_store st x = Some c" "c_state c \<noteq> CSTATE_COREPEER" "c_write c \<noteq> None"
  shows "\<exists>rc st'. write_client env x s st = Some (rc, st') \<and> (if rc < -2 then gone st xs ys x st' else kept st xs ys x c st')"
proof -
  obtain rc st' where W: "write_client env x s st = Some (rc, st')"
    "if rc < -2 then clients_ok st' (remove1 x xs) ys \<and> cs_store st' = (cs_store st)(x := None)
     else clients_ok st' xs ys \<and> (\<exists>ob. cs_store st' = (cs_store st)(x \<mapsto> c\<lparr>c_obuf := ob\<rparr>))" "cs_peers st' = cs_peers st"
    using write_client_ok [OF assms] by blast
  have "same_base c (c\<lparr>c_obuf := ob\<rparr>)" for ob by (simp add: same_base_def)
  then show ?thesis using W by (auto simp: gone_def kept_def split: if_splits)
qed

lemma keepalive_write_ok:
  assumes ok: "clients_ok st xs ys" and x: "x \<in> set xs" and env: "clients_env_ok env"
    and c: "cs_store st x = Some c" "c_state c \<noteq> CSTATE_COREPEER" "c_write c \<noteq> None"
  shows "\<exists>alive st'. keepalive_write env tmo x c st = Some (alive, st') \<and>
    (if alive then kept st xs ys x c st' else gone st xs ys x st')"
proof (cases "c_keepalive c \<le> we_tick env \<or> we_tick env + keepalive_interval tmo < c_keepalive c")
  case True
  let ?c1 = "set_flushsize 0 (c\<lparr>c_keepalive := we_tick env + keepalive_interval tmo\<rparr>)" let ?st = "set_client x ?c1 st"
  have B: "same_base c ?c1" by (simp add: same_base_def set_flushsize_def)
  have ok1: "clients_ok ?st xs ys" using clients_ok_set_client [OF ok c(1)] B by (simp add: same_base_def)
  obtain rc st' where W: "write_client env x (keepalive_text env c) ?st = Some (rc, st')"
    "if rc < -2 then gone ?st xs ys x st' else kept ?st xs ys x ?c1 st'"
    using write_kept [OF ok1 x env, of ?c1 "keepalive_text env c"] B c by (auto simp: same_base_def)
  show ?thesis
  proof (cases "rc < -2")
    case True
    then have "gone st xs ys x st'" using W(2) by (simp add: gone_def)
    then show ?thesis using True W(1) \<open>_ \<or> _\<close> by (intro exI [of _ False] exI [of _ st']) (simp add: keepalive_write_def Let_def)
  next
    case False
    then have "kept st xs ys x c st'" using W(2) B same_base_trans by (auto simp: kept_def)
    moreover from this obtain c2 where c2: "cs_store st' x = Some c2" by (auto simp: kept_def)
    ultimately have "kept st xs ys x c (set_client x (set_flushsize (ob_flushsize (c_obuf c)) c2) st')"
      by (rule kept_set) (simp add: same_base_def set_flushsize_def)
    then show ?thesis using False W(1) c2 \<open>_ \<or> _\<close> by (intro exI [of _ True] exI) (auto simp: keepalive_write_def Let_def)
  qed
next
  case False
  have "kept st xs ys x c st" using kept_refl [OF ok c(1)] .
  moreover obtain rc st' where "write_client env x [] st = Some (rc, st')" "if rc < -2 then gone st xs ys x st' else kept st xs ys x c st'"
    using write_kept [OF ok x env c] by blast
  ultimately show ?thesis using False by (auto simp: keepalive_write_def)
qed

lemma keepalive_one_ok:
  assumes ok: "clients_ok st xs ys" and x: "x \<in> set xs" and env: "clients_env_ok env" and c: "cs_store st x = Some c" "c_write c \<noteq> None"
  shows "\<exists>st'. keepalive_one env tmo x st = Some st' \<and> (kept st xs ys x c st' \<or> gone st xs ys x st') \<and>
    (c_state c \<noteq> CSTATE_COREPEER \<longrightarrow> input_timed_out tmo (we_tick env) c \<longrightarrow> gone st xs ys x st')"
proof (cases "c_state c = CSTATE_COREPEER")
  case True
  then have "keepalive_one env tmo x st = Some st" "kept st xs ys x c st"
    using c kept_refl [OF ok c(1)] by (simp_all add: keepalive_one_def)
  then show ?thesis using True by blast
next
  case False
  define c1 where "c1 = cleanup_heard tmo (we_tick env) c"
  have B: "same_base c c1" by (simp add: c1_def cleanup_heard_def same_base_def client_heard_expire_def case_prod_beta)
  let ?st = "set_client x c1 st"
  have ok1: "clients_ok ?st xs ys" using clients_ok_set_client [OF ok c(1)] B by (simp add: same_base_def)
  obtain alive st1 where W: "keepalive_write env tmo x c1 ?st = Some (alive, st1)"
    "if alive then kept ?st xs ys x c1 st1 else gone ?st xs ys x st1"
  proof -
    have "cs_store ?st x = Some c1" "c_state c1 \<noteq> CSTATE_COREPEER" "c_write c1 \<noteq> None"
      using B c False by (simp_all add: same_base_def)
    from keepalive_write_ok [OF ok1 x env this] show ?thesis using that by blast
  qed
  have run: "keepalive_one env tmo x st =
      (if \<not> alive then Some st1
       else (case cs_store st1 x of
               None \<Rightarrow> None
             | Some c2 \<Rightarrow> if input_timed_out tmo (we_tick env) c2 \<or> output_timed_out tmo (we_tick env) c2 then client_close x st1
                          else Some (set_client x (adjust_buffering tmo c2) st1)))"
    unfolding keepalive_one_def Let_def c(1) using False W(1) by (simp only: option.case if_False c1_def [symmetric] prod.case)
  show ?thesis
  proof (cases alive)
    case False
    then have "gone st xs ys x st1" using W(2) by (simp add: gone_def)
    then show ?thesis using False W(1) c(1) \<open>c_state c \<noteq> CSTATE_COREPEER\<close> by (simp add: run)
  next
    case True
    then have K: "kept st xs ys x c st1" using W(2) B same_base_trans by (auto simp: kept_def)
    then obtain c2 where c2: "cs_store st1 x = Some c2" "same_base c c2" by (auto simp: kept_def)
    have T: "input_timed_out tmo t c2 = input_timed_out tmo t c" for t using c2(2) by (simp add: input_timed_out_def same_base_def)
    show ?thesis
    proof (cases "input_timed_out tmo (we_tick env) c2 \<or> output_timed_out tmo (we_tick env) c2")
      case True
      have "c_state c2 \<noteq> CSTATE_COREPEER" "clients_ok st1 xs ys" using c2(2) False K by (simp_all add: same_base_def kept_def)
      then obtain st' where S: "client_close x st1 = Some st'" "clients_ok st' (remove1 x xs) ys" "cs_store st' = (cs_store st1)(x := None)"
        "cs_peers st' = cs_peers st1"
        using client_close_ok [OF _ x c2(1)] by blast
      then have "gone st xs ys x st'" using K by (auto simp: gone_def kept_def)
      then show ?thesis using True \<open>alive\<close> W(1) c(1) c2(1) S(1) False by (simp add: run)
    next
      case no: False
      have "same_base c2 (adjust_buffering tmo c2)" by (simp add: same_base_def adjust_buffering_def Let_def)
      then have "kept st xs ys x c (set_client x (adjust_buffering tmo c2) st1)" using kept_set [OF K c2(1)] by blast
      then show ?thesis using no \<open>alive\<close> W(1) c(1) c2(1) False T by (simp add: run)
    qed
  qed
qed
lemma remove1_mid: "x \<notin> set as \<Longrightarrow> remove1 x (as @ x # bs) = as @ bs"
  by (simp add: remove1_append)

text \<open>The loop stays on the list although clients are taken out of it under way, and leaves no client that has
  been silent for too long.\<close>

lemma keepalive_loop_ok:
  assumes "clients_ok st (as @ bs) ys" "wired st (as @ bs)" and "p = (case bs of [] \<Rightarrow> None | b # _ \<Rightarrow> Some b)" and env: "clients_env_ok env"
  shows "\<exists>st' bs'. keepalive_loop env tmo p st = Some st' \<and> clients_ok st' (as @ bs') ys \<and> wired st' (as @ bs') \<and>
    cs_peers st' = cs_peers st \<and> set bs' \<subseteq> set bs \<and> (\<forall>a \<in> set as. cs_store st' a = cs_store st a) \<and>
    (\<forall>b \<in> set bs'. \<exists>c c'. cs_store st b = Some c \<and> cs_store st' b = Some c' \<and> same_base c c' \<and>
       (c_state c \<noteq> CSTATE_COREPEER \<longrightarrow> \<not> input_timed_out tmo (we_tick env) c))"
  using assms(1-3)
proof (induction bs arbitrary: st as p)
  case Nil
  then show ?case by (subst keepalive_loop.simps) auto
next
  case (Cons b bs)
  let ?xs = "as @ b # bs"
  have b: "b \<in> set ?xs" by simp
  obtain c where c: "cs_store st b = Some c" "c_write c \<noteq> None" using Cons.prems(2) by (auto simp: wired_def)
  have L: "lists_ok st ?xs ys" using Cons.prems(1) by (simp add: clients_ok_def)
  have D: "distinct ?xs" by (rule clients_disjoint(2) [OF L])
  have "linked (cs_links st) (Head Clients_Head) (l_head (cs_links st) Clients_Head) ?xs"
    using L unfolding lists_ok_def heap_lists_def by (metis two_lists_simps(1))
  then have cnext: "l_next (cs_links st) b = (case bs of [] \<Rightarrow> None | b # _ \<Rightarrow> Some b)"
    using linked_split [of "cs_links st"] by (cases bs) force+
  obtain st1 where S: "keepalive_one env tmo b st = Some st1" "kept st ?xs ys b c st1 \<or> gone st ?xs ys b st1"
    "c_state c \<noteq> CSTATE_COREPEER \<longrightarrow> input_timed_out tmo (we_tick env) c \<longrightarrow> gone st ?xs ys b st1"
    using keepalive_one_ok [OF Cons.prems(1) b env c] by blast
  have run: "keepalive_loop env tmo p st = keepalive_loop env tmo (l_next (cs_links st) b) st1"
    using Cons.prems(3) S(1) by (subst keepalive_loop.simps) (simp add: Let_def)
  show ?case
  proof (cases "gone st ?xs ys b st1")
    case True
    have st1: "clients_ok st1 (as @ bs) ys" "cs_store st1 = (cs_store st)(b := None)" "cs_peers st1 = cs_peers st"
      using True D remove1_mid [of b as bs] by (auto simp: gone_def)
    then have "wired st1 (as @ bs)" using Cons.prems(2) D by (auto simp: wired_def)
    then obtain st' bs' where I: "keepalive_loop env tmo (l_next (cs_links st) b) st1 = Some st'" "clients_ok st' (as @ bs') ys"
      "wired st' (as @ bs')" "set bs' \<subseteq> set bs" "\<forall>a \<in> set as. cs_store st' a = cs_store st1 a"
      "\<forall>x \<in> set bs'. \<exists>c c'. cs_store st1 x = Some c \<and> cs_store st' x = Some c' \<and> same_base c c' \<and>
         (c_state c \<noteq> CSTATE_COREPEER \<longrightarrow> \<not> input_timed_out tmo (we_tick env) c)" "cs_peers st' = cs_peers st1"
      using Cons.IH [OF st1(1) _ cnext] by blast
    have "\<forall>a \<in> set as. cs_store st' a = cs_store st a" "\<forall>x \<in> set bs'. cs_store st1 x = cs_store st x"
      using I(4,5) st1(2) D by auto
    then show ?thesis using I run st1(3) by (intro exI [of _ st'] exI [of _ bs']) auto
  next
    case False
    then have "kept st ?xs ys b c st1" using S(2) by blast
    then obtain c1 where st1: "clients_ok st1 ((as @ [b]) @ bs) ys" "cs_store st1 = (cs_store st)(b \<mapsto> c1)" "same_base c c1"
      "cs_peers st1 = cs_peers st"
      by (auto simp: kept_def)
    have "wired st1 ((as @ [b]) @ bs)" using Cons.prems(2) st1(2,3) c by (auto simp: wired_def same_base_def)
    then obtain st' bs' where I: "keepalive_loop env tmo (l_next (cs_links st) b) st1 = Some st'" "clients_ok st' ((as @ [b]) @ bs') ys"
      "wired st' ((as @ [b]) @ bs')" "set bs' \<subseteq> set bs" "\<forall>a \<in> set (as @ [b]). cs_store st' a = cs_store st1 a"
      "\<forall>x \<in> set bs'. \<exists>c c'. cs_store st1 x = Some c \<and> cs_store st' x = Some c' \<and> same_base c c' \<and>
         (c_state c \<noteq> CSTATE_COREPEER \<longrightarrow> \<not> input_timed_out tmo (we_tick env) c)" "cs_peers st' = cs_peers st1"
      using Cons.IH [OF st1(1) _ cnext] by blast
    have "\<forall>a \<in> set as. cs_store st' a = cs_store st a" "\<forall>x \<in> set bs'. cs_store st1 x = cs_store st x"
      using I(4,5) st1(2) D by auto
    moreover have "cs_store st' b = Some c1" using I(5) st1(2) by simp
    ultimately show ?thesis
      using I run c(1) st1(3,4) S(3) False by (intro exI [of _ st'] exI [of _ "b # bs'"]) auto
  qed
qed

lemma send_keepalives_ok:
  assumes ok: "clients_ok st xs ys" "wired st xs" and env: "clients_env_ok env"
  shows "\<exists>st' xs'. send_keepalives env tmo st = Some st' \<and> clients_ok st' xs' ys \<and> wired st' xs' \<and> set xs' \<subseteq> set xs \<and>
    cs_peers st' = cs_peers st \<and> (\<forall>x \<in> set xs'. \<exists>c. cs_store st x = Some c \<and> (c_state c \<noteq> CSTATE_COREPEER \<longrightarrow> \<not> input_timed_out tmo (we_tick env) c))"
proof -
  have "linked (cs_links st) (Head Clients_Head) (l_head (cs_links st) Clients_Head) xs"
    using ok(1) unfolding clients_ok_def lists_ok_def heap_lists_def by (metis two_lists_simps(1))
  then have p: "l_head (cs_links st) Clients_Head = (case xs of [] \<Rightarrow> None | b # _ \<Rightarrow> Some b)" by (cases xs) auto
  show ?thesis
    using keepalive_loop_ok [of st "[]" xs ys _ env tmo, OF _ _ p env] ok unfolding send_keepalives_def by fastforce
qed

lemma close_all_loop_ok:
  assumes "lists_ok st xs ys"
  shows "\<exists>st'. close_all_loop st = Some st' \<and> lists_ok st' [] ys \<and>
    (\<forall>x. cs_store st' x = (if x \<in> set xs then None else cs_store st x))"
  using assms
proof (induction xs arbitrary: st)
  case Nil
  then have "l_head (cs_links st) Clients_Head = None"
    unfolding lists_ok_def heap_lists_def by (metis linked.simps(1) two_lists_simps(1))
  then show ?case using Nil by (subst close_all_loop.simps) simp
next
  case (Cons x xs)
  have h: "l_head (cs_links st) Clients_Head = Some x"
    using Cons.prems unfolding lists_ok_def heap_lists_def by (metis linked.simps(2) two_lists_simps(1))
  obtain c where c: "cs_store st x = Some c" using Cons.prems by (auto simp: lists_ok_def)
  obtain st1 where S: "client_close x st = Some st1" "lists_ok st1 xs ys" "cs_store st1 = (cs_store st)(x := None)"
    using client_close_lists [OF Cons.prems _ c] by auto
  obtain st' where I: "close_all_loop st1 = Some st'" "lists_ok st' [] ys" "\<forall>y. cs_store st' y = (if y \<in> set xs then None else cs_store st1 y)"
    using Cons.IH [OF S(2)] by blast
  have "close_all_loop st = Some st'" using h S(1) I(1) by (subst close_all_loop.simps) simp
  then show ?case using I S(3) by auto
qed

section \<open>Runs of a worker\<close>

text \<open>Steps never change the address or the flags of a client.\<close>

definition evolves :: "clients_state \<Rightarrow> clients_state \<Rightarrow> bool" where
  "evolves st st' \<longleftrightarrow>
     (\<forall>y c'. cs_store st' y = Some c' \<longrightarrow> (\<exists>c. cs_store st y = Some c \<and> c_id c' = c_id c \<and> c_flags c' = c_flags c))"

lemma evolves_refl: "evolves st st"
  by (simp add: evolves_def)

lemma evolves_trans: "evolves st st1 \<Longrightarrow> evolves st1 st2 \<Longrightarrow> evolves st st2"
  unfolding evolves_def by (metis (no_types, lifting))

lemma evolves_store: "cs_store st' = cs_store st \<Longrightarrow> evolves st st'"
  by (simp add: evolves_def)

lemma evolves_free: "evolves st (client_free x c st)"
  by (simp add: evolves_def client_free_def Let_def)

lemma evolves_close:
  assumes "client_close x st = Some st'"
  shows "evolves st st'"
proof -
  have "cs_store st' = (cs_store st)(x := None)"
    using assms by (auto simp: client_close_def client_free_def Let_def split: option.splits if_splits)
  then show ?thesis by (simp add: evolves_def)
qed

lemma evolves_close_clients: "close_clients ps st = Some st' \<Longrightarrow> evolves st st'"
  by (induction ps arbitrary: st) (auto simp: evolves_refl split: option.splits dest!: evolves_close intro: evolves_trans)

lemma evolves_corepeer: "corepeer_close_all st = Some st' \<Longrightarrow> evolves st st'"
  unfolding corepeer_close_all_def using evolves_close_clients by (fastforce simp: evolves_def)

lemma evolves_set:
  "cs_store st x = Some c \<Longrightarrow> c_id c' = c_id c \<Longrightarrow> c_flags c' = c_flags c \<Longrightarrow> evolves st (set_client x c' st)"
  by (simp add: evolves_def)

lemma evolves_log: "evolves st st' \<Longrightarrow> evolves st (log_event e st')"
  by (simp add: evolves_def)

lemma evolves_write: "write_client env x s st = Some (rc, st') \<Longrightarrow> evolves st st'"
  by (auto simp: write_client_def Let_def evolves_refl split: option.splits client_writer.splits prod.splits if_splits
      intro!: evolves_log evolves_set dest: evolves_close)

lemma evolves_collect_one:
  assumes "collect_one env x st = Some st'"
  shows "evolves st st'"
proof -
  obtain c where c: "cs_store st x = Some c" using assms by (auto simp: collect_one_def split: option.splits)
  let ?st2 = "collect_link x c st" and ?w = "collect_writer env c"
  have s2: "cs_store ?st2 = cs_store st" by (simp add: collect_link_def Let_def)
  have set2: "evolves st (set_client x (c\<lparr>c_fd := f, c_write := w\<rparr>) (?st2\<lparr>cs_peers := ps\<rparr>))"
    "evolves st (set_client x (c\<lparr>c_write := w\<rparr>) ?st2)" for f w ps
    using s2 c by (simp_all add: evolves_def)
  have print: "evolves st st'" if "map_option snd (printf_client env x s (set_client x (c\<lparr>c_write := Some ?w\<rparr>) ?st2)) = Some st'" for s
    using that set2(2) evolves_write evolves_trans by (fastforce simp: printf_client_def split: if_splits)
  show ?thesis
  proof (cases "c_fd c < -1")
    case True
    then obtain st3 where "(if c_fd c = -2 then corepeer_close_all st else Some st) = Some st3" "st' = client_free x c st3"
      using assms c by (auto simp: collect_one_def split: option.splits if_splits)
    then show ?thesis using evolves_corepeer evolves_free evolves_refl evolves_trans by (metis option.inject)
  next
    case False
    show ?thesis
      using assms c False set2 print evolves_log [OF evolves_store [OF s2]] unfolding collect_one_def
      by (auto simp: Let_def split: if_splits)
  qed
qed
lemma evolves_flushsize: "cs_store st x = Some c \<Longrightarrow> evolves st (set_client x (set_flushsize n c) st)"
  by (rule evolves_set) (simp_all add: set_flushsize_def)

lemma evolves_keepalive_write:
  assumes run: "keepalive_write env tmo x c st = Some (alive, st')" and c: "cs_store st x = Some c"
  shows "evolves st st'"
proof (cases "c_keepalive c \<le> we_tick env \<or> we_tick env + keepalive_interval tmo < c_keepalive c")
  case True
  let ?c1 = "set_flushsize 0 (c\<lparr>c_keepalive := we_tick env + keepalive_interval tmo\<rparr>)"
  obtain rc st1 where W: "write_client env x (keepalive_text env c) (set_client x ?c1 st) = Some (rc, st1)"
    using run True by (auto simp: keepalive_write_def Let_def split: option.splits)
  have 1: "evolves st (set_client x ?c1 st)" by (rule evolves_set [OF c]) (simp_all add: set_flushsize_def)
  have "st' = st1 \<or> (\<exists>c2. cs_store st1 x = Some c2 \<and> st' = set_client x (set_flushsize (ob_flushsize (c_obuf c)) c2) st1)"
    using run True W by (auto simp: keepalive_write_def Let_def split: option.splits if_splits)
  then have "evolves st1 st'" using evolves_flushsize evolves_refl by blast
  then show ?thesis using 1 evolves_write [OF W] evolves_trans by blast
next
  case False
  then have "(\<exists>rc. write_client env x [] st = Some (rc, st')) \<or> st' = st"
    using run by (auto simp: keepalive_write_def split: option.splits if_splits)
  then show ?thesis using evolves_write evolves_refl by blast
qed

lemma evolves_keepalive_one:
  assumes "keepalive_one env tmo x st = Some st'"
  shows "evolves st st'"
proof -
  obtain c where c: "cs_store st x = Some c" using assms by (auto simp: keepalive_one_def split: option.splits)
  define c1 where "c1 = cleanup_heard tmo (we_tick env) c"
  have c1: "c_id c1 = c_id c" "c_flags c1 = c_flags c" by (simp_all add: c1_def cleanup_heard_def client_heard_expire_def case_prod_beta)
  have s1: "evolves st (set_client x c1 st)" using evolves_set [OF c c1] .
  show ?thesis
  proof (cases "c_state c = CSTATE_COREPEER")
    case True
    then show ?thesis using assms c by (simp add: keepalive_one_def evolves_refl)
  next
    case False
    obtain al st1 where W: "keepalive_write env tmo x c1 (set_client x c1 st) = Some (al, st1)"
      using assms c False by (auto simp: keepalive_one_def Let_def c1_def split: option.splits)
    have e1: "evolves st st1" using evolves_keepalive_write [OF W] s1 evolves_trans by simp
    have "al \<Longrightarrow> \<exists>c2. cs_store st1 x = Some c2 \<and>
        (client_close x st1 = Some st' \<or> st' = set_client x (adjust_buffering tmo c2) st1)" "\<not> al \<Longrightarrow> st' = st1"
      using assms c False W by (auto simp: keepalive_one_def Let_def c1_def split: option.splits if_splits)
    moreover have "evolves st1 (set_client x (adjust_buffering tmo c2) st1)" if "cs_store st1 x = Some c2" for c2
      by (rule evolves_set [OF that]) (simp_all add: adjust_buffering_def Let_def)
    ultimately show ?thesis using e1 evolves_close evolves_trans by blast
  qed
qed

lemma evolves_collect_loop:
  assumes "collect_loop env p st = Some st'"
  shows "evolves st st'"
proof (rule collect_loop.raw_induct [OF _ assms])
  fix g env p st st'
  assume "\<And>env p st st'. g env p st = Some st' \<Longrightarrow> evolves st st'"
    and "(case p of None \<Rightarrow> Some st
          | Some cid \<Rightarrow> let nx = l_next (cs_links st) cid in case collect_one env cid st of None \<Rightarrow> None | Some st' \<Rightarrow> g env nx st') = Some st'"
  then show "evolves st st'"
    by (auto simp: evolves_refl Let_def split: option.splits dest!: evolves_collect_one intro: evolves_trans)
qed

lemma evolves_keepalive_loop:
  assumes "keepalive_loop env tmo p st = Some st'"
  shows "evolves st st'"
proof (rule keepalive_loop.raw_induct [OF _ assms])
  fix g env tmo p st st'
  assume "\<And>env tmo p st st'. g env tmo p st = Some st' \<Longrightarrow> evolves st st'"
    and "(case p of None \<Rightarrow> Some st
          | Some cid \<Rightarrow> let cnext = l_next (cs_links st) cid
                       in case keepalive_one env tmo cid st of None \<Rightarrow> None | Some st' \<Rightarrow> g env tmo cnext st') = Some st'"
  then show "evolves st st'"
    by (auto simp: evolves_refl Let_def split: option.splits dest!: evolves_keepalive_one intro: evolves_trans)
qed

text \<open>Whenever collecting succeeds, it leaves the lists in order.\<close>

lemma collect_one_some:
  assumes "clients_ok st xs []" "wired st xs" and "x \<notin> set xs" and "length (cs_peers st) \<le> MAX_COREPEERS" and "clients_env_ok env"
    and run: "collect_one env x st = Some st'"
  shows "collected st xs x st' \<and> length (cs_peers st') \<le> MAX_COREPEERS"
proof -
  obtain c where c: "cs_store st x = Some c" using run by (auto simp: collect_one_def split: option.splits)
  show ?thesis
  proof (cases "c_fd c < -1 \<or> c_state c \<noteq> CSTATE_COREPEER")
    case True
    then have "\<exists>st'. collect_one env x st = Some st' \<and> collected st xs x st'"
      using collect_freed [OF assms(1-3) c] collect_client [OF assms(1-3) c _ _ assms(5)] by blast
    then show ?thesis using run assms(4) by (auto simp: collected_def)
  next
    case False
    then have "length (cs_peers st) \<noteq> MAX_COREPEERS"
      using run c by (auto simp: collect_one_def collect_link_def Let_def split: if_splits)
    then have "length (cs_peers st) < MAX_COREPEERS" using assms(4) by simp
    then have "\<exists>st'. collect_one env x st = Some st' \<and> collected st xs x st'" using collect_peer [OF assms(1-3) c] False by blast
    then show ?thesis using run assms(4) by (auto simp: collected_def)
  qed
qed
lemma collect_loop_some:
  assumes "clients_ok st xs []" "wired st xs" and "next_path (cs_links st) p zs" and "distinct zs"
    and "\<forall>z \<in> set zs. z \<notin> set xs" and "length (cs_peers st) \<le> MAX_COREPEERS" and env: "clients_env_ok env"
    and "collect_loop env p st = Some st'"
  shows "\<exists>xs'. clients_ok st' xs' [] \<and> wired st' xs' \<and> length (cs_peers st') \<le> MAX_COREPEERS"
  using assms(1-6,8)
proof (induction zs arbitrary: st xs p)
  case Nil
  then have "st' = st" by (subst (asm) collect_loop.simps) simp
  then show ?case using Nil by blast
next
  case (Cons z zs)
  have z: "z \<notin> set xs" "p = Some z" "next_path (cs_links st) (l_next (cs_links st) z) zs" "z \<notin> set zs" "distinct zs"
    using Cons.prems(3-5) by auto
  obtain st1 where S: "collect_one env z st = Some st1" "collect_loop env (l_next (cs_links st) z) st1 = Some st'"
    using Cons.prems(7) z(2) by (subst (asm) collect_loop.simps) (auto simp: Let_def split: option.splits)
  have C: "collected st xs z st1" "length (cs_peers st1) \<le> MAX_COREPEERS"
    using collect_one_some [OF Cons.prems(1,2) z(1) Cons.prems(6) env S(1)] by auto
  obtain xs1 where X: "clients_ok st1 xs1 []" "wired st1 xs1" "set xs1 \<subseteq> insert z (set xs)" using C(1) by (auto simp: collected_def)
  have "\<forall>y \<in> set zs. l_next (cs_links st1) y = l_next (cs_links st) y"
    using C(1) Cons.prems(5) z(4) by (auto simp: collected_def)
  then have "next_path (cs_links st1) (l_next (cs_links st) z) zs" using z(3) next_path_frame [of zs] by blast
  moreover have "\<forall>y \<in> set zs. y \<notin> set xs1" using X(3) z(4) Cons.prems(5) by auto
  ultimately show ?case using Cons.IH [OF X(1,2) _ z(5) _ C(2) S(2)] by blast
qed

section \<open>Reachable states\<close>

definition no_clients :: clients_state where
  "no_clients = \<lparr>cs_store = (\<lambda>_. None), cs_links = no_links, cs_class = no_links, cs_new_last = None, cs_count = 0,
     cs_peers = [], cs_clientlist = (\<lambda>_. []), cs_events = []\<rparr>"

abbreviation client_list :: "clients_state \<Rightarrow> nat list \<Rightarrow> bool" where
  "client_list st xs \<equiv> linked (cs_links st) (Head Clients_Head) (l_head (cs_links st) Clients_Head) xs"

text \<open>The operations of a worker on its clients. A new client comes from the accept thread at an address that is
  free. The handlers of input and output change fields of a client, but not those the lists depend on.\<close>

inductive clients_step :: "clients_env \<Rightarrow> timeouts \<Rightarrow> clients_state \<Rightarrow> clients_state \<Rightarrow> bool" for env tmo where
  New: "cs_store st x = None \<Longrightarrow> c_id c = x \<Longrightarrow> clients_step env tmo st (pass_client_to_worker x (set_client x c st))"
| Collect: "collect_new_clients env st = Some st' \<Longrightarrow> clients_step env tmo st st'"
| Connect: "client_list st xs \<Longrightarrow> x \<in> set xs \<Longrightarrow> cs_store st x = Some c \<Longrightarrow> c_state c \<noteq> CSTATE_CONNECTED \<Longrightarrow>
    c_state c \<noteq> CSTATE_COREPEER \<Longrightarrow> clients_step env tmo st (worker_mark_client_connected x c st)"
| Change: "cs_store st x = Some c \<Longrightarrow> c_id c' = c_id c \<Longrightarrow> c_state c' = c_state c \<Longrightarrow> c_flags c' = c_flags c \<Longrightarrow>
    c_write c' = c_write c \<Longrightarrow> clients_step env tmo st (set_client x c' st)"
| Close: "client_list st xs \<Longrightarrow> x \<in> set xs \<Longrightarrow> cs_store st x = Some c \<Longrightarrow> c_state c \<noteq> CSTATE_COREPEER \<Longrightarrow>
    client_close x st = Some st' \<Longrightarrow> clients_step env tmo st st'"
| Keepalive: "send_keepalives env tmo st = Some st' \<Longrightarrow> clients_step env tmo st st'"

inductive clients_reach :: "clients_env \<Rightarrow> timeouts \<Rightarrow> clients_state \<Rightarrow> bool" for env tmo where
  Start: "clients_reach env tmo no_clients"
| Step: "clients_reach env tmo st \<Longrightarrow> clients_step env tmo st st' \<Longrightarrow> clients_reach env tmo st'"

definition ids_ok :: "clients_state \<Rightarrow> bool" where
  "ids_ok st \<longleftrightarrow> (\<forall>x c. cs_store st x = Some c \<longrightarrow> c_id c = x)"

definition worker_inv :: "clients_state \<Rightarrow> nat list \<Rightarrow> nat list \<Rightarrow> bool" where
  "worker_inv st xs ys \<longleftrightarrow> clients_ok st xs ys \<and> wired st xs \<and> ids_ok st \<and> length (cs_peers st) \<le> MAX_COREPEERS"

lemma linked_unique: "linked s sl p xs \<Longrightarrow> linked s sl p ys \<Longrightarrow> xs = ys"
proof (induction xs arbitrary: sl p ys)
  case Nil
  then show ?case by (cases ys) auto
next
  case (Cons x xs)
  then show ?case by (cases ys) auto
qed

lemma clients_ok_list: "clients_ok st xs ys \<Longrightarrow> client_list st xs"
  unfolding clients_ok_def lists_ok_def heap_lists_def by (metis two_lists_simps(1))

lemma ids_ok_evolves: "ids_ok st \<Longrightarrow> evolves st st' \<Longrightarrow> ids_ok st'"
  unfolding ids_ok_def evolves_def by metis

lemma wired_close: "wired st xs \<Longrightarrow> distinct xs \<Longrightarrow> cs_store st' = (cs_store st)(x := None) \<Longrightarrow> wired st' (remove1 x xs)"
  by (auto simp: wired_def set_remove1_eq)
lemma new_client_ok:
  assumes I: "worker_inv st xs ys" and x: "cs_store st x = None" "c_id c = x"
  shows "worker_inv (pass_client_to_worker x (set_client x c st)) xs (ys @ [x])"
proof -
  have ok: "clients_ok st xs ys" using I by (simp add: worker_inv_def)
  have out: "x \<notin> set xs" "x \<notin> set ys" using ok x(1) by (auto simp: clients_ok_def lists_ok_def)
  obtain ks where "class_ok st xs ks" using ok by (auto simp: clients_ok_def lists_ok_def)
  then have "class_ok (set_client x c st) xs ks" using out(1) by (auto simp: class_ok_def)
  then have "clients_ok (set_client x c st) xs ys"
    using ok out by (auto simp: clients_ok_def lists_ok_def peers_ok_def)
  then have "clients_ok (pass_client_to_worker x (set_client x c st)) xs (ys @ [x])" using pass_client_ok out by simp
  then show ?thesis using I out x by (auto simp: worker_inv_def wired_def ids_ok_def pass_client_to_worker_def)
qed

lemma step_inv:
  assumes "clients_step env tmo st st'" and env: "clients_env_ok env" and I: "worker_inv st xs ys"
  shows "\<exists>xs' ys'. worker_inv st' xs' ys'"
  using assms(1)
proof cases
  case (New x c)
  then show ?thesis using new_client_ok [OF I] by blast
next
  case Collect
  let ?st = "st\<lparr>cs_links := (cs_links st)\<lparr>l_head := (l_head (cs_links st))(New_Clients_Head := None)\<rparr>, cs_new_last := None\<rparr>"
  have ok: "clients_ok st xs ys" "wired st xs" "ids_ok st" "length (cs_peers st) \<le> MAX_COREPEERS" using I by (simp_all add: worker_inv_def)
  have L: "lists_ok st xs ys" using ok(1) by (simp add: clients_ok_def)
  have new: "\<forall>z \<in> set ys. z \<notin> set xs" using clients_disjoint(1) [OF L] by auto
  have wired: "wired ?st xs" using ok(2) by (simp add: wired_def)
  have run: "collect_loop env (l_head (cs_links st) New_Clients_Head) ?st = Some st'"
    using Collect unfolding collect_new_clients_def .
  have "length (cs_peers ?st) \<le> MAX_COREPEERS" using ok(4) by simp
  then have "\<exists>xs'. clients_ok st' xs' [] \<and> wired st' xs' \<and> length (cs_peers st') \<le> MAX_COREPEERS"
    by (rule collect_loop_some [OF grab_new_clients(1) [OF ok(1)] wired grab_new_clients(2) [OF ok(1)]
          clients_disjoint(3) [OF L] new _ env run])
  moreover have "ids_ok ?st" using ok(3) by (simp add: ids_ok_def)
  then have "ids_ok st'" by (rule ids_ok_evolves [OF _ evolves_collect_loop [OF run]])
  ultimately show ?thesis by (auto simp: worker_inv_def)
next
  case (Connect zs x c)
  have "zs = xs" using Connect(2) clients_ok_list I linked_unique unfolding worker_inv_def by blast
  then have "clients_ok st' xs ys" using Connect mark_connected_ok I by (simp add: worker_inv_def)
  then show ?thesis using I Connect
    by (intro exI [of _ xs] exI [of _ ys]) (auto simp: worker_inv_def wired_def ids_ok_def worker_mark_client_connected_def Let_def)
next
  case (Change x c c')
  then have "clients_ok st' xs ys" using I clients_ok_set_client by (simp add: worker_inv_def)
  then show ?thesis using I Change
    by (intro exI [of _ xs] exI [of _ ys]) (auto simp: worker_inv_def wired_def ids_ok_def)
next
  case (Close zs x c)
  have ok: "clients_ok st xs ys" "wired st xs" using I by (simp_all add: worker_inv_def)
  have "zs = xs" using Close(1) clients_ok_list [OF ok(1)] linked_unique by blast
  then have "clients_ok st' (remove1 x xs) ys \<and> cs_store st' = (cs_store st)(x := None) \<and> cs_peers st' = cs_peers st"
    using client_close_ok [OF ok(1) _ Close(3,4)] Close(2,5) by auto
  moreover from this have "wired st' (remove1 x xs)"
    using wired_close [OF ok(2)] clients_disjoint(2) ok(1) by (auto simp: clients_ok_def)
  moreover have "ids_ok st'" using I ids_ok_evolves evolves_close [OF Close(5)] by (auto simp: worker_inv_def)
  ultimately show ?thesis using I by (auto simp: worker_inv_def)
next
  case Keepalive
  have ok: "clients_ok st xs ys" "wired st xs" using I by (simp_all add: worker_inv_def)
  obtain xs' where "clients_ok st' xs' ys" "wired st' xs'" "cs_peers st' = cs_peers st"
    using send_keepalives_ok [OF ok env, of tmo] Keepalive by auto
  moreover have "ids_ok st'" using I ids_ok_evolves evolves_keepalive_loop Keepalive unfolding worker_inv_def send_keepalives_def by blast
  ultimately show ?thesis using I by (auto simp: worker_inv_def)
qed

lemma no_clients_ok: "worker_inv no_clients [] []"
  by (auto simp: worker_inv_def no_clients_def clients_ok_def lists_ok_def class_ok_def peers_ok_def wired_def ids_ok_def
      two_lists_def heap_lists_def no_links_def split: client_head.split intro!: exI [of _ "\<lambda>_. []"])

lemma reach_inv:
  assumes "clients_reach env tmo st" and "clients_env_ok env"
  shows "\<exists>xs ys. worker_inv st xs ys"
  using assms(1)
proof induction
  case Start
  show ?case using no_clients_ok by blast
next
  case (Step st st')
  then show ?case using step_inv [OF _ assms(2)] by blast
qed

section \<open>Properties\<close>

text \<open>C16. In every state a worker reaches, its clients form a list without repetition, as long as the counter says,
  all of them allocated, and the four lists outgoing packets are sent along have each connected client exactly
  once, in the list of its class.\<close>

theorem worker_clients_lists:
  assumes "clients_reach env tmo st" and "clients_env_ok env"
  shows "\<exists>xs ks. client_list st xs \<and> distinct xs \<and> (\<forall>x \<in> set xs. cs_store st x \<noteq> None) \<and> cs_count st = int (length xs) \<and>
    (\<forall>k. linked (cs_class st) (Head k) (l_head (cs_class st) k) (ks k) \<and> distinct (ks k) \<and>
       set (ks k) = {x \<in> set xs. \<exists>c. cs_store st x = Some c \<and> serves c = Some k})"
proof -
  obtain xs ys where "clients_ok st xs ys" using reach_inv [OF assms] by (auto simp: worker_inv_def)
  moreover from this obtain ks where "class_ok st xs ks" by (auto simp: clients_ok_def lists_ok_def)
  moreover have "client_list st xs" by (rule clients_ok_list) fact
  moreover have "distinct xs" using \<open>clients_ok st xs ys\<close> clients_disjoint(2) by (auto simp: clients_ok_def)
  ultimately show ?thesis
    by (intro exI [of _ xs] exI [of _ ks]) (auto simp: clients_ok_def lists_ok_def class_ok_def heap_lists_def)
qed



section \<open>Concrete runs\<close>

definition demo_timeouts :: timeouts where
  "demo_timeouts = \<lparr>sock_write_expire = 25, keepalive_interval = 20, obuf_writes_threshold = 16, obuf_writes_threshold_hys = 6,
     client_login_timeout = 30, client_timeout = 3600, upstream_timeout = 15, heard_list_storetime = 10800,
     courtesy_list_storetime = 1800\<rparr>"

definition demo_clients_env :: "bool \<Rightarrow> ctime \<Rightarrow> clients_env" where
  "demo_clients_env room tick = \<lparr>we_write = (\<lambda>c s. Done 0), we_sendto = (\<lambda>c s. 0), we_other = (\<lambda>w c s. 0),
     we_xpoll_add = (\<lambda>fd. room), we_version = ''aprsc 2.1'', we_verstr = ''aprsc 2.1'', we_time = ''1 Jan 2024 00:00:00 GMT'',
     we_serverid = ''T2FIN'', we_tick = tick, we_ssl = (\<lambda>c. False)\<rparr>"

definition demo_new_client :: client_t where
  "demo_new_client = demo_client\<lparr>c_state := CSTATE_CONNECTED, c_flags := CLFLAGS_UPLINKPORT, c_write := None,
     c_obuf := obuf_init 0, c_ai_protocol := IPPROTO_UDP, c_keepalive := 10, c_cleanup := 100\<rparr>"

definition demo_queue :: clients_state where
  "demo_queue = pass_client_to_worker 1 (set_client 1 demo_new_client no_clients)"

lemma demo_clients_env_ok: "clients_env_ok (demo_clients_env True t)"
  by (simp add: clients_env_ok_def demo_clients_env_def)

lemma demo_queue_reach: "clients_reach env tmo demo_queue"
  unfolding demo_queue_def
  by (rule clients_reach.Step [OF clients_reach.Start clients_step.New])
    (simp_all add: no_clients_def demo_new_client_def demo_client_def)

lemma demo_links: "cs_links demo_queue = link_back New_Clients_Head None 1 no_links" "cs_store demo_queue = [1 \<mapsto> demo_new_client]"
  "cs_new_last demo_queue = Some 1" "cs_class demo_queue = no_links" "cs_peers demo_queue = []"
  by (simp_all add: demo_queue_def pass_client_to_worker_def no_clients_def)


lemma loop_eqs:
  "collect_loop env None st = Some st"
  "collect_loop env (Some x) st = (case collect_one env x st of None \<Rightarrow> None | Some st' \<Rightarrow> collect_loop env (l_next (cs_links st) x) st')"
  "keepalive_loop env tmo None st = Some st"
  "keepalive_loop env tmo (Some x) st =
     (case keepalive_one env tmo x st of None \<Rightarrow> None | Some st' \<Rightarrow> keepalive_loop env tmo (l_next (cs_links st) x) st')"
  by (simp_all add: collect_loop.simps [of env "None"] collect_loop.simps [of env "Some x"]
      keepalive_loop.simps [of env tmo "None"] keepalive_loop.simps [of env tmo "Some x"] Let_def)

lemmas demo_client_defs = demo_new_client_def demo_client_def obuf_init_def clflag_defs has_flag_def

definition demo_collected :: clients_state where
  "demo_collected = the (collect_new_clients (demo_clients_env True 0) demo_queue)"

lemma demo_collect:
  "collect_new_clients (demo_clients_env True 0) demo_queue = Some demo_collected"
  "cs_store demo_collected = [1 \<mapsto> demo_new_client\<lparr>c_write := Some Tcp_Client_Write\<rparr>]"
  "cs_links demo_collected = link_front Clients_Head 1 (link_back New_Clients_Head None 1 no_links
     \<lparr>l_head := \<lambda>_. None\<rparr>)"
  "cs_class demo_collected = link_front Class_Ups 1 no_links"
proof -
  have "(l_head (link_back New_Clients_Head None 1 no_links))(New_Clients_Head := None) = (\<lambda>_. None)"
    by (auto simp: link_back_def no_links_def fun_eq_iff)
  then have "\<exists>st. collect_new_clients (demo_clients_env True 0) demo_queue = Some st \<and>
      cs_store st = [1 \<mapsto> demo_new_client\<lparr>c_write := Some Tcp_Client_Write\<rparr>] \<and>
      cs_links st = link_front Clients_Head 1 (link_back New_Clients_Head None 1 no_links\<lparr>l_head := \<lambda>_. None\<rparr>) \<and>
      cs_class st = link_front Class_Ups 1 no_links"
    unfolding collect_new_clients_def demo_links
    by (simp add: link_back_def loop_eqs collect_one_def demo_links collect_link_def Let_def collect_writer_def demo_client_defs client_class_of_def
          demo_clients_env_def worker_classify_client_def no_links_def)
  then show "collect_new_clients (demo_clients_env True 0) demo_queue = Some demo_collected"
    "cs_store demo_collected = [1 \<mapsto> demo_new_client\<lparr>c_write := Some Tcp_Client_Write\<rparr>]"
    "cs_links demo_collected = link_front Clients_Head 1 (link_back New_Clients_Head None 1 no_links\<lparr>l_head := \<lambda>_. None\<rparr>)"
    "cs_class demo_collected = link_front Class_Ups 1 no_links"
    by (auto simp: demo_collected_def)
qed

lemma demo_collected_reach: "clients_reach (demo_clients_env True 0) demo_timeouts demo_collected"
  by (rule clients_reach.Step [OF demo_queue_reach clients_step.Collect [OF demo_collect(1)]])

lemma demo_collected_list: "client_list demo_collected xs \<longleftrightarrow> xs = [1]"
  by (cases xs; cases "tl xs") (auto simp: demo_collect link_front_def link_back_def no_links_def set_prevp_def)

theorem worker_clients_lists_witness:
  "\<exists>ks. cs_count demo_collected = 1 \<and> set (ks Class_Ups) = {1} \<and> ks Class_Other = [] \<and>
     linked (cs_class demo_collected) (Head Class_Ups) (l_head (cs_class demo_collected) Class_Ups) (ks Class_Ups)"
proof -
  have s: "serves (demo_new_client\<lparr>c_write := Some Tcp_Client_Write\<rparr>) = Some Class_Ups"
    by (simp add: serves_def client_class_of_def demo_client_defs)
  obtain xs ks where A: "client_list demo_collected xs" "cs_count demo_collected = int (length xs)"
    "\<forall>k. linked (cs_class demo_collected) (Head k) (l_head (cs_class demo_collected) k) (ks k) \<and> distinct (ks k) \<and>
       set (ks k) = {x \<in> set xs. \<exists>c. cs_store demo_collected x = Some c \<and> serves c = Some k}"
    using worker_clients_lists [OF demo_collected_reach demo_clients_env_ok] by blast
  have xs: "xs = [1]" using A(1) demo_collected_list by blast
  have "set (ks k) = (if k = Class_Ups then {1} else {})" for k using A(3) s by (auto simp: xs demo_collect)
  from this [of Class_Ups] this [of Class_Other] have "set (ks Class_Ups) = {1}" "ks Class_Other = []" by auto
  then show ?thesis using A(2,3) xs by (intro exI [of _ ks]) simp
qed


text \<open>A client for which the poller has no room is kept in the list without a function to write to it, and the
  next round of keepalives calls the null pointer.\<close>

theorem unpolled_client_crashes:
  "\<exists>st. collect_new_clients (demo_clients_env False 0) demo_queue = Some st \<and>
     send_keepalives (demo_clients_env False 20) demo_timeouts st = None"
  unfolding collect_new_clients_def demo_links
  by (simp add: link_back_def loop_eqs collect_one_def demo_links collect_link_def Let_def collect_writer_def demo_client_defs
      client_class_of_def demo_clients_env_def worker_classify_client_def no_links_def send_keepalives_def link_front_def
      keepalive_one_def set_prevp_def cleanup_heard_def keepalive_write_def write_client_def set_client_def set_flushsize_def
      demo_timeouts_def)


end
