(* ===== verification/Login.thy ===== *)
theory Login
  imports Worker_Clients Cfgfile Incoming Parse_QC Passcode Filter_Commands
begin

text \<open>
  \<^verbatim>\<open>src/src/login.c\<close>: the login line of a connection and the login part of packets submitted by HTTP and UDP. The
  handler works on the clients of a worker, so that a reply that cannot be written, and closes the client, is
  followed to its end. Certificate validation, \<^verbatim>\<open>fnmatch\<close> and the success of allocations are arguments.
\<close>

section \<open>Names\<close>

text \<open>\<^verbatim>\<open>strcasestr\<close>, as a test.\<close>

definition strcasestr :: "string \<Rightarrow> string \<Rightarrow> bool" where
  "strcasestr s t \<longleftrightarrow> (\<exists>i \<in> set [0 ..< length s + 1]. strcaseeq (take (length t) (drop i s)) t)"

definition disallow_login_usernames :: "string list" where
  "disallow_login_usernames = [''pass'']"

definition quirks_mode_blacklist :: "string list" where
  "quirks_mode_blacklist = [''HR-IXPWIND'', ''HR-IXP-WIND'', ''IXP-WIND'', ''Oww/'']"

definition igate_tx_blacklist :: "string list" where
  "igate_tx_blacklist = [''GW1000'']"

fun prefixmatch :: "string \<Rightarrow> string \<Rightarrow> bool" where
  "prefixmatch haystack [] = True"
| "prefixmatch [] (n # needle) = False"
| "prefixmatch (h # haystack) (n # needle) = (h = n \<and> prefixmatch haystack needle)"

text \<open>The configuration a login depends on. \<open>lc_cert\<close> is the validation of a client certificate by \<^verbatim>\<open>tls.c\<close>: None for
  success, otherwise the text sent to the client.\<close>

record login_cfg =
  lc_serverid :: string
  lc_disallow_login_glob :: "string list option"
  lc_fnmatch :: "string \<Rightarrow> string \<Rightarrow> bool"
  lc_quirks_mode :: bool
  lc_cert :: "client_t \<Rightarrow> string option"
  lc_alloc :: bool

definition passcode_ok :: "string \<Rightarrow> string \<Rightarrow> bool" where
  "passcode_ok username pass \<longleftrightarrow> 0 \<le> atoi pass \<and> atoi pass = int (unat (aprs_passcode username))"

definition user_disallowed :: "login_cfg \<Rightarrow> string \<Rightarrow> bool" where
  "user_disallowed cfg username \<longleftrightarrow> (\<exists>d \<in> set disallow_login_usernames. strcaseeq username d)"

definition glob_disallowed :: "login_cfg \<Rightarrow> string \<Rightarrow> bool" where
  "glob_disallowed cfg username \<longleftrightarrow>
     (case lc_disallow_login_glob cfg of
        None \<Rightarrow> False | Some pats \<Rightarrow> check_call_glob_match (lc_fnmatch cfg) pats username \<noteq> 0)"

section \<open>Logins of single packets\<close>

fun upload_args :: "string \<Rightarrow> string list \<Rightarrow> bool \<Rightarrow> bool" where
  "upload_args username [] validated = validated"
| "upload_args username (w # ws) validated =
     (if strcaseeq w ''pass'' then
        (case ws of
           [] \<Rightarrow> validated
         | p # ws' \<Rightarrow> upload_args username ws' (validated \<or> passcode_ok username p))
      else if strcaseeq w ''vers'' then
        (case ws of a # v # ws' \<Rightarrow> upload_args username ws' validated | _ \<Rightarrow> validated)
      else upload_args username ws validated)"

text \<open>The return code; 1 when the passcode is right. The user name is the second word.\<close>

definition http_udp_upload_login :: "login_cfg \<Rightarrow> string \<Rightarrow> int \<times> string" where
  "http_udp_upload_login cfg s =
     (let argv = parse_args_noshell (c_word s); username = argv ! 1
      in if length argv < 2 then (-1, [])
         else if \<not> strcaseeq (argv ! 0) ''user'' then (-1, [])
         else if CALLSIGNLEN_MAX < length username then (-1, username)
         else if user_disallowed cfg username then (-1, username)
         else if glob_disallowed cfg username then (-1, username)
         else if check_invalid_q_callsign username \<noteq> 0 then (-1, username)
         else (if upload_args username (drop 2 argv) False then 1 else 0, username))"

section \<open>Application names and UDP\<close>

definition login_set_app_name :: "login_cfg \<Rightarrow> string \<Rightarrow> string \<Rightarrow> client_t \<Rightarrow> client_t" where
  "login_set_app_name cfg app_name app_ver c =
     (let name = sanitize_ascii_string (take 31 app_name); ver = sanitize_ascii_string (take 31 app_ver)
      in c\<lparr>c_app_name := name, c_app_version := ver,
           c_no_tx := c_no_tx c \<or> (\<exists>b \<in> set igate_tx_blacklist. prefixmatch name b),
           c_quirks_mode := lc_quirks_mode cfg \<or> (\<exists>b \<in> set quirks_mode_blacklist. prefixmatch name b)\<rparr>)"

fun set_port :: "nat \<Rightarrow> sockaddr_u \<Rightarrow> sockaddr_u" where
  "set_port p (SA_INET a _) = SA_INET a (of_nat p)"
| "set_port p (SA_INET6 a _) = SA_INET6 a (of_nat p)"

definition login_setup_udp_feed :: "nat \<Rightarrow> client_t \<Rightarrow> int \<times> client_t" where
  "login_setup_udp_feed port c =
     (if \<not> c_udpclient c then (-1, c) else (0, c\<lparr>c_udp_port := port, c_udpaddr := set_port port (c_addr c)\<rparr>))"

section \<open>The login handler\<close>

text \<open>The state of the worker and the number of filter cells in use. None stands for an access to a client that has
  been closed.\<close>

record login_st =
  ls_clients :: clients_state
  ls_gauge :: int

definition ls_set :: "nat \<Rightarrow> client_t \<Rightarrow> login_st \<Rightarrow> login_st" where
  "ls_set cid c ls = ls\<lparr>ls_clients := set_client cid c (ls_clients ls)\<rparr>"

definition ls_get :: "nat \<Rightarrow> login_st \<Rightarrow> client_t option" where
  "ls_get cid ls = cs_store (ls_clients ls) cid"

definition reply :: "clients_env \<Rightarrow> nat \<Rightarrow> string \<Rightarrow> login_st \<Rightarrow> (int \<times> login_st) option" where
  "reply env cid s ls =
     map_option (\<lambda>(rc, st). (rc, ls\<lparr>ls_clients := st\<rparr>)) (printf_client env cid (s @ CRLF) (ls_clients ls))"

text \<open>The label \<^verbatim>\<open>failed_login\<close>.\<close>

definition failed_login :: "nat \<Rightarrow> int \<Rightarrow> login_st \<Rightarrow> (int \<times> login_st) option" where
  "failed_login cid rc ls =
     (if rc < -2 then Some (rc, ls)
      else case ls_get cid ls of
             None \<Rightarrow> None
           | Some c \<Rightarrow>
               let c1 = c\<lparr>c_failed_cmds := c_failed_cmds c + 1\<rparr>; ls1 = ls_set cid c1 ls
               in if 3 \<le> c_failed_cmds c1
                  then map_option (\<lambda>st. (-3, ls1\<lparr>ls_clients := st\<rparr>)) (client_close cid (ls_clients ls1))
                  else Some (rc, ls1))"

definition reject_login :: "clients_env \<Rightarrow> nat \<Rightarrow> string \<Rightarrow> login_st \<Rightarrow> (int \<times> login_st) option" where
  "reject_login env cid s ls =
     (case reply env cid s ls of None \<Rightarrow> None | Some (rc, ls1) \<Rightarrow> failed_login cid rc ls1)"

definition login_client_validate_cert ::
    "clients_env \<Rightarrow> login_cfg \<Rightarrow> nat \<Rightarrow> client_t \<Rightarrow> login_st \<Rightarrow> (int \<times> login_st) option" where
  "login_client_validate_cert env cfg cid c ls =
     (case lc_cert cfg c of
        None \<Rightarrow> Some (1, ls_set cid (c\<lparr>c_validated := VALIDATED_STRONG\<rparr>) ls)
      | Some msg \<Rightarrow>
          (case reply env cid msg ls of
             None \<Rightarrow> None
           | Some (rc, ls1) \<Rightarrow>
               (case ls_get cid ls1 of
                  None \<Rightarrow> None
                | Some c1 \<Rightarrow> Some (if rc < 0 then rc else 0, ls_set cid (c1\<lparr>c_failed_cmds := 10\<rparr>) ls1))))"

datatype args_result = Args_Done "string option" | Args_Failed int | Args_Return int

text \<open>The words after \<^verbatim>\<open>filter\<close>: \<open>t\<close> is what has been copied to \<^verbatim>\<open>filter_s\<close> so far.\<close>

fun login_filters ::
    "clients_env \<Rightarrow> login_cfg \<Rightarrow> nat \<Rightarrow> string list \<Rightarrow> string \<Rightarrow> bool \<Rightarrow> login_st \<Rightarrow> (int option \<times> login_st) option" where
  "login_filters env cfg cid [] t non_first ls = Some (None, ls)"
| "login_filters env cfg cid (w # ws) t non_first ls =
     (case ls_get cid ls of
        None \<Rightarrow> None
      | Some c \<Rightarrow>
          let fits = length t + length w + 2 < FILTER_S_SIZE;
              t' = (if fits then t @ (if non_first then '' '' else []) @ w else t);
              c1 = (if fits then c\<lparr>c_filter_s := t'\<rparr> else c);
              (rc, c2, g2) = filter_parse (lc_alloc cfg) True w (c1, ls_gauge ls);
              ls2 = (ls_set cid c2 ls)\<lparr>ls_gauge := g2\<rparr>
          in if rc = 0 then login_filters env cfg cid ws t' (non_first \<or> fits) ls2
             else (case reply env cid (''# Parse errors on filter spec: '' @ [CHR 0x27] @ w @ [CHR 0x27]) ls2 of
                     None \<Rightarrow> None
                   | Some (rc2, ls3) \<Rightarrow>
                       if rc2 < -2 then Some (Some rc2, ls3) else login_filters env cfg cid ws t' (non_first \<or> fits) ls3))"

fun login_args ::
    "clients_env \<Rightarrow> login_cfg \<Rightarrow> nat \<Rightarrow> string list \<Rightarrow> string option \<Rightarrow> login_st \<Rightarrow> (args_result \<times> login_st) option" where
  "login_args env cfg cid [] pass ls = Some (Args_Done pass, ls)"
| "login_args env cfg cid (w # ws) pass ls =
     (case ls_get cid ls of
        None \<Rightarrow> None
      | Some c \<Rightarrow>
          if strcaseeq w ''pass'' then
            (case ws of [] \<Rightarrow> Some (Args_Done pass, ls) | p # ws' \<Rightarrow> login_args env cfg cid ws' (Some p) ls)
          else if strcaseeq w ''vers'' then
            (case ws of
               [] \<Rightarrow> Some (Args_Done pass, ls)
             | app_name # ws1 \<Rightarrow>
                 let app_ver = (case ws1 of [] \<Rightarrow> [] | v # _ \<Rightarrow> v);
                     ver_missing = (ws1 = [] \<or> strcaseeq app_ver ''filter'');
                     c1 = login_set_app_name cfg app_name app_ver c;
                     ls1 = ls_set cid c1 ls
                 in if ver_missing \<and> \<not> c_quirks_mode c1 then
                      map_option (\<lambda>(rc, ls2). (Args_Failed rc, ls2))
                        (reply env cid ''# Invalid login: software name and version are not separated by a space'' ls1)
                    else login_args env cfg cid (drop 1 ws1) pass ls1)
          else if strcaseeq w ''udp'' then
            (case ws of
               [] \<Rightarrow> Some (Args_Done pass, ls)
             | p # ws' \<Rightarrow>
                 if atoi p < 1024 \<or> 65535 < atoi p then Some (Args_Done pass, ls)
                 else
                   let (rc, c1) = login_setup_udp_feed (nat (atoi p)) c; ls1 = ls_set cid c1 ls
                   in if rc = 0 then login_args env cfg cid ws' pass ls1
                      else (case reply env cid ''# No UDP service available on this port'' ls1 of
                              None \<Rightarrow> None
                            | Some (rc2, ls2) \<Rightarrow>
                                if rc2 < -2 then Some (Args_Return rc2, ls2) else login_args env cfg cid ws' pass ls2))
          else if strcasestr w ''filter'' then
            if \<not> has_flag (c_flags c) CLFLAGS_USERFILTEROK then
              (case reply env cid ''# No user-specified filters on this port'' ls of
                 None \<Rightarrow> None
               | Some (rc, ls1) \<Rightarrow> Some (if rc < -2 then Args_Return rc else Args_Done pass, ls1))
            else
              (case login_filters env cfg cid ws [] False ls of
                 None \<Rightarrow> None
               | Some (Some rc, ls1) \<Rightarrow> Some (Args_Return rc, ls1)
               | Some (None, ls1) \<Rightarrow> Some (Args_Done pass, ls1))
          else login_args env cfg cid ws pass ls)"

definition logresp_text :: "string \<Rightarrow> bool \<Rightarrow> string \<Rightarrow> string" where
  "logresp_text username validated server =
     ''# logresp '' @ username @ '' '' @ (if validated then ''verified'' else ''unverified'') @ '', server '' @ server"

text \<open>The part of the handler after the arguments.\<close>

definition login_finish ::
    "clients_env \<Rightarrow> login_cfg \<Rightarrow> nat \<Rightarrow> string \<Rightarrow> bool \<Rightarrow> string option \<Rightarrow> login_st \<Rightarrow> (int \<times> login_st) option" where
  "login_finish env cfg cid username ssl_validated pass ls =
     (case ls_get cid ls of
        None \<Rightarrow> None
      | Some c \<Rightarrow>
          let ok = (\<not> ssl_validated \<and> (case pass of None \<Rightarrow> False | Some p \<Rightarrow> passcode_ok (c_username c) p));
              c1 = (if ok then c\<lparr>c_validated := VALIDATED_WEAK\<rparr> else c);
              c2 = c1\<lparr>c_filter_s := sanitize_ascii_string (c_filter_s c1), c_handler_line_in := Incoming_Handler\<rparr>
          in case reply env cid (logresp_text username (c_validated c2 \<noteq> 0) (lc_serverid cfg)) (ls_set cid c2 ls) of
               None \<Rightarrow> None
             | Some (rc, ls1) \<Rightarrow>
                 if rc < -2 then Some (rc, ls1)
                 else (case ls_get cid ls1 of
                         None \<Rightarrow> None
                       | Some c3 \<Rightarrow>
                           let st1 = worker_mark_client_connected cid c3 (ls_clients ls1);
                               c4 = c3\<lparr>c_state := CSTATE_CONNECTED\<rparr>;
                               (old_fd, cls) = clientlist_add c4 (cs_clientlist st1);
                               st2 = st1\<lparr>cs_clientlist := cls\<rparr>;
                               st3 = (if c_validated c4 \<noteq> 0 \<and> old_fd \<noteq> -1 then log_event (Shutdown_Fd old_fd) st2 else st2)
                           in Some (0, ls1\<lparr>ls_clients := st3\<rparr>)))"

text \<open>The checks of the user name, before the arguments: the text of the rejection.\<close>

definition login_user_error :: "login_cfg \<Rightarrow> string \<Rightarrow> string option" where
  "login_user_error cfg username =
     (if user_disallowed cfg username then Some ''# Login by user not allowed''
      else if glob_disallowed cfg username then Some ''# Login by user not allowed''
      else if check_invalid_q_callsign username \<noteq> 0 then Some ''# Invalid username format, not allowed''
      else if strcaseeq username (lc_serverid cfg) then Some ''# Login by user not allowed (our serverid)''
      else None)"

definition login_rest ::
    "clients_env \<Rightarrow> login_cfg \<Rightarrow> nat \<Rightarrow> string \<Rightarrow> string list \<Rightarrow> bool \<Rightarrow> login_st \<Rightarrow> (int \<times> login_st) option" where
  "login_rest env cfg cid username args ssl_validated ls =
     (case login_args env cfg cid args None ls of
        None \<Rightarrow> None
      | Some (Args_Failed rc, ls1) \<Rightarrow> failed_login cid rc ls1
      | Some (Args_Return rc, ls1) \<Rightarrow> Some (rc, ls1)
      | Some (Args_Done pass, ls1) \<Rightarrow> login_finish env cfg cid username ssl_validated pass ls1)"

text \<open>A return code of the certificate check other than 1 and -1 leaves \<^verbatim>\<open>rc\<close> at zero.\<close>

definition login_handler :: "clients_env \<Rightarrow> login_cfg \<Rightarrow> nat \<Rightarrow> string \<Rightarrow> login_st \<Rightarrow> (int \<times> login_st) option" where
  "login_handler env cfg cid s ls =
     (let argv = parse_args_noshell (c_word s); username = argv ! 1
      in case ls_get cid ls of
           None \<Rightarrow> None
         | Some c \<Rightarrow>
             if argv = [] \<or> rd (argv ! 0) 0 = CHR ''#'' then Some (0, ls)
             else if length argv < 2 then reject_login env cid ''# Invalid login string, too few arguments'' ls
             else if \<not> strcaseeq (argv ! 0) ''user'' then
               let n = (if strcaseeq (argv ! 0) ''GET'' then 10 else c_failed_cmds c)
               in reject_login env cid ''# Invalid login command'' (ls_set cid (c\<lparr>c_failed_cmds := n + 1\<rparr>) ls)
             else if CALLSIGNLEN_MAX < length username then reject_login env cid ''# Invalid username format'' ls
             else
               let c1 = c\<lparr>c_username := username\<rparr>; ls1 = ls_set cid c1 ls
               in case login_user_error cfg username of
                    Some msg \<Rightarrow> reject_login env cid msg ls1
                  | None \<Rightarrow>
                      if c_ssl_validate c then
                        (case login_client_validate_cert env cfg cid c1 ls1 of
                           None \<Rightarrow> None
                         | Some (v, ls2) \<Rightarrow>
                             if v = -1 then failed_login cid (-1) ls2
                             else if v \<noteq> 1 then failed_login cid 0 ls2
                             else login_rest env cfg cid username (drop 2 argv) True ls2)
                      else login_rest env cfg cid username (drop 2 argv) False ls1)"

section \<open>Lines that leave the client as it was\<close>

text \<open>What the arguments of a login do not change in a client.\<close>

definition login_base :: "client_t \<Rightarrow> client_t \<Rightarrow> bool" where
  "login_base c c' \<longleftrightarrow> c_id c' = c_id c \<and> c_state c' = c_state c \<and> c_flags c' = c_flags c \<and> c_write c' = c_write c \<and>
     c_username c' = c_username c \<and> c_validated c' = c_validated c \<and> c_ssl_validate c' = c_ssl_validate c \<and>
     c_failed_cmds c' = c_failed_cmds c \<and> c_fd c' = c_fd c \<and>
     (length (c_filter_s c) < FILTER_S_SIZE \<longrightarrow> length (c_filter_s c') < FILTER_S_SIZE)"

lemma login_base_refl [simp]: "login_base c c"
  by (simp add: login_base_def)

lemma login_base_trans: "login_base a b \<Longrightarrow> login_base b c \<Longrightarrow> login_base a c"
  by (simp add: login_base_def)

lemma login_base_simps [simp]:
  "login_base c (c\<lparr>c_obuf := ob\<rparr>)" "login_base c (login_set_app_name cfg n v c)" "login_base c (snd (login_setup_udp_feed p c))"
  by (simp_all add: login_base_def login_set_app_name_def login_setup_udp_feed_def Let_def)

lemma filter_parse_base: "login_base c (fst (snd (filter_parse al u w (c, g))))"
  by (auto simp: login_base_def filter_parse_def set_filter_list_def Let_def split: prod.split sum.split parsed.split)

text \<open>A client that has not logged in yet, in the list of its worker, and one that has been closed.\<close>

definition alive :: "nat list \<Rightarrow> nat list \<Rightarrow> nat \<Rightarrow> login_st \<Rightarrow> client_t \<Rightarrow> bool" where
  "alive xs ys cid ls c \<longleftrightarrow> worker_inv (ls_clients ls) xs ys \<and> cid \<in> set xs \<and> ls_get cid ls = Some c \<and>
     c_state c \<noteq> CSTATE_CONNECTED \<and> c_state c \<noteq> CSTATE_COREPEER"

definition dead :: "nat list \<Rightarrow> nat list \<Rightarrow> nat \<Rightarrow> login_st \<Rightarrow> bool" where
  "dead xs ys cid ls \<longleftrightarrow> worker_inv (ls_clients ls) (remove1 cid xs) ys \<and> ls_get cid ls = None"

lemma ls_simps [simp]:
  "ls_get cid (ls_set cid c ls) = Some c" "ls_clients (ls_set cid c ls) = set_client cid c (ls_clients ls)"
  "ls_get cid (ls\<lparr>ls_gauge := g\<rparr>) = ls_get cid ls" "ls_get cid (ls\<lparr>ls_clients := st\<rparr>) = cs_store st cid"
  by (simp_all add: ls_get_def ls_set_def)

lemma worker_inv_set:
  assumes "worker_inv st xs ys" and "cs_store st x = Some c" and "c_id c' = c_id c" and "c_state c' = c_state c"
    and "c_flags c' = c_flags c" and "c_write c' = c_write c"
  shows "worker_inv (set_client x c' st) xs ys"
proof -
  have "clients_ok (set_client x c' st) xs ys" using assms clients_ok_set_client by (simp add: worker_inv_def)
  then show ?thesis using assms by (auto simp: worker_inv_def wired_def ids_ok_def)
qed

lemma alive_set:
  assumes "alive xs ys cid ls c" and "c_id c' = c_id c" and "c_state c' = c_state c"
    and "c_flags c' = c_flags c" and "c_write c' = c_write c"
  shows "alive xs ys cid (ls_set cid c' ls) c'"
  using assms worker_inv_set [of "ls_clients ls" xs ys cid c c'] by (simp add: alive_def ls_get_def)

lemma alive_base: "alive xs ys cid ls c \<Longrightarrow> login_base c c' \<Longrightarrow> alive xs ys cid (ls_set cid c' ls) c'"
  by (rule alive_set) (simp_all add: login_base_def)

lemma alive_gauge [simp]: "alive xs ys cid (ls\<lparr>ls_gauge := g\<rparr>) c = alive xs ys cid ls c"
  by (simp add: alive_def)

text \<open>A reply leaves the client there, with another output buffer, or closes it.\<close>

lemma worker_inv_close:
  assumes I: "worker_inv st xs ys" and x: "x \<in> set xs" and c: "cs_store st x = Some c" "c_state c \<noteq> CSTATE_COREPEER"
  shows "\<exists>st'. client_close x st = Some st' \<and> worker_inv st' (remove1 x xs) ys \<and> cs_store st' x = None"
proof -
  have ok: "clients_ok st xs ys" "wired st xs" using I by (simp_all add: worker_inv_def)
  obtain st' where S: "client_close x st = Some st'" "clients_ok st' (remove1 x xs) ys" "cs_store st' = (cs_store st)(x := None)"
    "cs_peers st' = cs_peers st"
    using client_close_ok [OF ok(1) x c] by blast
  have "distinct xs" using ok(1) clients_disjoint(2) by (auto simp: clients_ok_def)
  then have "wired st' (remove1 x xs)" using wired_close [OF ok(2) _ S(3)] by blast
  moreover have "ids_ok st'" using I by (auto simp: worker_inv_def ids_ok_def S(3))
  ultimately show ?thesis using S I by (auto simp: worker_inv_def)
qed

lemma reply_ok:
  assumes A: "alive xs ys cid ls c" and env: "clients_env_ok env"
  shows "\<exists>rc ls'. reply env cid s ls = Some (rc, ls') \<and>
    (if rc < -2 then dead xs ys cid ls' else \<exists>ob. alive xs ys cid ls' (c\<lparr>c_obuf := ob\<rparr>))"
proof (cases "PACKETLEN_MAX \<le> length (s @ CRLF)")
  case True
  have "alive xs ys cid ls (c\<lparr>c_obuf := c_obuf c\<rparr>)" using A by simp
  moreover have "reply env cid s ls = Some (-1, ls)" using True by (simp add: reply_def printf_client_def)
  ultimately show ?thesis by (intro exI [of _ "-1"] exI [of _ ls]) (auto intro!: exI [of _ "c_obuf c"])
next
  case False
  let ?st = "ls_clients ls"
  have ok: "clients_ok ?st xs ys" "wired ?st xs" "ids_ok ?st" and cid: "cid \<in> set xs" "cs_store ?st cid = Some c"
    and np: "c_state c \<noteq> CSTATE_COREPEER"
    using A by (auto simp: alive_def worker_inv_def ls_get_def)
  have w: "c_write c \<noteq> None" using ok(2) cid by (auto simp: wired_def)
  obtain rc st' where R: "write_client env cid (s @ CRLF) ?st = Some (rc, st')"
    "if rc < -2 then clients_ok st' (remove1 cid xs) ys \<and> cs_store st' = (cs_store ?st)(cid := None)
     else clients_ok st' xs ys \<and> (\<exists>ob. cs_store st' = (cs_store ?st)(cid \<mapsto> c\<lparr>c_obuf := ob\<rparr>))"
    "cs_peers st' = cs_peers ?st"
    using write_client_ok [OF ok(1) cid(1) env cid(2) np w] by blast
  have run: "reply env cid s ls = Some (rc, ls\<lparr>ls_clients := st'\<rparr>)" using False R(1) by (simp add: reply_def printf_client_def)
  have "distinct xs" using ok(1) clients_disjoint(2) by (auto simp: clients_ok_def)
  have ids: "ids_ok st'" using ids_ok_evolves [OF ok(3) evolves_write [OF R(1)]] .
  have len: "length (cs_peers st') \<le> MAX_COREPEERS" using R(3) A by (simp add: alive_def worker_inv_def)
  show ?thesis
  proof (cases "rc < -2")
    case True
    then have "wired st' (remove1 cid xs)" using wired_close [OF ok(2) \<open>distinct xs\<close>] R(2) by auto
    then show ?thesis using True R(2) run ids len by (auto simp: dead_def worker_inv_def)
  next
    case False
    then obtain ob where O: "clients_ok st' xs ys" "cs_store st' = (cs_store ?st)(cid \<mapsto> c\<lparr>c_obuf := ob\<rparr>)" using R(2) by auto
    have "wired st' xs" using ok(2) w by (auto simp: wired_def O(2))
    then have "alive xs ys cid (ls\<lparr>ls_clients := st'\<rparr>) (c\<lparr>c_obuf := ob\<rparr>)"
      using A O ids len by (auto simp: alive_def worker_inv_def)
    then show ?thesis using False run by auto
  qed
qed

text \<open>What a part of the login does: the client is there, changed at most in what arguments change, or closed.\<close>

definition went_on :: "nat list \<Rightarrow> nat list \<Rightarrow> nat \<Rightarrow> client_t \<Rightarrow> login_st \<Rightarrow> bool" where
  "went_on xs ys cid c ls \<longleftrightarrow> (\<exists>c'. alive xs ys cid ls c' \<and> login_base c c')"

lemma went_on_trans: "login_base c c1 \<Longrightarrow> went_on xs ys cid c1 ls \<Longrightarrow> went_on xs ys cid c ls"
  unfolding went_on_def using login_base_trans by blast

lemma reply_on:
  assumes "alive xs ys cid ls c" and "clients_env_ok env"
  shows "\<exists>rc ls'. reply env cid s ls = Some (rc, ls') \<and> (if rc < -2 then dead xs ys cid ls' else went_on xs ys cid c ls')"
  using reply_ok [OF assms, of s] by (auto simp: went_on_def intro!: exI split: if_splits)
lemma login_filters_ok:
  assumes "alive xs ys cid ls c" and env: "clients_env_ok env"
  shows "\<exists>r ls'. login_filters env cfg cid ws t nf ls = Some (r, ls') \<and>
    (case r of None \<Rightarrow> went_on xs ys cid c ls' | Some rc \<Rightarrow> rc < -2 \<and> dead xs ys cid ls')"
  using assms(1)
proof (induction ws arbitrary: t nf ls c)
  case Nil
  then show ?case by (auto simp: went_on_def)
next
  case (Cons w ws)
  have c: "ls_get cid ls = Some c" using Cons.prems by (simp add: alive_def)
  define fits where "fits \<longleftrightarrow> length t + length w + 2 < FILTER_S_SIZE"
  define t' where "t' = (if fits then t @ (if nf then '' '' else []) @ w else t)"
  define c1 where "c1 = (if fits then c\<lparr>c_filter_s := t'\<rparr> else c)"
  obtain rc c2 g2 where F: "filter_parse (lc_alloc cfg) True w (c1, ls_gauge ls) = (rc, c2, g2)" by (metis prod_cases3)
  let ?ls2 = "(ls_set cid c2 ls)\<lparr>ls_gauge := g2\<rparr>"
  have B1: "login_base c c1" by (simp add: c1_def login_base_def t'_def fits_def)
  have "login_base c1 c2" using filter_parse_base [of c1 "lc_alloc cfg" True w "ls_gauge ls"] F by simp
  then have B2: "login_base c c2" using B1 login_base_trans by blast
  have A2: "alive xs ys cid ?ls2 c2" using alive_base [OF Cons.prems B2] by simp
  have run: "login_filters env cfg cid (w # ws) t nf ls =
      (if rc = 0 then login_filters env cfg cid ws t' (nf \<or> fits) ?ls2
       else (case reply env cid (''# Parse errors on filter spec: '' @ [CHR 0x27] @ w @ [CHR 0x27]) ?ls2 of
               None \<Rightarrow> None
             | Some (rc2, ls3) \<Rightarrow> if rc2 < -2 then Some (Some rc2, ls3) else login_filters env cfg cid ws t' (nf \<or> fits) ls3))"
    unfolding login_filters.simps Let_def c option.case fits_def [symmetric] t'_def [symmetric] c1_def [symmetric] F prod.case ..
  have next_ok: "\<exists>r ls'. login_filters env cfg cid ws t' (nf \<or> fits) lsx = Some (r, ls') \<and>
      (case r of None \<Rightarrow> went_on xs ys cid c ls' | Some rc \<Rightarrow> rc < -2 \<and> dead xs ys cid ls')"
    if "went_on xs ys cid c lsx" for lsx
  proof -
    from that obtain cx where X: "alive xs ys cid lsx cx" "login_base c cx" by (auto simp: went_on_def)
    obtain r ls' where "login_filters env cfg cid ws t' (nf \<or> fits) lsx = Some (r, ls')"
      "case r of None \<Rightarrow> went_on xs ys cid cx ls' | Some rc \<Rightarrow> rc < -2 \<and> dead xs ys cid ls'" using Cons.IH [OF X(1)] by blast
    then show ?thesis using went_on_trans [OF X(2)] by (auto split: option.splits)
  qed
  show ?case
  proof (cases "rc = 0")
    case True
    then show ?thesis using next_ok [of ?ls2] A2 B2 run by (auto simp: went_on_def)
  next
    case False
    obtain rc2 ls3 where R: "reply env cid (''# Parse errors on filter spec: '' @ [CHR 0x27] @ w @ [CHR 0x27]) ?ls2 = Some (rc2, ls3)"
      "if rc2 < -2 then dead xs ys cid ls3 else went_on xs ys cid c2 ls3"
      using reply_on [OF A2 env] by blast
    show ?thesis
    proof (cases "rc2 < -2")
      case True
      then show ?thesis using run False R by simp
    next
      case no: False
      then have "went_on xs ys cid c ls3" using R(2) went_on_trans [OF B2] by simp
      then show ?thesis using next_ok [of ls3] run False R(1) no by simp
    qed
  qed
qed

text \<open>The outcome of the arguments; a passcode comes from one of them.\<close>

definition args_ok :: "nat list \<Rightarrow> nat list \<Rightarrow> nat \<Rightarrow> client_t \<Rightarrow> string list \<Rightarrow> string option \<Rightarrow> args_result \<times> login_st \<Rightarrow> bool" where
  "args_ok xs ys cid c ws pass r \<longleftrightarrow>
     (case r of
        (Args_Done p, ls) \<Rightarrow> went_on xs ys cid c ls \<and> (p = pass \<or> p \<in> Some ` set ws)
      | (Args_Failed rc, ls) \<Rightarrow> if rc < -2 then dead xs ys cid ls else went_on xs ys cid c ls
      | (Args_Return rc, ls) \<Rightarrow> rc < -2 \<and> dead xs ys cid ls)"

lemma args_ok_mono:
  assumes "args_ok xs ys cid c1 ws1 pass1 r" and "login_base c c1" and "set ws1 \<subseteq> set ws" and "pass1 = pass \<or> pass1 \<in> Some ` set ws"
  shows "args_ok xs ys cid c ws pass r"
  using assms went_on_trans [OF assms(2)] by (auto simp: args_ok_def split: prod.splits args_result.splits if_splits)

lemma login_args_ok:
  assumes "alive xs ys cid ls c" and env: "clients_env_ok env"
  shows "\<exists>r. login_args env cfg cid ws pass ls = Some r \<and> args_ok xs ys cid c ws pass r"
  using assms(1)
proof (induction ws arbitrary: pass ls c rule: measure_induct_rule [where f = length])
  case (less ws)
  have IH: "\<exists>r. login_args env cfg cid ws' pass' ls' = Some r \<and> args_ok xs ys cid c ws pass r"
    if "length ws' < length ws" "went_on xs ys cid c ls'" "set ws' \<subseteq> set ws" "pass' = pass \<or> pass' \<in> Some ` set ws" for ws' pass' ls'
  proof -
    from that(2) obtain c1 where "alive xs ys cid ls' c1" "login_base c c1" by (auto simp: went_on_def)
    then show ?thesis using less.IH [OF that(1)] args_ok_mono that(3,4) by blast
  qed
  show ?case
  proof (cases ws)
    case Nil
    then show ?thesis using less.prems by (auto simp: args_ok_def went_on_def)
  next
    case (Cons w rest)
    have c: "ls_get cid ls = Some c" using less.prems by (simp add: alive_def)
    have here: "went_on xs ys cid c ls" using less.prems by (auto simp: went_on_def)
    have stay: "args_ok xs ys cid c ws pass (Args_Done pass, ls)" using here by (simp add: args_ok_def)
    consider (pass) "strcaseeq w ''pass''" | (vers) "\<not> strcaseeq w ''pass''" "strcaseeq w ''vers''"
      | (udp) "\<not> strcaseeq w ''pass''" "\<not> strcaseeq w ''vers''" "strcaseeq w ''udp''"
      | (filt) "\<not> strcaseeq w ''pass''" "\<not> strcaseeq w ''vers''" "\<not> strcaseeq w ''udp''" "strcasestr w ''filter''"
      | (other) "\<not> strcaseeq w ''pass''" "\<not> strcaseeq w ''vers''" "\<not> strcaseeq w ''udp''" "\<not> strcasestr w ''filter''" by blast
    then show ?thesis
    proof cases
      case pass
      show ?thesis
      proof (cases rest)
        case Nil
        then show ?thesis using pass c stay Cons by simp
      next
        case R: (Cons p ws')
        have "\<exists>r. login_args env cfg cid ws' (Some p) ls = Some r \<and> args_ok xs ys cid c ws pass r"
          using here by (intro IH) (auto simp: Cons R)
        then show ?thesis using pass c Cons R by simp
      qed
    next
      case vers
      show ?thesis
      proof (cases rest)
        case Nil
        then show ?thesis using vers c stay Cons by simp
      next
        case R: (Cons a ws1)
        let ?v = "case ws1 of [] \<Rightarrow> [] | v # _ \<Rightarrow> v" let ?c1 = "login_set_app_name cfg a ?v c" let ?ls1 = "ls_set cid ?c1 ls"
        have A1: "alive xs ys cid ?ls1 ?c1" by (rule alive_base [OF less.prems]) simp
        show ?thesis
        proof (cases "(ws1 = [] \<or> strcaseeq ?v ''filter'') \<and> \<not> c_quirks_mode ?c1")
          case True
          obtain rc ls2 where "reply env cid ''# Invalid login: software name and version are not separated by a space'' ?ls1 = Some (rc, ls2)"
            "if rc < -2 then dead xs ys cid ls2 else went_on xs ys cid ?c1 ls2" using reply_on [OF A1 env] by blast
          then show ?thesis using True vers c Cons R went_on_trans [of c ?c1]
            by (auto simp: args_ok_def Let_def split: if_splits)
        next
          case False
          have "went_on xs ys cid c ?ls1" using A1 by (auto simp: went_on_def)
          then have "\<exists>r. login_args env cfg cid (drop 1 ws1) pass ?ls1 = Some r \<and> args_ok xs ys cid c ws pass r"
            by (intro IH) (auto simp: Cons R dest: in_set_dropD)
          moreover have "login_args env cfg cid ws pass ls = login_args env cfg cid (drop 1 ws1) pass ?ls1"
            using False vers c Cons R by (auto simp: Let_def)
          ultimately show ?thesis by metis
        qed
      qed
    next
      case udp
      show ?thesis
      proof (cases rest)
        case Nil
        then show ?thesis using udp c stay Cons by simp
      next
        case R: (Cons p ws')
        obtain rc c1 where U: "login_setup_udp_feed (nat (atoi p)) c = (rc, c1)" by fastforce
        have B: "login_base c c1" using login_base_simps(3) [of c "nat (atoi p)"] U by simp
        have A1: "alive xs ys cid (ls_set cid c1 ls) c1" by (rule alive_base [OF less.prems B])
        have on: "\<exists>r. login_args env cfg cid ws' pass lsx = Some r \<and> args_ok xs ys cid c ws pass r" if "went_on xs ys cid c lsx" for lsx
          using that by (intro IH) (auto simp: Cons R)
        obtain rc2 ls2 where W: "reply env cid ''# No UDP service available on this port'' (ls_set cid c1 ls) = Some (rc2, ls2)"
          "if rc2 < -2 then dead xs ys cid ls2 else went_on xs ys cid c1 ls2" using reply_on [OF A1 env] by blast
        show ?thesis
        proof (cases "atoi p < 1024 \<or> 65535 < atoi p")
          case True
          then show ?thesis using udp c stay Cons R by auto
        next
          case False
          have run: "login_args env cfg cid ws pass ls =
              (if rc = 0 then login_args env cfg cid ws' pass (ls_set cid c1 ls)
               else if rc2 < -2 then Some (Args_Return rc2, ls2) else login_args env cfg cid ws' pass ls2)"
            using False udp c Cons R U W(1) by (simp add: Let_def)
          have 1: "went_on xs ys cid c (ls_set cid c1 ls)" using A1 B by (auto simp: went_on_def)
          have 2: "went_on xs ys cid c ls2" if "\<not> rc2 < -2" using that W(2) went_on_trans [OF B] by simp
          have "rc2 < -2 \<Longrightarrow> args_ok xs ys cid c ws pass (Args_Return rc2, ls2)" using W(2) by (simp add: args_ok_def)
          then show ?thesis unfolding run using on [OF 1] on [OF 2] by (cases "rc = 0"; cases "rc2 < -2") simp_all
        qed
      qed
    next
      case filt
      obtain rc ls1 where W: "reply env cid ''# No user-specified filters on this port'' ls = Some (rc, ls1)"
        "if rc < -2 then dead xs ys cid ls1 else went_on xs ys cid c ls1" using reply_on [OF less.prems env] by blast
      obtain r ls2 where F: "login_filters env cfg cid rest [] False ls = Some (r, ls2)"
        "case r of None \<Rightarrow> went_on xs ys cid c ls2 | Some rc \<Rightarrow> rc < -2 \<and> dead xs ys cid ls2"
        using login_filters_ok [OF less.prems env] by blast
      show ?thesis using filt c Cons W F by (auto simp: args_ok_def split: option.splits if_splits)
    next
      case other
      have "\<exists>r. login_args env cfg cid rest pass ls = Some r \<and> args_ok xs ys cid c ws pass r"
        using here by (intro IH) (auto simp: Cons)
      then show ?thesis using other c Cons by simp
    qed
  qed
qed
section \<open>The outcome of a login line\<close>

text \<open>The client is still to log in, it is connected, or it is closed.\<close>

definition waiting :: "nat list \<Rightarrow> nat list \<Rightarrow> nat \<Rightarrow> client_t \<Rightarrow> login_st \<Rightarrow> client_t \<Rightarrow> bool" where
  "waiting xs ys cid c ls c' \<longleftrightarrow> alive xs ys cid ls c' \<and> c_failed_cmds c < c_failed_cmds c' \<and> c_failed_cmds c' < 3 \<and>
     c_validated c' = c_validated c"

definition connected :: "nat list \<Rightarrow> nat list \<Rightarrow> nat \<Rightarrow> login_st \<Rightarrow> client_t \<Rightarrow> bool" where
  "connected xs ys cid ls c' \<longleftrightarrow> worker_inv (ls_clients ls) xs ys \<and> ls_get cid ls = Some c' \<and>
     c_state c' = CSTATE_CONNECTED \<and> c_handler_line_in c' = Incoming_Handler \<and> length (c_filter_s c') < FILTER_S_SIZE \<and>
     (\<exists>e \<in> set (cs_clientlist (ls_clients ls) (clientlist_bucket (keyhash (c_username c') 0))). e = clientlist_entry c')"

lemma failed_login_ok:
  assumes A: "if rc < -2 then dead xs ys cid ls else alive xs ys cid ls c"
  shows "\<exists>rc' ls'. failed_login cid rc ls = Some (rc', ls') \<and>
    (rc' < -2 \<and> dead xs ys cid ls' \<or>
     rc' = rc \<and> alive xs ys cid ls' (c\<lparr>c_failed_cmds := c_failed_cmds c + 1\<rparr>) \<and> c_failed_cmds c + 1 < 3)"
proof (cases "rc < -2")
  case True
  then show ?thesis using A by (simp add: failed_login_def)
next
  case False
  let ?c = "c\<lparr>c_failed_cmds := c_failed_cmds c + 1\<rparr>" let ?ls = "ls_set cid ?c ls"
  have A1: "alive xs ys cid ls c" using A False by simp
  have A2: "alive xs ys cid ?ls ?c" by (rule alive_set [OF A1]) simp_all
  have c: "ls_get cid ls = Some c" using A1 by (simp add: alive_def)
  show ?thesis
  proof (cases "3 \<le> c_failed_cmds ?c")
    case True
    obtain st' where "client_close cid (ls_clients ?ls) = Some st'" "worker_inv st' (remove1 cid xs) ys" "cs_store st' cid = None"
      using worker_inv_close [of "ls_clients ?ls" xs ys cid ?c] A2 by (auto simp: alive_def ls_get_def)
    then show ?thesis using True False c by (auto simp: failed_login_def Let_def dead_def)
  next
    case False
    then show ?thesis using \<open>\<not> rc < -2\<close> A2 c by (auto simp: failed_login_def Let_def)
  qed
qed

lemma reject_login_ok:
  assumes A: "alive xs ys cid ls c" and env: "clients_env_ok env" and v: "c_validated c = c_validated c0" "c_failed_cmds c0 \<le> c_failed_cmds c"
  shows "\<exists>rc ls'. reject_login env cid s ls = Some (rc, ls') \<and>
    (rc < -2 \<and> dead xs ys cid ls' \<or> (\<exists>c'. waiting xs ys cid c0 ls' c'))"
proof -
  obtain rc ls1 where R: "reply env cid s ls = Some (rc, ls1)" "if rc < -2 then dead xs ys cid ls1 else went_on xs ys cid c ls1"
    using reply_on [OF A env] by blast
  obtain c1 where c1: "if rc < -2 then dead xs ys cid ls1 else alive xs ys cid ls1 c1" "login_base c c1"
    using R(2) login_base_refl [of c] by (cases "rc < -2") (auto simp: went_on_def simp del: login_base_refl)
  have same: "c_validated c1 = c_validated c0" "c_failed_cmds c0 \<le> c_failed_cmds c1" using c1(2) v by (simp_all add: login_base_def)
  obtain rc' ls' where F: "failed_login cid rc ls1 = Some (rc', ls')"
    "rc' < -2 \<and> dead xs ys cid ls' \<or>
     rc' = rc \<and> alive xs ys cid ls' (c1\<lparr>c_failed_cmds := c_failed_cmds c1 + 1\<rparr>) \<and> c_failed_cmds c1 + 1 < 3"
    using failed_login_ok [OF c1(1)] by blast
  have "reject_login env cid s ls = Some (rc', ls')" using R(1) F(1) by (simp add: reject_login_def)
  moreover have "\<exists>c'. waiting xs ys cid c0 ls' c'"
    if "alive xs ys cid ls' (c1\<lparr>c_failed_cmds := c_failed_cmds c1 + 1\<rparr>)" "c_failed_cmds c1 + 1 < 3"
    using that same by (auto simp: waiting_def intro!: exI [of _ "c1\<lparr>c_failed_cmds := c_failed_cmds c1 + 1\<rparr>"])
  ultimately show ?thesis using F(2) by blast
qed

lemma clientlist_add_entry: "clientlist_add c cls = (fd, cls') \<Longrightarrow>
    clientlist_entry c \<in> set (cls' (clientlist_bucket (keyhash (c_username c) 0)))"
  by (auto simp: clientlist_add_def Let_def)

lemma worker_inv_mark:
  assumes I: "worker_inv st xs ys" and x: "x \<in> set xs"
    and c: "cs_store st x = Some c" "c_state c \<noteq> CSTATE_CONNECTED" "c_state c \<noteq> CSTATE_COREPEER"
  shows "worker_inv (worker_mark_client_connected x c st) xs ys"
    and "cs_store (worker_mark_client_connected x c st) x = Some (c\<lparr>c_state := CSTATE_CONNECTED\<rparr>)"
    and "cs_clientlist (worker_mark_client_connected x c st) = cs_clientlist st"
proof -
  have "clients_ok (worker_mark_client_connected x c st) xs ys"
    using mark_connected_ok [of st xs ys x c c] assms by (simp add: worker_inv_def)
  then show "worker_inv (worker_mark_client_connected x c st) xs ys"
    using I x c by (auto simp: worker_inv_def wired_def ids_ok_def worker_mark_client_connected_def Let_def)
qed (simp_all add: worker_mark_client_connected_def Let_def set_client_def worker_classify_client_def split: option.split)

lemma worker_inv_clientlist [simp]:
  "worker_inv (st\<lparr>cs_clientlist := cls\<rparr>) xs ys = worker_inv st xs ys" "worker_inv (log_event e st) xs ys = worker_inv st xs ys"
  by (simp_all add: worker_inv_def clients_ok_def lists_ok_def class_ok_def peers_ok_def wired_def ids_ok_def)

lemma sanitize_length: "length (sanitize_ascii_string s) \<le> length s"
  by (simp add: sanitize_ascii_string_def c_word_def length_takeWhile_le)
lemma login_finish_ok:
  assumes A: "alive xs ys cid ls c" and env: "clients_env_ok env" and fs: "length (c_filter_s c) < FILTER_S_SIZE"
  shows "\<exists>rc ls'. login_finish env cfg cid u ssl pass ls = Some (rc, ls') \<and>
    (rc < -2 \<and> dead xs ys cid ls' \<or>
     rc = 0 \<and> (\<exists>c'. connected xs ys cid ls' c' \<and> c_username c' = c_username c \<and>
       c_validated c' = (if \<not> ssl \<and> (\<exists>p. pass = Some p \<and> passcode_ok (c_username c) p) then VALIDATED_WEAK else c_validated c)))"
proof -
  define ok where "ok \<longleftrightarrow> \<not> ssl \<and> (case pass of None \<Rightarrow> False | Some p \<Rightarrow> passcode_ok (c_username c) p)"
  define c1 where "c1 = (if ok then c\<lparr>c_validated := VALIDATED_WEAK\<rparr> else c)"
  define c2 where "c2 = c1\<lparr>c_filter_s := sanitize_ascii_string (c_filter_s c1), c_handler_line_in := Incoming_Handler\<rparr>"
  let ?msg = "logresp_text u (c_validated c2 \<noteq> 0) (lc_serverid cfg)"
  let ?ls = "ls_set cid c2 ls"
  have c: "ls_get cid ls = Some c" using A by (simp add: alive_def)
  have c2: "c_id c2 = c_id c" "c_state c2 = c_state c" "c_flags c2 = c_flags c" "c_write c2 = c_write c" "c_username c2 = c_username c"
    "c_handler_line_in c2 = Incoming_Handler" "c_validated c2 = (if ok then VALIDATED_WEAK else c_validated c)"
    "length (c_filter_s c2) < FILTER_S_SIZE"
    using fs sanitize_length [of "c_filter_s c"] by (auto simp: c2_def c1_def)
  have A2: "alive xs ys cid ?ls c2" by (rule alive_set [OF A c2(1-4)])
  obtain rc ls1 where R: "reply env cid ?msg ?ls = Some (rc, ls1)"
    "if rc < -2 then dead xs ys cid ls1 else \<exists>ob. alive xs ys cid ls1 (c2\<lparr>c_obuf := ob\<rparr>)"
    using reply_ok [OF A2 env] by blast
  have run: "login_finish env cfg cid u ssl pass ls =
      (if rc < -2 then Some (rc, ls1)
       else (case ls_get cid ls1 of
               None \<Rightarrow> None
             | Some c3 \<Rightarrow>
                 let st1 = worker_mark_client_connected cid c3 (ls_clients ls1); c4 = c3\<lparr>c_state := CSTATE_CONNECTED\<rparr>;
                     (old_fd, cls) = clientlist_add c4 (cs_clientlist st1); st2 = st1\<lparr>cs_clientlist := cls\<rparr>;
                     st3 = (if c_validated c4 \<noteq> 0 \<and> old_fd \<noteq> -1 then log_event (Shutdown_Fd old_fd) st2 else st2)
                 in Some (0, ls1\<lparr>ls_clients := st3\<rparr>)))"
    unfolding login_finish_def c option.case ok_def [symmetric] Let_def c1_def [symmetric] c2_def [symmetric] R(1) prod.case ..
  show ?thesis
  proof (cases "rc < -2")
    case True
    then show ?thesis using run R(2) by simp
  next
    case False
    then obtain ob where A3: "alive xs ys cid ls1 (c2\<lparr>c_obuf := ob\<rparr>)" using R(2) by auto
    let ?c3 = "c2\<lparr>c_obuf := ob\<rparr>" and ?c4 = "c2\<lparr>c_obuf := ob, c_state := CSTATE_CONNECTED\<rparr>"
    let ?st1 = "worker_mark_client_connected cid ?c3 (ls_clients ls1)"
    have W: "worker_inv (ls_clients ls1) xs ys" "cid \<in> set xs" "cs_store (ls_clients ls1) cid = Some ?c3"
      "c_state ?c3 \<noteq> CSTATE_CONNECTED" "c_state ?c3 \<noteq> CSTATE_COREPEER" using A3 by (auto simp: alive_def ls_get_def)
    note M = worker_inv_mark [OF W]
    obtain fd cls where L: "clientlist_add ?c4 (cs_clientlist ?st1) = (fd, cls)" by fastforce
    let ?st2 = "?st1\<lparr>cs_clientlist := cls\<rparr>"
    let ?st3 = "if c_validated ?c4 \<noteq> 0 \<and> fd \<noteq> -1 then log_event (Shutdown_Fd fd) ?st2 else ?st2"
    have eq: "login_finish env cfg cid u ssl pass ls = Some (0, ls1\<lparr>ls_clients := ?st3\<rparr>)"
      using run False W(3) L by (simp add: Let_def ls_get_def)
    have "worker_inv ?st3 xs ys" using M(1) by simp
    moreover have "cs_store ?st3 cid = Some ?c4" using M(2) by simp
    moreover have "cs_clientlist ?st3 = cls" by simp
    ultimately have "connected xs ys cid (ls1\<lparr>ls_clients := ?st3\<rparr>) ?c4"
      using c2 clientlist_add_entry [OF L] by (simp add: connected_def)
    moreover have "ok \<longleftrightarrow> \<not> ssl \<and> (\<exists>p. pass = Some p \<and> passcode_ok (c_username c) p)" by (auto simp: ok_def split: option.splits)
    ultimately show ?thesis using eq c2 by (intro exI [of _ 0] exI [of _ "ls1\<lparr>ls_clients := ?st3\<rparr>"]) auto
  qed
qed

text \<open>A login line that is accepted: the user name passes all checks, and the validation of the client changes
  only for a passcode among its words that fits the name.\<close>

definition accepted :: "login_cfg \<Rightarrow> nat list \<Rightarrow> nat list \<Rightarrow> nat \<Rightarrow> client_t \<Rightarrow> string list \<Rightarrow> bool \<Rightarrow> login_st \<Rightarrow> bool" where
  "accepted cfg xs ys cid c ws ssl ls \<longleftrightarrow>
     (\<exists>c'. connected xs ys cid ls c' \<and> c_username c' = c_username c \<and>
        (c_validated c' = c_validated c \<or>
         \<not> ssl \<and> c_validated c' = VALIDATED_WEAK \<and> (\<exists>p \<in> set ws. passcode_ok (c_username c) p)))"

lemma login_rest_ok:
  assumes A: "alive xs ys cid ls c" and env: "clients_env_ok env" and fs: "length (c_filter_s c) < FILTER_S_SIZE"
  shows "\<exists>rc ls'. login_rest env cfg cid u ws ssl ls = Some (rc, ls') \<and>
    (rc < -2 \<and> dead xs ys cid ls' \<or> (\<exists>c'. waiting xs ys cid c ls' c') \<or> rc = 0 \<and> accepted cfg xs ys cid c ws ssl ls')"
proof -
  obtain r ls1 where R: "login_args env cfg cid ws None ls = Some (r, ls1)" "args_ok xs ys cid c ws None (r, ls1)"
    using login_args_ok [OF A env] by (metis surj_pair)
  show ?thesis
  proof (cases r)
    case (Args_Done pass)
    obtain c1 where c1: "alive xs ys cid ls1 c1" "login_base c c1" "pass = None \<or> pass \<in> Some ` set ws"
      using R(2) Args_Done by (auto simp: args_ok_def went_on_def)
    have fs1: "length (c_filter_s c1) < FILTER_S_SIZE" using c1(2) fs by (simp add: login_base_def)
    obtain rc ls' where F: "login_finish env cfg cid u ssl pass ls1 = Some (rc, ls')"
      "rc < -2 \<and> dead xs ys cid ls' \<or>
       rc = 0 \<and> (\<exists>c'. connected xs ys cid ls' c' \<and> c_username c' = c_username c1 \<and>
         c_validated c' = (if \<not> ssl \<and> (\<exists>p. pass = Some p \<and> passcode_ok (c_username c1) p) then VALIDATED_WEAK else c_validated c1))"
      using login_finish_ok [OF c1(1) env fs1, of cfg u ssl pass] by (elim exE conjE) (rule that)
    have same: "c_username c1 = c_username c" "c_validated c1 = c_validated c" using c1(2) by (simp_all add: login_base_def)
    have run: "login_rest env cfg cid u ws ssl ls = Some (rc, ls')" using R(1) Args_Done F(1) by (simp add: login_rest_def)
    from F(2) show ?thesis
    proof
      assume "rc < -2 \<and> dead xs ys cid ls'"
      then show ?thesis using run by blast
    next
      assume K: "rc = 0 \<and> (\<exists>c'. connected xs ys cid ls' c' \<and> c_username c' = c_username c1 \<and>
         c_validated c' = (if \<not> ssl \<and> (\<exists>p. pass = Some p \<and> passcode_ok (c_username c1) p) then VALIDATED_WEAK else c_validated c1))"
      then obtain c' where K': "connected xs ys cid ls' c'" "c_username c' = c_username c"
        "c_validated c' = (if \<not> ssl \<and> (\<exists>p. pass = Some p \<and> passcode_ok (c_username c) p) then VALIDATED_WEAK else c_validated c)"
        unfolding same by blast
      have "\<exists>p \<in> set ws. passcode_ok (c_username c) p" if "\<exists>p. pass = Some p \<and> passcode_ok (c_username c) p" using that c1(3) by auto
      then have "accepted cfg xs ys cid c ws ssl ls'" unfolding accepted_def using K' by (intro exI [of _ c']) auto
      then show ?thesis using run K by blast
    qed
  next
    case (Args_Failed rc)
    obtain c1 where c1: "if rc < -2 then dead xs ys cid ls1 else alive xs ys cid ls1 c1" "login_base c c1"
      using R(2) Args_Failed login_base_refl [of c] by (cases "rc < -2") (auto simp: args_ok_def went_on_def simp del: login_base_refl)
    obtain rc' ls' where F: "failed_login cid rc ls1 = Some (rc', ls')"
      "rc' < -2 \<and> dead xs ys cid ls' \<or>
       rc' = rc \<and> alive xs ys cid ls' (c1\<lparr>c_failed_cmds := c_failed_cmds c1 + 1\<rparr>) \<and> c_failed_cmds c1 + 1 < 3"
      using failed_login_ok [OF c1(1)] by blast
    have "login_rest env cfg cid u ws ssl ls = Some (rc', ls')" using R(1) Args_Failed F(1) by (simp add: login_rest_def)
    moreover have "\<exists>c'. waiting xs ys cid c ls' c'"
      if "alive xs ys cid ls' (c1\<lparr>c_failed_cmds := c_failed_cmds c1 + 1\<rparr>)" "c_failed_cmds c1 + 1 < 3"
      using that c1(2) by (auto simp: waiting_def login_base_def intro!: exI [of _ "c1\<lparr>c_failed_cmds := c_failed_cmds c1 + 1\<rparr>"])
    ultimately show ?thesis using F(2) by blast
  next
    case (Args_Return rc)
    then show ?thesis using R by (auto simp: login_rest_def args_ok_def)
  qed
qed

definition words :: "string \<Rightarrow> string list" where
  "words s = parse_args_noshell (c_word s)"

definition is_comment :: "string \<Rightarrow> bool" where
  "is_comment s \<longleftrightarrow> words s = [] \<or> rd (words s ! 0) 0 = CHR ''#''"

text \<open>The client after the checks of its name and certificate.\<close>

definition named :: "client_t \<Rightarrow> string \<Rightarrow> client_t" where
  "named c u = c\<lparr>c_username := u, c_validated := if c_ssl_validate c then VALIDATED_STRONG else c_validated c\<rparr>"

definition login_result ::
    "login_cfg \<Rightarrow> nat list \<Rightarrow> nat list \<Rightarrow> nat \<Rightarrow> client_t \<Rightarrow> string \<Rightarrow> login_st \<Rightarrow> int \<times> login_st \<Rightarrow> bool" where
  "login_result cfg xs ys cid c s ls r \<longleftrightarrow>
     (let (rc, ls') = r; u = words s ! 1
      in rc < -2 \<and> dead xs ys cid ls' \<or>
         is_comment s \<and> rc = 0 \<and> ls' = ls \<or>
         (\<exists>c'. waiting xs ys cid c ls' c') \<or> (\<exists>c'. waiting xs ys cid (named c u) ls' c' \<and> login_user_error cfg u = None) \<or>
         rc = 0 \<and> 2 \<le> length (words s) \<and> strcaseeq (words s ! 0) ''user'' \<and> length u \<le> CALLSIGNLEN_MAX \<and>
         login_user_error cfg u = None \<and> accepted cfg xs ys cid (named c u) (drop 2 (words s)) (c_ssl_validate c) ls')"

lemma login_handler_result:
  assumes A: "alive xs ys cid ls c" and env: "clients_env_ok env" and fs: "length (c_filter_s c) < FILTER_S_SIZE" and tries: "c_failed_cmds c < 3"
    and cert: "c_ssl_validate c \<longrightarrow> (\<forall>c'. lc_cert cfg c' = None)"
  shows "\<exists>r. login_handler env cfg cid s ls = Some r \<and> login_result cfg xs ys cid c s ls r"
proof -
  let ?argv = "words s" let ?u = "?argv ! 1" let ?c1 = "c\<lparr>c_username := ?u\<rparr>" let ?ls1 = "ls_set cid ?c1 ls"
  have c: "ls_get cid ls = Some c" using A by (simp add: alive_def)
  have rej: "\<exists>r. reject_login env cid m lsx = Some r \<and> login_result cfg xs ys cid c s ls r"
    if "alive xs ys cid lsx cx" "c_validated cx = c_validated c" "c_failed_cmds c \<le> c_failed_cmds cx" for m lsx cx
    using reject_login_ok [OF that(1) env that(2,3), of m] by (auto simp: login_result_def Let_def)
  have A1: "alive xs ys cid ?ls1 ?c1" by (rule alive_set [OF A]) simp_all
  note run = login_handler_def [of env cfg cid s ls, folded words_def, unfolded Let_def c option.case]
  consider (comment) "is_comment s" | (few) "\<not> is_comment s" "length ?argv < 2"
    | (cmd) "\<not> is_comment s" "\<not> length ?argv < 2" "\<not> strcaseeq (?argv ! 0) ''user''"
    | (long) "\<not> is_comment s" "\<not> length ?argv < 2" "strcaseeq (?argv ! 0) ''user''" "CALLSIGNLEN_MAX < length ?u"
    | (bad) m where "\<not> is_comment s" "\<not> length ?argv < 2" "strcaseeq (?argv ! 0) ''user''" "\<not> CALLSIGNLEN_MAX < length ?u"
        "login_user_error cfg ?u = Some m"
    | (good) "\<not> is_comment s" "\<not> length ?argv < 2" "strcaseeq (?argv ! 0) ''user''" "\<not> CALLSIGNLEN_MAX < length ?u"
        "login_user_error cfg ?u = None" by fastforce
  then show ?thesis
  proof cases
    case comment
    then show ?thesis by (simp add: run is_comment_def [symmetric] login_result_def Let_def)
  next
    case few
    then show ?thesis using rej [OF A] by (simp add: run is_comment_def [symmetric])
  next
    case cmd
    let ?n = "if strcaseeq (?argv ! 0) ''GET'' then 10 else c_failed_cmds c"
    have "c_failed_cmds c \<le> ?n + 1" using tries by auto
    moreover have "alive xs ys cid (ls_set cid (c\<lparr>c_failed_cmds := ?n + 1\<rparr>) ls) (c\<lparr>c_failed_cmds := ?n + 1\<rparr>)"
      by (rule alive_set [OF A]) simp_all
    ultimately show ?thesis using rej cmd by (simp add: run is_comment_def [symmetric] split del: if_split)
  next
    case long
    then show ?thesis using rej [OF A] by (simp add: run is_comment_def [symmetric])
  next
    case bad
    then show ?thesis using rej [OF A1] by (simp add: run is_comment_def [symmetric])
  next
    case good
    let ?c2 = "named c ?u" and ?ssl = "c_ssl_validate c"
    let ?ls2 = "if ?ssl then ls_set cid ?c2 ?ls1 else ?ls1"
    have eq: "login_handler env cfg cid s ls = login_rest env cfg cid ?u (drop 2 ?argv) ?ssl ?ls2"
      using good cert by (auto simp: run is_comment_def [symmetric] login_client_validate_cert_def named_def)
    have "alive xs ys cid (ls_set cid ?c2 ?ls1) ?c2" by (rule alive_set [OF A1]) (simp_all add: named_def)
    then have "alive xs ys cid ?ls2 ?c2" using A1 by (auto simp: named_def)
    moreover have "length (c_filter_s ?c2) < FILTER_S_SIZE" using fs by (simp add: named_def)
    ultimately have "\<exists>rc ls'. login_rest env cfg cid ?u (drop 2 ?argv) ?ssl ?ls2 = Some (rc, ls') \<and>
      (rc < -2 \<and> dead xs ys cid ls' \<or> (\<exists>c'. waiting xs ys cid ?c2 ls' c') \<or>
       rc = 0 \<and> accepted cfg xs ys cid ?c2 (drop 2 ?argv) ?ssl ls')"
      by (rule login_rest_ok [OF _ env])
    then show ?thesis using eq good by (auto simp: login_result_def Let_def)
  qed
qed
section \<open>Properties\<close>

lemma login_result_get:
  assumes "login_result cfg xs ys cid c s ls (rc, ls')" and "alive xs ys cid ls c" and "ls_get cid ls' = Some c'"
  shows "is_comment s \<and> c' = c \<or> waiting xs ys cid c ls' c' \<or>
    waiting xs ys cid (named c (words s ! 1)) ls' c' \<and> login_user_error cfg (words s ! 1) = None \<or>
    2 \<le> length (words s) \<and> strcaseeq (words s ! 0) ''user'' \<and> length (words s ! 1) \<le> CALLSIGNLEN_MAX \<and>
    login_user_error cfg (words s ! 1) = None \<and> connected xs ys cid ls' c' \<and> c_username c' = words s ! 1 \<and>
    (c_validated c' = c_validated (named c (words s ! 1)) \<or>
     \<not> c_ssl_validate c \<and> (\<exists>p \<in> set (drop 2 (words s)). passcode_ok (words s ! 1) p))"
proof -
  have eqs: "waiting xs ys cid c0 ls' c1 \<Longrightarrow> c1 = c'" "connected xs ys cid ls' c1 \<Longrightarrow> c1 = c'" for c0 c1
    using assms(3) by (auto simp: waiting_def alive_def connected_def)
  have u: "c_username (named c u) = u" for u by (simp add: named_def)
  consider "dead xs ys cid ls'" | (comment) "is_comment s" "ls' = ls" | (wait) c1 where "waiting xs ys cid c ls' c1"
    | (named) c1 where "waiting xs ys cid (named c (words s ! 1)) ls' c1" "login_user_error cfg (words s ! 1) = None"
    | (accept) "2 \<le> length (words s)" "strcaseeq (words s ! 0) ''user''" "length (words s ! 1) \<le> CALLSIGNLEN_MAX"
        "login_user_error cfg (words s ! 1) = None"
        "accepted cfg xs ys cid (named c (words s ! 1)) (drop 2 (words s)) (c_ssl_validate c) ls'"
    using assms(1) unfolding login_result_def Let_def prod.case by (elim disjE exE conjE)
  then show ?thesis
  proof cases
    case 1
    then show ?thesis using assms(3) by (simp add: dead_def)
  next
    case comment
    then show ?thesis using assms(2,3) by (simp add: alive_def)
  next
    case wait
    then show ?thesis using eqs(1) [OF wait] by simp
  next
    case named
    then show ?thesis using eqs(1) [OF named(1)] by simp
  next
    case accept
    obtain c1 where c1: "connected xs ys cid ls' c1" "c_username c1 = words s ! 1"
      "c_validated c1 = c_validated (named c (words s ! 1)) \<or>
       \<not> c_ssl_validate c \<and> c_validated c1 = VALIDATED_WEAK \<and> (\<exists>p \<in> set (drop 2 (words s)). passcode_ok (words s ! 1) p)"
      using accept(5) unfolding accepted_def u by (elim exE conjE) (rule that)
    have "c1 = c'" by (rule eqs(2) [OF c1(1)])
    then show ?thesis using accept(1-4) c1 by blast
  qed
qed

text \<open>A login line is handled without touching a closed client, and the lists of the worker stay in order: the client
  is still in them, or it has been closed and taken out, which the return code tells.\<close>

theorem login_keeps_lists:
  assumes "alive xs ys cid ls c" and "clients_env_ok env" and "length (c_filter_s c) < FILTER_S_SIZE" and "c_failed_cmds c < 3"
    and "c_ssl_validate c \<longrightarrow> (\<forall>c'. lc_cert cfg c' = None)"
  shows "\<exists>rc ls'. login_handler env cfg cid s ls = Some (rc, ls') \<and>
    (if ls_get cid ls' = None then rc < -2 \<and> worker_inv (ls_clients ls') (remove1 cid xs) ys
     else worker_inv (ls_clients ls') xs ys)"
proof -
  obtain rc ls' where R: "login_handler env cfg cid s ls = Some (rc, ls')" "login_result cfg xs ys cid c s ls (rc, ls')"
    using login_handler_result [OF assms] by (metis surj_pair)
  have "if ls_get cid ls' = None then rc < -2 \<and> worker_inv (ls_clients ls') (remove1 cid xs) ys else worker_inv (ls_clients ls') xs ys"
  proof (cases "ls_get cid ls'")
    case None
    then have "\<not> waiting xs ys cid c0 ls' c'" "\<not> connected xs ys cid ls' c'" "ls' \<noteq> ls" for c0 c'
      using assms(1) by (auto simp: waiting_def connected_def alive_def)
    then show ?thesis using R(2) None by (auto simp: login_result_def Let_def accepted_def dead_def)
  next
    case (Some c')
    then show ?thesis
      using login_result_get [OF R(2) assms(1) Some] R(2) assms(1)
      by (auto simp: waiting_def connected_def alive_def login_result_def Let_def dead_def accepted_def)
  qed
  then show ?thesis using R(1) by blast
qed


text \<open>Each line that is rejected counts, and the third one closes the connection: a client that is neither connected
  nor closed has a higher count than before, and it is below three.\<close>

theorem login_attempts_bounded:
  assumes "alive xs ys cid ls c" and "clients_env_ok env" and "length (c_filter_s c) < FILTER_S_SIZE" and "c_failed_cmds c < 3"
    and "c_ssl_validate c \<longrightarrow> (\<forall>c'. lc_cert cfg c' = None)"
    and "login_handler env cfg cid s ls = Some (rc, ls')" and "ls_get cid ls' = Some c'" and "c_state c' \<noteq> CSTATE_CONNECTED"
    and "\<not> is_comment s"
  shows "c_failed_cmds c < c_failed_cmds c' \<and> c_failed_cmds c' < 3"
proof -
  have R: "login_result cfg xs ys cid c s ls (rc, ls')" using login_handler_result [OF assms(1-5), of s] assms(6) by auto
  have "\<not> connected xs ys cid ls' c'" using assms(8) by (simp add: connected_def)
  then show ?thesis using login_result_get [OF R assms(1,7)] assms(9) by (auto simp: waiting_def named_def)
qed

text \<open>A login with the right passcode succeeds: unless the reply cannot be written and the connection is closed, the
  client is connected and validated.\<close>

theorem login_accepts:
  assumes A: "alive xs ys cid ls c" and env: "clients_env_ok env" and fs: "length (c_filter_s c) < FILTER_S_SIZE"
    and line: "words s = [w, u, w2, p]" "strcaseeq w ''user''" "strcaseeq w2 ''pass''"
    and user: "length u \<le> CALLSIGNLEN_MAX" "login_user_error cfg u = None" "passcode_ok u p" "\<not> c_ssl_validate c"
  shows "\<exists>rc ls'. login_handler env cfg cid s ls = Some (rc, ls') \<and>
    (rc < -2 \<and> ls_get cid ls' = None \<or>
     rc = 0 \<and> (\<exists>c'. ls_get cid ls' = Some c' \<and> c_state c' = CSTATE_CONNECTED \<and> c_validated c' = VALIDATED_WEAK \<and> c_username c' = u))"
proof -
  let ?c1 = "c\<lparr>c_username := u\<rparr>" let ?ls1 = "ls_set cid ?c1 ls"
  have c: "ls_get cid ls = Some c" using A by (simp add: alive_def)
  have A1: "alive xs ys cid ?ls1 ?c1" by (rule alive_set [OF A]) simp_all
  have "map toupper w = ''USER''" using line(2) by (simp add: strcaseeq_def cstr_simps)
  then have w: "w \<noteq> []" "rd w 0 \<noteq> CHR ''#''" by (cases w; auto simp: rd_def cstr_simps)+
  have fs1: "length (c_filter_s ?c1) < FILTER_S_SIZE" using fs by simp
  have run: "login_handler env cfg cid s ls = login_finish env cfg cid u False (Some p) ?ls1"
    using c line user w(2)
    by (simp add: login_handler_def words_def [symmetric] Let_def login_rest_def)
  obtain rc ls' where F: "login_finish env cfg cid u False (Some p) ?ls1 = Some (rc, ls')"
    "rc < -2 \<and> dead xs ys cid ls' \<or>
     rc = 0 \<and> (\<exists>c'. connected xs ys cid ls' c' \<and> c_username c' = u \<and> c_validated c' = VALIDATED_WEAK)"
    using login_finish_ok [OF A1 env fs1, of cfg u False "Some p"] user(3) by auto
  then show ?thesis using run by (auto simp: dead_def connected_def)
qed

section \<open>Concrete logins\<close>

text \<open>A worker with one TLS client that is to log in; \<open>rc\<close> is what a write to its socket returns.\<close>

definition demo_tls_env :: "int \<Rightarrow> clients_env" where
  "demo_tls_env rc = (demo_clients_env True 0)\<lparr>we_ssl := (\<lambda>c. True), we_other := (\<lambda>w c s. rc)\<rparr>"

lemma demo_tls_env_ok: "clients_env_ok (demo_tls_env rc)"
  by (simp add: clients_env_ok_def demo_tls_env_def demo_clients_env_def)

definition demo_login_client :: client_t where
  "demo_login_client = demo_client\<lparr>c_state := CSTATE_LOGIN, c_flags := CLFLAGS_USERFILTEROK, c_write := None, c_username := [], c_validated := 0,
     c_failed_cmds := 0, c_filter_s := [], c_ssl_validate := False,
     c_obuf := obuf_init 100, c_ai_protocol := IPPROTO_TCP\<rparr>"

definition demo_login_queue :: clients_state where
  "demo_login_queue = pass_client_to_worker 1 (set_client 1 demo_login_client no_clients)"

definition demo_login_clients :: clients_state where
  "demo_login_clients = the (collect_new_clients (demo_tls_env 0) demo_login_queue)"

definition demo_login :: login_st where
  "demo_login = \<lparr>ls_clients = demo_login_clients, ls_gauge = 0\<rparr>"

definition demo_login_cfg :: login_cfg where
  "demo_login_cfg = \<lparr>lc_serverid = ''T2FIN'', lc_disallow_login_glob = None, lc_fnmatch = (=), lc_quirks_mode = False,
     lc_cert = (\<lambda>c. None), lc_alloc = True\<rparr>"

lemmas demo_login_defs = demo_login_client_def demo_client_def obuf_init_def clflag_defs has_flag_def

lemma demo_login_links: "cs_links demo_login_queue = link_back New_Clients_Head None 1 no_links" "cs_store demo_login_queue = [1 \<mapsto> demo_login_client]"
  "cs_new_last demo_login_queue = Some 1" "cs_class demo_login_queue = no_links" "cs_peers demo_login_queue = []"
  by (simp_all add: demo_login_queue_def pass_client_to_worker_def no_clients_def)

lemma demo_login_collect:
  "collect_new_clients (demo_tls_env 0) demo_login_queue = Some demo_login_clients \<and>
   cs_store demo_login_clients = [1 \<mapsto> demo_login_client\<lparr>c_write := Some Ssl_Client_Write\<rparr>] \<and>
   cs_links demo_login_clients = link_front Clients_Head 1 (link_back New_Clients_Head None 1 no_links\<lparr>l_head := \<lambda>_. None\<rparr>)"
proof -
  have "(l_head (link_back New_Clients_Head None 1 no_links))(New_Clients_Head := None) = (\<lambda>_. None)"
    by (auto simp: link_back_def no_links_def fun_eq_iff)
  then have "\<exists>st. collect_new_clients (demo_tls_env 0) demo_login_queue = Some st \<and>
      cs_store st = [1 \<mapsto> demo_login_client\<lparr>c_write := Some Ssl_Client_Write\<rparr>] \<and>
      cs_links st = link_front Clients_Head 1 (link_back New_Clients_Head None 1 no_links\<lparr>l_head := \<lambda>_. None\<rparr>)"
    unfolding collect_new_clients_def demo_login_links
    by (simp add: link_back_def loop_eqs collect_one_def demo_login_links collect_link_def Let_def collect_writer_def demo_login_defs client_class_of_def
          demo_tls_env_def demo_clients_env_def worker_classify_client_def no_links_def)
  then show ?thesis by (auto simp: demo_login_clients_def)
qed

abbreviation demo_ready :: client_t where
  "demo_ready \<equiv> demo_login_client\<lparr>c_write := Some Ssl_Client_Write\<rparr>"

lemma demo_alive: "\<exists>ys. alive [1] ys 1 demo_login demo_ready"
proof -
  have "clients_reach (demo_tls_env 0) demo_timeouts demo_login_queue"
    unfolding demo_login_queue_def
    by (rule clients_reach.Step [OF clients_reach.Start clients_step.New]) (simp_all add: no_clients_def demo_login_defs)
  then have "clients_reach (demo_tls_env 0) demo_timeouts demo_login_clients"
    using demo_login_collect by (blast intro: clients_reach.Step clients_step.Collect)
  then obtain xs ys where I: "worker_inv demo_login_clients xs ys" using reach_inv demo_tls_env_ok by blast
  then have "client_list demo_login_clients xs" using clients_ok_list by (auto simp: worker_inv_def)
  moreover have "client_list demo_login_clients [1]"
    using demo_login_collect by (simp add: link_front_def set_prevp_def Let_def)
  ultimately have "xs = [1]" using linked_unique by blast
  then show ?thesis using I demo_login_collect
    by (auto simp: alive_def demo_login_def ls_get_def demo_login_client_def)
qed

lemma demo_alive_login:
  assumes "\<And>ys. alive [1] ys 1 demo_login demo_ready \<Longrightarrow> P"
  shows P
  using demo_alive assms by blast

definition demo_line :: string where
  "demo_line = ''user N0CALL pass 13023''"

lemma demo_login_words: "words demo_line = [''user'', ''N0CALL'', ''pass'', ''13023'']"
proof -
  have "parse_args_noshell_loop (Suc (Suc (Suc (Suc (Suc n))))) demo_line = [''user'', ''N0CALL'', ''pass'', ''13023'']" for n
    by (simp add: demo_line_def isspace_def byte_code_def)
  from this [of 250] have "parse_args_noshell_loop 255 demo_line = [''user'', ''N0CALL'', ''pass'', ''13023'']"
    by (simp only: Suc_numeral semiring_norm)
  moreover have "c_word demo_line = demo_line" by (simp add: c_word_def demo_line_def)
  ultimately show ?thesis by (simp add: words_def parse_args_noshell_def)
qed

lemma demo_passcode: "passcode_ok ''N0CALL'' ''13023''"
proof -
  have "root_call 9 ''N0CALL'' = ''N0CALL''" by (simp add: numeral_eq_Suc cstr_simps toupper_def ctype_defs byte_code_def)
  then have "aprs_passcode ''N0CALL'' = 13023"
    by (simp add: aprs_passcode_def kKey_def char16_def schar_def byte_code_def)
  moreover have "atoi ''13023'' = 13023"
    by (simp add: atoi_def isspace_def num_val_def digit_val_def is_digit_def byte_code_def toupper_def is_lower_def)
  ultimately show ?thesis by (simp add: passcode_ok_def)
qed

lemma demo_user: "login_user_error demo_login_cfg ''N0CALL'' = None"
  by (simp add: login_user_error_def user_disallowed_def glob_disallowed_def disallow_login_usernames_def demo_login_cfg_def
      strcaseeq_def check_invalid_q_callsign_def len_defs cstr_simps)

lemma demo_ready_simps: "length (c_filter_s demo_ready) < FILTER_S_SIZE" "c_failed_cmds demo_ready < 3" "\<not> c_ssl_validate demo_ready"
   "c_validated demo_ready = 0"
  by (simp_all add: demo_login_client_def FILTER_S_SIZE_def)

theorem login_keeps_lists_witness:
  "\<exists>ys rc ls'. login_handler (demo_tls_env 0) demo_login_cfg 1 demo_line demo_login = Some (rc, ls') \<and>
    (if ls_get 1 ls' = None then rc < -2 \<and> worker_inv (ls_clients ls') (remove1 1 [1]) ys else worker_inv (ls_clients ls') [1] ys)"
proof (rule demo_alive_login)
  fix ys assume "alive [1] ys 1 demo_login demo_ready"
  then show ?thesis
    using login_keeps_lists [of "[1]" ys 1 demo_login demo_ready "demo_tls_env 0" demo_login_cfg demo_line]
      demo_tls_env_ok demo_ready_simps by blast
qed


lemma demo_store: "ls_get 1 demo_login = Some demo_ready"
  using demo_login_collect by (simp add: demo_login_def ls_get_def)

lemma demo_tls_reply: "ls_get cid ls = Some c \<Longrightarrow> c_write c = Some Ssl_Client_Write \<Longrightarrow> length s < 500 \<Longrightarrow>
    reply (demo_tls_env 0) cid s ls = Some (0, ls)"
  by (simp add: reply_def printf_client_def write_client_def ls_get_def demo_tls_env_def demo_clients_env_def len_defs)

lemma demo_run: "\<exists>ls' c'. login_handler (demo_tls_env 0) demo_login_cfg 1 demo_line demo_login = Some (0, ls') \<and>
    ls_get 1 ls' = Some c' \<and> c_state c' = CSTATE_CONNECTED \<and> c_username c' = ''N0CALL'' \<and> c_validated c' = VALIDATED_WEAK"
proof (rule demo_alive_login)
  fix ys assume A: "alive [1] ys 1 demo_login demo_ready"
  let ?c1 = "demo_ready\<lparr>c_username := ''N0CALL''\<rparr>"
  have A1: "alive [1] ys 1 (ls_set 1 ?c1 demo_login) ?c1" by (rule alive_set [OF A]) simp_all
  have run: "login_handler (demo_tls_env 0) demo_login_cfg 1 demo_line demo_login =
      login_finish (demo_tls_env 0) demo_login_cfg 1 ''N0CALL'' False (Some ''13023'') (ls_set 1 ?c1 demo_login)"
    using demo_store demo_user demo_login_words demo_ready_simps
    by (simp add: login_handler_def words_def [symmetric] Let_def login_rest_def strcaseeq_def cstr_simps rd_def len_defs)
  obtain rc ls' where F: "login_finish (demo_tls_env 0) demo_login_cfg 1 ''N0CALL'' False (Some ''13023'') (ls_set 1 ?c1 demo_login) = Some (rc, ls')"
     "rc < -2 \<and> dead [1] ys 1 ls' \<or>
      rc = 0 \<and> (\<exists>c'. connected [1] ys 1 ls' c' \<and> c_username c' = ''N0CALL'' \<and> c_validated c' = VALIDATED_WEAK)"
    using login_finish_ok [OF A1 demo_tls_env_ok, of 0 demo_login_cfg "''N0CALL''" False "Some ''13023''"] demo_ready_simps demo_passcode by auto
  have "rc = 0" using F(1) demo_passcode
    by (auto simp: login_finish_def Let_def demo_tls_reply logresp_text_def demo_login_client_def demo_login_cfg_def split: prod.splits)
  then show ?thesis using run F by (auto simp: connected_def)
qed


text \<open>A line with a single word is rejected, and the client may try again.\<close>

lemma demo_reject: "\<exists>ls' c'. login_handler (demo_tls_env 0) demo_login_cfg 1 ''x'' demo_login = Some (0, ls') \<and>
    ls_get 1 ls' = Some c' \<and> c_state c' = CSTATE_LOGIN \<and> \<not> is_comment ''x''"
proof -
  have "parse_args_noshell_loop (Suc (Suc n)) ''x'' = [''x'']" for n by (simp add: isspace_def byte_code_def)
  from this [of 253] have "parse_args_noshell_loop 255 ''x'' = [''x'']" by (simp only: Suc_numeral semiring_norm)
  then have w: "words ''x'' = [''x'']" by (simp add: words_def c_word_def parse_args_noshell_def)
  have nc: "\<not> is_comment ''x''" by (simp add: is_comment_def w rd_def)
  let ?m = "''# Invalid login string, too few arguments''" let ?c = "demo_ready\<lparr>c_failed_cmds := 1\<rparr>"
  have "reply (demo_tls_env 0) 1 ?m demo_login = Some (0, demo_login)" by (rule demo_tls_reply [OF demo_store]) simp_all
  moreover have "failed_login 1 0 demo_login = Some (0, ls_set 1 ?c demo_login)"
    using demo_store by (simp add: failed_login_def Let_def demo_login_client_def)
  ultimately have "login_handler (demo_tls_env 0) demo_login_cfg 1 ''x'' demo_login = Some (0, ls_set 1 ?c demo_login)"
    using nc w demo_store by (simp add: login_handler_def words_def [symmetric] is_comment_def reject_login_def)
  then show ?thesis using nc by (auto simp: demo_login_client_def)
qed

theorem login_attempts_bounded_witness:
  "\<exists>ls' c'. login_handler (demo_tls_env 0) demo_login_cfg 1 ''x'' demo_login = Some (0, ls') \<and> ls_get 1 ls' = Some c' \<and>
    0 < c_failed_cmds c' \<and> c_failed_cmds c' < 3"
proof (rule demo_alive_login)
  fix ys assume A: "alive [1] ys 1 demo_login demo_ready"
  obtain ls' c' where R: "login_handler (demo_tls_env 0) demo_login_cfg 1 ''x'' demo_login = Some (0, ls')"
    "ls_get 1 ls' = Some c'" "c_state c' \<noteq> CSTATE_CONNECTED" "\<not> is_comment ''x''" using demo_reject by fastforce
  have cert: "c_ssl_validate demo_ready \<longrightarrow> (\<forall>c'. lc_cert demo_login_cfg c' = None)" by (simp add: demo_login_cfg_def)
  show ?thesis
    using login_attempts_bounded [OF A demo_tls_env_ok demo_ready_simps(1,2) cert R] R by (auto simp: demo_login_client_def)
qed

theorem login_accepts_witness:
  "\<exists>rc ls'. login_handler (demo_tls_env 0) demo_login_cfg 1 demo_line demo_login = Some (rc, ls') \<and>
    (rc < -2 \<and> ls_get 1 ls' = None \<or>
     rc = 0 \<and> (\<exists>c'. ls_get 1 ls' = Some c' \<and> c_state c' = CSTATE_CONNECTED \<and> c_validated c' = VALIDATED_WEAK \<and> c_username c' = ''N0CALL''))"
proof (rule demo_alive_login)
  fix ys assume A: "alive [1] ys 1 demo_login demo_ready"
  have "strcaseeq ''user'' ''user''" "strcaseeq ''pass'' ''pass''" "length ''N0CALL'' \<le> CALLSIGNLEN_MAX"
    by (simp_all add: strcaseeq_def len_defs)
  then show ?thesis
    using login_accepts [OF A demo_tls_env_ok demo_ready_simps(1) demo_login_words _ _ _ demo_user demo_passcode demo_ready_simps(3)] by blast
qed

section \<open>A rejected certificate\<close>

text \<open>C38. When the certificate of a TLS client is not accepted and the write of the reply closes the client,
  \<^verbatim>\<open>login_client_validate_cert\<close> stores the count of failures in the client that has just been freed.\<close>

theorem rejected_cert_uses_closed_client:
  assumes A: "alive xs ys cid ls c" and tls: "c_write c = Some Ssl_Client_Write" "c_ssl_validate c"
    and line: "words s = [w, u]" "strcaseeq w ''user''" "length u \<le> CALLSIGNLEN_MAX" "login_user_error cfg u = None"
    and cert: "lc_cert cfg (c\<lparr>c_username := u\<rparr>) = Some msg" "length msg + 2 < PACKETLEN_MAX"
    and lost: "we_other env Ssl_Client_Write (c\<lparr>c_username := u\<rparr>) (msg @ CRLF) < -2"
  shows "login_handler env cfg cid s ls = None"
proof -
  let ?c1 = "c\<lparr>c_username := u\<rparr>" let ?ls1 = "ls_set cid ?c1 ls"
  have c: "ls_get cid ls = Some c" using A by (simp add: alive_def)
  have A1: "alive xs ys cid ?ls1 ?c1" by (rule alive_set [OF A]) simp_all
  have "map toupper w = ''USER''" using line(2) by (simp add: strcaseeq_def cstr_simps)
  then have w: "rd w 0 \<noteq> CHR ''#''" by (cases w) (auto simp: rd_def cstr_simps)
  obtain st' where S: "client_close cid (ls_clients ?ls1) = Some st'" "cs_store st' cid = None"
    using worker_inv_close [of "ls_clients ?ls1" xs ys cid ?c1] A1 by (auto simp: alive_def ls_get_def)
  have "reply env cid msg ?ls1 = Some (we_other env Ssl_Client_Write ?c1 (msg @ CRLF), ?ls1\<lparr>ls_clients := st'\<rparr>)"
    using cert(2) lost S(1) tls(1) by (simp add: reply_def printf_client_def write_client_def)
  then have "login_client_validate_cert env cfg cid ?c1 ?ls1 = None"
    using S(2) by (simp add: login_client_validate_cert_def cert(1) ls_get_def)
  then show ?thesis using c line w tls(2) by (simp add: login_handler_def words_def [symmetric] Let_def)
qed

theorem rejected_cert_uses_closed_client_witness:
  "login_handler (demo_tls_env (-9)) (demo_login_cfg\<lparr>lc_cert := \<lambda>c. Some ''# not accepted''\<rparr>) 1 ''user N0CALL''
     (ls_set 1 (demo_ready\<lparr>c_ssl_validate := True\<rparr>) demo_login) = None"
proof (rule demo_alive_login)
  fix ys assume A: "alive [1] ys 1 demo_login demo_ready"
  let ?c = "demo_ready\<lparr>c_ssl_validate := True\<rparr>" let ?cfg = "demo_login_cfg\<lparr>lc_cert := \<lambda>c. Some ''# not accepted''\<rparr>"
  have A1: "alive [1] ys 1 (ls_set 1 ?c demo_login) ?c" by (rule alive_set [OF A]) simp_all
  have "parse_args_noshell_loop (Suc (Suc (Suc n))) ''user N0CALL'' = [''user'', ''N0CALL'']" for n
    by (simp add: isspace_def byte_code_def)
  from this [of 252] have "parse_args_noshell_loop 255 ''user N0CALL'' = [''user'', ''N0CALL'']"
    by (simp only: Suc_numeral semiring_norm)
  then have w: "words ''user N0CALL'' = [''user'', ''N0CALL'']" by (simp add: words_def c_word_def parse_args_noshell_def)
  have u: "login_user_error ?cfg ''N0CALL'' = None"
    by (simp add: login_user_error_def user_disallowed_def glob_disallowed_def disallow_login_usernames_def demo_login_cfg_def
        strcaseeq_def check_invalid_q_callsign_def len_defs cstr_simps)
  show ?thesis
    by (rule rejected_cert_uses_closed_client [OF A1 _ _ w _ _ u, where msg = "''# not accepted''"])
      (simp_all add: strcaseeq_def len_defs demo_tls_env_def)
qed

end
