(* ===== verification/Sock_Addr.thy ===== *)
theory Sock_Addr
  imports Worker_Types
begin

text \<open>
  Socket addresses, and the hexadecimal text of one that \<^verbatim>\<open>worker.c\<close> puts in q constructs (\<^verbatim>\<open>hexsockaddr\<close>).
\<close>

unbundle bit_operations_syntax

section \<open>Addresses as words\<close>

definition be32 :: "8 word list \<Rightarrow> u32" where
  "be32 bs = foldl (\<lambda>w b. push_bit 8 w OR ucast b) 0 bs"

fun be32s :: "8 word list \<Rightarrow> u32 list" where
  "be32s (a # b # c # d # bs) = be32 [a, b, c, d] # be32s bs"
| "be32s bs = []"

text \<open>\<^verbatim>\<open>IN6_IS_ADDR_V4MAPPED\<close> and \<^verbatim>\<open>IN6_IS_ADDR_V4COMPAT\<close>.\<close>

definition v4_in_v6 :: "u32 list \<Rightarrow> bool" where
  "v4_in_v6 ws \<longleftrightarrow> ws ! 0 = 0 \<and> ws ! 1 = 0 \<and> (ws ! 2 = 0xFFFF \<or> ws ! 2 = 0 \<and> 1 < ws ! 3)"

fun addr_words :: "sockaddr_u \<Rightarrow> u32 list" where
  "addr_words (SA_INET bs port) = [be32 bs]"
| "addr_words (SA_INET6 bs port) = be32s bs"

fun addr_wf :: "sockaddr_u \<Rightarrow> bool" where
  "addr_wf (SA_INET bs port) = (length bs = 4)"
| "addr_wf (SA_INET6 bs port) = (length bs = 16)"

text \<open>The address of a peer that speaks IPv4 through IPv6 is its IPv4 address.\<close>

definition peer_words :: "sockaddr_u \<Rightarrow> u32 list" where
  "peer_words sa = (let ws = addr_words sa in if length ws = 4 \<and> v4_in_v6 ws then [ws ! 3] else ws)"

lemma length_be32s: "length (be32s bs) = length bs div 4"
  by (induction bs rule: be32s.induct) simp_all

lemma length_addr_words: "addr_wf sa \<Longrightarrow> length (addr_words sa) = 1 \<or> length (addr_words sa) = 4"
  by (cases sa) (simp_all add: length_be32s)

lemma length_peer_words: "addr_wf sa \<Longrightarrow> length (peer_words sa) = 1 \<or> length (peer_words sa) = 4"
  using length_addr_words [of sa] by (auto simp: peer_words_def Let_def)

section \<open>Hexadecimal addresses\<close>

definition hex_digit :: "nat \<Rightarrow> char" where
  "hex_digit n = char_of (if n < 10 then 48 + n else 55 + n)"

text \<open>\<^verbatim>\<open>%02X\<close> of a byte.\<close>

definition hex_byte :: "8 word \<Rightarrow> string" where
  "hex_byte b = [hex_digit (unat b div 16), hex_digit (unat b mod 16)]"

fun hexsockaddr :: "sockaddr_u \<Rightarrow> string" where
  "hexsockaddr (SA_INET bs port) = concat (map hex_byte bs)"
| "hexsockaddr (SA_INET6 bs port) =
     concat (map hex_byte (if v4_in_v6 (be32s bs) then drop 12 bs else bs))"

lemma length_hexsockaddr: "addr_wf sa \<Longrightarrow> length (hexsockaddr sa) \<le> 32"
  by (cases sa) (simp_all add: length_concat hex_byte_def o_def sum_list_triv)

end
