(* ===== verification/Acl.thy ===== *)
theory Acl
  imports C_Scan Cfgfile Sock_Addr
begin

text \<open>
  \<^verbatim>\<open>src/src/acl.c\<close>: access lists of networks, loaded from a file and checked for every connection. A listener works on
  a copy (\<^verbatim>\<open>acl_dup\<close>) of the list that was loaded. Loading puts each rule in front of the list, copying reverses it
  again, so that the rules of the file apply in their order. The name resolver is an argument.
\<close>

unbundle bit_operations_syntax

section \<open>Lists and entries\<close>

text \<open>Addresses are kept as 32-bit words in host order. For an IPv6 entry the code keeps both the address and the
  mask in network order; a bytewise operation on both gives the same.\<close>

record acl_e4_t =
  e4_addr :: u32
  e4_mask :: u32
  e4_allow :: bool

record acl_e6_t =
  e6_addr :: "u32 list"
  e6_mask :: "u32 list"
  e6_prefixlen :: nat
  e6_allow :: bool

record acl_t =
  entries4 :: "acl_e4_t list"
  entries6 :: "acl_e6_t list"

definition acl_new :: acl_t where
  "acl_new = \<lparr>entries4 = [], entries6 = []\<rparr>"

text \<open>Each entry is put in front of the copy.\<close>

definition acl_dup :: "acl_t \<Rightarrow> acl_t" where
  "acl_dup acl =
     (let a = acl_new; a4 = foldl (\<lambda>a e. a\<lparr>entries4 := e # entries4 a\<rparr>) a (entries4 acl)
      in foldl (\<lambda>a e. a\<lparr>entries6 := e # entries6 a\<rparr>) a4 (entries6 acl))"

section \<open>Adding an entry\<close>

primrec acl_mask4 :: "nat \<Rightarrow> u32" where
  "acl_mask4 0 = 0"
| "acl_mask4 (Suc n) = drop_bit 1 (acl_mask4 n) OR 0x80000000"

text \<open>\<^verbatim>\<open>unsigned long\<close> has 64 bits, the argument of \<^verbatim>\<open>htonl\<close> has 32.\<close>

primrec acl_mask6 :: "nat \<Rightarrow> nat \<Rightarrow> u32 list" where
  "acl_mask6 0 shift = []"
| "acl_mask6 (Suc k) shift =
     (let s = (if 32 < shift then 32 else shift)
      in ucast (0 - push_bit (32 - s) (1 :: 64 word)) # acl_mask6 k (shift - s))"

fun acl_add_addr :: "nat \<Rightarrow> bool \<Rightarrow> sockaddr_u \<Rightarrow> acl_t \<Rightarrow> acl_t" where
  "acl_add_addr prefixlen allow (SA_INET6 bs port) acl =
     (let addr = be32s bs;
          mask = (if prefixlen = 128 then replicate 4 (- 1) else acl_mask6 4 prefixlen);
          addr' = (if prefixlen = 128 then addr else map2 (AND) addr mask)
      in acl\<lparr>entries6 := \<lparr>e6_addr = addr', e6_mask = mask, e6_prefixlen = prefixlen, e6_allow = allow\<rparr> # entries6 acl\<rparr>)"
| "acl_add_addr prefixlen allow (SA_INET bs port) acl =
     (let n = (if 32 < prefixlen then 32 else prefixlen); mask = acl_mask4 n
      in acl\<lparr>entries4 := \<lparr>e4_addr = be32 bs AND mask, e4_mask = mask, e4_allow = allow\<rparr> # entries4 acl\<rparr>)"

text \<open>The host and the prefix length of a specification.\<close>

definition netspec_host :: "string \<Rightarrow> string" where
  "netspec_host netspec = takeWhile (\<lambda>c. c \<noteq> CHR ''/'') netspec"

definition netspec_prefixlen :: "string \<Rightarrow> int" where
  "netspec_prefixlen netspec =
     (let prefixls = drop (length (netspec_host netspec)) netspec in if prefixls = [] then 128 else atoi (tl prefixls))"

text \<open>The name resolver is an argument: the list of addresses, or None when it fails. The list is freed with its
  first element, so that going on to a second one, here None, uses freed memory.\<close>

definition acl_add :: "(string \<Rightarrow> sockaddr_u list option) \<Rightarrow> acl_t \<Rightarrow> string \<Rightarrow> bool \<Rightarrow> (int \<times> acl_t) option" where
  "acl_add getaddrinfo acl netspec allow =
     (case getaddrinfo (netspec_host netspec) of
        None \<Rightarrow> Some (-1, acl)
      | Some ai \<Rightarrow>
          let prefixlen = netspec_prefixlen netspec
          in if prefixlen < 0 \<or> 128 < prefixlen then Some (-1, acl)
             else (case ai of
                     [] \<Rightarrow> Some (0, acl)
                   | [a] \<Rightarrow> Some (0, acl_add_addr (nat prefixlen) allow a acl)
                   | _ \<Rightarrow> None))"

section \<open>Loading a file\<close>

definition ACL_LINEBUF :: nat where
  "ACL_LINEBUF = 1024"

text \<open>\<^verbatim>\<open>fgets\<close>: up to \<open>n - 1\<close> bytes, and no more than a line.\<close>

definition fgets :: "nat \<Rightarrow> string \<Rightarrow> string \<times> string" where
  "fgets n s =
     (let l = length (takeWhile (\<lambda>c. c \<noteq> CHR 0x0A) s) + 1; k = min l (n - 1)
      in (take k s, drop k s))"

function fgets_all :: "nat \<Rightarrow> string \<Rightarrow> string list" where
  "fgets_all n s = (if s = [] \<or> n < 2 then [] else fst (fgets n s) # fgets_all n (snd (fgets n s)))"
  by pat_completeness auto

termination fgets_all
  by (relation "measure (length \<circ> snd)") (auto simp: fgets_def Let_def)

declare fgets_all.simps [simp del]

definition cut_at :: "char \<Rightarrow> string \<Rightarrow> string" where
  "cut_at c s = takeWhile (\<lambda>x. x \<noteq> c) s"

definition acl_strip :: "string \<Rightarrow> string" where
  "acl_strip buf = cut_at (CHR ''#'') (cut_at (CHR 0x0A) (cut_at (CHR 0x0D) (c_word buf)))"

text \<open>One line: whether it failed. With one word, or none, the word the code goes on to use is a null pointer; after the
  early return of the word splitter it may be one that was never set. Both are None.\<close>

definition acl_load_line :: "(string \<Rightarrow> sockaddr_u list option) \<Rightarrow> string \<Rightarrow> bool \<times> acl_t \<Rightarrow> (bool \<times> acl_t) option" where
  "acl_load_line getaddrinfo buf fa =
     (let (failed, acl) = fa; s = acl_strip buf
      in if s = [] then Some (failed, acl)
         else case parse_args_loop 255 s of
                None \<Rightarrow> None
              | Some argv \<Rightarrow>
                  let failed1 = (failed \<or> length argv \<noteq> 2)
                  in case argv of
                       [] \<Rightarrow> None
                     | cmd # args \<Rightarrow>
                         if \<not> strcaseeq cmd ''allow'' \<and> \<not> strcaseeq cmd ''deny'' then Some (True, acl)
                         else case args of
                                [] \<Rightarrow> None
                              | netspec # _ \<Rightarrow>
                                  map_option (\<lambda>(rc, acl'). (failed1 \<or> rc \<noteq> 0, acl')) (acl_add getaddrinfo acl netspec (strcaseeq cmd ''allow'')))"

primrec acl_load_lines :: "(string \<Rightarrow> sockaddr_u list option) \<Rightarrow> string list \<Rightarrow> bool \<times> acl_t \<Rightarrow> (bool \<times> acl_t) option" where
  "acl_load_lines getaddrinfo [] fa = Some fa"
| "acl_load_lines getaddrinfo (buf # bufs) fa =
     (case acl_load_line getaddrinfo buf fa of None \<Rightarrow> None | Some fa' \<Rightarrow> acl_load_lines getaddrinfo bufs fa')"

text \<open>\<open>file\<close> is the content of the file, None when it cannot be opened; \<open>close_ok\<close> says whether closing it succeeds.\<close>

definition acl_load :: "(string \<Rightarrow> sockaddr_u list option) \<Rightarrow> bool \<Rightarrow> string option \<Rightarrow> acl_t option option" where
  "acl_load getaddrinfo close_ok file =
     (case file of
        None \<Rightarrow> Some None
      | Some s \<Rightarrow>
          map_option (\<lambda>(failed, acl). if failed \<or> \<not> close_ok then None else Some acl)
            (acl_load_lines getaddrinfo (fgets_all ACL_LINEBUF s) (False, acl_new)))"

section \<open>Checking an address\<close>

primrec acl_check_4 :: "acl_e4_t list \<Rightarrow> u32 \<Rightarrow> bool" where
  "acl_check_4 [] addr = False"
| "acl_check_4 (a # es) addr = (if addr AND e4_mask a = e4_addr a then e4_allow a else acl_check_4 es addr)"

primrec acl_check_6 :: "acl_e6_t list \<Rightarrow> u32 list \<Rightarrow> bool" where
  "acl_check_6 [] addr = False"
| "acl_check_6 (a # es) addr =
     (if \<forall>i \<in> set [0 ..< 4]. addr ! i AND e6_mask a ! i = e6_addr a ! i then e6_allow a else acl_check_6 es addr)"

definition acl_check :: "acl_t \<Rightarrow> sockaddr_u \<Rightarrow> bool" where
  "acl_check acl sa =
     (case sa of
        SA_INET bs port \<Rightarrow> acl_check_4 (entries4 acl) (be32 bs)
      | SA_INET6 bs port \<Rightarrow>
          let ws = be32s bs
          in if v4_in_v6 ws then acl_check_4 (entries4 acl) (ws ! 3) else acl_check_6 (entries6 acl) ws)"
section \<open>What the rules mean\<close>

text \<open>A rule is a verdict, a prefix length and an address. Addresses are compared bit by bit, from the first one.\<close>

type_synonym acl_rule = "bool \<times> nat \<times> sockaddr_u"

definition word_bits :: "u32 \<Rightarrow> bool list" where
  "word_bits w = map (\<lambda>i. bit w (31 - i)) [0 ..< 32]"

definition addr_bits :: "u32 list \<Rightarrow> bool list" where
  "addr_bits ws = concat (map word_bits ws)"

fun rule_matches :: "acl_rule \<Rightarrow> sockaddr_u \<Rightarrow> bool" where
  "rule_matches (allow, n, a) sa \<longleftrightarrow> length (addr_words a) = length (peer_words sa) \<and>
     take n (addr_bits (addr_words a)) = take n (addr_bits (peer_words sa))"

definition first_match :: "acl_rule list \<Rightarrow> sockaddr_u \<Rightarrow> bool" where
  "first_match rs sa = (case find (\<lambda>r. rule_matches r sa) rs of None \<Rightarrow> False | Some r \<Rightarrow> fst r)"

text \<open>The rules of a file, in their order.\<close>

definition netspec_rules :: "(string \<Rightarrow> sockaddr_u list option) \<Rightarrow> string \<Rightarrow> bool \<Rightarrow> acl_rule list" where
  "netspec_rules getaddrinfo netspec allow =
     map (\<lambda>a. (allow, nat (netspec_prefixlen netspec), a)) (case getaddrinfo (netspec_host netspec) of None \<Rightarrow> [] | Some as \<Rightarrow> as)"

definition line_rules :: "(string \<Rightarrow> sockaddr_u list option) \<Rightarrow> string \<Rightarrow> acl_rule list" where
  "line_rules getaddrinfo buf =
     (case parse_args (acl_strip buf) of
        [cmd, netspec] \<Rightarrow> netspec_rules getaddrinfo netspec (strcaseeq cmd ''allow'')
      | _ \<Rightarrow> [])"

definition file_rules :: "(string \<Rightarrow> sockaddr_u list option) \<Rightarrow> string \<Rightarrow> acl_rule list" where
  "file_rules getaddrinfo s = concat (map (line_rules getaddrinfo) (fgets_all ACL_LINEBUF s))"

section \<open>Masks\<close>

lemma bit_acl_mask4: "n \<le> 32 \<Longrightarrow> bit (acl_mask4 n) i \<longleftrightarrow> i < 32 \<and> 32 - n \<le> i"
proof (induction n arbitrary: i)
  case (Suc n)
  have "(0x80000000 :: u32) = push_bit 31 1" by simp
  then have "bit (0x80000000 :: u32) i \<longleftrightarrow> i = 31" by (auto simp only: bit_push_bit_iff bit_1_iff) simp_all
  moreover have "bit (acl_mask4 n) (Suc i) \<longleftrightarrow> Suc i < 32 \<and> 32 - n \<le> Suc i" using Suc by simp
  ultimately have "bit (acl_mask4 (Suc n)) i \<longleftrightarrow> Suc i < 32 \<and> 32 - n \<le> Suc i \<or> i = 31" by (simp add: bit_or_iff bit_drop_bit_eq)
  then show ?case using Suc.prems by auto
qed simp

lemma bit_top: "s \<le> 32 \<Longrightarrow> bit (ucast (0 - push_bit (32 - s) (1 :: 64 word)) :: u32) i \<longleftrightarrow> i < 32 \<and> 32 - s \<le> i"
proof -
  have "0 - push_bit (32 - s) (1 :: 64 word) = NOT (mask (32 - s))" by (simp add: push_bit_eq_mult minus_exp_eq_not_mask)
  then show ?thesis by (auto simp: bit_simps)
qed

lemma masked_eq:
  fixes x y m :: u32
  assumes "\<And>i. bit m i \<longleftrightarrow> i < 32 \<and> 32 - s \<le> i" and "s \<le> 32"
  shows "x AND m = y AND m \<longleftrightarrow> take s (word_bits x) = take s (word_bits y)"
proof -
  have "x AND m = y AND m \<longleftrightarrow> (\<forall>i. i < 32 \<and> 32 - s \<le> i \<longrightarrow> bit x i = bit y i)"
    using assms(1) by (auto simp: bit_eq_iff bit_and_iff)
  also have "\<dots> \<longleftrightarrow> (\<forall>i < s. bit x (31 - i) = bit y (31 - i))"
  proof
    assume L: "\<forall>i. i < 32 \<and> 32 - s \<le> i \<longrightarrow> bit x i = bit y i"
    show "\<forall>i < s. bit x (31 - i) = bit y (31 - i)"
    proof (intro allI impI)
      fix i assume "i < s"
      then have "31 - i < 32 \<and> 32 - s \<le> 31 - i" using assms(2) by auto
      then show "bit x (31 - i) = bit y (31 - i)" using L by blast
    qed
  next
    assume R: "\<forall>i < s. bit x (31 - i) = bit y (31 - i)"
    show "\<forall>i. i < 32 \<and> 32 - s \<le> i \<longrightarrow> bit x i = bit y i"
    proof (intro allI impI)
      fix i assume i: "i < 32 \<and> 32 - s \<le> i"
      then have "31 - i < s" "31 - (31 - i) = i" by auto
      then show "bit x i = bit y i" using R by metis
    qed
  qed
  also have "\<dots> \<longleftrightarrow> take s (word_bits x) = take s (word_bits y)"
    using assms(2) by (auto simp: word_bits_def take_map list_eq_iff_nth_eq)
  finally show ?thesis .
qed

lemma length_word_bits [simp]: "length (word_bits w) = 32"
  by (simp add: word_bits_def)

lemma masked_all:
  "length ys = length xs \<Longrightarrow>
   map2 (AND) xs (acl_mask6 (length xs) n) = map2 (AND) ys (acl_mask6 (length xs) n) \<longleftrightarrow>
   take n (addr_bits xs) = take n (addr_bits ys)"
proof (induction xs arbitrary: ys n)
  case (Cons x xs)
  obtain y zs where ys: "ys = y # zs" "length zs = length xs" using Cons.prems by (cases ys) auto
  let ?s = "if 32 < n then 32 else n"
  have s: "?s \<le> 32" by simp
  have "take n (word_bits w) = take ?s (word_bits w)" for w by auto
  then have "take n (addr_bits (x # xs)) = take n (addr_bits (y # zs)) \<longleftrightarrow>
      take ?s (word_bits x) = take ?s (word_bits y) \<and> take (n - 32) (addr_bits xs) = take (n - 32) (addr_bits zs)"
    by (auto simp: addr_bits_def append_eq_append_conv)
  moreover have "n - ?s = n - 32" by auto
  ultimately show ?case
    using Cons.IH [OF ys(2), of "n - 32"] masked_eq [OF bit_top [OF s] s, of x y] by (simp add: ys Let_def split del: if_split)
qed (simp add: addr_bits_def)

lemma acl_mask6_128: "acl_mask6 4 128 = replicate 4 (- 1)"
proof -
  have "(ucast (- 1 :: 64 word) :: u32) = - 1" by (rule bit_word_eqI) (simp add: bit_simps)
  then show ?thesis by (simp add: numeral_eq_Suc Let_def)
qed

lemma length_acl_mask6 [simp]: "length (acl_mask6 k n) = k"
  by (induction k arbitrary: n) (simp_all add: Let_def)

lemma and_ones: "length xs = 4 \<Longrightarrow> map2 (AND) xs (replicate 4 (- 1 :: u32)) = xs"
  by (auto simp: list_eq_iff_nth_eq)
section \<open>An access list as its rules\<close>

text \<open>The list built from rules, the first one in front.\<close>

primrec acl_of :: "acl_rule list \<Rightarrow> acl_t" where
  "acl_of [] = acl_new"
| "acl_of (r # rs) = acl_add_addr (fst (snd r)) (fst r) (snd (snd r)) (acl_of rs)"

definition rules_wf :: "acl_rule list \<Rightarrow> bool" where
  "rules_wf rs \<longleftrightarrow> (\<forall>(allow, n, a) \<in> set rs. n \<le> 128 \<and> addr_wf a)"

lemma acl_check_peer:
  assumes "addr_wf sa"
  shows "acl_check acl sa =
    (if length (peer_words sa) = 1 then acl_check_4 (entries4 acl) (peer_words sa ! 0)
     else acl_check_6 (entries6 acl) (peer_words sa))"
  using assms by (cases sa) (simp_all add: acl_check_def peer_words_def length_be32s Let_def)

lemma masked_4:
  "be32 bs AND acl_mask4 (if 32 < n then 32 else n) = w AND acl_mask4 (if 32 < n then 32 else n) \<longleftrightarrow>
   take n (addr_bits [be32 bs]) = take n (addr_bits [w])"
proof -
  let ?n = "if 32 < n then 32 else n"
  have n: "?n \<le> 32" by simp
  have "take ?n (word_bits v) = take n (word_bits v)" for v by auto
  then show ?thesis using masked_eq [OF bit_acl_mask4 [OF n] n, of "be32 bs" w] by (simp add: addr_bits_def split del: if_split)
qed

lemma acl_check_step:
  assumes "n \<le> 128" "addr_wf a" "addr_wf sa"
  shows "acl_check (acl_add_addr n allow a acl) sa = (if rule_matches (allow, n, a) sa then allow else acl_check acl sa)"
proof (cases a)
  case (SA_INET bs port)
  show ?thesis
  proof (cases "length (peer_words sa) = 1")
    case True
    then obtain w where w: "peer_words sa = [w]" by (metis length_0_conv length_Suc_conv One_nat_def)
    show ?thesis using masked_4 [of bs n w] by (auto simp: acl_check_peer [OF assms(3)] SA_INET w Let_def split del: if_split)
  next
    case False
    then show ?thesis by (simp add: acl_check_peer [OF assms(3)] SA_INET Let_def)
  qed
next
  case (SA_INET6 bs port)
  let ?ws = "be32s bs" and ?xs = "peer_words sa" and ?m = "acl_mask6 4 n"
  have ws: "length ?ws = 4" using assms(2) SA_INET6 by (simp add: length_be32s)
  have add: "acl_add_addr n allow a acl = acl\<lparr>entries6 := \<lparr>e6_addr = map2 (AND) ?ws ?m, e6_mask = ?m, e6_prefixlen = n, e6_allow = allow\<rparr> # entries6 acl\<rparr>"
    using and_ones [OF ws] by (auto simp: SA_INET6 Let_def acl_mask6_128)
  show ?thesis
  proof (cases "length ?xs = 1")
    case True
    then show ?thesis using ws by (simp add: acl_check_peer [OF assms(3)] SA_INET6 Let_def)
  next
    case False
    then have xs: "length ?xs = 4" using length_peer_words [OF assms(3)] by simp
    have "(\<forall>i \<in> set [0 ..< 4]. ?xs ! i AND ?m ! i = map2 (AND) ?ws ?m ! i) \<longleftrightarrow> map2 (AND) ?ws ?m = map2 (AND) ?xs ?m"
      using ws xs by (auto simp: list_eq_iff_nth_eq simp del: upt_Suc)
    also have "\<dots> \<longleftrightarrow> take n (addr_bits ?ws) = take n (addr_bits ?xs)" using masked_all [of ?xs ?ws n] ws xs by simp
    finally have K: "(\<forall>i \<in> set [0 ..< 4]. ?xs ! i AND ?m ! i = map2 (AND) ?ws ?m ! i) \<longleftrightarrow> take n (addr_bits ?ws) = take n (addr_bits ?xs)" .
    have E: "entries6 (acl_add_addr n allow a acl) = \<lparr>e6_addr = map2 (AND) ?ws ?m, e6_mask = ?m, e6_prefixlen = n, e6_allow = allow\<rparr> # entries6 acl"
      by (simp add: add)
    show ?thesis
      unfolding acl_check_peer [OF assms(3)] if_not_P [OF False] E acl_check_6.simps acl_e6_t.simps K
      by (simp add: SA_INET6 ws xs)
  qed
qed

lemma acl_check_of: "rules_wf rs \<Longrightarrow> addr_wf sa \<Longrightarrow> acl_check (acl_of rs) sa = first_match rs sa"
proof (induction rs)
  case Nil
  then show ?case by (simp add: acl_check_peer acl_new_def first_match_def)
next
  case (Cons r rs)
  obtain allow n a where r: "r = (allow, n, a)" by (cases r) auto
  have "acl_check (acl_of rs) sa = first_match rs sa" using Cons by (simp add: rules_wf_def)
  then show ?case using acl_check_step [of n a sa allow "acl_of rs"] Cons.prems by (auto simp: r first_match_def rules_wf_def)
qed

text \<open>A copy has its entries in the opposite order.\<close>

lemma acl_dup_rev: "acl_dup acl = \<lparr>entries4 = rev (entries4 acl), entries6 = rev (entries6 acl)\<rparr>"
proof -
  have "foldl (\<lambda>a e. a\<lparr>entries4 := e # entries4 a\<rparr>) a es = a\<lparr>entries4 := rev es @ entries4 a\<rparr>" for es and a :: acl_t
    by (induction es arbitrary: a) simp_all
  moreover have "foldl (\<lambda>a e. a\<lparr>entries6 := e # entries6 a\<rparr>) a es = a\<lparr>entries6 := rev es @ entries6 a\<rparr>" for es and a :: acl_t
    by (induction es arbitrary: a) simp_all
  ultimately show ?thesis by (simp add: acl_dup_def acl_new_def)
qed

lemma acl_of_append:
  "entries4 (acl_of (rs @ qs)) = entries4 (acl_of rs) @ entries4 (acl_of qs)"
  "entries6 (acl_of (rs @ qs)) = entries6 (acl_of rs) @ entries6 (acl_of qs)"
proof -
  have "entries4 (acl_add_addr n allow a acl) = entries4 (acl_add_addr n allow a acl_new) @ entries4 acl"
    "entries6 (acl_add_addr n allow a acl) = entries6 (acl_add_addr n allow a acl_new) @ entries6 acl" for n allow a acl
    by (cases a; simp add: acl_new_def Let_def)+
  note step = this
  show "entries4 (acl_of (rs @ qs)) = entries4 (acl_of rs) @ entries4 (acl_of qs)"
    "entries6 (acl_of (rs @ qs)) = entries6 (acl_of rs) @ entries6 (acl_of qs)"
  proof (induction rs)
    case (Cons r rs)
    show "entries4 (acl_of ((r # rs) @ qs)) = entries4 (acl_of (r # rs)) @ entries4 (acl_of qs)"
      using step(1) [of "fst (snd r)" "fst r" "snd (snd r)" "acl_of (rs @ qs)"] step(1) [of "fst (snd r)" "fst r" "snd (snd r)" "acl_of rs"]
        Cons(1) by simp
    show "entries6 (acl_of ((r # rs) @ qs)) = entries6 (acl_of (r # rs)) @ entries6 (acl_of qs)"
      using step(2) [of "fst (snd r)" "fst r" "snd (snd r)" "acl_of (rs @ qs)"] step(2) [of "fst (snd r)" "fst r" "snd (snd r)" "acl_of rs"]
        Cons(2) by simp
  qed (simp_all add: acl_new_def)
qed

lemma acl_dup_of: "acl_dup (acl_of rs) = acl_of (rev rs)"
proof (induction rs)
  case (Cons r rs)
  have one: "rev (entries4 (acl_of [r])) = entries4 (acl_of [r])" "rev (entries6 (acl_of [r])) = entries6 (acl_of [r])"
    by (cases "snd (snd r)"; simp add: acl_new_def Let_def)+
  have IH: "rev (entries4 (acl_of rs)) = entries4 (acl_of (rev rs))" "rev (entries6 (acl_of rs)) = entries6 (acl_of (rev rs))"
    using Cons by (simp_all add: acl_dup_rev) (metis acl_t.simps(1,2))+
  show ?case
    using acl_of_append [of "[r]" rs] acl_of_append [of "rev rs" "[r]"] one IH unfolding acl_dup_rev
    by (intro acl_t.equality) simp_all
qed (simp add: acl_dup_rev acl_new_def)
section \<open>Loading\<close>

definition resolver_ok :: "(string \<Rightarrow> sockaddr_u list option) \<Rightarrow> bool" where
  "resolver_ok getaddrinfo \<longleftrightarrow> (\<forall>h as. getaddrinfo h = Some as \<longrightarrow> (\<forall>a \<in> set as. addr_wf a))"

lemma acl_add_rules:
  assumes "acl_add gai (acl_of rs) spec allow = Some (0, acl)" "resolver_ok gai"
  shows "acl = acl_of (rev (netspec_rules gai spec allow) @ rs) \<and> rules_wf (netspec_rules gai spec allow)"
  using assms
  by (auto simp: acl_add_def netspec_rules_def rules_wf_def resolver_ok_def Let_def split: option.splits if_splits list.splits)

lemma parse_args_Some: "parse_args_loop 255 s = Some ws \<Longrightarrow> parse_args s = ws"
  by (simp add: parse_args_def)

lemma parse_args_Nil: "parse_args [] = []"
proof -
  have "parse_args_loop n [] = Some []" for n by (cases n) simp_all
  then show ?thesis by (simp add: parse_args_def)
qed

lemma acl_load_line_rules:
  assumes L: "acl_load_line gai buf (f, acl_of rs) = Some (False, acl)" and ok: "resolver_ok gai"
  shows "\<not> f \<and> acl = acl_of (rev (line_rules gai buf) @ rs) \<and> rules_wf (line_rules gai buf)"
proof (cases "acl_strip buf = []")
  case True
  then show ?thesis using L by (simp add: acl_load_line_def line_rules_def parse_args_Nil rules_wf_def)
next
  case False
  obtain argv where argv: "parse_args_loop 255 (acl_strip buf) = Some argv"
    using L False by (auto simp: acl_load_line_def Let_def split: option.splits)
  have F: "\<not> f \<and> length argv = 2" using L False argv by (auto simp: acl_load_line_def Let_def split: option.splits list.splits if_splits)
  then obtain cmd spec where ws: "argv = [cmd, spec]" by (auto simp: length_Suc_conv numeral_2_eq_2)
  have add: "acl_add gai (acl_of rs) spec (strcaseeq cmd ''allow'') = Some (0, acl)"
    using L False argv F by (auto simp: acl_load_line_def Let_def ws split: if_splits)
  show ?thesis using acl_add_rules [OF add ok] F parse_args_Some [OF argv] by (simp add: line_rules_def ws)
qed

lemma acl_load_line_failed: "acl_load_line gai buf (True, acl) = Some (f, acl') \<Longrightarrow> f"
  by (auto simp: acl_load_line_def Let_def split: option.splits list.splits if_splits)

lemma acl_load_lines_failed: "acl_load_lines gai bufs (True, acl) = Some (f, acl') \<Longrightarrow> f"
proof (induction bufs arbitrary: acl)
  case (Cons buf bufs)
  then obtain f1 acl1 where one: "acl_load_line gai buf (True, acl) = Some (f1, acl1)" "acl_load_lines gai bufs (f1, acl1) = Some (f, acl')"
    by (auto split: option.splits)
  then show ?case using Cons.IH [of acl1] acl_load_line_failed [OF one(1)] by simp
qed simp

lemma rules_wf_append: "rules_wf (rs @ qs) \<longleftrightarrow> rules_wf rs \<and> rules_wf qs" "rules_wf (rev rs) \<longleftrightarrow> rules_wf rs"
  unfolding rules_wf_def set_append set_rev by blast+

lemma acl_load_lines_rules:
  assumes "acl_load_lines gai bufs (f, acl_of rs) = Some (False, acl)" and "resolver_ok gai" and "rules_wf rs"
  shows "acl = acl_of (rev (concat (map (line_rules gai) bufs)) @ rs) \<and> rules_wf (concat (map (line_rules gai) bufs))"
  using assms
proof (induction bufs arbitrary: f rs)
  case Nil
  then show ?case by (simp add: rules_wf_def)
next
  case (Cons buf bufs)
  obtain f1 acl1 where one: "acl_load_line gai buf (f, acl_of rs) = Some (f1, acl1)" "acl_load_lines gai bufs (f1, acl1) = Some (False, acl)"
    using Cons.prems(1) by (auto split: option.splits)
  have "\<not> f1" using one(2) acl_load_lines_failed [of gai bufs acl1 False acl] by (cases f1) auto
  then have R: "acl1 = acl_of (rev (line_rules gai buf) @ rs)" "rules_wf (line_rules gai buf)"
    using acl_load_line_rules [of gai buf f rs acl1] one(1) Cons.prems(2) by auto
  have "rules_wf (rev (line_rules gai buf) @ rs)" using R(2) Cons.prems(3) by (simp add: rules_wf_append)
  then show ?case using Cons.IH [OF one(2) [unfolded R(1)] Cons.prems(2)] R(2) by (simp add: rules_wf_append)
qed

text \<open>A line that is empty, or an order with one network.\<close>

definition line_ok :: "(string \<Rightarrow> sockaddr_u list option) \<Rightarrow> string \<Rightarrow> bool" where
  "line_ok gai buf \<longleftrightarrow> acl_strip buf = [] \<or>
     (\<exists>cmd spec a. parse_args_loop 255 (acl_strip buf) = Some [cmd, spec] \<and> (strcaseeq cmd ''allow'' \<or> strcaseeq cmd ''deny'') \<and>
        gai (netspec_host spec) = Some [a] \<and> 0 \<le> netspec_prefixlen spec \<and> netspec_prefixlen spec \<le> 128)"

lemma acl_load_lines_ok: "\<forall>buf \<in> set bufs. line_ok gai buf \<Longrightarrow> \<exists>acl'. acl_load_lines gai bufs (False, acl) = Some (False, acl')"
proof (induction bufs arbitrary: acl)
  case (Cons buf bufs)
  have "\<exists>acl'. acl_load_line gai buf (False, acl) = Some (False, acl')"
    using Cons.prems by (auto simp: line_ok_def acl_load_line_def acl_add_def Let_def)
  then show ?case using Cons by auto
qed simp

section \<open>Properties\<close>

text \<open>C20. A listener checks its own copy of a loaded access list. The verdict is the one of the first rule in the file
  whose network has the address of the peer, and without such a rule the peer is refused. A file in which each
  order has one network is loaded.\<close>

theorem acl_first_match:
  assumes ok: "resolver_ok getaddrinfo"
  shows "(\<forall>acl sa. acl_load getaddrinfo close_ok (Some s) = Some (Some acl) \<and> addr_wf sa \<longrightarrow>
      acl_check (acl_dup acl) sa = first_match (file_rules getaddrinfo s) sa) \<and>
    ((\<forall>buf \<in> set (fgets_all ACL_LINEBUF s). line_ok getaddrinfo buf) \<longrightarrow>
      (\<exists>acl. acl_load getaddrinfo True (Some s) = Some (Some acl)))"
proof (intro conjI allI impI)
  fix acl sa assume L: "acl_load getaddrinfo close_ok (Some s) = Some (Some acl) \<and> addr_wf sa"
  then have "acl_load_lines getaddrinfo (fgets_all ACL_LINEBUF s) (False, acl_of []) = Some (False, acl)"
    by (auto simp: acl_load_def split: if_splits)
  then have "acl = acl_of (rev (file_rules getaddrinfo s))" "rules_wf (file_rules getaddrinfo s)"
    using acl_load_lines_rules [of getaddrinfo _ False "[]"] ok by (auto simp: file_rules_def rules_wf_def)
  then show "acl_check (acl_dup acl) sa = first_match (file_rules getaddrinfo s) sa"
    using L by (simp add: acl_dup_of acl_check_of)
next
  assume "\<forall>buf \<in> set (fgets_all ACL_LINEBUF s). line_ok getaddrinfo buf"
  then show "\<exists>acl. acl_load getaddrinfo True (Some s) = Some (Some acl)"
    using acl_load_lines_ok by (fastforce simp: acl_load_def)
qed

section \<open>Concrete files\<close>

text \<open>A resolver that knows two networks, and a name with two addresses.\<close>

definition demo_resolver :: "string \<Rightarrow> sockaddr_u list option" where
  "demo_resolver h =
     (if h = ''192.168.1.0'' then Some [SA_INET [192, 168, 1, 0] 0]
      else if h = ''192.168.0.0'' then Some [SA_INET [192, 168, 0, 0] 0]
      else if h = ''localhost'' then Some [SA_INET6 (replicate 15 0 @ [1]) 0, SA_INET [127, 0, 0, 1] 0]
      else None)"

definition demo_acl_file :: string where
  "demo_acl_file = ''deny 192.168.1.0/24'' @ [CHR 0x0A] @ ''allow 192.168.0.0/16'' @ [CHR 0x0A]"

lemma demo_resolver_ok: "resolver_ok demo_resolver"
  by (simp add: resolver_ok_def demo_resolver_def)

lemma demo_acl_lines: "fgets_all ACL_LINEBUF demo_acl_file = [''deny 192.168.1.0/24'' @ [CHR 0x0A], ''allow 192.168.0.0/16'' @ [CHR 0x0A]]"
  by (simp add: demo_acl_file_def fgets_all.simps fgets_def ACL_LINEBUF_def)

lemma demo_acl_words:
  "parse_args_loop 255 (acl_strip (''deny 192.168.1.0/24'' @ [CHR 0x0A])) = Some [''deny'', ''192.168.1.0/24'']"
  "parse_args_loop 255 (acl_strip (''allow 192.168.0.0/16'' @ [CHR 0x0A])) = Some [''allow'', ''192.168.0.0/16'']"
proof -
  have "parse_args_loop (Suc (Suc (Suc n))) (acl_strip (''deny 192.168.1.0/24'' @ [CHR 0x0A])) = Some [''deny'', ''192.168.1.0/24'']"
    "parse_args_loop (Suc (Suc (Suc n))) (acl_strip (''allow 192.168.0.0/16'' @ [CHR 0x0A])) = Some [''allow'', ''192.168.0.0/16'']" for n
    by (simp_all add: acl_strip_def cut_at_def c_word_def isspace_def byte_code_def)
  note this [of 252]
  then show "parse_args_loop 255 (acl_strip (''deny 192.168.1.0/24'' @ [CHR 0x0A])) = Some [''deny'', ''192.168.1.0/24'']"
    "parse_args_loop 255 (acl_strip (''allow 192.168.0.0/16'' @ [CHR 0x0A])) = Some [''allow'', ''192.168.0.0/16'']"
    by (simp_all only: Suc_numeral semiring_norm)
qed

lemma demo_netspec: "netspec_host ''192.168.1.0/24'' = ''192.168.1.0''" "netspec_prefixlen ''192.168.1.0/24'' = 24"
  "netspec_host ''192.168.0.0/16'' = ''192.168.0.0''" "netspec_prefixlen ''192.168.0.0/16'' = 16"
  by (simp_all add: netspec_host_def netspec_prefixlen_def atoi_def isspace_def num_val_def digit_val_def is_digit_def byte_code_def
      toupper_def is_lower_def)

lemma demo_file_rules: "file_rules demo_resolver demo_acl_file =
    [(False, 24, SA_INET [192, 168, 1, 0] 0), (True, 16, SA_INET [192, 168, 0, 0] 0)]"
  by (simp add: file_rules_def demo_acl_lines line_rules_def demo_acl_words [THEN parse_args_Some] netspec_rules_def demo_netspec
      demo_resolver_def strcaseeq_def cstr_simps del: append.simps)

text \<open>A host of the denied network is refused, its neighbour is allowed.\<close>

theorem acl_first_match_witness:
  "\<exists>acl. acl_load demo_resolver True (Some demo_acl_file) = Some (Some acl) \<and>
    \<not> acl_check (acl_dup acl) (SA_INET [192, 168, 1, 7] 0) \<and> acl_check (acl_dup acl) (SA_INET [192, 168, 2, 7] 0)"
proof -
  have "\<forall>buf \<in> set (fgets_all ACL_LINEBUF demo_acl_file). line_ok demo_resolver buf"
    by (simp add: demo_acl_lines line_ok_def demo_acl_words demo_netspec demo_resolver_def strcaseeq_def cstr_simps del: append.simps)
  then obtain acl where acl: "acl_load demo_resolver True (Some demo_acl_file) = Some (Some acl)"
    using acl_first_match [OF demo_resolver_ok] by blast
  have "acl_check (acl_dup acl) sa = first_match (file_rules demo_resolver demo_acl_file) sa" if "addr_wf sa" for sa
    using acl_first_match [OF demo_resolver_ok] acl that by blast
  moreover have "\<not> first_match (file_rules demo_resolver demo_acl_file) (SA_INET [192, 168, 1, 7] 0)"
    "first_match (file_rules demo_resolver demo_acl_file) (SA_INET [192, 168, 2, 7] 0)"
    unfolding demo_file_rules by code_simp+
  ultimately show ?thesis using acl by auto
qed

text \<open>A line of spaces only, such as one whose comment is indented, ends in the use of a null pointer, and so does an
  order without a network; a name with two addresses ends in the use of freed memory.\<close>

theorem acl_load_crashes:
  "acl_load getaddrinfo close_ok (Some ''  # comment'') = None"
  "acl_load getaddrinfo close_ok (Some ''allow'') = None"
  "acl_add demo_resolver acl ''localhost'' True = None"
proof -
  have "parse_args_loop (Suc (Suc n)) ''  '' = Some []" "parse_args_loop (Suc (Suc n)) ''allow'' = Some [''allow'']" for n
    by (simp_all add: isspace_def byte_code_def)
  note w = this [of 253, simplified Suc_numeral semiring_norm]
  have "fgets_all ACL_LINEBUF ''  # comment'' = [''  # comment'']" "fgets_all ACL_LINEBUF ''allow'' = [''allow'']"
    by (simp_all add: fgets_all.simps fgets_def ACL_LINEBUF_def)
  moreover have "acl_strip ''  # comment'' = ''  ''" "acl_strip ''allow'' = ''allow''" by (simp_all add: acl_strip_def cut_at_def c_word_def)
  moreover have "strcaseeq ''allow'' ''allow''" by simp
  ultimately show "acl_load getaddrinfo close_ok (Some ''  # comment'') = None" "acl_load getaddrinfo close_ok (Some ''allow'') = None"
    using w by (simp_all add: acl_load_def acl_load_line_def Let_def)
  show "acl_add demo_resolver acl ''localhost'' True = None"
    by (simp add: acl_add_def netspec_host_def netspec_prefixlen_def demo_resolver_def)
qed

end
