(* ===== verification/Accept.thy ===== *)
theory Accept
  imports Acl Filter_Commands Worker_Clients Keyhash
begin

text \<open>
  \<^verbatim>\<open>src/src/accept.c\<close> and the port accounts of \<^verbatim>\<open>worker.c\<close>: listeners, the connections they accept, and the reference
  counts and gauges that limit them. The steps of the accept thread and of the workers that change accounts form a
  step relation. System calls and the set-up of sockets and TLS are arguments; the UDP sockets of listeners and the
  packets they receive are not modelled.
\<close>

section \<open>Accounts\<close>

record portaccount_t =
  pa_counter :: int
  pa_gauge :: int
  pa_gauge_max :: int
  pa_refcount :: int

text \<open>Listeners and their configuration, as far as accepting a connection uses them; the account is a pointer.\<close>

record listen_config_t =
  lcf_id :: int
  lcf_addr_s :: string
  lcf_portnum :: nat
  lcf_clients_max :: int
  lcf_corepeer :: bool
  lcf_hidden :: bool
  lcf_tls :: bool \<comment> \<open>a key and a certificate are configured\<close>
  lcf_proto :: l4proto
  lcf_acl :: "acl_t option"
  lcf_filters :: "string option list"
  lcf_client_flags :: u32

record listen_t =
  li_id :: int
  li_listener_id :: u32
  li_client_flags :: u32
  li_portnum :: nat
  li_clients_max :: int
  li_corepeer :: bool
  li_hidden :: bool
  li_proto :: l4proto
  li_account :: nat
  li_acl :: "acl_t option"
  li_ssl :: bool
  li_filters :: "string option list"
  li_filter_s :: "string option"

record accepted_client =
  a_client :: client_t
  a_account :: nat
  a_listener_id :: u32
  a_worker :: nat
  a_udp :: "nat option" \<comment> \<open>the account of the UDP socket, once the client has a UDP port\<close>

datatype accept_event = Wrote int string | Closed int | Shut_Down int

text \<open>The state: listeners, the accounts in memory, the global account \<^verbatim>\<open>inbound_connects\<close>, the turn of the workers, the clients
  passed to workers, the accounts of references that are never given back, the number of filter cells, and the calls made on sockets.\<close>

record accept_state =
  ac_listeners :: "listen_t list"
  ac_accounts :: "nat \<Rightarrow> portaccount_t option"
  ac_inbound :: portaccount_t
  ac_next :: nat
  ac_clients :: "accepted_client list"
  ac_lost :: "nat list"
  ac_gauge :: int
  ac_events :: "accept_event list"

definition port_accounter_alloc :: portaccount_t where
  "port_accounter_alloc = \<lparr>pa_counter = 0, pa_gauge = 0, pa_gauge_max = 0, pa_refcount = 1\<rparr>"

text \<open>A change of the account behind a pointer; None is the use of an account that has been freed.\<close>

definition on_account :: "nat option \<Rightarrow> (portaccount_t \<Rightarrow> portaccount_t option) \<Rightarrow> accept_state \<Rightarrow> accept_state option" where
  "on_account p f st =
     (case p of
        None \<Rightarrow> Some st
      | Some a \<Rightarrow>
          (case ac_accounts st a of
             None \<Rightarrow> None | Some pa \<Rightarrow> Some (st\<lparr>ac_accounts := (ac_accounts st)(a := f pa)\<rparr>)))"

definition port_accounter_reject :: "nat option \<Rightarrow> accept_state \<Rightarrow> accept_state option" where
  "port_accounter_reject p = on_account p (\<lambda>pa. Some (pa\<lparr>pa_counter := pa_counter pa + 1\<rparr>))"

definition gauge_up :: "portaccount_t \<Rightarrow> portaccount_t" where
  "gauge_up pa =
     (let pa1 = pa\<lparr>pa_counter := pa_counter pa + 1, pa_gauge := pa_gauge pa + 1\<rparr>
      in if pa_gauge_max pa1 < pa_gauge pa1 then pa1\<lparr>pa_gauge_max := pa_gauge pa1\<rparr> else pa1)"

definition port_accounter_add :: "nat option \<Rightarrow> accept_state \<Rightarrow> accept_state option" where
  "port_accounter_add p = on_account p (\<lambda>pa. Some (gauge_up (pa\<lparr>pa_refcount := pa_refcount pa + 1\<rparr>)))"

text \<open>The last reference frees the account.\<close>

definition port_accounter_drop :: "nat option \<Rightarrow> accept_state \<Rightarrow> accept_state option" where
  "port_accounter_drop p = on_account p (\<lambda>pa.
     let pa1 = pa\<lparr>pa_refcount := pa_refcount pa - 1, pa_gauge := pa_gauge pa - 1\<rparr>
     in if pa_refcount pa1 = 0 then None else Some pa1)"

definition inbound_connects_account :: "int \<Rightarrow> nat option \<Rightarrow> accept_state \<Rightarrow> accept_state option" where
  "inbound_connects_account add p st =
     (let ib = ac_inbound st;
          ib1 = (if add < 2 then
                   if add = -1 then ib\<lparr>pa_counter := pa_counter ib + 1\<rparr>
                   else if add \<noteq> 0 then gauge_up ib
                   else ib\<lparr>pa_gauge := pa_gauge ib - 1\<rparr>
                 else ib);
          st1 = st\<lparr>ac_inbound := ib1\<rparr>
      in if add = -1 then port_accounter_reject p st1
         else if odd add then port_accounter_add p st1
         else port_accounter_drop p st1)"

section \<open>Listeners\<close>

text \<open>The text of all filters, as far as it fits.\<close>

fun filters_text :: "string option list \<Rightarrow> string \<Rightarrow> string" where
  "filters_text [] t = t"
| "filters_text (None # fs) t = filters_text fs t"
| "filters_text (Some f # fs) t =
     filters_text fs (if length t + length f + 2 < FILTER_S_SIZE then t @ (if t \<noteq> [] then '' '' else []) @ f else t)"

definition listener_copy_filters :: "listen_config_t \<Rightarrow> listen_t \<Rightarrow> listen_t" where
  "listener_copy_filters lc l =
     (let s = filters_text (lcf_filters lc) []
      in l\<lparr>li_filters := lcf_filters lc, li_filter_s := if s = [] then None else Some (sanitize_ascii_string s)\<rparr>)"

definition int_bytes :: "nat \<Rightarrow> string" where
  "int_bytes n = [char_of n, NUL, NUL, NUL]"

fun socktype_of :: "l4proto \<Rightarrow> nat" where
  "socktype_of IPPROTO_UDP = 2" | "socktype_of _ = 1"

fun protocol_of :: "l4proto \<Rightarrow> nat" where
  "protocol_of IPPROTO_TCP = 6" | "protocol_of IPPROTO_UDP = 17" | "protocol_of IPPROTO_SCTP = 132"

definition listener_hash :: "string \<Rightarrow> l4proto \<Rightarrow> u32" where
  "listener_hash addr_s proto =
     keyhash (int_bytes (protocol_of proto)) (keyhash (int_bytes (socktype_of proto)) (keyhash addr_s 0))"

text \<open>The outside world of opening a listener: the pointer to its account, whether its socket can be bound and its TLS
  context set up.\<close>

record open_env =
  oe_account :: nat
  oe_bound :: bool
  oe_tls :: bool

definition listener_free :: "listen_t \<Rightarrow> accept_state \<Rightarrow> accept_state option" where
  "listener_free l st =
     map_option (\<lambda>st'. st'\<lparr>ac_listeners := filter (\<lambda>k. li_account k \<noteq> li_account l) (ac_listeners st')\<rparr>)
       (port_accounter_drop (Some (li_account l)) st)"

definition open_listener :: "int \<Rightarrow> open_env \<Rightarrow> listen_config_t \<Rightarrow> accept_state \<Rightarrow> (int \<times> accept_state) option" where
  "open_listener maxclients env lc st =
     (let st1 = st\<lparr>ac_accounts := (ac_accounts st)(oe_account env \<mapsto> port_accounter_alloc)\<rparr>;
          l = \<lparr>li_id = lcf_id lc, li_listener_id = listener_hash (lcf_addr_s lc) (lcf_proto lc), li_client_flags = lcf_client_flags lc,
               li_portnum = lcf_portnum lc,
               li_clients_max = if maxclients < lcf_clients_max lc then maxclients else lcf_clients_max lc,
               li_corepeer = lcf_corepeer lc, li_hidden = lcf_hidden lc, li_proto = lcf_proto lc, li_account = oe_account env,
               li_acl = None, li_ssl = lcf_tls lc, li_filters = [], li_filter_s = None\<rparr>
      in if \<not> oe_bound env \<or> lcf_tls lc \<and> \<not> oe_tls env then map_option (Pair (-1)) (listener_free l st1)
         else
           let l1 = l\<lparr>li_acl := map_option acl_dup (lcf_acl lc)\<rparr>; l2 = listener_copy_filters lc l1
           in Some (0, st1\<lparr>ac_listeners := l2 # ac_listeners st1\<rparr>))"

definition listener_update_config :: "listen_config_t \<Rightarrow> listen_t \<Rightarrow> listen_t" where
  "listener_update_config lc l =
     (let l1 = l\<lparr>li_clients_max := lcf_clients_max lc, li_hidden := lcf_hidden lc, li_client_flags := lcf_client_flags lc\<rparr>;
          l2 = listener_copy_filters lc l1
      in l2\<lparr>li_acl := map_option acl_dup (lcf_acl lc)\<rparr>)"

text \<open>The first listener with an id is changed in place.\<close>

fun update_first :: "('a \<Rightarrow> bool) \<Rightarrow> ('a \<Rightarrow> 'a) \<Rightarrow> 'a list \<Rightarrow> 'a list" where
  "update_first P f [] = []"
| "update_first P f (x # xs) = (if P x then f x # xs else x # update_first P f xs)"

fun open_missing_listeners ::
    "int \<Rightarrow> (listen_config_t \<Rightarrow> open_env) \<Rightarrow> listen_config_t list \<Rightarrow> accept_state \<Rightarrow> (nat \<times> accept_state) option" where
  "open_missing_listeners maxclients env [] st = Some (0, st)"
| "open_missing_listeners maxclients env (lc # lcs) st =
     (if \<exists>l \<in> set (ac_listeners st). li_id l = lcf_id lc then
        open_missing_listeners maxclients env lcs
          (st\<lparr>ac_listeners := update_first (\<lambda>l. li_id l = lcf_id lc) (listener_update_config lc) (ac_listeners st)\<rparr>)
      else
        case open_listener maxclients (env lc) lc st of
          None \<Rightarrow> None
        | Some (rc, st1) \<Rightarrow>
            map_option (\<lambda>(failed, st2). (if rc \<noteq> 0 then failed + 1 else failed, st2))
              (open_missing_listeners maxclients env lcs st1))"

text \<open>The listeners that were there when the loop started, one after the other.\<close>

fun close_removed :: "listen_config_t list \<Rightarrow> listen_t list \<Rightarrow> accept_state \<Rightarrow> accept_state option" where
  "close_removed lcs [] st = Some st"
| "close_removed lcs (l # ls) st =
     (if \<exists>lc \<in> set lcs. lcf_id lc = li_id l then close_removed lcs ls st
      else case listener_free l st of None \<Rightarrow> None | Some st' \<Rightarrow> close_removed lcs ls st')"

definition close_removed_listeners :: "listen_config_t list \<Rightarrow> accept_state \<Rightarrow> accept_state option" where
  "close_removed_listeners lcs st = close_removed lcs (ac_listeners st) st"

definition find_listener_hash_id :: "u32 \<Rightarrow> accept_state \<Rightarrow> listen_t option" where
  "find_listener_hash_id h st = find (\<lambda>l. li_listener_id l = h) (ac_listeners st)"

definition rescan_denies :: "accept_state \<Rightarrow> accepted_client \<Rightarrow> bool" where
  "rescan_denies st a \<longleftrightarrow>
     has_flag (c_flags (a_client a)) CLFLAGS_INPORT \<and>
     (case find_listener_hash_id (a_listener_id a) st of
        None \<Rightarrow> True
      | Some l \<Rightarrow> (case li_acl l of None \<Rightarrow> False | Some acl \<Rightarrow> \<not> acl_check acl (c_addr (a_client a))))"

definition rescan_client_acls :: "accept_state \<Rightarrow> accept_state" where
  "rescan_client_acls st =
     st\<lparr>ac_events := ac_events st @ map (\<lambda>a. Shut_Down (c_fd (a_client a))) (filter (rescan_denies st) (ac_clients st))\<rparr>"

text \<open>The reconfiguration of the accept thread; None is also the exit when a listener cannot be opened.\<close>

definition accept_reconfigure ::
    "int \<Rightarrow> (listen_config_t \<Rightarrow> open_env) \<Rightarrow> listen_config_t list \<Rightarrow> accept_state \<Rightarrow> accept_state option" where
  "accept_reconfigure maxclients env lcs st =
     (case close_removed_listeners lcs st of
        None \<Rightarrow> None
      | Some st1 \<Rightarrow>
          (case open_missing_listeners maxclients env lcs st1 of
             None \<Rightarrow> None
           | Some (failed, st2) \<Rightarrow> if 0 < failed then None else Some (rescan_client_acls st2)))"

section \<open>Accepting a connection\<close>

text \<open>What \<^verbatim>\<open>accept\<close> returns: the descriptor and the address of the peer, an error that ends the program, or another one.\<close>

datatype accept_result = Accepted int sockaddr_u | Accept_Fatal | Accept_Failed

record accept_env =
  ae_accept :: accept_result
  ae_client_alloc :: "client_t option"
  ae_udp :: bool
  ae_sockname :: string
  ae_ssl_connection :: bool
  ae_sockopt :: bool
  ae_pass_client :: bool
  ae_filter_alloc :: bool
  ae_tick :: ctime
  ae_keepalive_interval :: ctime

record accept_cfg =
  ag_maxclients :: int
  ag_workers :: nat

fun apply_filters :: "bool \<Rightarrow> string option list \<Rightarrow> client_t \<times> int \<Rightarrow> client_t \<times> int" where
  "apply_filters al [] cg = cg"
| "apply_filters al (None # fs) cg = apply_filters al fs cg"
| "apply_filters al (Some f # fs) cg = apply_filters al fs (snd (filter_parse al False f cg))"

definition accept_client_for_listener ::
    "accept_env \<Rightarrow> listen_t \<Rightarrow> int \<Rightarrow> sockaddr_u \<Rightarrow> client_t \<Rightarrow> accept_state \<Rightarrow> (client_t \<times> accept_state) option" where
  "accept_client_for_listener env l fd sa c0 st =
     (let c1 = c0\<lparr>c_fd := fd, c_addr := sa, c_ai_protocol := li_proto l, c_flags := li_client_flags l, c_udpclient := ae_udp env,
                  c_last_read := ae_tick env, c_addr_hex := take 35 (hexsockaddr sa), c_addr_loc := take 79 (ae_sockname env)\<rparr>
      in case inbound_connects_account 1 (Some (li_account l)) st of
           None \<Rightarrow> None
         | Some st1 \<Rightarrow>
             let (c2, g) = apply_filters (ae_filter_alloc env) (li_filters l) (c1, ac_gauge st1);
                 c3 = (case li_filter_s l of None \<Rightarrow> c2 | Some s \<Rightarrow> c2\<lparr>c_filter_s := take (FILTER_S_SIZE - 1) s\<rparr>)
             in Some (c3, st1\<lparr>ac_gauge := g\<rparr>))"

definition pick_next_worker :: "nat \<Rightarrow> accept_state \<Rightarrow> nat \<times> accept_state" where
  "pick_next_worker n st =
     (let i = (if ac_next st < n then ac_next st else 0) in (i, st\<lparr>ac_next := i + 1\<rparr>))"

definition accept_log :: "accept_event list \<Rightarrow> accept_state \<Rightarrow> accept_state" where
  "accept_log es st = st\<lparr>ac_events := ac_events st @ es\<rparr>"

text \<open>A refused connection is closed and counted.\<close>

definition refuse_connection :: "accept_event list \<Rightarrow> int \<Rightarrow> listen_t \<Rightarrow> accept_state \<Rightarrow> accept_state option" where
  "refuse_connection es fd l st = inbound_connects_account (-1) (Some (li_account l)) (accept_log (es @ [Closed fd]) st)"

text \<open>The part of \<^verbatim>\<open>do_accept\<close> after the checks.\<close>

definition do_accept_client :: "accept_cfg \<Rightarrow> accept_env \<Rightarrow> listen_t \<Rightarrow> int \<Rightarrow> sockaddr_u \<Rightarrow> accept_state \<Rightarrow> accept_state option" where
  "do_accept_client cfg env l fd sa st =
     (case ae_client_alloc env of
        None \<Rightarrow> refuse_connection [] fd l st
      | Some c0 \<Rightarrow>
          (case accept_client_for_listener env l fd sa c0 st of
             None \<Rightarrow> None
           | Some (c1, st1) \<Rightarrow>
               let c = c1\<lparr>c_state := CSTATE_LOGIN, c_handler_line_in := Login_Handler, c_keepalive := ae_tick env + ae_keepalive_interval env\<rparr>;
                   (w, st2) = pick_next_worker (ag_workers cfg) st1;
                   a = \<lparr>a_client = c, a_account = li_account l, a_listener_id = li_listener_id l, a_worker = w, a_udp = None\<rparr>;
                   err = (\<lambda>st'. inbound_connects_account 0 (Some (li_account l)) (accept_log [Closed fd] st'))
               in if li_ssl l \<and> \<not> ae_ssl_connection env then refuse_connection [] fd l (st1\<lparr>ac_lost := li_account l # ac_lost st1\<rparr>)
                  else if \<not> ae_sockopt env then err st1
                  else if \<not> ae_pass_client env then err st2
                  else Some (st2\<lparr>ac_clients := ac_clients st2 @ [a]\<rparr>)))"

definition do_accept :: "accept_cfg \<Rightarrow> accept_env \<Rightarrow> listen_t \<Rightarrow> accept_state \<Rightarrow> accept_state option" where
  "do_accept cfg env l st =
     (case ae_accept env of
        Accept_Fatal \<Rightarrow> None
      | Accept_Failed \<Rightarrow> Some st
      | Accepted fd sa \<Rightarrow>
          (case ac_accounts st (li_account l) of
             None \<Rightarrow> None
           | Some pa \<Rightarrow>
               if li_clients_max l \<le> pa_gauge pa \<or> ag_maxclients cfg \<le> pa_gauge (ac_inbound st) then
                 refuse_connection
                   [Wrote fd (if ag_maxclients cfg \<le> pa_gauge (ac_inbound st) then ''# Server full'' @ CRLF else ''# Port full'' @ CRLF)]
                   fd l st
               else if \<exists>acl. li_acl l = Some acl \<and> \<not> acl_check acl sa then refuse_connection [] fd l st
               else do_accept_client cfg env l fd sa st))"

text \<open>A client asks for a UDP port when it logs in (only the last request is given back in the end), and is closed by its
  worker.\<close>

definition accept_client_udp :: "nat \<Rightarrow> nat \<Rightarrow> accept_state \<Rightarrow> accept_state option" where
  "accept_client_udp i b st =
     (let a = ac_clients st ! i
      in inbound_connects_account 3 (Some b)
           (st\<lparr>ac_clients := (ac_clients st)[i := a\<lparr>a_udp := Some b\<rparr>],
              ac_lost := (case a_udp a of None \<Rightarrow> [] | Some d \<Rightarrow> [d]) @ ac_lost st\<rparr>))"

definition accept_client_closed :: "nat \<Rightarrow> accept_state \<Rightarrow> accept_state option" where
  "accept_client_closed i st =
     (let a = ac_clients st ! i
      in case inbound_connects_account 0 (Some (a_account a)) (st\<lparr>ac_clients := take i (ac_clients st) @ drop (Suc i) (ac_clients st)\<rparr>) of
           None \<Rightarrow> None
         | Some st1 \<Rightarrow> (case a_udp a of None \<Rightarrow> Some st1 | Some b \<Rightarrow> inbound_connects_account 2 (Some b) st1))"

section \<open>The invariant of the accounts\<close>

text \<open>How many listeners, clients and lost references an account has.\<close>

definition client_refs :: "nat \<Rightarrow> accepted_client list \<Rightarrow> nat" where
  "client_refs a cs = length (filter (\<lambda>c. a_account c = a) cs) + length (filter (\<lambda>c. a_udp c = Some a) cs)"

definition account_refs :: "accept_state \<Rightarrow> nat \<Rightarrow> nat" where
  "account_refs st a = length (filter (\<lambda>l. li_account l = a) (ac_listeners st)) + client_refs a (ac_clients st) + count_list (ac_lost st) a"

definition account_ok :: "nat \<Rightarrow> portaccount_t option \<Rightarrow> bool" where
  "account_ok n p \<longleftrightarrow> (case p of None \<Rightarrow> n = 0 | Some pa \<Rightarrow> 0 < n \<and> pa_refcount pa = int n \<and> pa_gauge pa = int n - 1)"

definition accounts_ok :: "accept_state \<Rightarrow> bool" where
  "accounts_ok st \<longleftrightarrow> (\<forall>a. account_ok (account_refs st a) (ac_accounts st a)) \<and> distinct (map li_account (ac_listeners st))"

lemma on_account_other: "on_account p f st = Some st' \<Longrightarrow> \<exists>m. st' = st\<lparr>ac_accounts := m\<rparr>"
  by (auto simp: on_account_def split: option.splits intro: exI [of _ "ac_accounts st"])

lemma gauge_up_simps [simp]: "pa_gauge (gauge_up pa) = pa_gauge pa + 1" "pa_refcount (gauge_up pa) = pa_refcount pa"
  by (simp_all add: gauge_up_def Let_def)

text \<open>The three calls for an account with \<open>n\<close> references.\<close>

lemma accounter_calls:
  assumes "account_ok n (ac_accounts st a)" "0 < n"
  shows "\<exists>p. port_accounter_reject (Some a) st = Some (st\<lparr>ac_accounts := (ac_accounts st)(a := p)\<rparr>) \<and> account_ok n p"
    and "\<exists>p. port_accounter_add (Some a) st = Some (st\<lparr>ac_accounts := (ac_accounts st)(a := p)\<rparr>) \<and> account_ok (Suc n) p"
    and "\<exists>p. port_accounter_drop (Some a) st = Some (st\<lparr>ac_accounts := (ac_accounts st)(a := p)\<rparr>) \<and> account_ok (n - 1) p"
  using assms
  by (auto simp: account_ok_def port_accounter_reject_def port_accounter_add_def port_accounter_drop_def on_account_def Let_def
      split: option.splits)

lemma inbound_calls:
  assumes "account_ok n (ac_accounts st a)" "0 < n"
  shows "\<exists>p ib. inbound_connects_account (-1) (Some a) st = Some (st\<lparr>ac_inbound := ib, ac_accounts := (ac_accounts st)(a := p)\<rparr>) \<and>
      account_ok n p \<and> pa_gauge ib = pa_gauge (ac_inbound st)"
    and "\<exists>p ib. inbound_connects_account 1 (Some a) st = Some (st\<lparr>ac_inbound := ib, ac_accounts := (ac_accounts st)(a := p)\<rparr>) \<and>
      account_ok (Suc n) p \<and> pa_gauge ib = pa_gauge (ac_inbound st) + 1"
    and "\<exists>p ib. inbound_connects_account 0 (Some a) st = Some (st\<lparr>ac_inbound := ib, ac_accounts := (ac_accounts st)(a := p)\<rparr>) \<and>
      account_ok (n - 1) p \<and> pa_gauge ib = pa_gauge (ac_inbound st) - 1"
proof -
  have ok: "account_ok n (ac_accounts (st\<lparr>ac_inbound := ib\<rparr>) a)" for ib using assms(1) by simp
  note C = accounter_calls [OF ok assms(2)]
  show "\<exists>p ib. inbound_connects_account (-1) (Some a) st = Some (st\<lparr>ac_inbound := ib, ac_accounts := (ac_accounts st)(a := p)\<rparr>) \<and>
      account_ok n p \<and> pa_gauge ib = pa_gauge (ac_inbound st)"
    using C(1) [of "(ac_inbound st)\<lparr>pa_counter := pa_counter (ac_inbound st) + 1\<rparr>"]
    by (fastforce simp: inbound_connects_account_def Let_def)
  show "\<exists>p ib. inbound_connects_account 1 (Some a) st = Some (st\<lparr>ac_inbound := ib, ac_accounts := (ac_accounts st)(a := p)\<rparr>) \<and>
      account_ok (Suc n) p \<and> pa_gauge ib = pa_gauge (ac_inbound st) + 1"
    using C(2) [of "gauge_up (ac_inbound st)"] by (fastforce simp: inbound_connects_account_def Let_def)
  show "\<exists>p ib. inbound_connects_account 0 (Some a) st = Some (st\<lparr>ac_inbound := ib, ac_accounts := (ac_accounts st)(a := p)\<rparr>) \<and>
      account_ok (n - 1) p \<and> pa_gauge ib = pa_gauge (ac_inbound st) - 1"
    using C(3) [of "(ac_inbound st)\<lparr>pa_gauge := pa_gauge (ac_inbound st) - 1\<rparr>"]
    by (fastforce simp: inbound_connects_account_def Let_def)
qed

lemma accounts_ok_upd:
  assumes "accounts_ok st" "account_ok (account_refs st' a) p" "\<And>b. b \<noteq> a \<Longrightarrow> account_refs st' b = account_refs st b"
    "ac_accounts st' = (ac_accounts st)(a := p)" "distinct (map li_account (ac_listeners st'))"
  shows "accounts_ok st'"
  using assms by (auto simp: accounts_ok_def)

lemma listener_refs: "l \<in> set (ac_listeners st) \<Longrightarrow> 0 < account_refs st (li_account l)"
  by (auto simp: account_refs_def filter_empty_conv)

lemma accounts_ok_log [simp]: "accounts_ok (accept_log es st) = accounts_ok st" "account_refs (accept_log es st) = account_refs st"
  "ac_accounts (accept_log es st) = ac_accounts st" "ac_inbound (accept_log es st) = ac_inbound st"
  "ac_clients (accept_log es st) = ac_clients st" "ac_lost (accept_log es st) = ac_lost st" "ac_listeners (accept_log es st) = ac_listeners st"
  by (simp_all add: accounts_ok_def accept_log_def account_refs_def fun_eq_iff)

text \<open>A refusal leaves clients, listeners and gauges as they are.\<close>

definition same_counts :: "accept_state \<Rightarrow> accept_state \<Rightarrow> bool" where
  "same_counts st st' \<longleftrightarrow> ac_listeners st' = ac_listeners st \<and> ac_clients st' = ac_clients st \<and> ac_lost st' = ac_lost st \<and>
     pa_gauge (ac_inbound st') = pa_gauge (ac_inbound st)"

lemma refuse_connection_ok:
  assumes I: "accounts_ok st" and l: "0 < account_refs st (li_account l)"
  shows "\<exists>st'. refuse_connection es fd l st = Some st' \<and> accounts_ok st' \<and> same_counts st st'"
proof -
  let ?a = "li_account l" let ?s = "accept_log (es @ [Closed fd]) st"
  have ok: "account_ok (account_refs st ?a) (ac_accounts ?s ?a)" using I by (simp add: accounts_ok_def)
  obtain p ib where R: "refuse_connection es fd l st = Some (?s\<lparr>ac_inbound := ib, ac_accounts := (ac_accounts ?s)(?a := p)\<rparr>)"
    "account_ok (account_refs st ?a) p" "pa_gauge ib = pa_gauge (ac_inbound ?s)"
    using inbound_calls(1) [OF ok l] by (auto simp: refuse_connection_def)
  let ?st = "?s\<lparr>ac_inbound := ib, ac_accounts := (ac_accounts ?s)(?a := p)\<rparr>"
  have refs: "account_refs ?st = account_refs st" by (simp add: account_refs_def fun_eq_iff)
  have "accounts_ok ?st"
    by (rule accounts_ok_upd [OF I, of _ ?a p]) (use R(2) refs I in \<open>simp_all add: accounts_ok_def\<close>)
  then show ?thesis using R by (auto simp: same_counts_def)
qed

section \<open>Accepting keeps the accounts\<close>

text \<open>The clients that count for an account, lost references included.\<close>

definition on_port :: "accept_state \<Rightarrow> nat \<Rightarrow> nat" where
  "on_port st a = client_refs a (ac_clients st) + count_list (ac_lost st) a"

lemma filter_distinct_map: "distinct (map f xs) \<Longrightarrow> x \<in> set xs \<Longrightarrow> length (filter (\<lambda>y. f y = f x) xs) = 1"
proof (induction xs)
  case (Cons y ys)
  show ?case
  proof (cases "f y = f x")
    case True
    have "f x \<notin> f ` set ys" using Cons.prems(1) True by auto
    then have "filter (\<lambda>y. f y = f x) ys = []" by (metis (mono_tags, lifting) filter_empty_conv imageI)
    then show ?thesis using True by simp
  next
    case False
    then have "x \<in> set ys" using Cons.prems(2) by auto
    then show ?thesis using False Cons by simp
  qed
qed simp

lemma refs_on_port:
  assumes "accounts_ok st" "l \<in> set (ac_listeners st)"
  shows "account_refs st (li_account l) = Suc (on_port st (li_account l))"
  using filter_distinct_map [of li_account "ac_listeners st" l] assms by (simp add: accounts_ok_def account_refs_def on_port_def)

lemma listener_account:
  assumes I: "accounts_ok st" and l: "l \<in> set (ac_listeners st)"
  shows "\<exists>pa. ac_accounts st (li_account l) = Some pa \<and> pa_gauge pa = int (on_port st (li_account l))"
proof -
  have "account_ok (Suc (on_port st (li_account l))) (ac_accounts st (li_account l))"
    using I refs_on_port [OF I l] unfolding accounts_ok_def by metis
  then show ?thesis by (auto simp: account_ok_def split: option.splits)
qed

lemma filter_parse_same:
  "c_addr (fst (snd (filter_parse al u w cg))) = c_addr (fst cg)" "c_fd (fst (snd (filter_parse al u w cg))) = c_fd (fst cg)"
  "c_filter_s (fst (snd (filter_parse al u w cg))) = c_filter_s (fst cg)" "c_flags (fst (snd (filter_parse al u w cg))) = c_flags (fst cg)"
  by (auto simp: filter_parse_def set_filter_list_def Let_def split: prod.split sum.split parsed.split)

lemma apply_filters_same:
  "c_addr (fst (apply_filters al fs cg)) = c_addr (fst cg) \<and> c_fd (fst (apply_filters al fs cg)) = c_fd (fst cg) \<and>
   c_filter_s (fst (apply_filters al fs cg)) = c_filter_s (fst cg) \<and> c_flags (fst (apply_filters al fs cg)) = c_flags (fst cg)"
  by (induction al fs cg rule: apply_filters.induct) (simp_all add: filter_parse_same)

text \<open>The conditions a connection has to meet, and the client made for it.\<close>

definition admitted :: "accept_cfg \<Rightarrow> listen_t \<Rightarrow> sockaddr_u \<Rightarrow> accept_state \<Rightarrow> bool" where
  "admitted cfg l sa st \<longleftrightarrow> int (on_port st (li_account l)) < li_clients_max l \<and> pa_gauge (ac_inbound st) < ag_maxclients cfg \<and>
     (\<forall>acl. li_acl l = Some acl \<longrightarrow> acl_check acl sa)"

definition new_client :: "listen_t \<Rightarrow> int \<Rightarrow> sockaddr_u \<Rightarrow> accepted_client \<Rightarrow> bool" where
  "new_client l fd sa a \<longleftrightarrow> a_account a = li_account l \<and> a_listener_id a = li_listener_id l \<and> c_state (a_client a) = CSTATE_LOGIN \<and>
     c_handler_line_in (a_client a) = Login_Handler \<and> c_flags (a_client a) = li_client_flags l \<and> c_addr (a_client a) = sa \<and>
     c_fd (a_client a) = fd \<and> a_udp a = None"

definition one_more :: "listen_t \<Rightarrow> int \<Rightarrow> sockaddr_u \<Rightarrow> bool \<Rightarrow> accept_state \<Rightarrow> accept_state \<Rightarrow> bool" where
  "one_more l fd sa lost st st' \<longleftrightarrow> ac_listeners st' = ac_listeners st \<and> pa_gauge (ac_inbound st') = pa_gauge (ac_inbound st) + 1 \<and>
     (if lost then ac_clients st' = ac_clients st \<and> ac_lost st' = li_account l # ac_lost st
      else ac_lost st' = ac_lost st \<and> (\<exists>a. new_client l fd sa a \<and> ac_clients st' = ac_clients st @ [a]))"

definition accept_outcome :: "accept_cfg \<Rightarrow> accept_env \<Rightarrow> listen_t \<Rightarrow> accept_state \<Rightarrow> accept_state \<Rightarrow> bool" where
  "accept_outcome cfg env l st st' \<longleftrightarrow>
     (case ae_accept env of
        Accepted fd sa \<Rightarrow>
          if admitted cfg l sa st \<and> ae_client_alloc env \<noteq> None \<and> li_ssl l \<and> \<not> ae_ssl_connection env then one_more l fd sa True st st'
          else if admitted cfg l sa st \<and> ae_client_alloc env \<noteq> None \<and> ae_sockopt env \<and> ae_pass_client env then one_more l fd sa False st st'
          else same_counts st st'
      | _ \<Rightarrow> same_counts st st')"

lemma accept_client_for_listener_ok:
  assumes I: "accounts_ok st" and l: "l \<in> set (ac_listeners st)"
  shows "\<exists>c p ib g. accept_client_for_listener env l fd sa c0 st =
      Some (c, st\<lparr>ac_inbound := ib, ac_accounts := (ac_accounts st)(li_account l := p), ac_gauge := g\<rparr>) \<and>
    account_ok (Suc (account_refs st (li_account l))) p \<and> pa_gauge ib = pa_gauge (ac_inbound st) + 1 \<and>
    c_flags c = li_client_flags l \<and> c_addr c = sa \<and> c_fd c = fd"
proof -
  let ?a = "li_account l"
  have ok: "account_ok (account_refs st ?a) (ac_accounts st ?a)" using I by (simp add: accounts_ok_def)
  obtain p ib where R: "inbound_connects_account 1 (Some ?a) st = Some (st\<lparr>ac_inbound := ib, ac_accounts := (ac_accounts st)(?a := p)\<rparr>)"
    "account_ok (Suc (account_refs st ?a)) p" "pa_gauge ib = pa_gauge (ac_inbound st) + 1"
    using inbound_calls(2) [OF ok listener_refs [OF l]] by blast
  define c1 where "c1 = c0\<lparr>c_fd := fd, c_addr := sa, c_ai_protocol := li_proto l, c_flags := li_client_flags l, c_udpclient := ae_udp env,
    c_last_read := ae_tick env, c_addr_hex := take 35 (hexsockaddr sa), c_addr_loc := take 79 (ae_sockname env)\<rparr>"
  obtain c2 g where F: "apply_filters (ae_filter_alloc env) (li_filters l) (c1, ac_gauge st) = (c2, g)" by fastforce
  have c2: "c_flags c2 = li_client_flags l" "c_addr c2 = sa" "c_fd c2 = fd"
    using apply_filters_same [of "ae_filter_alloc env" "li_filters l" "(c1, ac_gauge st)"] unfolding F by (simp_all add: c1_def)
  define c3 where "c3 = (case li_filter_s l of None \<Rightarrow> c2 | Some s \<Rightarrow> c2\<lparr>c_filter_s := take (FILTER_S_SIZE - 1) s\<rparr>)"
  have "accept_client_for_listener env l fd sa c0 st =
      Some (c3, st\<lparr>ac_inbound := ib, ac_accounts := (ac_accounts st)(?a := p), ac_gauge := g\<rparr>)"
    unfolding accept_client_for_listener_def Let_def R(1) option.case c1_def [symmetric] using F by (simp add: c3_def)
  moreover have "c_flags c3 = li_client_flags l" "c_addr c3 = sa" "c_fd c3 = fd" using c2 by (simp_all add: c3_def split: option.split)
  ultimately show ?thesis using R(2,3) by blast
qed

lemma do_accept_client_ok:
  assumes I: "accounts_ok st" and l: "l \<in> set (ac_listeners st)" and adm: "admitted cfg l sa st" and acc: "ae_accept env = Accepted fd sa"
  shows "\<exists>st'. do_accept_client cfg env l fd sa st = Some st' \<and> accounts_ok st' \<and> accept_outcome cfg env l st st'"
proof (cases "ae_client_alloc env")
  case None
  then show ?thesis using refuse_connection_ok [OF I listener_refs [OF l], of "[]" fd]
    by (auto simp: do_accept_client_def accept_outcome_def acc)
next
  case (Some c0)
  let ?a = "li_account l"
  obtain c1 p ib g where A: "accept_client_for_listener env l fd sa c0 st =
      Some (c1, st\<lparr>ac_inbound := ib, ac_accounts := (ac_accounts st)(?a := p), ac_gauge := g\<rparr>)"
    "account_ok (Suc (account_refs st ?a)) p" "pa_gauge ib = pa_gauge (ac_inbound st) + 1"
    "c_flags c1 = li_client_flags l" "c_addr c1 = sa" "c_fd c1 = fd"
    using accept_client_for_listener_ok [OF I l, of env fd sa c0] by blast
  define st1 where "st1 = st\<lparr>ac_inbound := ib, ac_accounts := (ac_accounts st)(?a := p), ac_gauge := g\<rparr>"
  define c where "c = c1\<lparr>c_state := CSTATE_LOGIN, c_handler_line_in := Login_Handler, c_keepalive := ae_tick env + ae_keepalive_interval env\<rparr>"
  obtain w st2 where W: "pick_next_worker (ag_workers cfg) st1 = (w, st2)" by fastforce
  obtain k where st2: "st2 = st1\<lparr>ac_next := k\<rparr>" using W by (auto simp: pick_next_worker_def Let_def)
  define a where "a = \<lparr>a_client = c, a_account = ?a, a_listener_id = li_listener_id l, a_worker = w, a_udp = None\<rparr>"
  have new: "new_client l fd sa a" using A(4-6) by (simp add: new_client_def a_def c_def)
  let ?err = "\<lambda>st'. inbound_connects_account 0 (Some ?a) (accept_log [Closed fd] st')"
  have run: "do_accept_client cfg env l fd sa st =
    (if li_ssl l \<and> \<not> ae_ssl_connection env then refuse_connection [] fd l (st1\<lparr>ac_lost := li_account l # ac_lost st1\<rparr>)
     else if \<not> ae_sockopt env then ?err st1 else if \<not> ae_pass_client env then ?err st2
     else Some (st2\<lparr>ac_clients := ac_clients st2 @ [a]\<rparr>))"
    unfolding do_accept_client_def Some option.case A(1) prod.case st1_def [symmetric] Let_def c_def [symmetric] W a_def [symmetric] ..
  have refs: "account_refs st1 = account_refs st" "account_refs (s\<lparr>ac_next := k\<rparr>) = account_refs s" for s k
    by (simp_all add: account_refs_def st1_def fun_eq_iff)
  have err: "\<exists>st'. ?err (st1\<lparr>ac_next := k\<rparr>) = Some st' \<and> accounts_ok st' \<and> same_counts st st'" for k
  proof -
    let ?s = "accept_log [Closed fd] (st1\<lparr>ac_next := k\<rparr>)"
    have "account_ok (Suc (account_refs st ?a)) (ac_accounts ?s ?a)" using A(2) by (simp add: st1_def)
    from inbound_calls(3) [OF this] obtain q jb where
      R: "?err (st1\<lparr>ac_next := k\<rparr>) = Some (?s\<lparr>ac_inbound := jb, ac_accounts := (ac_accounts ?s)(?a := q)\<rparr>)"
      "account_ok (account_refs st ?a) q" "pa_gauge jb = pa_gauge (ac_inbound ?s) - 1" by auto
    let ?st = "?s\<lparr>ac_inbound := jb, ac_accounts := (ac_accounts ?s)(?a := q)\<rparr>"
    have "account_refs ?st = account_refs st" by (simp add: account_refs_def accept_log_def st1_def fun_eq_iff)
    then have "accounts_ok ?st" using I R(2)
      by (intro accounts_ok_upd [OF I, of _ ?a q]) (simp_all add: st1_def accounts_ok_def)
    moreover have "same_counts st ?st" using R(3) A(3) by (simp add: same_counts_def st1_def)
    ultimately show ?thesis using R(1) by blast
  qed
  consider (tls) "li_ssl l" "\<not> ae_ssl_connection env" | (opt) "\<not> (li_ssl l \<and> \<not> ae_ssl_connection env)" "\<not> ae_sockopt env"
    | (full) "\<not> (li_ssl l \<and> \<not> ae_ssl_connection env)" "ae_sockopt env" "\<not> ae_pass_client env"
    | (ok) "\<not> (li_ssl l \<and> \<not> ae_ssl_connection env)" "ae_sockopt env" "ae_pass_client env" by blast
  then show ?thesis
  proof cases
    case tls
    let ?s = "st1\<lparr>ac_lost := ?a # ac_lost st1\<rparr>"
    have "account_refs ?s ?a = Suc (account_refs st ?a)" "\<And>b. b \<noteq> ?a \<Longrightarrow> account_refs ?s b = account_refs st b"
      by (simp_all add: account_refs_def client_refs_def st1_def a_def)
    then have "accounts_ok ?s" using I A(2) by (intro accounts_ok_upd [OF I, of _ ?a p]) (simp_all add: st1_def accounts_ok_def)
    moreover have "0 < account_refs ?s ?a" by (simp add: account_refs_def client_refs_def a_def)
    ultimately obtain st' where R: "refuse_connection [] fd l ?s = Some st'" "accounts_ok st'" "same_counts ?s st'"
      using refuse_connection_ok by blast
    have "one_more l fd sa True st st'" using R(3) new A(3) by (auto simp: one_more_def same_counts_def st1_def)
    then have "accept_outcome cfg env l st st'" using acc adm tls Some by (simp add: accept_outcome_def)
    then show ?thesis using run tls R by auto
  next
    case opt
    then show ?thesis using run err [of "ac_next st1"] acc by (auto simp: accept_outcome_def)
  next
    case full
    then show ?thesis using run err [of k] st2 acc by (auto simp: accept_outcome_def)
  next
    case ok
    let ?s = "st2\<lparr>ac_clients := ac_clients st2 @ [a]\<rparr>"
    have s: "?s = st1\<lparr>ac_next := k, ac_clients := ac_clients st1 @ [a]\<rparr>" by (simp add: st2)
    have "account_refs ?s ?a = Suc (account_refs st ?a)" "\<And>b. b \<noteq> ?a \<Longrightarrow> account_refs ?s b = account_refs st b"
      unfolding s by (simp_all add: account_refs_def client_refs_def st1_def a_def)
    then have "accounts_ok ?s" using I A(2) unfolding s by (intro accounts_ok_upd [OF I, of _ ?a p]) (simp_all add: st1_def accounts_ok_def)
    moreover have "one_more l fd sa False st ?s" unfolding s using new A(3) by (simp add: one_more_def st1_def)
    then have "accept_outcome cfg env l st ?s" using acc adm ok Some by (auto simp: accept_outcome_def)
    ultimately show ?thesis using run ok by auto
  qed
qed

lemma do_accept_ok:
  assumes I: "accounts_ok st" and l: "l \<in> set (ac_listeners st)" and acc: "ae_accept env \<noteq> Accept_Fatal"
  shows "\<exists>st'. do_accept cfg env l st = Some st' \<and> accounts_ok st' \<and> accept_outcome cfg env l st st'"
proof (cases "ae_accept env")
  case (Accepted fd sa)
  obtain pa where pa: "ac_accounts st (li_account l) = Some pa" "pa_gauge pa = int (on_port st (li_account l))"
    using listener_account [OF I l] by blast
  have ref: "\<exists>st'. refuse_connection es fd l st = Some st' \<and> accounts_ok st' \<and> same_counts st st'" for es
    using refuse_connection_ok [OF I listener_refs [OF l], of es fd] .
  show ?thesis
  proof (cases "admitted cfg l sa st")
    case True
    then have "do_accept cfg env l st = do_accept_client cfg env l fd sa st"
      by (auto simp: do_accept_def Accepted pa admitted_def)
    then show ?thesis using do_accept_client_ok [OF I l True Accepted] by simp
  next
    case False
    let ?full = "li_clients_max l \<le> int (on_port st (li_account l)) \<or> ag_maxclients cfg \<le> pa_gauge (ac_inbound st)"
    obtain es where "do_accept cfg env l st = refuse_connection es fd l st"
    proof (cases ?full)
      case True
      then show ?thesis by (intro that) (simp add: do_accept_def Accepted pa)
    next
      case F: False
      then have "\<exists>acl. li_acl l = Some acl \<and> \<not> acl_check acl sa" using False by (auto simp: admitted_def)
      then show ?thesis using F by (intro that [of "[]"]) (simp add: do_accept_def Accepted pa)
    qed
    then show ?thesis using ref [of es] False by (auto simp: accept_outcome_def Accepted)
  qed
qed (use I acc in \<open>auto simp: do_accept_def accept_outcome_def same_counts_def\<close>)

section \<open>Closing clients and UDP ports\<close>

lemma inbound_udp_calls:
  assumes "account_ok n (ac_accounts st a)" "0 < n"
  shows "\<exists>p. inbound_connects_account 3 (Some a) st = Some (st\<lparr>ac_accounts := (ac_accounts st)(a := p)\<rparr>) \<and> account_ok (Suc n) p"
    and "\<exists>p. inbound_connects_account 2 (Some a) st = Some (st\<lparr>ac_accounts := (ac_accounts st)(a := p)\<rparr>) \<and> account_ok (n - 1) p"
  using accounter_calls(2,3) [OF assms] by (simp_all add: inbound_connects_account_def)

definition uses :: "accepted_client \<Rightarrow> nat \<Rightarrow> nat" where
  "uses c a = (if a_account c = a then 1 else 0) + (if a_udp c = Some a then 1 else 0)"

lemma client_refs_simps [simp]:
  "client_refs a [] = 0" "client_refs a (c # cs) = uses c a + client_refs a cs"
  "client_refs a (cs @ ds) = client_refs a cs + client_refs a ds"
  by (simp_all add: client_refs_def uses_def)

lemma client_refs_remove:
  assumes "i < length cs"
  shows "client_refs a cs = uses (cs ! i) a + client_refs a (take i cs @ drop (Suc i) cs)"
  by (subst id_take_nth_drop [OF assms]) simp

lemma client_refs_update:
  assumes "i < length cs"
  shows "client_refs a (cs[i := c]) = uses c a + client_refs a (take i cs @ drop (Suc i) cs)"
  using assms by (simp add: upd_conv_take_nth_drop)

lemma accounts_ok_at: "accounts_ok st \<Longrightarrow> account_ok (account_refs st a) (ac_accounts st a)"
  by (simp add: accounts_ok_def)

lemma accept_client_closed_ok:
  assumes I: "accounts_ok st" and i: "i < length (ac_clients st)"
  shows "\<exists>st'. accept_client_closed i st = Some st' \<and> accounts_ok st' \<and> ac_listeners st' = ac_listeners st \<and>
    ac_clients st' = take i (ac_clients st) @ drop (Suc i) (ac_clients st) \<and> ac_lost st' = ac_lost st \<and>
    pa_gauge (ac_inbound st') = pa_gauge (ac_inbound st) - 1"
proof -
  define c where "c = ac_clients st ! i"
  define st0 where "st0 = st\<lparr>ac_clients := take i (ac_clients st) @ drop (Suc i) (ac_clients st)\<rparr>"
  let ?a = "a_account c"
  have refs: "account_refs st b = account_refs st0 b + uses c b" for b
    using client_refs_remove [OF i, of b] by (simp add: account_refs_def st0_def c_def)
  have ok: "account_ok (account_refs st0 b + uses c b) (ac_accounts st b)" for b using accounts_ok_at [OF I, of b] refs by simp
  have dist: "distinct (map li_account (ac_listeners st))" using I by (simp add: accounts_ok_def)
  have "account_ok (account_refs st0 ?a + uses c ?a) (ac_accounts st0 ?a)" using ok by (simp add: st0_def)
  from inbound_calls(3) [OF this] obtain p ib where
    D: "inbound_connects_account 0 (Some ?a) st0 = Some (st0\<lparr>ac_inbound := ib, ac_accounts := (ac_accounts st0)(?a := p)\<rparr>)"
    "account_ok (account_refs st0 ?a + uses c ?a - 1) p" "pa_gauge ib = pa_gauge (ac_inbound st0) - 1"
    by (auto simp: uses_def)
  define st1 where "st1 = st0\<lparr>ac_inbound := ib, ac_accounts := (ac_accounts st0)(?a := p)\<rparr>"
  have st1: "account_refs st1 = account_refs st0" by (simp add: st1_def account_refs_def fun_eq_iff)
  have acc: "ac_accounts st1 = (ac_accounts st)(?a := p)" "ac_listeners st1 = ac_listeners st" by (simp_all add: st1_def st0_def)
  show ?thesis
  proof (cases "a_udp c")
    case None
    have "account_ok (account_refs st0 b) (ac_accounts st1 b)" for b
      using D(2) ok [of b] None by (simp add: acc uses_def split: if_splits)
    then have "accounts_ok st1" unfolding accounts_ok_def st1 using dist by (simp add: acc)
    moreover have "accept_client_closed i st = Some st1"
      using D(1) None unfolding accept_client_closed_def Let_def st0_def [symmetric] c_def [symmetric] by (simp add: st1_def)
    ultimately show ?thesis using D(3) by (simp add: st1_def st0_def)
  next
    case (Some b)
    have "account_ok (Suc (account_refs st0 b)) (ac_accounts st1 b)"
      using D(2) ok [of b] Some by (auto simp: acc uses_def split: if_splits)
    from inbound_udp_calls(2) [OF this] obtain q where
      U: "inbound_connects_account 2 (Some b) st1 = Some (st1\<lparr>ac_accounts := (ac_accounts st1)(b := q)\<rparr>)" "account_ok (account_refs st0 b) q"
      by auto
    let ?s = "st1\<lparr>ac_accounts := (ac_accounts st1)(b := q)\<rparr>"
    have "account_refs ?s = account_refs st0" by (simp add: st1 [symmetric]) (simp add: account_refs_def fun_eq_iff)
    moreover have "account_ok (account_refs st0 d) (ac_accounts ?s d)" for d
      using D(2) ok [of d] U(2) Some by (auto simp: acc uses_def split: if_splits)
    ultimately have "accounts_ok ?s" unfolding accounts_ok_def using dist by (simp add: acc)
    moreover have "accept_client_closed i st = Some ?s"
      using D(1) Some U(1) unfolding accept_client_closed_def Let_def st0_def [symmetric] c_def [symmetric] by (simp add: st1_def)
    ultimately show ?thesis using D(3) by (simp add: st1_def st0_def)
  qed
qed

lemma accept_client_udp_ok:
  assumes I: "accounts_ok st" and i: "i < length (ac_clients st)" and b: "ac_accounts st b \<noteq> None"
  shows "\<exists>st'. accept_client_udp i b st = Some st' \<and> accounts_ok st' \<and> ac_listeners st' = ac_listeners st \<and>
    length (ac_clients st') = length (ac_clients st) \<and> length (ac_lost st) \<le> length (ac_lost st') \<and> ac_inbound st' = ac_inbound st"
proof -
  define c where "c = ac_clients st ! i"
  define st0 where "st0 = st\<lparr>ac_clients := (ac_clients st)[i := c\<lparr>a_udp := Some b\<rparr>],
    ac_lost := (case a_udp c of None \<Rightarrow> [] | Some d \<Rightarrow> [d]) @ ac_lost st\<rparr>"
  have "0 < account_refs st b" "account_ok (account_refs st b) (ac_accounts st0 b)"
    using accounts_ok_at [OF I, of b] b by (auto simp: account_ok_def st0_def)
  from inbound_udp_calls(1) [OF this(2,1)] obtain p where
    R: "inbound_connects_account 3 (Some b) st0 = Some (st0\<lparr>ac_accounts := (ac_accounts st0)(b := p)\<rparr>)" "account_ok (Suc (account_refs st b)) p"
    by blast
  let ?s = "st0\<lparr>ac_accounts := (ac_accounts st0)(b := p)\<rparr>"
  have refs: "account_refs ?s d = (if d = b then 1 else 0) + account_refs st d" for d
    using client_refs_remove [OF i, of d] client_refs_update [OF i, of d "c\<lparr>a_udp := Some b\<rparr>"]
    by (simp add: account_refs_def st0_def c_def uses_def split: option.split)
  have "accounts_ok ?s"
    by (rule accounts_ok_upd [OF I, of _ b p]) (use R(2) refs I in \<open>simp_all add: st0_def accounts_ok_def\<close>)
  moreover have "accept_client_udp i b st = Some ?s" using R(1) by (simp add: accept_client_udp_def st0_def c_def Let_def)
  ultimately show ?thesis by (simp add: st0_def)
qed

section \<open>Reconfiguration\<close>

lemma filter_account:
  assumes "distinct (map li_account ls)" "l \<in> set ls"
  shows "filter (\<lambda>k. li_account k \<noteq> li_account l) ls = filter (\<lambda>k. k \<noteq> l) ls"
  using assms by (intro filter_cong refl) (auto dest: distinct_map [THEN iffD1] inj_onD)

lemma length_filter_not: "length (filter P xs) + length (filter (\<lambda>x. \<not> P x) xs) = length xs"
  by (rule sum_length_filter_compl)

lemma listener_free_ok:
  assumes I: "accounts_ok st" and l: "l \<in> set (ac_listeners st)"
  shows "\<exists>st'. listener_free l st = Some st' \<and> accounts_ok st' \<and> ac_listeners st' = filter (\<lambda>k. k \<noteq> l) (ac_listeners st) \<and>
    ac_clients st' = ac_clients st \<and> ac_lost st' = ac_lost st \<and> ac_inbound st' = ac_inbound st \<and> ac_events st' = ac_events st"
proof -
  let ?a = "li_account l"
  have dist: "distinct (map li_account (ac_listeners st))" using I by (simp add: accounts_ok_def)
  obtain p where P: "port_accounter_drop (Some ?a) st = Some (st\<lparr>ac_accounts := (ac_accounts st)(?a := p)\<rparr>)"
    "account_ok (account_refs st ?a - 1) p"
    using accounter_calls(3) [OF accounts_ok_at [OF I] listener_refs [OF l]] by blast
  let ?s = "st\<lparr>ac_accounts := (ac_accounts st)(?a := p), ac_listeners := filter (\<lambda>k. k \<noteq> l) (ac_listeners st)\<rparr>"
  have R: "listener_free l st = Some ?s" using P(1) by (simp add: listener_free_def filter_account [OF dist l])
  have "account_refs ?s ?a = on_port st ?a"
    by (simp add: account_refs_def on_port_def filter_account [OF dist l, symmetric])
  then have 1: "account_refs ?s ?a = account_refs st ?a - 1" using refs_on_port [OF I l] by simp
  have 2: "account_refs ?s b = account_refs st b" if "b \<noteq> ?a" for b
  proof -
    have "filter (\<lambda>k. li_account k = b) (filter (\<lambda>k. k \<noteq> l) (ac_listeners st)) = filter (\<lambda>k. li_account k = b) (ac_listeners st)"
      using that by (auto intro!: filter_cong)
    then show ?thesis by (simp add: account_refs_def)
  qed
  have "distinct (map li_account (filter (\<lambda>k. k \<noteq> l) (ac_listeners st)))" using dist by (rule distinct_map_filter)
  then have "accounts_ok ?s" by (intro accounts_ok_upd [OF I, of _ ?a p]) (use P(2) 1 2 in simp_all)
  then show ?thesis using R by simp
qed

text \<open>What a reconfiguration leaves alone.\<close>

definition same_clients :: "accept_state \<Rightarrow> accept_state \<Rightarrow> bool" where
  "same_clients st st' \<longleftrightarrow> ac_clients st' = ac_clients st \<and> ac_lost st' = ac_lost st \<and> ac_inbound st' = ac_inbound st \<and>
     ac_events st' = ac_events st"

lemma same_clients_trans [trans]: "same_clients a b \<Longrightarrow> same_clients b c \<Longrightarrow> same_clients a c"
  by (simp add: same_clients_def)

definition configured :: "listen_config_t list \<Rightarrow> listen_t \<Rightarrow> bool" where
  "configured lcs l \<longleftrightarrow> (\<exists>lc \<in> set lcs. lcf_id lc = li_id l)"

lemma close_removed_ok:
  assumes "accounts_ok st" "set ls \<subseteq> set (ac_listeners st)" "distinct ls"
  shows "\<exists>st'. close_removed lcs ls st = Some st' \<and> accounts_ok st' \<and>
    ac_listeners st' = filter (\<lambda>l. l \<in> set ls \<longrightarrow> configured lcs l) (ac_listeners st) \<and> same_clients st st'"
  using assms
proof (induction ls arbitrary: st)
  case Nil
  then show ?case by (simp add: same_clients_def)
next
  case (Cons l ls)
  show ?case
  proof (cases "configured lcs l")
    case True
    have "filter (\<lambda>k. k \<in> set (l # ls) \<longrightarrow> configured lcs k) (ac_listeners st) = filter (\<lambda>k. k \<in> set ls \<longrightarrow> configured lcs k) (ac_listeners st)"
      using True by (auto intro!: filter_cong)
    then show ?thesis using True Cons.IH [OF Cons.prems(1)] Cons.prems(2,3) by (simp add: configured_def [symmetric])
  next
    case False
    obtain st1 where st1: "listener_free l st = Some st1" "accounts_ok st1" "ac_listeners st1 = filter (\<lambda>k. k \<noteq> l) (ac_listeners st)"
      "same_clients st st1" using listener_free_ok [OF Cons.prems(1), of l] Cons.prems(2) by (auto simp: same_clients_def)
    have "set ls \<subseteq> set (ac_listeners st1)" using Cons.prems(2,3) st1(3) by auto
    then obtain st' where st': "close_removed lcs ls st1 = Some st'" "accounts_ok st'"
      "ac_listeners st' = filter (\<lambda>k. k \<in> set ls \<longrightarrow> configured lcs k) (ac_listeners st1)" "same_clients st1 st'"
      using Cons.IH [OF st1(2)] Cons.prems(3) by auto
    have "ac_listeners st' = filter (\<lambda>k. k \<in> set (l # ls) \<longrightarrow> configured lcs k) (ac_listeners st)"
      unfolding st'(3) st1(3) filter_filter using False by (auto intro!: filter_cong)
    then show ?thesis using False st1 st' same_clients_trans by (auto simp: configured_def [symmetric])
  qed
qed

lemma close_removed_listeners_ok:
  assumes I: "accounts_ok st"
  shows "\<exists>st'. close_removed_listeners lcs st = Some st' \<and> accounts_ok st' \<and>
    ac_listeners st' = filter (configured lcs) (ac_listeners st) \<and> same_clients st st'"
proof -
  have "distinct (ac_listeners st)" using I by (simp add: accounts_ok_def distinct_map)
  then obtain st' where st': "close_removed_listeners lcs st = Some st'" "accounts_ok st'"
    "ac_listeners st' = filter (\<lambda>l. l \<in> set (ac_listeners st) \<longrightarrow> configured lcs l) (ac_listeners st)" "same_clients st st'"
    using close_removed_ok [OF I subset_refl, of lcs] unfolding close_removed_listeners_def by blast
  have "ac_listeners st' = filter (configured lcs) (ac_listeners st)" unfolding st'(3) by (auto intro!: filter_cong)
  then show ?thesis using st' by blast
qed

text \<open>A listener has the settings of its configuration.\<close>

definition listener_matches :: "listen_config_t \<Rightarrow> listen_t \<Rightarrow> bool" where
  "listener_matches lc l \<longleftrightarrow> li_id l = lcf_id lc \<and> li_acl l = map_option acl_dup (lcf_acl lc) \<and> li_filters l = lcf_filters lc \<and>
     li_hidden l = lcf_hidden lc \<and> li_client_flags l = lcf_client_flags lc \<and> li_clients_max l \<le> lcf_clients_max lc"

lemma listener_update_config_facts:
  "li_account (listener_update_config lc l) = li_account l" "li_id (listener_update_config lc l) = li_id l"
  "li_id l = lcf_id lc \<Longrightarrow> listener_matches lc (listener_update_config lc l)"
  by (simp_all add: listener_update_config_def listener_copy_filters_def listener_matches_def Let_def)

lemma update_first_map: "(\<And>x. f (g x) = f x) \<Longrightarrow> map f (update_first P g xs) = map f xs"
  by (induction xs) auto

lemma update_first_keeps: "x \<in> set xs \<Longrightarrow> \<not> P x \<Longrightarrow> x \<in> set (update_first P g xs)"
  by (induction xs) auto

lemma update_first_in: "\<exists>x \<in> set xs. P x \<Longrightarrow> \<exists>x \<in> set xs. P x \<and> g x \<in> set (update_first P g xs)"
  by (induction xs) auto

lemma account_refs_map:
  assumes "map li_account (ac_listeners st') = map li_account (ac_listeners st)" "same_clients st st'"
  shows "account_refs st' = account_refs st"
proof -
  have eq: "length (filter (\<lambda>l. li_account l = a) ls) = length (filter (\<lambda>b. b = a) (map li_account ls))" for a ls
    by (simp add: filter_map comp_def)
  show ?thesis using assms by (simp add: account_refs_def same_clients_def fun_eq_iff eq del: filter_map)
qed

lemma open_listener_ok:
  assumes I: "accounts_ok st" and a: "ac_accounts st (oe_account env) = None"
  shows "\<exists>rc st'. open_listener m env lc st = Some (rc, st') \<and> accounts_ok st' \<and> same_clients st st' \<and>
    (\<forall>b. b \<noteq> oe_account env \<longrightarrow> ac_accounts st' b = ac_accounts st b) \<and>
    (rc = 0 \<longrightarrow> (\<exists>l. ac_listeners st' = l # ac_listeners st \<and> listener_matches lc l)) \<and>
    (rc \<noteq> 0 \<longrightarrow> ac_listeners st' = ac_listeners st)"
proof -
  let ?a = "oe_account env"
  have 0: "account_refs st ?a = 0" using accounts_ok_at [OF I, of ?a] a by (simp add: account_ok_def)
  then have none: "l \<in> set (ac_listeners st) \<Longrightarrow> li_account l \<noteq> ?a" for l using listener_refs [of l st] by auto
  show ?thesis
  proof (cases "\<not> oe_bound env \<or> lcf_tls lc \<and> \<not> oe_tls env")
    case True
    have "filter (\<lambda>k. li_account k \<noteq> ?a) (ac_listeners st) = ac_listeners st" using none by (auto simp: filter_id_conv)
    then have "open_listener m env lc st = Some (-1, st\<lparr>ac_accounts := (ac_accounts st)(?a := None)\<rparr>)"
      using True by (simp add: open_listener_def Let_def listener_free_def port_accounter_drop_def on_account_def port_accounter_alloc_def)
    moreover have "st\<lparr>ac_accounts := (ac_accounts st)(?a := None)\<rparr> = st" using a by (simp add: fun_upd_idem)
    ultimately show ?thesis using I by (simp add: same_clients_def)
  next
    case False
    obtain l where L: "open_listener m env lc st =
        Some (0, st\<lparr>ac_accounts := (ac_accounts st)(?a \<mapsto> port_accounter_alloc), ac_listeners := l # ac_listeners st\<rparr>)"
      "li_account l = ?a" "listener_matches lc l"
      using False by (simp add: open_listener_def Let_def listener_copy_filters_def listener_matches_def)
    let ?s = "st\<lparr>ac_accounts := (ac_accounts st)(?a \<mapsto> port_accounter_alloc), ac_listeners := l # ac_listeners st\<rparr>"
    have "account_refs ?s b = (if b = ?a then 1 else 0) + account_refs st b" for b using L(2) by (simp add: account_refs_def)
    moreover have "distinct (map li_account (l # ac_listeners st))" 
    proof -
      have "?a \<notin> li_account ` set (ac_listeners st)" using none by (metis imageE)
      then show ?thesis using I L(2) by (simp add: accounts_ok_def)
    qed
    ultimately have "accounts_ok ?s"
      by (intro accounts_ok_upd [OF I, of _ ?a "Some port_accounter_alloc"]) (use 0 in \<open>simp_all add: account_ok_def port_accounter_alloc_def\<close>)
    then show ?thesis using L by (simp add: same_clients_def)
  qed
qed

text \<open>The pointers the allocator returns while listeners are opened are free and differ.\<close>

definition fresh_accounts :: "(listen_config_t \<Rightarrow> open_env) \<Rightarrow> listen_config_t list \<Rightarrow> accept_state \<Rightarrow> bool" where
  "fresh_accounts env lcs st \<longleftrightarrow> distinct (map (\<lambda>lc. oe_account (env lc)) lcs) \<and> (\<forall>lc \<in> set lcs. ac_accounts st (oe_account (env lc)) = None)"

definition distinct_ids :: "accept_state \<Rightarrow> bool" where
  "distinct_ids st \<longleftrightarrow> distinct (map li_id (ac_listeners st))"

definition opened :: "listen_config_t list \<Rightarrow> nat \<Rightarrow> accept_state \<Rightarrow> accept_state \<Rightarrow> bool" where
  "opened lcs failed st st' \<longleftrightarrow> accounts_ok st' \<and> distinct_ids st' \<and> same_clients st st' \<and>
     li_id ` set (ac_listeners st') \<subseteq> li_id ` set (ac_listeners st) \<union> lcf_id ` set lcs \<and>
     (\<forall>l \<in> set (ac_listeners st). li_id l \<notin> lcf_id ` set lcs \<longrightarrow> l \<in> set (ac_listeners st')) \<and>
     (failed = 0 \<longrightarrow> (\<forall>lc \<in> set lcs. \<exists>l \<in> set (ac_listeners st'). listener_matches lc l))"

lemma update_listener_ok:
  assumes I: "accounts_ok st" "distinct_ids st" and m: "\<exists>l \<in> set (ac_listeners st). li_id l = lcf_id lc"
  shows "opened [lc] 0 st (st\<lparr>ac_listeners := update_first (\<lambda>l. li_id l = lcf_id lc) (listener_update_config lc) (ac_listeners st)\<rparr>)"
proof -
  let ?ls = "update_first (\<lambda>l. li_id l = lcf_id lc) (listener_update_config lc) (ac_listeners st)"
  let ?s = "st\<lparr>ac_listeners := ?ls\<rparr>"
  have maps: "map li_account ?ls = map li_account (ac_listeners st)" "map li_id ?ls = map li_id (ac_listeners st)"
    by (simp_all add: update_first_map listener_update_config_facts)
  have sc: "same_clients st ?s" by (simp add: same_clients_def)
  have "account_refs ?s = account_refs st" using maps(1) sc by (intro account_refs_map) simp_all
  then have "accounts_ok ?s" using I(1) maps(1) by (simp add: accounts_ok_def)
  moreover have "distinct_ids ?s" using I(2) maps(2) by (simp add: distinct_ids_def)
  moreover have "li_id ` set ?ls = li_id ` set (ac_listeners st)" using arg_cong [OF maps(2), of set] by simp
  moreover have "\<forall>l \<in> set (ac_listeners st). li_id l \<notin> lcf_id ` set [lc] \<longrightarrow> l \<in> set ?ls" by (auto intro: update_first_keeps)
  moreover have "\<exists>l \<in> set ?ls. listener_matches lc l"
    using update_first_in [OF m] listener_update_config_facts(3) by blast
  ultimately show ?thesis using sc by (simp add: opened_def subset_insertI)
qed

lemma open_one_ok:
  assumes I: "accounts_ok st" "distinct_ids st" and new: "\<not> (\<exists>l \<in> set (ac_listeners st). li_id l = lcf_id lc)"
    and a: "ac_accounts st (oe_account env) = None"
  shows "\<exists>rc st'. open_listener m env lc st = Some (rc, st') \<and> opened [lc] (if rc = 0 then 0 else 1) st st' \<and>
    (\<forall>b. b \<noteq> oe_account env \<longrightarrow> ac_accounts st' b = ac_accounts st b)"
proof -
  obtain rc st' where R: "open_listener m env lc st = Some (rc, st')" "accounts_ok st'" "same_clients st st'"
    "\<forall>b. b \<noteq> oe_account env \<longrightarrow> ac_accounts st' b = ac_accounts st b"
    "rc = 0 \<longrightarrow> (\<exists>l. ac_listeners st' = l # ac_listeners st \<and> listener_matches lc l)" "rc \<noteq> 0 \<longrightarrow> ac_listeners st' = ac_listeners st"
    using open_listener_ok [OF I(1) a, of m lc] by blast
  have "opened [lc] (if rc = 0 then 0 else 1) st st'"
  proof (cases "rc = 0")
    case True
    then obtain l where l: "ac_listeners st' = l # ac_listeners st" "listener_matches lc l" using R(5) by blast
    have "li_id l = lcf_id lc" using l(2) by (simp add: listener_matches_def)
    then have "distinct_ids st'" using I(2) new l(1) by (auto simp: distinct_ids_def)
    then show ?thesis using True l R(2,3) \<open>li_id l = lcf_id lc\<close> by (auto simp: opened_def)
  next
    case False
    then show ?thesis using R(2,3,6) I(2) by (auto simp: opened_def distinct_ids_def)
  qed
  then show ?thesis using R(1,4) by blast
qed

lemma opened_trans:
  assumes "opened [lc] f st st1" "opened lcs g st1 st'" "lcf_id lc \<notin> lcf_id ` set lcs" "h = 0 \<longrightarrow> f = 0 \<and> g = 0"
  shows "opened (lc # lcs) h st st'"
proof -
  have "\<exists>l \<in> set (ac_listeners st'). listener_matches lc l" if h: "h = 0"
  proof -
    obtain l where l: "l \<in> set (ac_listeners st1)" "listener_matches lc l" using assms(1,4) h by (auto simp: opened_def)
    then have "li_id l \<notin> lcf_id ` set lcs" using assms(3) by (simp add: listener_matches_def)
    then show ?thesis using l assms(2) by (auto simp: opened_def)
  qed
  moreover have "same_clients st st'" using assms(1,2) by (simp add: opened_def same_clients_def)
  moreover have "li_id ` set (ac_listeners st') \<subseteq> li_id ` set (ac_listeners st) \<union> lcf_id ` set (lc # lcs)"
  proof -
    have "li_id ` set (ac_listeners st1) \<subseteq> li_id ` set (ac_listeners st) \<union> lcf_id ` set [lc]"
      "li_id ` set (ac_listeners st') \<subseteq> li_id ` set (ac_listeners st1) \<union> lcf_id ` set lcs"
      using assms(1,2) unfolding opened_def by blast+
    then show ?thesis by (simp only: list.set image_insert image_empty) blast
  qed
  ultimately show ?thesis using assms(1,2,4) by (simp add: opened_def)
qed

lemma open_missing_ok:
  assumes "accounts_ok st" "distinct_ids st" "distinct (map lcf_id lcs)" "fresh_accounts env lcs st"
  shows "\<exists>failed st'. open_missing_listeners m env lcs st = Some (failed, st') \<and> opened lcs failed st st'"
  using assms
proof (induction lcs arbitrary: st)
  case Nil
  then show ?case by (auto simp: opened_def same_clients_def)
next
  case (Cons lc lcs)
  have id: "lcf_id lc \<notin> lcf_id ` set lcs" using Cons.prems(3) by auto
  show ?case
  proof (cases "\<exists>l \<in> set (ac_listeners st). li_id l = lcf_id lc")
    case True
    define st1 where "st1 = st\<lparr>ac_listeners := update_first (\<lambda>l. li_id l = lcf_id lc) (listener_update_config lc) (ac_listeners st)\<rparr>"
    have O: "opened [lc] 0 st st1" unfolding st1_def by (rule update_listener_ok [OF Cons.prems(1,2) True])
    have "fresh_accounts env lcs st1" using Cons.prems(4) by (simp add: fresh_accounts_def st1_def)
    then obtain failed st' where R: "open_missing_listeners m env lcs st1 = Some (failed, st')" "opened lcs failed st1 st'"
      using Cons.IH [of st1] O Cons.prems(3) by (auto simp: opened_def)
    have "opened (lc # lcs) failed st st'" by (rule opened_trans [OF O R(2) id]) simp
    then show ?thesis using True R(1) by (simp add: st1_def)
  next
    case False
    have a: "ac_accounts st (oe_account (env lc)) = None" using Cons.prems(4) by (simp add: fresh_accounts_def)
    obtain rc st1 where O: "open_listener m (env lc) lc st = Some (rc, st1)" "opened [lc] (if rc = 0 then 0 else 1) st st1"
      "\<forall>b. b \<noteq> oe_account (env lc) \<longrightarrow> ac_accounts st1 b = ac_accounts st b"
      using open_one_ok [OF Cons.prems(1,2) False a, of m] by blast
    have "oe_account (env k) \<noteq> oe_account (env lc)" if "k \<in> set lcs" for k
    proof -
      have "oe_account (env lc) \<notin> (\<lambda>lc. oe_account (env lc)) ` set lcs" using Cons.prems(4) by (simp add: fresh_accounts_def)
      then show ?thesis using that by (metis (mono_tags) imageI)
    qed
    then have "fresh_accounts env lcs st1" using Cons.prems(4) O(3) by (simp add: fresh_accounts_def)
    then obtain failed st' where R: "open_missing_listeners m env lcs st1 = Some (failed, st')" "opened lcs failed st1 st'"
      using Cons.IH [of st1] O(2) Cons.prems(3) by (auto simp: opened_def)
    have "opened (lc # lcs) (if rc \<noteq> 0 then failed + 1 else failed) st st'"
      by (rule opened_trans [OF O(2) R(2) id]) simp
    then show ?thesis using False O(1) R(1) by simp
  qed
qed

text \<open>A reconfiguration ends with the configured listeners, or the program exits since one could not be opened.\<close>

definition reconfigured :: "listen_config_t list \<Rightarrow> accept_state \<Rightarrow> accept_state \<Rightarrow> bool" where
  "reconfigured lcs st st' \<longleftrightarrow> ac_clients st' = ac_clients st \<and> ac_lost st' = ac_lost st \<and> ac_inbound st' = ac_inbound st \<and>
     ac_events st' = ac_events st @ map (\<lambda>a. Shut_Down (c_fd (a_client a))) (filter (rescan_denies st') (ac_clients st)) \<and>
     li_id ` set (ac_listeners st') = lcf_id ` set lcs \<and>
     (\<forall>lc \<in> set lcs. \<exists>l \<in> set (ac_listeners st'). listener_matches lc l)"

lemma accept_reconfigure_ok:
  assumes I: "accounts_ok st" "distinct_ids st" and c: "distinct (map lcf_id lcs)"
    and f: "\<And>st1. close_removed_listeners lcs st = Some st1 \<Longrightarrow> fresh_accounts env lcs st1"
    and R: "accept_reconfigure m env lcs st = Some st'"
  shows "accounts_ok st' \<and> distinct_ids st' \<and> reconfigured lcs st st'"
proof -
  obtain st1 where C: "close_removed_listeners lcs st = Some st1" "accounts_ok st1"
    "ac_listeners st1 = filter (configured lcs) (ac_listeners st)" "same_clients st st1"
    using close_removed_listeners_ok [OF I(1), of lcs] by blast
  have "distinct_ids st1" using I(2) C(3) by (simp add: distinct_ids_def distinct_map_filter)
  then obtain failed st2 where O: "open_missing_listeners m env lcs st1 = Some (failed, st2)" "opened lcs failed st1 st2"
    using open_missing_ok [OF C(2) _ c f [OF C(1)], of m] by blast
  have 0: "failed = 0" "st' = rescan_client_acls st2" using R C(1) O(1) by (auto simp: accept_reconfigure_def split: if_splits)
  have eqs: "ac_listeners st' = ac_listeners st2" "account_refs st' = account_refs st2" "ac_accounts st' = ac_accounts st2"
    by (simp_all add: 0(2) rescan_client_acls_def account_refs_def fun_eq_iff)
  have "rescan_denies st' = rescan_denies st2" by (simp add: rescan_denies_def find_listener_hash_id_def eqs(1) fun_eq_iff)
  then have ev: "ac_events st' = ac_events st2 @ map (\<lambda>a. Shut_Down (c_fd (a_client a))) (filter (rescan_denies st') (ac_clients st2))"
    "ac_clients st' = ac_clients st2" "ac_lost st' = ac_lost st2" "ac_inbound st' = ac_inbound st2"
    by (simp_all add: 0(2) rescan_client_acls_def)
  have m: "\<forall>lc \<in> set lcs. \<exists>l \<in> set (ac_listeners st'). listener_matches lc l" using O(2) 0(1) eqs(1) by (simp add: opened_def)
  have "li_id ` set (ac_listeners st1) \<subseteq> lcf_id ` set lcs" 
  proof -
    have "li_id k \<in> lcf_id ` set lcs" if "configured lcs k" for k using that unfolding configured_def by (metis imageI)
    then show ?thesis by (auto simp: C(3))
  qed
  moreover have "li_id ` set (ac_listeners st2) \<subseteq> li_id ` set (ac_listeners st1) \<union> lcf_id ` set lcs"
    using O(2) unfolding opened_def by (elim conjE)
  ultimately have "li_id ` set (ac_listeners st') \<subseteq> lcf_id ` set lcs" unfolding eqs(1) by (metis Un_absorb1 subset_trans sup_commute)
  moreover have "lcf_id ` set lcs \<subseteq> li_id ` set (ac_listeners st')" 
  proof (rule image_subsetI)
    fix lc assume "lc \<in> set lcs"
    then obtain l where "l \<in> set (ac_listeners st')" "li_id l = lcf_id lc" using m by (auto simp: listener_matches_def)
    then show "lcf_id lc \<in> li_id ` set (ac_listeners st')" by (metis imageI)
  qed
  moreover have "same_clients st st2" using C(4) O(2) by (simp add: opened_def same_clients_def)
  ultimately have "reconfigured lcs st st'" using m ev by (simp add: reconfigured_def same_clients_def)
  moreover have "accounts_ok st'" using O(2) eqs by (simp add: opened_def accounts_ok_def)
  moreover have "distinct_ids st'" using O(2) eqs(1) by (simp add: opened_def distinct_ids_def)
  ultimately show ?thesis by blast
qed

section \<open>The accept thread and the workers\<close>

text \<open>The steps that change accounts: an accepted connection, a UDP port for a client, a closed client, a closed uplink (which was
  never counted as an inbound connection and is counted as one that ends), and a reconfiguration.\<close>

definition accept_uplink_closed :: "accept_state \<Rightarrow> accept_state" where
  "accept_uplink_closed st = st\<lparr>ac_inbound := (ac_inbound st)\<lparr>pa_gauge := pa_gauge (ac_inbound st) - 1\<rparr>\<rparr>"

inductive accept_step :: "accept_cfg \<Rightarrow> accept_state \<Rightarrow> accept_state \<Rightarrow> bool" for cfg where
  Step_Accept: "l \<in> set (ac_listeners st) \<Longrightarrow> do_accept cfg env l st = Some st' \<Longrightarrow> accept_step cfg st st'"
| Step_Udp: "i < length (ac_clients st) \<Longrightarrow> accept_client_udp i b st = Some st' \<Longrightarrow> accept_step cfg st st'"
| Step_Closed: "i < length (ac_clients st) \<Longrightarrow> accept_client_closed i st = Some st' \<Longrightarrow> accept_step cfg st st'"
| Step_Uplink_Closed: "accept_step cfg st (accept_uplink_closed st)"
| Step_Reconfigure: "distinct (map lcf_id lcs) \<Longrightarrow> (\<And>st1. close_removed_listeners lcs st = Some st1 \<Longrightarrow> fresh_accounts env lcs st1) \<Longrightarrow>
    accept_reconfigure (ag_maxclients cfg) env lcs st = Some st' \<Longrightarrow> accept_step cfg st st'"

definition accept_init :: accept_state where
  "accept_init = \<lparr>ac_listeners = [], ac_accounts = \<lambda>_. None,
     ac_inbound = \<lparr>pa_counter = 0, pa_gauge = 0, pa_gauge_max = 0, pa_refcount = 99\<rparr>,
     ac_next = 0, ac_clients = [], ac_lost = [], ac_gauge = 0, ac_events = []\<rparr>"

inductive accept_reach :: "accept_cfg \<Rightarrow> accept_state \<Rightarrow> bool" for cfg where
  Reach_Init: "accept_reach cfg accept_init"
| Reach_Step: "accept_reach cfg st \<Longrightarrow> accept_step cfg st st' \<Longrightarrow> accept_reach cfg st'"

definition accept_inv :: "accept_state \<Rightarrow> bool" where
  "accept_inv st \<longleftrightarrow> accounts_ok st \<and> distinct_ids st \<and> pa_gauge (ac_inbound st) \<le> int (length (ac_clients st) + length (ac_lost st))"

lemma do_accept_Some: "do_accept cfg env l st = Some st' \<Longrightarrow> ae_accept env \<noteq> Accept_Fatal"
  by (auto simp: do_accept_def)

lemma accept_client_udp_Some: "accept_client_udp i b st = Some st' \<Longrightarrow> ac_accounts st b \<noteq> None"
  by (auto simp: accept_client_udp_def inbound_connects_account_def port_accounter_add_def on_account_def Let_def split: option.splits)

lemma accept_step_inv:
  assumes "accept_step cfg st st'" and I: "accept_inv st"
  shows "accept_inv st'"
  using assms(1)
proof cases
  case (Step_Accept l env)
  have "accounts_ok st' \<and> accept_outcome cfg env l st st'"
    using do_accept_ok [OF _ Step_Accept(1) do_accept_Some [OF Step_Accept(2)], of cfg] I Step_Accept(2) by (auto simp: accept_inv_def)
  then show ?thesis using I
    by (auto simp: accept_inv_def accept_outcome_def one_more_def same_counts_def distinct_ids_def split: accept_result.splits if_splits)
next
  case (Step_Udp i b)
  then show ?thesis using accept_client_udp_ok [OF _ Step_Udp(1) accept_client_udp_Some [OF Step_Udp(2)]] I
    by (auto simp: accept_inv_def distinct_ids_def)
next
  case (Step_Closed i)
  then show ?thesis using accept_client_closed_ok [OF _ Step_Closed(1)] I by (auto simp: accept_inv_def distinct_ids_def)
next
  case Step_Uplink_Closed
  have "account_refs st' = account_refs st" by (simp add: Step_Uplink_Closed accept_uplink_closed_def account_refs_def fun_eq_iff)
  then show ?thesis using I by (simp add: Step_Uplink_Closed accept_inv_def accounts_ok_def distinct_ids_def accept_uplink_closed_def)
next
  case (Step_Reconfigure lcs env)
  have "accounts_ok st' \<and> distinct_ids st' \<and> reconfigured lcs st st'"
    by (rule accept_reconfigure_ok [OF _ _ Step_Reconfigure(1,2,3)]) (use I in \<open>auto simp: accept_inv_def\<close>)
  then show ?thesis using I by (auto simp: accept_inv_def reconfigured_def)
qed

lemma accept_reach_inv: "accept_reach cfg st \<Longrightarrow> accept_inv st"
proof (induction rule: accept_reach.induct)
  case Reach_Init
  then show ?case by (simp add: accept_inv_def accounts_ok_def account_ok_def account_refs_def distinct_ids_def accept_init_def)
next
  case (Reach_Step st st')
  then show ?case using accept_step_inv by blast
qed

lemma accept_reach_accounts: "accept_reach cfg st \<Longrightarrow> accounts_ok st" "accept_reach cfg st \<Longrightarrow> distinct_ids st"
  using accept_reach_inv by (auto simp: accept_inv_def)

section \<open>Properties\<close>


text \<open>The gauge of a listener counts the clients of its port, and a client can be closed without using a freed account.\<close>

theorem accept_accounts_exact:
  assumes "accept_reach cfg st"
  shows "(\<forall>l \<in> set (ac_listeners st). \<exists>pa. ac_accounts st (li_account l) = Some pa \<and> pa_gauge pa = int (on_port st (li_account l))) \<and>
    (\<forall>i < length (ac_clients st). \<exists>st'. accept_client_closed i st = Some st')"
  using listener_account [OF accept_reach_accounts(1) [OF assms]] accept_client_closed_ok [OF accept_reach_accounts(1) [OF assms]]
  by fast


text \<open>Connection after connection fails in TLS.\<close>

fun accept_all :: "accept_cfg \<Rightarrow> accept_env list \<Rightarrow> listen_t \<Rightarrow> accept_state \<Rightarrow> accept_state option" where
  "accept_all cfg [] l st = Some st"
| "accept_all cfg (env # envs) l st = Option.bind (do_accept cfg env l st) (accept_all cfg envs l)"

definition tls_attempt :: "listen_t \<Rightarrow> accept_env \<Rightarrow> bool" where
  "tls_attempt l env \<longleftrightarrow> \<not> ae_ssl_connection env \<and> ae_client_alloc env \<noteq> None \<and>
     (case ae_accept env of Accepted fd sa \<Rightarrow> (case li_acl l of None \<Rightarrow> True | Some acl \<Rightarrow> acl_check acl sa) | _ \<Rightarrow> False)"

lemma tls_attempt_lost:
  assumes I: "accounts_ok st" and l: "l \<in> set (ac_listeners st)" "li_ssl l" and t: "tls_attempt l env"
    and free: "int (on_port st (li_account l)) < li_clients_max l" "pa_gauge (ac_inbound st) < ag_maxclients cfg"
  shows "\<exists>st'. do_accept cfg env l st = Some st' \<and> accounts_ok st' \<and> ac_listeners st' = ac_listeners st \<and> ac_clients st' = ac_clients st \<and>
    on_port st' (li_account l) = Suc (on_port st (li_account l)) \<and> pa_gauge (ac_inbound st') = pa_gauge (ac_inbound st) + 1"
proof -
  obtain fd sa where acc: "ae_accept env = Accepted fd sa" "\<forall>acl. li_acl l = Some acl \<longrightarrow> acl_check acl sa"
    using t by (auto simp: tls_attempt_def split: accept_result.splits option.splits)
  have "admitted cfg l sa st" using free acc(2) by (simp add: admitted_def)
  then have "accept_outcome cfg env l st st' = one_more l fd sa True st st'" for st'
    using acc(1) t l(2) by (simp add: accept_outcome_def tls_attempt_def)
  then obtain st' where st': "do_accept cfg env l st = Some st'" "accounts_ok st'" "one_more l fd sa True st st'"
    using do_accept_ok [OF I l(1), of env cfg] acc(1) by auto
  then show ?thesis by (auto simp: one_more_def on_port_def)
qed

lemma tls_attempts_lost:
  assumes "accounts_ok st" "l \<in> set (ac_listeners st)" "li_ssl l" "\<forall>env \<in> set envs. tls_attempt l env"
    "int (on_port st (li_account l) + length envs) \<le> li_clients_max l" "pa_gauge (ac_inbound st) + int (length envs) \<le> ag_maxclients cfg"
  shows "\<exists>st'. accept_all cfg envs l st = Some st' \<and> accounts_ok st' \<and> ac_listeners st' = ac_listeners st \<and> ac_clients st' = ac_clients st \<and>
    on_port st' (li_account l) = on_port st (li_account l) + length envs"
  using assms
proof (induction envs arbitrary: st)
  case (Cons env envs)
  obtain st1 where st1: "do_accept cfg env l st = Some st1" "accounts_ok st1" "ac_listeners st1 = ac_listeners st" "ac_clients st1 = ac_clients st"
    "on_port st1 (li_account l) = Suc (on_port st (li_account l))" "pa_gauge (ac_inbound st1) = pa_gauge (ac_inbound st) + 1"
    using tls_attempt_lost [OF Cons.prems(1-3), of env cfg] Cons.prems(4-6) by auto
  then show ?case using Cons.IH [of st1] Cons.prems by auto
qed simp


section \<open>The turn of the workers\<close>

fun picks :: "nat \<Rightarrow> nat \<Rightarrow> accept_state \<Rightarrow> nat list" where
  "picks n 0 st = []"
| "picks n (Suc k) st = (let (i, st') = pick_next_worker n st in i # picks n k st')"

lemma picks_mod:
  assumes "0 < n" "ac_next st \<le> n"
  shows "picks n k st = map (\<lambda>j. (ac_next st + j) mod n) [0..<k]"
  using assms(2)
proof (induction k arbitrary: st)
  case (Suc k)
  define i where "i = (if ac_next st < n then ac_next st else 0)"
  have i: "i < n" "i = ac_next st mod n" using assms(1) Suc.prems by (auto simp: i_def)
  have "picks n (Suc k) st = i # picks n k (st\<lparr>ac_next := i + 1\<rparr>)" by (simp add: pick_next_worker_def Let_def i_def)
  also have "\<dots> = i # map (\<lambda>j. (i + 1 + j) mod n) [0..<k]" using Suc.IH [of "st\<lparr>ac_next := i + 1\<rparr>"] i(1) by simp
  also have "\<dots> = i # map (\<lambda>j. (ac_next st + Suc j) mod n) [0..<k]" 
  proof -
    have "(i + 1 + j) mod n = (ac_next st + Suc j) mod n" for j
      using mod_add_left_eq [of "ac_next st" n "Suc j"] by (simp add: i(2))
    then show ?thesis by (simp only:)
  qed
  also have "\<dots> = map (\<lambda>j. (ac_next st + j) mod n) [0..<Suc k]"
    by (simp add: upt_conv_Cons i(2) map_Suc_upt [symmetric] comp_def del: upt_Suc)
  finally show ?case .
qed simp

text \<open>Any \<open>n\<close> clients in a row go to the \<open>n\<close> workers, one each.\<close>

lemma picks_fair:
  assumes "0 < n" "ac_next st \<le> n"
  shows "distinct (picks n n st) \<and> set (picks n n st) = {..<n}"
proof -
  have inj: "inj_on (\<lambda>j. (ac_next st + j) mod n) {0..<n}"
  proof (rule inj_onI)
    fix j k assume jk: "j \<in> {0..<n}" "k \<in> {0..<n}" "(ac_next st + j) mod n = (ac_next st + k) mod n"
    then obtain p q where "ac_next st + j + n * p = ac_next st + k + n * q" by (auto simp: nat_mod_eq_iff)
    then have "j mod n = k mod n" unfolding nat_mod_eq_iff by (intro exI [of _ p] exI [of _ q]) simp
    then show "j = k" using jk by simp
  qed
  have sub: "(\<lambda>j. (ac_next st + j) mod n) ` {0..<n} \<subseteq> {..<n}" using assms(1) by auto
  have "(\<lambda>j. (ac_next st + j) mod n) ` {0..<n} = {..<n}"
    using sub card_image [OF inj] by (intro card_subset_eq) simp_all
  then show ?thesis using inj by (simp add: picks_mod [OF assms] distinct_map atLeast_upt [symmetric] flip: atLeast0LessThan)
qed

section \<open>Witnesses\<close>

definition demo_port :: listen_config_t where
  "demo_port = \<lparr>lcf_id = 7, lcf_addr_s = ''0.0.0.0:14580'', lcf_portnum = 14580, lcf_clients_max = 1, lcf_corepeer = False, lcf_hidden = False,
     lcf_tls = True, lcf_proto = IPPROTO_TCP, lcf_acl = None, lcf_filters = [], lcf_client_flags = CLFLAGS_INPORT\<rparr>"

definition demo_port_env :: open_env where
  "demo_port_env = \<lparr>oe_account = 0, oe_bound = True, oe_tls = True\<rparr>"

definition demo_accept_cfg :: accept_cfg where
  "demo_accept_cfg = \<lparr>ag_maxclients = 100, ag_workers = 2\<rparr>"

definition demo_listener :: listen_t where
  "demo_listener = \<lparr>li_id = 7, li_listener_id = listener_hash ''0.0.0.0:14580'' IPPROTO_TCP, li_client_flags = CLFLAGS_INPORT, li_portnum = 14580,
     li_clients_max = 1, li_corepeer = False, li_hidden = False, li_proto = IPPROTO_TCP, li_account = 0, li_acl = None, li_ssl = True,
     li_filters = [], li_filter_s = None\<rparr>"

definition demo_port_state :: accept_state where
  "demo_port_state = accept_init\<lparr>ac_listeners := [demo_listener], ac_accounts := [0 \<mapsto> port_accounter_alloc]\<rparr>"

definition demo_accept_env :: "bool \<Rightarrow> accept_env" where
  "demo_accept_env tls = \<lparr>ae_accept = Accepted 9 (SA_INET [192, 168, 1, 7] 1234), ae_client_alloc = Some demo_client, ae_udp = False,
     ae_sockname = ''0.0.0.0:14580'', ae_ssl_connection = tls, ae_sockopt = True, ae_pass_client = True, ae_filter_alloc = True,
     ae_tick = 5, ae_keepalive_interval = 20\<rparr>"

lemma demo_close: "close_removed_listeners lcs accept_init = Some accept_init"
  by (simp add: close_removed_listeners_def accept_init_def)

lemma demo_reconfigure: "accept_reconfigure (ag_maxclients demo_accept_cfg) (\<lambda>_. demo_port_env) [demo_port] accept_init = Some demo_port_state"
  unfolding accept_reconfigure_def demo_close option.case
  by (simp add: open_listener_def demo_port_def demo_port_env_def demo_accept_cfg_def demo_port_state_def
      demo_listener_def accept_init_def rescan_client_acls_def listener_copy_filters_def Let_def)

lemma demo_fresh: "fresh_accounts (\<lambda>_. demo_port_env) [demo_port] accept_init"
  by (simp add: fresh_accounts_def accept_init_def)

lemma demo_port_reach: "accept_reach demo_accept_cfg demo_port_state"
  by (rule Reach_Step [OF Reach_Init Step_Reconfigure [OF _ _ demo_reconfigure]]) (use demo_fresh demo_close in simp_all)

lemma demo_port_facts: "demo_listener \<in> set (ac_listeners demo_port_state)" "on_port demo_port_state 0 = 0" "ac_clients demo_port_state = []"
  "li_account demo_listener = 0" "li_clients_max demo_listener = 1" "li_ssl demo_listener" "pa_gauge (ac_inbound demo_port_state) = 0"
  "li_acl demo_listener = None" "ae_accept (demo_accept_env t) = Accepted 9 (SA_INET [192, 168, 1, 7] 1234)"
  by (simp_all add: demo_port_state_def demo_listener_def on_port_def accept_init_def demo_accept_env_def)




end
