(* ===== verification/Uplink.thy ===== *)
theory Uplink
  imports C_Scan Worker_Clients Sock_Addr
begin

text \<open>
  \<^verbatim>\<open>src/src/uplink.c\<close> and the directive \<^verbatim>\<open>uplink\<close> of \<^verbatim>\<open>config.c\<close>: which servers this one connects to. The thread keeps one
  regular uplink connected, taking the configured ones in turn, and all uplinks of the multi kind. Sockets, TLS and
  the resolver are arguments. A round of the thread is one step; in between connections are closed and
  configurations installed. Shutting down is not modelled.
\<close>

unbundle bit_operations_syntax

section \<open>Configured uplinks\<close>

definition UPLINK_ST_UNKNOWN :: int where "UPLINK_ST_UNKNOWN = -1"
definition UPLINK_ST_NOT_LINKED :: int where "UPLINK_ST_NOT_LINKED = 0"
definition UPLINK_ST_CONNECTING :: int where "UPLINK_ST_CONNECTING = 1"
definition UPLINK_ST_CONNECTED :: int where "UPLINK_ST_CONNECTED = 2"

lemmas uplink_st_defs = UPLINK_ST_UNKNOWN_def UPLINK_ST_NOT_LINKED_def UPLINK_ST_CONNECTING_def UPLINK_ST_CONNECTED_def

record uplink_config_t =
  ul_name :: string
  ul_proto :: string
  ul_host :: string
  ul_port :: string
  ul_keyfile :: "string option"
  ul_certfile :: "string option"
  ul_cafile :: "string option"
  ul_crlfile :: "string option"
  ul_ssl :: bool
  ul_client_flags :: u32
  ul_state :: int
  ul_client_ptr :: "nat option"

abbreviation multi :: "uplink_config_t \<Rightarrow> bool" where
  "multi l \<equiv> has_flag (ul_client_flags l) CLFLAGS_UPLINKMULTI"

text \<open>The file behind an option, if it is the first one of its kind, and the words behind it.\<close>

definition config_uplink_tls :: "string option \<Rightarrow> string list \<Rightarrow> (string \<times> string list) option" where
  "config_uplink_tls dst ws =
     (case ws of [] \<Rightarrow> None | f # ws' \<Rightarrow> if dst \<noteq> None then None else Some (f, ws'))"

lemma config_uplink_tls_length: "config_uplink_tls dst ws = Some (f, ws') \<Longrightarrow> length ws' < length ws"
  by (auto simp: config_uplink_tls_def split: list.splits if_splits)

function uplink_options :: "string list \<Rightarrow> uplink_config_t \<Rightarrow> uplink_config_t option" where
  "uplink_options [] l = Some l"
| "uplink_options (w # ws) l =
     (if strcaseeq w ''tlskey'' \<or> strcaseeq w ''sslkey'' then
        (case config_uplink_tls (ul_keyfile l) ws of
           None \<Rightarrow> None | Some (f, ws') \<Rightarrow> uplink_options ws' (l\<lparr>ul_keyfile := Some f\<rparr>))
      else if strcaseeq w ''tlscert'' \<or> strcaseeq w ''sslcert'' then
        (case config_uplink_tls (ul_certfile l) ws of
           None \<Rightarrow> None | Some (f, ws') \<Rightarrow> uplink_options ws' (l\<lparr>ul_certfile := Some f\<rparr>))
      else if strcaseeq w ''tlsca'' \<or> strcaseeq w ''sslca'' then
        (case config_uplink_tls (ul_cafile l) ws of
           None \<Rightarrow> None | Some (f, ws') \<Rightarrow> uplink_options ws' (l\<lparr>ul_cafile := Some f\<rparr>))
      else if strcaseeq w ''tlscrl'' \<or> strcaseeq w ''sslcrl'' then
        (case config_uplink_tls (ul_crlfile l) ws of
           None \<Rightarrow> None | Some (f, ws') \<Rightarrow> uplink_options ws' (l\<lparr>ul_crlfile := Some f\<rparr>))
      else None)"
  by pat_completeness auto

termination uplink_options
  by (relation "measure (length \<circ> fst)") (auto dest: config_uplink_tls_length)

definition uplink_proto :: "string \<Rightarrow> l4proto option" where
  "uplink_proto p =
     (if strcaseeq p ''tcp'' then Some IPPROTO_TCP else if strcaseeq p ''udp'' then Some IPPROTO_UDP
      else if strcaseeq p ''sctp'' then Some IPPROTO_SCTP else None)"

definition uplink_type :: "string \<Rightarrow> u32 option" where
  "uplink_type t =
     (if strcaseeq t ''ro'' then Some (CLFLAGS_UPLINKPORT OR CLFLAGS_PORT_RO)
      else if strcaseeq t ''multiro'' then Some (CLFLAGS_UPLINKPORT OR (CLFLAGS_PORT_RO OR CLFLAGS_UPLINKMULTI))
      else if strcaseeq t ''full'' then Some CLFLAGS_UPLINKPORT
      else None)"

text \<open>The directive \<^verbatim>\<open>uplink\<close>: the return code and the list. None is the use of the null pointer behind the last word, when
  there are five words.\<close>

definition do_uplink :: "uplink_config_t list \<Rightarrow> string list \<Rightarrow> (int \<times> uplink_config_t list) option" where
  "do_uplink lq argv =
     (if length argv < 5 then Some (-1, lq)
      else case uplink_type (argv ! 2) of
             None \<Rightarrow> Some (-2, lq)
           | Some clflags \<Rightarrow>
               if uplink_proto (argv ! 3) = None then Some (-2, lq)
               else if length argv = 5 then None
               else if atoi (argv ! 5) < 1 \<or> 65535 < atoi (argv ! 5) then Some (-2, lq)
               else
                 let l = \<lparr>ul_name = argv ! 1, ul_proto = argv ! 3, ul_host = argv ! 4, ul_port = argv ! 5, ul_keyfile = None,
                          ul_certfile = None, ul_cafile = None, ul_crlfile = None, ul_ssl = False, ul_client_flags = clflags,
                          ul_state = UPLINK_ST_UNKNOWN, ul_client_ptr = None\<rparr>
                 in case uplink_options (drop 6 argv) l of
                      None \<Rightarrow> Some (-2, lq)
                    | Some l' \<Rightarrow> Some (0, lq @ [l']))"

text \<open>The check of the uplinks when a configuration has been read: whether it fails, and the uplinks that are left.\<close>

definition uplinks_check :: "uplink_config_t list \<Rightarrow> bool \<times> uplink_config_t list" where
  "uplinks_check ls =
     (let got_multiro = (\<exists>up \<in> set ls. multi up); got_non_multiro = (\<exists>up \<in> set ls. \<not> multi up);
          uplink_config_failed = (\<exists>up \<in> set ls. multi up \<and> \<not> has_flag (ul_client_flags up) CLFLAGS_PORT_RO);
          failed = (got_multiro \<and> got_non_multiro);
          ls1 = (if failed then [] else ls)
      in (failed, if uplink_config_failed then [] else ls1))"

section \<open>Connecting\<close>

text \<open>The outside world of one connection: TLS, the resolver, the random number, which addresses can be connected to,
  the client that is allocated, the names of the socket, and whether the last steps succeed.\<close>

record uplink_env =
  ue_ssl_create :: bool
  ue_ssl_certificate :: bool
  ue_ssl_ca_certificate :: bool
  ue_getaddrinfo :: "string \<Rightarrow> string \<Rightarrow> l4proto \<Rightarrow> sockaddr_u list option"
  ue_random :: nat
  ue_connect :: "sockaddr_u \<Rightarrow> int option"
  ue_client_alloc :: "client_t option"
  ue_peername :: "sockaddr_u option"
  ue_sockname :: "string option"
  ue_sockopt :: bool
  ue_ssl_connection :: bool
  ue_pass_client :: bool
  ue_tick :: ctime

record uplink_state =
  us_config :: "uplink_config_t list"
  us_install :: "uplink_config_t list"
  us_updated :: bool
  us_reconfiguring :: bool
  us_clients :: "nat list" \<comment> \<open>\<^verbatim>\<open>uplink_clients\<close>, the newest first\<close>
  us_shut :: "nat list" \<comment> \<open>clients whose socket has been shut down\<close>
  us_gauge :: int
  us_counter :: int
  us_inbound :: int \<comment> \<open>the gauge of \<^verbatim>\<open>inbound_connects\<close>\<close>
  us_queue :: "client_t list" \<comment> \<open>clients passed to the first worker\<close>
  us_next :: int
  us_error :: int

text \<open>The loop over the addresses: an entry of the array is cleared when it is tried, and the index wraps around. The
  descriptor of the connection, if one is made.\<close>

function connect_loop :: "(sockaddr_u \<Rightarrow> int option) \<Rightarrow> sockaddr_u option list \<Rightarrow> nat \<Rightarrow> int option" where
  "connect_loop conn ap i =
     (if length ap \<le> i then None
      else case ap ! i of
             None \<Rightarrow> None
           | Some a \<Rightarrow>
               let ap' = ap[i := None]; i' = (if i + 1 = length ap then 0 else i + 1)
               in case conn a of Some fd \<Rightarrow> Some fd | None \<Rightarrow> connect_loop conn ap' i')"
  by pat_completeness auto

lemma filter_update_less: "i < length xs \<Longrightarrow> P (xs ! i) \<Longrightarrow> \<not> P y \<Longrightarrow> length (filter P (xs[i := y])) < length (filter P xs)"
proof (induction xs arbitrary: i)
  case (Cons x xs)
  then show ?case by (cases i) auto
qed simp

termination connect_loop
  by (relation "measure (\<lambda>(conn, ap, i). length (filter (\<lambda>x. x \<noteq> None) ap))") (auto intro: filter_update_less)

declare connect_loop.simps [simp del]

text \<open>A failure of the first step leaves the allocated context behind.\<close>

definition config_uplink_ssl_setup :: "uplink_env \<Rightarrow> uplink_config_t \<Rightarrow> int \<times> uplink_config_t" where
  "config_uplink_ssl_setup env l =
     (if \<not> ue_ssl_create env then (-1, l\<lparr>ul_ssl := True\<rparr>)
      else if ul_certfile l \<noteq> None \<and> ul_keyfile l \<noteq> None \<and> \<not> ue_ssl_certificate env then (-1, l\<lparr>ul_ssl := False\<rparr>)
      else if ul_cafile l \<noteq> None \<and> \<not> ue_ssl_ca_certificate env then (-1, l\<lparr>ul_ssl := False\<rparr>)
      else (0, l\<lparr>ul_ssl := True\<rparr>))"

definition uplink_client :: "uplink_env \<Rightarrow> uplink_config_t \<Rightarrow> int \<Rightarrow> l4proto \<Rightarrow> client_t \<Rightarrow> client_t" where
  "uplink_client env l fd proto c =
     (let c1 = c\<lparr>c_fd := fd, c_ai_protocol := proto, c_state := CSTATE_INIT, c_handler_line_in := Uplink_Login_Handler,
                 c_flags := ul_client_flags l, c_keepalive := ue_tick env, c_last_read := ue_tick env,
                 c_username := take 15 (ul_name l)\<rparr>;
          c2 = (case ue_peername env of
                  None \<Rightarrow> c1 | Some sa \<Rightarrow> c1\<lparr>c_addr := sa, c_addr_hex := take 35 (hexsockaddr sa)\<rparr>)
      in c2\<lparr>c_addr_loc := (case ue_sockname env of None \<Rightarrow> [] | Some s \<Rightarrow> take 79 s)\<rparr>)"

text \<open>The part after the connection has been made.\<close>

definition make_uplink_client ::
    "uplink_env \<Rightarrow> uplink_config_t \<Rightarrow> int \<Rightarrow> l4proto \<Rightarrow> uplink_state \<Rightarrow> int \<times> uplink_config_t \<times> uplink_state" where
  "make_uplink_client env l fd proto st =
     (case ue_client_alloc env of
        None \<Rightarrow> (-3, l\<lparr>ul_state := UPLINK_ST_NOT_LINKED\<rparr>, st)
      | Some c0 \<Rightarrow>
          let c = uplink_client env l fd proto c0; l1 = l\<lparr>ul_client_ptr := Some (c_id c)\<rparr>;
              err = (\<lambda>st'. (-1, l1\<lparr>ul_state := UPLINK_ST_NOT_LINKED\<rparr>, st'))
          in if \<not> ue_sockopt env then err st
             else
               let st1 = st\<lparr>us_clients := c_id c # us_clients st\<rparr>; l2 = l1\<lparr>ul_state := UPLINK_ST_CONNECTED\<rparr>
               in if ul_ssl l2 \<and> \<not> ue_ssl_connection env then err (st1\<lparr>us_clients := tl (us_clients st1)\<rparr>)
                  else if \<not> ue_pass_client env then err (st1\<lparr>us_clients := tl (us_clients st1)\<rparr>)
                  else (0, l2, st1\<lparr>us_queue := us_queue st1 @ [c], us_gauge := us_gauge st1 + 1, us_counter := us_counter st1 + 1\<rparr>))"

definition make_uplink :: "uplink_env \<Rightarrow> uplink_config_t \<Rightarrow> uplink_state \<Rightarrow> int \<times> uplink_config_t \<times> uplink_state" where
  "make_uplink env l st =
     (if (ul_certfile l = None) \<noteq> (ul_keyfile l = None) then (-2, l, st)
      else
        let (rc, l1) = (if ul_keyfile l \<noteq> None \<and> ul_certfile l \<noteq> None \<and> \<not> ul_ssl l then config_uplink_ssl_setup env l else (0, l))
        in if rc \<noteq> 0 then (-2, l1, st)
           else case uplink_proto (ul_proto l1) of
                  None \<Rightarrow> (-2, l1, st)
                | Some proto \<Rightarrow>
                    if atoi (ul_port l1) < 1 \<or> 65535 < atoi (ul_port l1) then (-2, l1, st)
                    else
                      let l2 = l1\<lparr>ul_state := UPLINK_ST_CONNECTING\<rparr>; l3 = l2\<lparr>ul_state := UPLINK_ST_NOT_LINKED\<rparr>
                      in case ue_getaddrinfo env (ul_host l) (ul_port l) proto of
                           None \<Rightarrow> (-2, l3, st)
                         | Some ai \<Rightarrow>
                             let ap = take 20 ai
                             in if ap = [] then (-2, l3, st)
                                else (case connect_loop (ue_connect env) (map Some ap) (ue_random env mod length ap) of
                                        None \<Rightarrow> (-3, l3, st)
                                      | Some fd \<Rightarrow> make_uplink_client env l2 fd proto st))"

section \<open>Closing and reconfiguring\<close>

definition uplink_close :: "nat \<Rightarrow> uplink_state \<Rightarrow> uplink_state" where
  "uplink_close cid st =
     st\<lparr>us_gauge := us_gauge st - 1,
        us_config := map (\<lambda>l. if ul_client_ptr l = Some cid then l\<lparr>ul_state := UPLINK_ST_NOT_LINKED, ul_client_ptr := None\<rparr> else l)
          (us_config st),
        us_clients := remove1 cid (us_clients st)\<rparr>"

text \<open>What \<^verbatim>\<open>client_close\<close> does for an uplink: besides \<^verbatim>\<open>uplink_close\<close> it gives back the account of the client,
  \<^verbatim>\<open>uplink_connects\<close>, by a call that counts for inbound connections.\<close>

definition client_close_uplink :: "nat \<Rightarrow> uplink_state \<Rightarrow> uplink_state" where
  "client_close_uplink cid st =
     (let st1 = uplink_close cid st in st1\<lparr>us_inbound := us_inbound st1 - 1, us_gauge := us_gauge st1 - 1\<rparr>)"

definition close_uplinkers :: "uplink_state \<Rightarrow> uplink_state" where
  "close_uplinkers st = st\<lparr>us_shut := us_shut st @ us_clients st\<rparr>"

definition uplink_reconfigure :: "uplink_state \<Rightarrow> uplink_state" where
  "uplink_reconfigure st =
     (if us_reconfiguring st \<or> us_updated st then
        (close_uplinkers (st\<lparr>us_reconfiguring := False\<rparr>))\<lparr>us_config := us_install st, us_install := [], us_updated := False\<rparr>
      else st)"

section \<open>A round of the thread\<close>

text \<open>The loop over the uplinks: those of the multi kind are connected, the others counted. \<open>env n\<close> is the world the
  uplink at position \<open>n\<close> of the list is connected in, \<open>penv n\<close> the one in which it is picked.\<close>

fun uplink_scan :: "(nat \<Rightarrow> uplink_env) \<Rightarrow> nat \<Rightarrow> uplink_config_t list \<Rightarrow> uplink_state \<Rightarrow>
    nat \<times> nat \<times> uplink_config_t list \<times> uplink_state" where
  "uplink_scan env n [] st = (0, 0, [], st)"
| "uplink_scan env n (l # ls) st =
     (if multi l then
        let (l', st') = (if ul_state l < UPLINK_ST_CONNECTING then snd (make_uplink (env n) l st) else (l, st));
            (has, avail, ls', st'') = uplink_scan env (Suc n) ls st'
        in (has, avail, l' # ls', st'')
      else
        let (has, avail, ls', st') = uplink_scan env (Suc n) ls st
        in (if UPLINK_ST_CONNECTING \<le> ul_state l then has + 1 else has, avail + 1, l # ls', st'))"

text \<open>The position the search for the next uplink ends at.\<close>

fun uplink_skip :: "nat \<Rightarrow> uplink_config_t list \<Rightarrow> nat" where
  "uplink_skip 0 ls = 0"
| "uplink_skip (Suc n) [] = 0"
| "uplink_skip (Suc n) (l # ls) = Suc (uplink_skip (if multi l then Suc n else n) ls)"

definition uplink_pick :: "(nat \<Rightarrow> uplink_env) \<Rightarrow> nat \<Rightarrow> uplink_state \<Rightarrow> uplink_state" where
  "uplink_pick penv avail st =
     (let next = (if int avail \<le> us_next st + 1 then 0 else us_next st + 1);
          st1 = st\<lparr>us_next := next\<rparr>;
          i = uplink_skip (nat next) (us_config st1)
      in if i < length (us_config st1) then
           let (rc, l, st2) = make_uplink (penv i) (us_config st1 ! i) st1
           in st2\<lparr>us_config := (us_config st2)[i := l]\<rparr>
         else st1)"

definition uplink_round :: "(nat \<Rightarrow> uplink_env) \<Rightarrow> (nat \<Rightarrow> uplink_env) \<Rightarrow> uplink_state \<Rightarrow> uplink_state" where
  "uplink_round env penv st =
     (let st1 = uplink_reconfigure st;
          (has, avail, ls, st2) = uplink_scan env 0 (us_config st1) st1;
          st3 = st2\<lparr>us_config := ls\<rparr>;
          needed = (0 < avail \<and> has = 0);
          st4 = (if needed then uplink_pick penv avail st3 else st3)
      in if needed then st4\<lparr>us_error := 1\<rparr> else if us_error st4 = 1 then st4\<lparr>us_error := 0\<rparr> else st4)"

section \<open>What a connection changes\<close>

abbreviation linked_up :: "uplink_config_t \<Rightarrow> bool" where
  "linked_up l \<equiv> UPLINK_ST_CONNECTING \<le> ul_state l"

abbreviation regular_up :: "uplink_config_t \<Rightarrow> bool" where
  "regular_up l \<equiv> \<not> multi l \<and> linked_up l"

definition same_link :: "uplink_config_t \<Rightarrow> uplink_config_t \<Rightarrow> bool" where
  "same_link l l' \<longleftrightarrow> ul_name l' = ul_name l \<and> ul_proto l' = ul_proto l \<and> ul_host l' = ul_host l \<and> ul_port l' = ul_port l \<and>
     ul_keyfile l' = ul_keyfile l \<and> ul_certfile l' = ul_certfile l \<and> ul_cafile l' = ul_cafile l \<and> ul_crlfile l' = ul_crlfile l \<and>
     ul_client_flags l' = ul_client_flags l"

lemma same_link_refl [simp]: "same_link l l"
  by (simp add: same_link_def)

lemma same_link_trans: "same_link a b \<Longrightarrow> same_link b c \<Longrightarrow> same_link a c"
  by (simp add: same_link_def)

lemma same_link_multi: "same_link l l' \<Longrightarrow> multi l' = multi l"
  by (simp add: same_link_def)

definition new_ids :: "uplink_env \<Rightarrow> nat set" where
  "new_ids env = {c_id c | c. ue_client_alloc env = Some c}"

definition grown :: "nat set \<Rightarrow> uplink_state \<Rightarrow> uplink_state \<Rightarrow> bool" where
  "grown I st st' \<longleftrightarrow>
     (\<exists>ids. us_clients st' = ids @ us_clients st \<and> set ids \<subseteq> I \<and> distinct ids \<and> us_gauge st' = us_gauge st + int (length ids)) \<and>
     us_config st' = us_config st \<and> us_install st' = us_install st \<and> us_next st' = us_next st \<and>
     us_updated st' = us_updated st \<and> us_reconfiguring st' = us_reconfiguring st"

lemma grown_refl [simp]: "grown I st st"
  by (auto simp: grown_def)

lemma grown_trans:
  assumes "grown I st st1" "grown J st1 st2" "I \<inter> J = {}"
  shows "grown (I \<union> J) st st2"
proof -
  obtain ks js where ids: "us_clients st1 = ks @ us_clients st" "set ks \<subseteq> I" "distinct ks" "us_gauge st1 = us_gauge st + int (length ks)"
    "us_clients st2 = js @ us_clients st1" "set js \<subseteq> J" "distinct js" "us_gauge st2 = us_gauge st1 + int (length js)"
    using assms(1,2) by (auto simp: grown_def)
  have "distinct (js @ ks)" using ids assms(3) by auto
  then show ?thesis using ids assms(1,2) unfolding grown_def by (intro conjI exI [of _ "js @ ks"]) auto
qed

lemma grown_mono: "grown I st st' \<Longrightarrow> I \<subseteq> J \<Longrightarrow> grown J st st'"
  by (auto simp: grown_def)

lemma grown_subset: "grown I st st' \<Longrightarrow> set (us_clients st) \<subseteq> set (us_clients st')"
  by (auto simp: grown_def)

lemma uplink_client_id [simp]: "c_id (uplink_client env l fd proto c) = c_id c"
  by (simp add: uplink_client_def Let_def split: option.split)

lemma make_uplink_client_effect:
  assumes "make_uplink_client env l fd proto st = (rc, l', st')"
  shows "grown (new_ids env) st st' \<and> same_link l l' \<and>
    (rc = 0 \<and> ul_state l' = UPLINK_ST_CONNECTED \<and> (\<exists>c. ul_client_ptr l' = Some c \<and> c \<in> set (us_clients st')) \<or>
     rc \<noteq> 0 \<and> ul_state l' = UPLINK_ST_NOT_LINKED \<and> st' = st)"
proof (cases "ue_client_alloc env")
  case None
  then show ?thesis using assms
    by (auto simp: make_uplink_client_def same_link_def)
next
  case (Some c)
  have id: "c_id c \<in> new_ids env" using Some by (simp add: new_ids_def)
  have same: "same_link l (l\<lparr>ul_client_ptr := p, ul_state := s\<rparr>)" for p s
    by (simp add: same_link_def)
  consider (ok) "rc = 0" "l' = l\<lparr>ul_client_ptr := Some (c_id c), ul_state := UPLINK_ST_CONNECTED\<rparr>"
      "us_clients st' = c_id c # us_clients st" "us_gauge st' = us_gauge st + 1" "us_config st' = us_config st" "us_install st' = us_install st"
      "us_next st' = us_next st" "us_updated st' = us_updated st" "us_reconfiguring st' = us_reconfiguring st"
    | (bad) "rc = -1" "l' = l\<lparr>ul_client_ptr := Some (c_id c), ul_state := UPLINK_ST_NOT_LINKED\<rparr>" "st' = st"
    using assms Some by (auto simp: make_uplink_client_def Let_def split: if_splits)
  then show ?thesis
  proof cases
    case ok
    have "grown (new_ids env) st st'" using ok id unfolding grown_def by (auto intro!: exI [of _ "[c_id c]"])
    then show ?thesis using ok same by simp
  next
    case bad
    then show ?thesis using same by simp
  qed
qed

lemma ssl_setup_effect: "config_uplink_ssl_setup env l = (rc, l') \<Longrightarrow> l' = l\<lparr>ul_ssl := ul_ssl l'\<rparr>"
  by (auto simp: config_uplink_ssl_setup_def split: if_splits)

lemma make_uplink_effect:
  assumes "make_uplink env l st = (rc, l', st')"
  shows "grown (new_ids env) st st' \<and> same_link l l' \<and>
    (rc = 0 \<and> ul_state l' = UPLINK_ST_CONNECTED \<and> (\<exists>c. ul_client_ptr l' = Some c \<and> c \<in> set (us_clients st')) \<or>
     rc \<noteq> 0 \<and> st' = st \<and> (ul_state l' = UPLINK_ST_NOT_LINKED \<or> ul_state l' = ul_state l \<and> ul_client_ptr l' = ul_client_ptr l))"
proof -
  obtain r0 l1 where S: "(if ul_keyfile l \<noteq> None \<and> ul_certfile l \<noteq> None \<and> \<not> ul_ssl l then config_uplink_ssl_setup env l else (0, l)) = (r0, l1)"
    by fastforce
  have l1: "l1 = l\<lparr>ul_ssl := ul_ssl l1\<rparr>" using S ssl_setup_effect by (cases "ul_keyfile l \<noteq> None \<and> ul_certfile l \<noteq> None \<and> \<not> ul_ssl l") auto
  have keep: "ul_state l1 = ul_state l" "ul_client_ptr l1 = ul_client_ptr l" "same_link l l1" by (subst l1, simp add: same_link_def)+
  have same: "same_link l (l1\<lparr>ul_state := s\<rparr>)" for s using keep(3) by (simp add: same_link_def)
  let ?l2 = "l1\<lparr>ul_state := UPLINK_ST_CONNECTING\<rparr>" let ?l3 = "?l2\<lparr>ul_state := UPLINK_ST_NOT_LINKED\<rparr>"
  have run: "(rc, l', st') =
    (if (ul_certfile l = None) \<noteq> (ul_keyfile l = None) then (-2, l, st)
     else if r0 \<noteq> 0 then (-2, l1, st)
     else case uplink_proto (ul_proto l1) of
            None \<Rightarrow> (-2, l1, st)
          | Some proto \<Rightarrow>
              if atoi (ul_port l1) < 1 \<or> 65535 < atoi (ul_port l1) then (-2, l1, st)
              else case ue_getaddrinfo env (ul_host l) (ul_port l) proto of
                     None \<Rightarrow> (-2, ?l3, st)
                   | Some ai \<Rightarrow>
                       if take 20 ai = [] then (-2, ?l3, st)
                       else (case connect_loop (ue_connect env) (map Some (take 20 ai)) (ue_random env mod length (take 20 ai)) of
                               None \<Rightarrow> (-3, ?l3, st)
                             | Some fd \<Rightarrow> make_uplink_client env ?l2 fd proto st))"
    using assms [symmetric] unfolding make_uplink_def S Let_def prod.case .
  have 4: "?thesis" if "make_uplink_client env ?l2 fd proto st = (rc, l', st')" for fd proto
  proof -
    note E = make_uplink_client_effect [OF that]
    have "same_link l l'" using E same same_link_trans by blast
    then show ?thesis using E by blast
  qed
  have early: "?thesis" if "(rc, l', st') = (-2, l, st) \<or> (rc, l', st') = (-2, l1, st) \<or> (rc, l', st') = (-2, ?l3, st) \<or> (rc, l', st') = (-3, ?l3, st)"
    using that same keep by auto
  show ?thesis
  proof (cases "uplink_proto (ul_proto l1)")
    case None
    then show ?thesis using run by (intro early) (simp split: if_splits)
  next
    case proto: (Some proto)
    show ?thesis
    proof (cases "ue_getaddrinfo env (ul_host l) (ul_port l) proto")
      case None
      then show ?thesis using run proto by (intro early) (simp split: if_splits)
    next
      case ai: (Some ai)
      show ?thesis
      proof (cases "connect_loop (ue_connect env) (map Some (take 20 ai)) (ue_random env mod length (take 20 ai))")
        case None
        show ?thesis using run [unfolded proto ai option.case None] by (intro early) (auto split: if_splits)
      next
        case (Some fd)
        note last = run [unfolded proto ai option.case Some]
        show ?thesis
        proof (cases "(ul_certfile l = None) \<noteq> (ul_keyfile l = None) \<or> r0 \<noteq> 0 \<or> atoi (ul_port l1) < 1 \<or> 65535 < atoi (ul_port l1) \<or> take 20 ai = []")
          case True
          then show ?thesis using last by (intro early) (auto split: if_splits)
        next
          case False
          then show ?thesis by (intro 4 [of fd proto]) (use last in simp)
        qed
      qed
    qed
  qed
qed

section \<open>The invariant\<close>

definition link_ok :: "uplink_state \<Rightarrow> uplink_config_t \<Rightarrow> bool" where
  "link_ok st l \<longleftrightarrow> (linked_up l \<longrightarrow> (\<exists>c. ul_client_ptr l = Some c \<and> c \<in> set (us_clients st)))"

definition uplink_inv :: "uplink_state \<Rightarrow> bool" where
  "uplink_inv st \<longleftrightarrow> length (filter regular_up (us_config st)) \<le> 1 \<and> (\<forall>l \<in> set (us_config st). link_ok st l) \<and>
     distinct (us_clients st) \<and> (\<forall>l \<in> set (us_install st). \<not> linked_up l)"

lemma link_ok_mono: "link_ok st l \<Longrightarrow> set (us_clients st) \<subseteq> set (us_clients st') \<Longrightarrow> link_ok st' l"
  by (auto simp: link_ok_def)

lemma make_uplink_link_ok:
  assumes "make_uplink env l st = (rc, l', st')" "link_ok st l"
  shows "link_ok st' l'"
  using make_uplink_effect [OF assms(1)] assms(2) by (auto simp: link_ok_def uplink_st_defs)

text \<open>Clients allocated in one round are new and different.\<close>

definition fresh_round :: "(nat \<Rightarrow> uplink_env) \<Rightarrow> (nat \<Rightarrow> uplink_env) \<Rightarrow> uplink_state \<Rightarrow> bool" where
  "fresh_round env penv st \<longleftrightarrow> (\<forall>n. new_ids (env n) \<inter> set (us_clients st) = {}) \<and> (\<forall>n. new_ids (penv n) \<inter> set (us_clients st) = {}) \<and>
     (\<forall>m n. m \<noteq> n \<longrightarrow> new_ids (env m) \<inter> new_ids (env n) = {}) \<and> (\<forall>m n. new_ids (env m) \<inter> new_ids (penv n) = {})"

lemma uplink_scan_ok:
  assumes "uplink_scan env n ls st = (has, avail, ls', st')" "\<forall>l \<in> set ls. link_ok st l"
    "\<forall>i j. i \<noteq> j \<longrightarrow> new_ids (env i) \<inter> new_ids (env j) = {}"
  shows "grown (\<Union>k \<in> {n..}. new_ids (env k)) st st' \<and> list_all2 same_link ls ls' \<and> (\<forall>l \<in> set ls'. link_ok st' l) \<and>
    filter (\<lambda>l. \<not> multi l) ls' = filter (\<lambda>l. \<not> multi l) ls \<and> has = length (filter regular_up ls) \<and> avail = length (filter (\<lambda>l. \<not> multi l) ls)"
  using assms
proof (induction ls arbitrary: n st has avail ls' st')
  case (Cons l ls)
  let ?I = "\<lambda>n. \<Union>k \<in> {n..}. new_ids (env k)"
  have I: "new_ids (env n) \<inter> ?I (Suc n) = {}" "new_ids (env n) \<union> ?I (Suc n) = ?I n" "?I (Suc n) \<subseteq> ?I n"
    using Cons.prems(3) by (auto simp: atLeast_Suc greaterThan_def)
  obtain l1 st1 where one: "(if multi l \<and> ul_state l < UPLINK_ST_CONNECTING then snd (make_uplink (env n) l st) else (l, st)) = (l1, st1)" by fastforce
  have E: "grown (new_ids (env n)) st st1 \<and> same_link l l1 \<and> link_ok st1 l1 \<and> (\<not> multi l \<longrightarrow> l1 = l)"
  proof (cases "multi l \<and> ul_state l < UPLINK_ST_CONNECTING")
    case True
    then obtain rc where mk: "make_uplink (env n) l st = (rc, l1, st1)" using one by (cases "make_uplink (env n) l st") simp
    have "link_ok st1 l1" using make_uplink_link_ok [OF mk] Cons.prems(2) by simp
    then show ?thesis using make_uplink_effect [OF mk] True by simp
  next
    case False
    then show ?thesis using one Cons.prems(2) by auto
  qed
  then have E: "grown (new_ids (env n)) st st1" "same_link l l1" "link_ok st1 l1" "\<not> multi l \<Longrightarrow> l1 = l" by auto
  obtain h a ls1 st2 where rest: "uplink_scan env (Suc n) ls st1 = (h, a, ls1, st2)" by (metis prod_cases4)
  have ok: "\<forall>l \<in> set ls. link_ok st1 l" using Cons.prems(2) link_ok_mono grown_subset [OF E(1)] by (meson list.set_intros(2))
  note R = Cons.IH [OF rest ok Cons.prems(3)]
  have res: "has = (if regular_up l then h + 1 else h)" "avail = (if multi l then a else a + 1)" "ls' = l1 # ls1" "st' = st2"
    using Cons.prems(1) one rest E(4) by (auto simp: Let_def split: if_splits)
  have "grown (?I n) st st'" using grown_trans [OF E(1) _ I(1)] R I(2) res(4) by auto
  moreover have "link_ok st' l1" using link_ok_mono [OF E(3)] R grown_subset res(4) by blast
  ultimately show ?case using R E(2,4) same_link_multi [OF E(2)] by (auto simp: res)
qed simp

section \<open>Trying addresses\<close>

primrec first_some :: "('a \<Rightarrow> 'b option) \<Rightarrow> 'a list \<Rightarrow> 'b option" where
  "first_some f [] = None"
| "first_some f (x # xs) = (case f x of None \<Rightarrow> first_some f xs | Some y \<Rightarrow> Some y)"

lemma first_some_None: "first_some f xs = None \<longleftrightarrow> (\<forall>x \<in> set xs. f x = None)"
  by (induction xs) (auto split: option.split)

text \<open>The array when \<open>k\<close> of \<open>n\<close> addresses from index \<open>i\<close> on have been tried.\<close>

definition tried :: "'a list \<Rightarrow> nat \<Rightarrow> nat \<Rightarrow> 'a option list" where
  "tried as i k = map (\<lambda>p. if (p + length as - i) mod length as < k then None else Some (as ! p)) [0 ..< length as]"

lemma wrap_index:
  fixes n :: nat
  assumes "i < n" "p < n" "k < n"
  shows "(p + n - i) mod n = k \<longleftrightarrow> p = (i + k) mod n"
proof -
  have m: "(i + k) mod n = (if i + k < n then i + k else i + k - n)" using assms by (simp add: le_mod_geq)
  show ?thesis
  proof (cases "i \<le> p")
  case True
  then have "(p + n - i) mod n = ((p - i) + n) mod n" using assms by (intro arg_cong [where f = "\<lambda>x. x mod n"]) linarith
  also have "\<dots> = p - i" using assms by simp
  finally have "(p + n - i) mod n = p - i" .
  then show ?thesis using True assms m by auto
next
  case False
  then have "(p + n - i) mod n = p + n - i" using assms by simp
  then show ?thesis using False assms m by auto
  qed
qed

lemma tried_step:
  assumes "i < length as" "k < length as"
  shows "tried as i k ! ((i + k) mod length as) = Some (rotate i as ! k)"
    and "(tried as i k)[(i + k) mod length as := None] = tried as i (Suc k)"
proof -
  let ?n = "length as" let ?p = "(i + k) mod ?n"
  have p: "?p < ?n" using assms by (intro mod_less_divisor) linarith
  have "(?p + ?n - i) mod ?n = k" using wrap_index [OF assms(1) p assms(2)] by simp
  then show "tried as i k ! ?p = Some (rotate i as ! k)" using p assms by (simp add: tried_def nth_rotate)
  show "(tried as i k)[?p := None] = tried as i (Suc k)"
  proof (rule nth_equalityI)
    show "length ((tried as i k)[?p := None]) = length (tried as i (Suc k))" by (simp add: tried_def)
    fix q assume "q < length ((tried as i k)[?p := None])"
    then have q: "q < ?n" by (simp add: tried_def)
    show "(tried as i k)[?p := None] ! q = tried as i (Suc k) ! q"
      using wrap_index [OF assms(1) q assms(2)] q p by (auto simp: tried_def nth_list_update less_Suc_eq)
  qed
qed

lemma connect_loop_tried:
  assumes "i < length as"
  shows "k \<le> length as \<Longrightarrow> connect_loop conn (tried as i k) ((i + k) mod length as) = first_some conn (drop k (rotate i as))"
proof (induction "length as - k" arbitrary: k)
  case 0
  let ?p = "(i + k) mod length as"
  have p: "?p < length as" using assms by (intro mod_less_divisor) linarith
  have "(?p + length as - i) mod length as < length as" using assms by (intro mod_less_divisor) linarith
  then have "tried as i k ! ?p = None" using 0 p by (simp add: tried_def)
  then show ?case using 0 by (simp add: connect_loop.simps [of conn "tried as i k"])
next
  case (Suc m)
  let ?p = "(i + k) mod length as"
  have k: "k < length as" using Suc by linarith
  have p: "?p < length as" using assms by (intro mod_less_divisor) linarith
  have next_p: "(if ?p + 1 = length as then 0 else ?p + 1) = (i + Suc k) mod length as" using p by (simp add: mod_Suc)
  have len: "length (tried as i k) = length as" by (simp add: tried_def)
  have IH: "connect_loop conn (tried as i (Suc k)) ((i + Suc k) mod length as) = first_some conn (drop (Suc k) (rotate i as))"
    using Suc by (intro Suc.hyps(1)) linarith+
  have "drop k (rotate i as) = rotate i as ! k # drop (Suc k) (rotate i as)" using k by (simp add: Cons_nth_drop_Suc)
  then show ?case
    unfolding connect_loop.simps [of conn "tried as i k"] len tried_step [OF assms k] Let_def next_p option.case IH
    using p by (simp split: option.split)
qed

text \<open>Every address is tried once, from the one picked at random on, until a connection is made.\<close>

lemma connect_loop_first: "i < length as \<Longrightarrow> connect_loop conn (map Some as) i = first_some conn (rotate i as)"
proof -
  assume i: "i < length as"
  have "tried as i 0 = map Some as" by (rule nth_equalityI) (simp_all add: tried_def)
  then show ?thesis using connect_loop_tried [OF i, of 0 conn] i by simp
qed

section \<open>Rounds\<close>

definition uniform :: "uplink_config_t list \<Rightarrow> bool" where
  "uniform ls \<longleftrightarrow> (\<forall>l \<in> set ls. multi l) \<or> (\<forall>l \<in> set ls. \<not> multi l)"

definition uplinks_inv :: "uplink_state \<Rightarrow> bool" where
  "uplinks_inv st \<longleftrightarrow> uplink_inv st \<and> uniform (us_config st) \<and> uniform (us_install st) \<and> - 1 \<le> us_next st"

lemma uniform_same: "list_all2 same_link ls ls' \<Longrightarrow> uniform ls \<Longrightarrow> uniform ls'"
  unfolding uniform_def list_all2_conv_all_nth all_set_conv_all_nth by (metis same_link_multi)

lemma filter_update_one: "\<forall>x \<in> set xs. \<not> P x \<Longrightarrow> length (filter P (xs[i := y])) \<le> 1"
proof (induction xs arbitrary: i)
  case (Cons x xs)
  have "filter P xs = []" using Cons.prems by (auto simp: filter_empty_conv)
  then show ?case using Cons by (cases i) auto
qed simp

lemma reconfigure_inv:
  assumes "uplinks_inv st"
  shows "uplinks_inv (uplink_reconfigure st)" "us_clients (uplink_reconfigure st) = us_clients st"
  using assms
  by (auto simp: uplinks_inv_def uplink_inv_def uplink_reconfigure_def close_uplinkers_def uniform_def link_ok_def filter_empty_conv)

lemma filter_regular: "filter regular_up ls = filter linked_up (filter (\<lambda>l. \<not> multi l) ls)"
  by (simp add: conj_commute)

lemma uplink_scan_inv:
  assumes I: "uplinks_inv st" and F: "fresh_round env penv st" and S: "uplink_scan env 0 (us_config st) st = (has, avail, ls, st')"
  shows "uplinks_inv (st'\<lparr>us_config := ls\<rparr>) \<and> has = length (filter regular_up ls) \<and> avail = length (filter (\<lambda>l. \<not> multi l) ls) \<and>
    (\<forall>n. new_ids (penv n) \<inter> set (us_clients st') = {})"
proof -
  have D: "\<forall>i j. i \<noteq> j \<longrightarrow> new_ids (env i) \<inter> new_ids (env j) = {}" using F by (auto simp: fresh_round_def)
  have ok: "\<forall>l \<in> set (us_config st). link_ok st l" using I by (simp add: uplinks_inv_def uplink_inv_def)
  note R = uplink_scan_ok [OF S ok D]
  obtain ids where ids: "us_clients st' = ids @ us_clients st" "set ids \<subseteq> (\<Union>k. new_ids (env k))" "distinct ids"
    "us_gauge st' = us_gauge st + int (length ids)" using R by (auto simp: grown_def)
  have same: "us_install st' = us_install st" "us_next st' = us_next st" using R by (auto simp: grown_def)
  have "\<forall>k. new_ids (env k) \<inter> set (us_clients st) = {}" using F by (simp add: fresh_round_def)
  then have "set ids \<inter> set (us_clients st) = {}" using ids(2) by blast
  then have dist: "distinct (us_clients st')" using ids I by (auto simp: uplinks_inv_def uplink_inv_def)
  have reg: "filter regular_up ls = filter regular_up (us_config st)" using R by (simp only: filter_regular)
  have "uplinks_inv (st'\<lparr>us_config := ls\<rparr>)"
    using I R dist ids same reg uniform_same [of "us_config st" ls] by (simp add: uplinks_inv_def uplink_inv_def link_ok_def)
  moreover have "new_ids (penv n) \<inter> set (us_clients st') = {}" for n
  proof -
    have "new_ids (penv n) \<inter> (\<Union>k. new_ids (env k)) = {}" "new_ids (penv n) \<inter> set (us_clients st) = {}"
      using F unfolding fresh_round_def by blast+
    then show ?thesis using ids(1,2) by auto
  qed
  ultimately show ?thesis using R reg by (metis (no_types, lifting))
qed

lemma uplink_pick_inv:
  assumes I: "uplinks_inv st" and none: "\<forall>l \<in> set (us_config st). \<not> regular_up l" and F: "\<forall>n. new_ids (penv n) \<inter> set (us_clients st) = {}"
  shows "uplinks_inv (uplink_pick penv avail st)"
proof -
  define nxt where "nxt = (if int avail \<le> us_next st + 1 then 0 else us_next st + 1)"
  define st1 where "st1 = st\<lparr>us_next := nxt\<rparr>"
  define i where "i = uplink_skip (nat nxt) (us_config st1)"
  have nxt: "- 1 \<le> nxt" using I by (simp add: nxt_def uplinks_inv_def)
  have I1: "uplinks_inv st1" using I nxt by (simp add: st1_def uplinks_inv_def uplink_inv_def link_ok_def)
  show ?thesis
  proof (cases "i < length (us_config st1)")
    case False
    then have "uplink_pick penv avail st = st1" by (simp add: uplink_pick_def nxt_def st1_def i_def)
    then show ?thesis using I1 by simp
  next
    case True
    obtain rc l st2 where mk: "make_uplink (penv i) (us_config st1 ! i) st1 = (rc, l, st2)" by (metis prod_cases3)
    have pick: "uplink_pick penv avail st = st2\<lparr>us_config := (us_config st2)[i := l]\<rparr>"
      unfolding uplink_pick_def Let_def nxt_def [symmetric] st1_def [symmetric] i_def [symmetric] mk prod.case using True by (rule if_P)
    note E = make_uplink_effect [OF mk]
    obtain ids where ids: "us_clients st2 = ids @ us_clients st1" "set ids \<subseteq> new_ids (penv i)" "distinct ids"
      "us_gauge st2 = us_gauge st1 + int (length ids)" using E by (auto simp: grown_def)
    have same: "us_config st2 = us_config st1" "us_install st2 = us_install st1" "us_next st2 = us_next st1" using E by (auto simp: grown_def)
    have "set ids \<inter> set (us_clients st1) = {}" using ids(2) F by (auto simp: st1_def)
    then have "distinct (us_clients st2)" using ids I1 by (simp add: uplinks_inv_def uplink_inv_def)
    moreover have "\<forall>k \<in> set ((us_config st1)[i := l]). link_ok st2 k"
    proof
      fix k assume "k \<in> set ((us_config st1)[i := l])"
      then consider "k = l" | "k \<in> set (us_config st1)" using set_update_subset_insert by fastforce
      then show "link_ok st2 k"
      proof cases
        case 1
        then show ?thesis using make_uplink_link_ok [OF mk] I1 True by (simp add: uplinks_inv_def uplink_inv_def)
      next
        case 2
        then have "link_ok st1 k" using I1 by (simp add: uplinks_inv_def uplink_inv_def)
        then show ?thesis using link_ok_mono ids(1) by (metis Un_upper2 set_append)
      qed
    qed
    moreover have "length (filter regular_up ((us_config st1)[i := l])) \<le> 1"
      using filter_update_one [of "us_config st1" regular_up i l] none by (simp add: st1_def)
    moreover have "uniform ((us_config st1)[i := l])"
    proof (rule uniform_same)
      show "uniform (us_config st1)" using I1 by (simp add: uplinks_inv_def)
      have "same_link (us_config st1 ! i) l" using E by blast
      then have "same_link (us_config st1 ! k) ((us_config st1)[i := l] ! k)" if "k < length (us_config st1)" for k
        using that by (cases "k = i") simp_all
      then show "list_all2 same_link (us_config st1) ((us_config st1)[i := l])" by (simp add: list_all2_conv_all_nth)
    qed
    ultimately show ?thesis using I1 ids same unfolding pick by (simp add: uplinks_inv_def uplink_inv_def link_ok_def)
  qed
qed

lemma uplink_round_inv:
  assumes I: "uplinks_inv st" and F: "fresh_round env penv st"
  shows "uplinks_inv (uplink_round env penv st)"
proof -
  let ?st1 = "uplink_reconfigure st"
  have I1: "uplinks_inv ?st1" "fresh_round env penv ?st1" using reconfigure_inv [OF I] F by (simp_all add: fresh_round_def)
  obtain has avail ls st2 where S: "uplink_scan env 0 (us_config ?st1) ?st1 = (has, avail, ls, st2)" by (metis prod_cases4)
  note R = uplink_scan_inv [OF I1 S]
  let ?st3 = "st2\<lparr>us_config := ls\<rparr>" let ?need = "0 < avail \<and> has = 0"
  let ?st4 = "if ?need then uplink_pick penv avail ?st3 else ?st3"
  have "uplinks_inv ?st4" using R uplink_pick_inv [of ?st3 penv avail] by (auto simp: filter_empty_conv)
  moreover have "uplink_round env penv st = (if ?need then ?st4\<lparr>us_error := 1\<rparr> else if us_error ?st4 = 1 then ?st4\<lparr>us_error := 0\<rparr> else ?st4)"
    unfolding uplink_round_def S Let_def prod.case ..
  moreover have "uplinks_inv (s\<lparr>us_error := e\<rparr>) = uplinks_inv s" for s e by (simp add: uplinks_inv_def uplink_inv_def link_ok_def)
  ultimately show ?thesis by presburger
qed

section \<open>Runs\<close>

text \<open>The uplinks of a configuration file: the words of its \<^verbatim>\<open>uplink\<close> directives, one after the other.\<close>

fun read_uplinks :: "string list list \<Rightarrow> uplink_config_t list \<Rightarrow> uplink_config_t list option" where
  "read_uplinks [] ls = Some ls"
| "read_uplinks (d # ds) ls = (case do_uplink ls d of None \<Rightarrow> None | Some (rc, ls') \<Rightarrow> read_uplinks ds ls')"

definition uplink_init :: uplink_state where
  "uplink_init = \<lparr>us_config = [], us_install = [], us_updated = False, us_reconfiguring = True, us_clients = [], us_shut = [], us_gauge = 0,
     us_counter = 0, us_inbound = 0, us_queue = [], us_next = -1, us_error = -1\<rparr>"

inductive uplink_step :: "uplink_state \<Rightarrow> uplink_state \<Rightarrow> bool" where
  Round: "fresh_round env penv st \<Longrightarrow> uplink_step st (uplink_round env penv st)"
| Close: "cid \<in> set (us_clients st) \<Longrightarrow> uplink_step st (client_close_uplink cid st)"
| Install: "read_uplinks ds [] = Some ls \<Longrightarrow> uplinks_check ls = (False, ls') \<Longrightarrow>
    uplink_step st (st\<lparr>us_install := ls', us_updated := True\<rparr>)"

inductive uplink_reach :: "uplink_state \<Rightarrow> bool" where
  Start: "uplink_reach uplink_init"
| Step: "uplink_reach st \<Longrightarrow> uplink_step st st' \<Longrightarrow> uplink_reach st'"

lemma uplink_options_state: "uplink_options ws l = Some l' \<Longrightarrow> ul_state l' = ul_state l"
  by (induction ws l rule: uplink_options.induct) (auto split: if_splits option.splits)

lemma read_uplinks_state:
  "read_uplinks ds ls = Some ls' \<Longrightarrow> \<forall>l \<in> set ls. ul_state l = UPLINK_ST_UNKNOWN \<Longrightarrow> \<forall>l \<in> set ls'. ul_state l = UPLINK_ST_UNKNOWN"
proof (induction ds ls rule: read_uplinks.induct)
  case (2 d ds ls)
  obtain rc ls1 where d: "do_uplink ls d = Some (rc, ls1)" "read_uplinks ds ls1 = Some ls'" using 2(2) by (auto split: option.splits)
  have "\<forall>l \<in> set ls1. ul_state l = UPLINK_ST_UNKNOWN"
    using d(1) 2(3) by (auto simp: do_uplink_def Let_def uplink_options_state split: if_splits option.splits)
  then show ?case using 2(1) d by blast
qed simp

lemma filter_map_le: "(\<And>x. P (f x) \<Longrightarrow> P x) \<Longrightarrow> length (filter P (map f xs)) \<le> length (filter P xs)"
  by (induction xs) auto

lemma close_inv:
  assumes I: "uplinks_inv st" and c: "cid \<in> set (us_clients st)"
  shows "uplinks_inv (uplink_close cid st)"
proof -
  let ?f = "\<lambda>l. if ul_client_ptr l = Some cid then l\<lparr>ul_state := UPLINK_ST_NOT_LINKED, ul_client_ptr := None\<rparr> else l"
  let ?st = "uplink_close cid st"
  have f: "regular_up (?f l) \<Longrightarrow> regular_up l" "multi (?f l) = multi l" for l
    by (cases "ul_client_ptr l = Some cid"; simp add: uplink_st_defs)+
  have "length (filter regular_up (map ?f (us_config st))) \<le> length (filter regular_up (us_config st))"
    by (rule filter_map_le) (use f(1) in blast)
  then have "length (filter regular_up (us_config ?st)) \<le> 1" using I le_trans
    by (fastforce simp: uplinks_inv_def uplink_inv_def uplink_close_def)
  moreover have "\<forall>l \<in> set (us_config ?st). link_ok ?st l"
    using I by (auto simp: uplinks_inv_def uplink_inv_def uplink_close_def link_ok_def uplink_st_defs)
  moreover have "distinct (us_clients ?st)" using I by (simp add: uplinks_inv_def uplink_inv_def uplink_close_def)
  moreover have "uniform (us_config ?st)" using I by (auto simp: uplinks_inv_def uniform_def uplink_close_def)
  ultimately show ?thesis using I by (simp add: uplinks_inv_def uplink_inv_def uplink_close_def)
qed

lemma client_close_uplink_inv:
  assumes "uplinks_inv st" "cid \<in> set (us_clients st)"
  shows "uplinks_inv (client_close_uplink cid st)"
proof -
  have "uplinks_inv (s\<lparr>us_inbound := i, us_gauge := g\<rparr>) = uplinks_inv s" for s i g by (simp add: uplinks_inv_def uplink_inv_def link_ok_def)
  then show ?thesis using close_inv [OF assms] by (simp add: client_close_uplink_def Let_def)
qed

lemma uplink_reach_inv: "uplink_reach st \<Longrightarrow> uplinks_inv st"
proof (induction rule: uplink_reach.induct)
  case Start
  show ?case by (simp add: uplink_init_def uplinks_inv_def uplink_inv_def uniform_def)
next
  case (Step st st')
  from Step(2) show ?case
  proof cases
    case (Round env penv)
    then show ?thesis using uplink_round_inv Step(3) by simp
  next
    case (Close cid)
    then show ?thesis using client_close_uplink_inv Step(3) by simp
  next
    case (Install ds ls ls')
    have "\<forall>l \<in> set ls. ul_state l = UPLINK_ST_UNKNOWN" using read_uplinks_state [OF Install(2)] by simp
    then have "\<forall>l \<in> set ls'. \<not> linked_up l" "uniform ls'"
      using Install(3) by (auto simp: uplinks_check_def Let_def uniform_def uplink_st_defs split: if_splits)
    then show ?thesis using Step(3) Install(1) by (simp add: uplinks_inv_def uplink_inv_def link_ok_def)
  qed
qed

section \<open>Finding a server that can be reached\<close>

text \<open>An uplink that can be connected in a given world: its settings are in order, one of its addresses answers, and
  there is room for the client.\<close>

definition connectable :: "uplink_env \<Rightarrow> uplink_config_t \<Rightarrow> bool" where
  "connectable env l \<longleftrightarrow> (ul_certfile l = None) = (ul_keyfile l = None) \<and> ue_ssl_create env \<and> ue_ssl_certificate env \<and>
     ue_ssl_ca_certificate env \<and> 1 \<le> atoi (ul_port l) \<and> atoi (ul_port l) \<le> 65535 \<and>
     (\<exists>proto ai. uplink_proto (ul_proto l) = Some proto \<and> ue_getaddrinfo env (ul_host l) (ul_port l) proto = Some ai \<and>
        (\<exists>a \<in> set (take 20 ai). ue_connect env a \<noteq> None)) \<and>
     ue_client_alloc env \<noteq> None \<and> ue_sockopt env \<and> ue_ssl_connection env \<and> ue_pass_client env"

lemma make_uplink_connectable:
  assumes C: "connectable env l"
  shows "fst (make_uplink env l st) = 0"
proof -
  obtain proto ai a where N: "uplink_proto (ul_proto l) = Some proto" "ue_getaddrinfo env (ul_host l) (ul_port l) proto = Some ai"
    "a \<in> set (take 20 ai)" "ue_connect env a \<noteq> None" using C unfolding connectable_def by blast
  obtain c where c: "ue_client_alloc env = Some c" using C by (auto simp: connectable_def)
  let ?ap = "take 20 ai"
  have len: "0 < length ?ap" using N(3) by (rule length_pos_if_in_set)
  have ne: "?ap \<noteq> []" "ue_random env mod length ?ap < length ?ap" using len mod_less_divisor [OF len] by auto
  have "first_some (ue_connect env) (rotate (ue_random env mod length ?ap) ?ap) \<noteq> None" using N(3,4) by (auto simp: first_some_None)
  then obtain fd where fd: "connect_loop (ue_connect env) (map Some ?ap) (ue_random env mod length ?ap) = Some fd"
    using connect_loop_first [OF ne(2)] by auto
  define l1 where "l1 = (if ul_keyfile l \<noteq> None \<and> ul_certfile l \<noteq> None \<and> \<not> ul_ssl l then l\<lparr>ul_ssl := True\<rparr> else l)"
  have "config_uplink_ssl_setup env l = (0, l\<lparr>ul_ssl := True\<rparr>)" using C by (simp add: config_uplink_ssl_setup_def connectable_def)
  then have S: "(if ul_keyfile l \<noteq> None \<and> ul_certfile l \<noteq> None \<and> \<not> ul_ssl l then config_uplink_ssl_setup env l else (0, l)) = (0, l1)"
    by (simp add: l1_def)
  have l1: "ul_proto l1 = ul_proto l" "ul_port l1 = ul_port l" by (simp_all add: l1_def)
  have port: "\<not> (atoi (ul_port l) < 1 \<or> 65535 < atoi (ul_port l))" "((ul_certfile l = None) \<noteq> (ul_keyfile l = None)) = False"
    using C by (auto simp: connectable_def)
  have "make_uplink env l st = make_uplink_client env (l1\<lparr>ul_state := UPLINK_ST_CONNECTING\<rparr>) fd proto st"
    unfolding make_uplink_def S Let_def prod.case l1 port(2) if_False N(1,2) option.case if_not_P [OF port(1)] if_not_P [OF ne(1)] fd by simp
  then show ?thesis using C c by (simp add: make_uplink_client_def connectable_def Let_def)
qed

lemma connectable_same: "same_link l l' \<Longrightarrow> connectable env l' = connectable env l"
  by (simp add: same_link_def connectable_def)

fun uplink_rounds :: "(nat \<Rightarrow> nat \<Rightarrow> uplink_env) \<Rightarrow> (nat \<Rightarrow> nat \<Rightarrow> uplink_env) \<Rightarrow> nat \<Rightarrow> uplink_state \<Rightarrow> uplink_state" where
  "uplink_rounds envs penvs 0 st = st"
| "uplink_rounds envs penvs (Suc k) st = uplink_round (envs k) (penvs k) (uplink_rounds envs penvs k st)"

lemma uplink_skip_regular: "\<forall>l \<in> set ls. \<not> multi l \<Longrightarrow> n \<le> length ls \<Longrightarrow> uplink_skip n ls = n"
  by (induction n ls rule: uplink_skip.induct) auto

lemma uplink_scan_regular:
  "\<forall>l \<in> set ls. \<not> multi l \<and> \<not> linked_up l \<Longrightarrow> uplink_scan env n ls st = (0, length ls, ls, st)"
  by (induction ls arbitrary: n) auto

text \<open>A round without a connected uplink tries the next one in turn.\<close>

lemma uplink_round_regular:
  assumes reg: "\<forall>l \<in> set (us_config st). \<not> multi l \<and> \<not> linked_up l" and ne: "us_config st \<noteq> []"
    and idle: "\<not> us_updated st" "\<not> us_reconfiguring st" and nx: "- 1 \<le> us_next st"
  defines "i \<equiv> if int (length (us_config st)) \<le> us_next st + 1 then 0 else nat (us_next st + 1)"
  shows "\<exists>rc l st2. make_uplink (penv i) (us_config st ! i) (st\<lparr>us_next := int i\<rparr>) = (rc, l, st2) \<and>
    uplink_round env penv st = st2\<lparr>us_config := (us_config st)[i := l], us_error := 1\<rparr> \<and> i < length (us_config st)"
proof -
  let ?ls = "us_config st" and ?n = "length (us_config st)" let ?st1 = "st\<lparr>us_next := int i\<rparr>"
  have i: "i < ?n" "(if int ?n \<le> us_next st + 1 then 0 else us_next st + 1) = int i" using ne nx by (auto simp: i_def)
  obtain rc l st2 where mk: "make_uplink (penv i) (?ls ! i) ?st1 = (rc, l, st2)" by (metis prod_cases3)
  have conf: "us_config st2 = ?ls" using make_uplink_effect [OF mk] by (simp add: grown_def)
  have skip: "uplink_skip (nat (int i)) ?ls = i" using uplink_skip_regular [of ?ls i] reg i by simp
  have scan: "uplink_scan env 0 ?ls st = (0, ?n, ?ls, st)" by (rule uplink_scan_regular [OF reg])
  have st: "st\<lparr>us_config := ?ls\<rparr> = st" by simp
  have pick: "uplink_pick penv ?n st = st2\<lparr>us_config := ?ls[i := l]\<rparr>"
    using i(1) mk conf by (simp add: uplink_pick_def i(2) skip Let_def del: nat_int)
  have rec: "uplink_reconfigure st = st" using idle by (simp add: uplink_reconfigure_def)
  have "uplink_round env penv st = st2\<lparr>us_config := ?ls[i := l], us_error := 1\<rparr>"
    unfolding uplink_round_def rec Let_def scan prod.case st pick using ne by simp
  then show ?thesis using mk i(1) by blast
qed

lemma uplink_rounds_regular:
  assumes reg: "\<forall>l \<in> set (us_config st). \<not> multi l" and ne: "us_config st \<noteq> []"
    and idle: "\<not> us_updated st" "\<not> us_reconfiguring st" and nx: "- 1 \<le> us_next st"
    and none: "\<forall>k < m. \<forall>l \<in> set (us_config (uplink_rounds envs penvs k st)). \<not> linked_up l"
  defines "n \<equiv> length (us_config st)"
  defines "p \<equiv> if int n \<le> us_next st + 1 then 0 else nat (us_next st + 1)"
  shows "list_all2 same_link (us_config st) (us_config (uplink_rounds envs penvs m st)) \<and>
    \<not> us_updated (uplink_rounds envs penvs m st) \<and> \<not> us_reconfiguring (uplink_rounds envs penvs m st) \<and>
    us_next (uplink_rounds envs penvs m st) = (if m = 0 then us_next st else int ((p + (m - 1)) mod n))"
  using none
proof (induction m)
  case 0
  then show ?case using idle by (simp add: list_all2_conv_all_nth)
next
  case (Suc m)
  let ?s = "uplink_rounds envs penvs m st"
  have IH: "list_all2 same_link (us_config st) (us_config ?s)" "\<not> us_updated ?s" "\<not> us_reconfiguring ?s"
    "us_next ?s = (if m = 0 then us_next st else int ((p + (m - 1)) mod n))"
    using Suc.IH Suc.prems less_SucI by blast+
  have len: "length (us_config ?s) = n" using IH(1) by (simp add: n_def list_all2_lengthD)
  have n: "0 < n" using ne by (simp add: n_def)
  have "\<forall>l \<in> set (us_config ?s). \<not> multi l"
    using IH(1) reg unfolding list_all2_conv_all_nth all_set_conv_all_nth by (metis same_link_multi)
  then have reg_s: "\<forall>l \<in> set (us_config ?s). \<not> multi l \<and> \<not> linked_up l" using Suc.prems by blast
  have ne_s: "us_config ?s \<noteq> []" using len n by auto
  have nx_s: "- 1 \<le> us_next ?s" using IH(4) nx by (auto split: if_splits)
  define i where "i = (if int (length (us_config ?s)) \<le> us_next ?s + 1 then 0 else nat (us_next ?s + 1))"
  have pn: "p < n" using n nx by (auto simp: p_def)
  have i: "i = (p + m) mod n"
  proof (cases m)
    case 0
    then show ?thesis using pn by (simp add: i_def IH(4) p_def n_def)
  next
    case (Suc k)
    let ?q = "(p + k) mod n"
    have q: "us_next ?s = int ?q" "?q < n" using IH(4) Suc n by simp_all
    have "i = (if n \<le> Suc ?q then 0 else Suc ?q)" unfolding i_def len q(1) by auto
    then show ?thesis using q(2) Suc by (simp add: mod_Suc)
  qed
  obtain rc l st2 where R: "make_uplink (penvs m i) (us_config ?s ! i) (?s\<lparr>us_next := int i\<rparr>) = (rc, l, st2)"
    "uplink_round (envs m) (penvs m) ?s = st2\<lparr>us_config := (us_config ?s)[i := l], us_error := 1\<rparr>" "i < length (us_config ?s)"
    using uplink_round_regular [OF reg_s ne_s IH(2,3) nx_s, of "penvs m" "envs m"] unfolding i_def by blast
  note E = make_uplink_effect [OF R(1)]
  have "same_link (us_config st ! k) ((us_config ?s)[i := l] ! k)" if "k < n" for k
  proof -
    have old: "same_link (us_config st ! k) (us_config ?s ! k)" using IH(1) that by (simp add: list_all2_conv_all_nth n_def)
    show ?thesis using E old R(3) same_link_trans by (cases "k = i") auto
  qed
  then have "list_all2 same_link (us_config st) ((us_config ?s)[i := l])" using len by (simp add: list_all2_conv_all_nth n_def)
  then show ?case using E R(2) IH i by (simp add: grown_def)
qed

section \<open>Properties\<close>

text \<open>C25. In every state the uplink thread reaches, whatever connections are closed and configurations installed, at most
  one of the regular uplinks is connected, and an uplink that is marked as connected has a client that is. Uplinks
  of the two kinds are never mixed.\<close>

theorem uplink_single_regular:
  assumes "uplink_reach st"
  shows "length (filter regular_up (us_config st)) \<le> 1 \<and>
    (\<forall>l \<in> set (us_config st). linked_up l \<longrightarrow> (\<exists>c. ul_client_ptr l = Some c \<and> c \<in> set (us_clients st))) \<and>
    distinct (us_clients st) \<and>
    ((\<forall>l \<in> set (us_config st). multi l) \<or> (\<forall>l \<in> set (us_config st). \<not> multi l))"
  using uplink_reach_inv [OF assms] by (auto simp: uplinks_inv_def uplink_inv_def link_ok_def uniform_def)

text \<open>C24. A server that can be reached is found: when one of the regular uplinks can be connected in every round, one of
  them is connected after no more rounds than there are uplinks.\<close>

theorem uplink_finds_server:
  assumes reach: "uplink_reach st" and reg: "\<forall>l \<in> set (us_config st). \<not> multi l" and idle: "\<not> us_updated st" "\<not> us_reconfiguring st"
    and j: "j < length (us_config st)" "\<forall>k. connectable (penvs k j) (us_config st ! j)"
  shows "\<exists>k \<le> length (us_config st). \<exists>l \<in> set (us_config (uplink_rounds envs penvs k st)). linked_up l"
proof (rule ccontr)
  let ?n = "length (us_config st)" let ?R = "\<lambda>k. uplink_rounds envs penvs k st"
  assume "\<not> ?thesis"
  then have none: "k \<le> ?n \<Longrightarrow> l \<in> set (us_config (?R k)) \<Longrightarrow> \<not> linked_up l" for k l by blast
  have nx: "- 1 \<le> us_next st" using uplink_reach_inv [OF reach] by (simp add: uplinks_inv_def)
  have ne: "us_config st \<noteq> []" using j(1) by auto
  define p where "p = (if int ?n \<le> us_next st + 1 then 0 else nat (us_next st + 1))"
  define m where "m = (j + ?n - p) mod ?n"
  have p: "p < ?n" using j(1) nx by (auto simp: p_def)
  have m: "m < ?n" using j(1) by (auto simp: m_def intro: mod_less_divisor)
  have "j = (p + m) mod ?n" using wrap_index [OF p j(1) m] by (simp add: m_def)
  moreover have none1: "k < Suc m \<Longrightarrow> l \<in> set (us_config (?R k)) \<Longrightarrow> \<not> linked_up l" for k l
    using none [of k l] m by simp
  then have some: "\<forall>k < Suc m. \<forall>l \<in> set (us_config (?R k)). \<not> linked_up l" "\<forall>k < m. \<forall>l \<in> set (us_config (?R k)). \<not> linked_up l"
    using less_SucI by blast+
  moreover have "us_next (?R (Suc m)) = int ((p + m) mod ?n)"
    using uplink_rounds_regular [OF reg ne idle nx some(1)] by (simp add: p_def)
  ultimately have nxt: "us_next (?R (Suc m)) = int j" by simp
  have I: "list_all2 same_link (us_config st) (us_config (?R m))" "\<not> us_updated (?R m)" "\<not> us_reconfiguring (?R m)"
     "- 1 \<le> us_next (?R m)"
    using uplink_rounds_regular [OF reg ne idle nx some(2)] nx by (auto split: if_splits)
  have len: "length (us_config (?R m)) = ?n" using I(1) by (simp add: list_all2_lengthD)
  have "\<forall>l \<in> set (us_config (?R m)). \<not> multi l"
    using I(1) reg unfolding list_all2_conv_all_nth all_set_conv_all_nth by (metis same_link_multi)
  then have reg_m: "\<forall>l \<in> set (us_config (?R m)). \<not> multi l \<and> \<not> linked_up l" using none [of m] m by simp
  have ne_m: "us_config (?R m) \<noteq> []" using len ne by auto
  obtain i rc l st2 where R: "make_uplink (penvs m i) (us_config (?R m) ! i) ((?R m)\<lparr>us_next := int i\<rparr>) = (rc, l, st2)"
    "?R (Suc m) = st2\<lparr>us_config := (us_config (?R m))[i := l], us_error := 1\<rparr>" "i < ?n"
    using uplink_round_regular [OF reg_m ne_m I(2,3,4), of "penvs m" "envs m"] unfolding len uplink_rounds.simps by blast
  note E = make_uplink_effect [OF R(1)]
  have "us_next (?R (Suc m)) = int i" using E unfolding R(2) by (simp add: grown_def)
  then have i: "i = j" using nxt by simp
  have "connectable (penvs m j) (us_config (?R m) ! j)"
    using j I(1) connectable_same by (auto simp: list_all2_conv_all_nth)
  then have "rc = 0" using make_uplink_connectable [of "penvs m j" "us_config (?R m) ! j"] R(1) i by (metis fst_conv)
  then have "linked_up l" using E by (auto simp: uplink_st_defs)
  moreover have "l \<in> set (us_config (?R (Suc m)))" unfolding R(2) using R(3) len by (simp add: set_update_memI)
  ultimately show False using none [of "Suc m" l] m by simp
qed

section \<open>A concrete configuration\<close>

definition demo_directive :: "string list" where
  "demo_directive = [''uplink'', ''Core'', ''full'', ''tcp'', ''rotate.aprs.net'', ''10152'']"

definition demo_uplink :: uplink_config_t where
  "demo_uplink = \<lparr>ul_name = ''Core'', ul_proto = ''tcp'', ul_host = ''rotate.aprs.net'', ul_port = ''10152'', ul_keyfile = None,
     ul_certfile = None, ul_cafile = None, ul_crlfile = None, ul_ssl = False, ul_client_flags = CLFLAGS_UPLINKPORT,
     ul_state = UPLINK_ST_UNKNOWN, ul_client_ptr = None\<rparr>"

text \<open>A world in which names have the given addresses and connections succeed; without addresses nothing is connected.\<close>

definition demo_uplink_env :: "sockaddr_u list \<Rightarrow> client_t option \<Rightarrow> uplink_env" where
  "demo_uplink_env as c = \<lparr>ue_ssl_create = True, ue_ssl_certificate = True, ue_ssl_ca_certificate = True,
     ue_getaddrinfo = (\<lambda>h p l. if as = [] then None else Some as), ue_random = 7, ue_connect = (\<lambda>a. Some 12), ue_client_alloc = c,
     ue_peername = None, ue_sockname = None, ue_sockopt = True, ue_ssl_connection = True, ue_pass_client = True, ue_tick = 0\<rparr>"

abbreviation demo_offline :: uplink_env where
  "demo_offline \<equiv> demo_uplink_env [] None"

abbreviation demo_online :: uplink_env where
  "demo_online \<equiv> demo_uplink_env [SA_INET [192, 0, 2, 1] 10152] (Some demo_client)"

definition demo_uplinks :: uplink_state where
  "demo_uplinks = uplink_round (\<lambda>n. demo_offline) (\<lambda>n. demo_offline) (uplink_init\<lparr>us_install := [demo_uplink], us_updated := True\<rparr>)"

lemma demo_port: "atoi ''10152'' = 10152"
  by (simp add: atoi_def isspace_def num_val_def digit_val_def is_digit_def byte_code_def toupper_def is_lower_def)

lemma demo_proto: "uplink_proto ''tcp'' = Some IPPROTO_TCP"
  by (simp add: uplink_proto_def)

lemma demo_not_multi: "\<not> multi demo_uplink"
  by (simp add: demo_uplink_def clflag_defs has_flag_def)

lemma demo_read: "read_uplinks [demo_directive] [] = Some [demo_uplink]" "uplinks_check [demo_uplink] = (False, [demo_uplink])"
  using demo_not_multi
  by (simp_all add: demo_directive_def do_uplink_def uplink_type_def demo_proto demo_port uplinks_check_def strcaseeq_def cstr_simps
      demo_uplink_def toupper_def ctype_defs byte_code_def)

lemma demo_uplinks_reach: "uplink_reach demo_uplinks"
proof -
  have "fresh_round (\<lambda>n. demo_offline) (\<lambda>n. demo_offline) st" for st by (simp add: fresh_round_def new_ids_def demo_uplink_env_def)
  then show ?thesis unfolding demo_uplinks_def
    by (intro uplink_reach.Step [OF uplink_reach.Step [OF uplink_reach.Start uplink_step.Install [OF demo_read]] uplink_step.Round])
qed

lemma demo_uplinks_state: "us_config demo_uplinks = [demo_uplink\<lparr>ul_state := UPLINK_ST_NOT_LINKED\<rparr>]" "\<not> us_updated demo_uplinks"
  "\<not> us_reconfiguring demo_uplinks"
proof -
  have "make_uplink demo_offline demo_uplink st = (-2, demo_uplink\<lparr>ul_state := UPLINK_ST_NOT_LINKED\<rparr>, st)" for st
    by (simp add: make_uplink_def demo_uplink_def demo_proto demo_port demo_uplink_env_def)
  moreover have "\<not> linked_up demo_uplink" by (simp add: demo_uplink_def uplink_st_defs)
  ultimately show "us_config demo_uplinks = [demo_uplink\<lparr>ul_state := UPLINK_ST_NOT_LINKED\<rparr>]" "\<not> us_updated demo_uplinks"
    "\<not> us_reconfiguring demo_uplinks"
    using demo_not_multi
    by (simp_all add: demo_uplinks_def uplink_round_def uplink_reconfigure_def close_uplinkers_def uplink_init_def uplink_pick_def Let_def)
qed

theorem uplink_single_regular_witness:
  "length (filter regular_up (us_config demo_uplinks)) \<le> 1 \<and> distinct (us_clients demo_uplinks)"
  using uplink_single_regular [OF demo_uplinks_reach] by simp

theorem uplink_finds_server_witness:
  "\<exists>k \<le> 1. \<exists>l \<in> set (us_config (uplink_rounds (\<lambda>k n. demo_online) (\<lambda>k n. demo_online) k demo_uplinks)). linked_up l"
proof -
  have "\<forall>l \<in> set (us_config demo_uplinks). \<not> multi l" using demo_not_multi by (simp add: demo_uplinks_state)
  moreover have "connectable demo_online (us_config demo_uplinks ! 0)"
    by (simp add: demo_uplinks_state connectable_def demo_uplink_def demo_proto demo_port demo_uplink_env_def)
  ultimately show ?thesis
    using uplink_finds_server [OF demo_uplinks_reach, of 0 "\<lambda>k n. demo_online" "\<lambda>k n. demo_online"] demo_uplinks_state by simp
qed

text \<open>Closing an uplink takes two from the gauge of uplinks, of which connecting it has added one, and one from the gauge
  of inbound connections, to which it has added none.\<close>

theorem uplink_gauge_drifts:
  "\<exists>l st. make_uplink demo_online demo_uplink uplink_init = (0, l, st) \<and> us_gauge st = 1 \<and>
    us_gauge (client_close_uplink (c_id demo_client) st) = -1 \<and> us_inbound (client_close_uplink (c_id demo_client) st) = -1"
  by (simp add: make_uplink_def demo_uplink_def demo_proto demo_port demo_uplink_env_def connect_loop.simps make_uplink_client_def Let_def
      uplink_init_def client_close_uplink_def uplink_close_def)

text \<open>A directive with five words passes the test of their number and then uses a sixth one.\<close>

theorem do_uplink_five_words: "do_uplink ls (take 5 demo_directive) = None"
  by (simp add: do_uplink_def demo_directive_def uplink_type_def demo_proto strcaseeq_def cstr_simps toupper_def ctype_defs byte_code_def)

end
