(* ===== verification/Uplink_Login.thy ===== *)
theory Uplink_Login
  imports Login Uplink
begin

text \<open>
  The two line handlers of \<^verbatim>\<open>src/src/uplink.c\<close>, by which this server logs in to another one, and their meeting with the
  login handler of \<^verbatim>\<open>login.c\<close> at the other end.
\<close>

section \<open>The handlers\<close>

text \<open>The two phases of the validation of the server's certificate are arguments. A refused line closes the client, and
  the handlers return zero for it.\<close>

record uplink_login_cfg =
  uc_serverid :: string
  uc_passcode :: string
  uc_verstr :: string
  uc_cert_phase1 :: "client_t \<Rightarrow> bool"
  uc_cert_phase2 :: "client_t \<Rightarrow> bool"

definition refuse_uplink :: "nat \<Rightarrow> clients_state \<Rightarrow> (int \<times> clients_state) option" where
  "refuse_uplink cid st = map_option (Pair 0) (client_close cid st)"

definition uplink_login_text :: "uplink_login_cfg \<Rightarrow> string" where
  "uplink_login_text cfg = ''user '' @ uc_serverid cfg @ '' pass '' @ uc_passcode cfg @ '' vers '' @ uc_verstr cfg"

text \<open>None also stands for the overflow of the buffer the login is printed to.\<close>

definition uplink_login_handler ::
    "clients_env \<Rightarrow> uplink_login_cfg \<Rightarrow> nat \<Rightarrow> string \<Rightarrow> clients_state \<Rightarrow> (int \<times> clients_state) option" where
  "uplink_login_handler env cfg cid s st =
     (case cs_store st cid of
        None \<Rightarrow> None
      | Some c \<Rightarrow>
          if c_ssl_validate c \<and> \<not> uc_cert_phase1 cfg c then refuse_uplink cid st
          else
            let argv = words s
            in if argv = [] \<or> rd (argv ! 0) 0 \<noteq> CHR ''#'' then refuse_uplink cid st
               else
                 let c1 = (if 3 \<le> length argv then c\<lparr>c_app_name := take 31 (argv ! 1), c_app_version := take 31 (argv ! 2)\<rparr> else c);
                     buf = uplink_login_text cfg @ CRLF
                 in if 1000 \<le> length buf then None
                    else (case write_client env cid buf (set_client cid c1 st) of
                            None \<Rightarrow> None
                          | Some (rc, st1) \<Rightarrow>
                              if rc < -2 then Some (rc, st1)
                              else (case cs_store st1 cid of
                                      None \<Rightarrow> None
                                    | Some c2 \<Rightarrow>
                                        Some (0, set_client cid (c2\<lparr>c_handler_line_in := Uplink_Logresp_Handler, c_state := CSTATE_LOGRESP\<rparr>) st1))))"

text \<open>The name of the server: up to a comma.\<close>

definition logresp_server :: "string list \<Rightarrow> string" where
  "logresp_server argv = takeWhile (\<lambda>x. x \<noteq> CHR '','') (argv ! 5)"

definition uplink_logresp_handler ::
    "uplink_login_cfg \<Rightarrow> nat \<Rightarrow> string \<Rightarrow> clients_state \<Rightarrow> (int \<times> clients_state) option" where
  "uplink_logresp_handler cfg cid s st =
     (case cs_store st cid of
        None \<Rightarrow> None
      | Some c \<Rightarrow>
          let argv = words s; name = logresp_server argv
          in if argv = [] \<or> rd (argv ! 0) 0 \<noteq> CHR ''#'' then refuse_uplink cid st
             else if length argv < 6 then refuse_uplink cid st
             else if argv ! 1 \<noteq> ''logresp'' then refuse_uplink cid st
             else if argv ! 2 \<noteq> uc_serverid cfg then refuse_uplink cid st
             else if argv ! 3 \<noteq> ''verified,'' then refuse_uplink cid st
             else if argv ! 4 \<noteq> ''server'' then refuse_uplink cid st
             else if CALLSIGNLEN_MAX < length name then refuse_uplink cid st
             else if strcaseeq name (uc_serverid cfg) then refuse_uplink cid st
             else
               let c1 = c\<lparr>c_username := name, c_validated := VALIDATED_WEAK\<rparr>; st1 = set_client cid c1 st
               in if c_ssl_validate c \<and> \<not> uc_cert_phase2 cfg c1 then refuse_uplink cid st1
                  else
                    let c2 = (if c_ssl_validate c then c1\<lparr>c_validated := VALIDATED_STRONG\<rparr> else c1);
                        c3 = c2\<lparr>c_handler_line_in := Incoming_Handler\<rparr>
                    in Some (0, worker_mark_client_connected cid c3 (set_client cid c3 st1)))"

section \<open>Outcomes\<close>

text \<open>A response that is accepted.\<close>

definition logresp_ok :: "uplink_login_cfg \<Rightarrow> string \<Rightarrow> bool" where
  "logresp_ok cfg s \<longleftrightarrow>
     (\<exists>h rest name. words s = h # ''logresp'' # uc_serverid cfg # ''verified,'' # ''server'' # name # rest \<and> rd h 0 = CHR ''#'' \<and>
        length (takeWhile (\<lambda>x. x \<noteq> CHR '','') name) \<le> CALLSIGNLEN_MAX \<and> \<not> strcaseeq (takeWhile (\<lambda>x. x \<noteq> CHR '','') name) (uc_serverid cfg))"

lemma logresp_ok_iff:
  "logresp_ok cfg s \<longleftrightarrow> 6 \<le> length (words s) \<and> rd (words s ! 0) 0 = CHR ''#'' \<and> words s ! 1 = ''logresp'' \<and> words s ! 2 = uc_serverid cfg \<and>
     words s ! 3 = ''verified,'' \<and> words s ! 4 = ''server'' \<and> length (logresp_server (words s)) \<le> CALLSIGNLEN_MAX \<and>
     \<not> strcaseeq (logresp_server (words s)) (uc_serverid cfg)"
proof
  assume "6 \<le> length (words s) \<and> rd (words s ! 0) 0 = CHR ''#'' \<and> words s ! 1 = ''logresp'' \<and> words s ! 2 = uc_serverid cfg \<and>
     words s ! 3 = ''verified,'' \<and> words s ! 4 = ''server'' \<and> length (logresp_server (words s)) \<le> CALLSIGNLEN_MAX \<and>
     \<not> strcaseeq (logresp_server (words s)) (uc_serverid cfg)"
  moreover from this obtain a b c d e f r where "words s = a # b # c # d # e # f # r"
    by (auto simp: Suc_le_length_iff numeral_eq_Suc)
  ultimately show "logresp_ok cfg s" by (auto simp: logresp_ok_def logresp_server_def numeral_eq_Suc)
qed (auto simp: logresp_ok_def logresp_server_def numeral_eq_Suc)

text \<open>A client of the worker that is neither connected nor a peer.\<close>

definition logging_in :: "nat list \<Rightarrow> nat list \<Rightarrow> nat \<Rightarrow> clients_state \<Rightarrow> client_t \<Rightarrow> bool" where
  "logging_in xs ys cid st c \<longleftrightarrow> worker_inv st xs ys \<and> cid \<in> set xs \<and> cs_store st cid = Some c \<and>
     c_state c \<noteq> CSTATE_CONNECTED \<and> c_state c \<noteq> CSTATE_COREPEER"

lemma logging_in_set:
  assumes "logging_in xs ys cid st c" "c_id c' = c_id c" "c_state c' = c_state c" "c_flags c' = c_flags c" "c_write c' = c_write c"
  shows "logging_in xs ys cid (set_client cid c' st) c'"
  using assms worker_inv_set [of st xs ys cid c c'] by (simp add: logging_in_def)

lemma refuse_uplink_ok:
  assumes "logging_in xs ys cid st c"
  shows "\<exists>st'. refuse_uplink cid st = Some (0, st') \<and> worker_inv st' (remove1 cid xs) ys \<and> cs_store st' cid = None"
  using worker_inv_close [of st xs ys cid c] assms by (auto simp: refuse_uplink_def logging_in_def)

lemma uplink_logresp_result:
  fixes s :: string
  assumes A: "logging_in xs ys cid st c"
  defines "c1 \<equiv> c\<lparr>c_username := logresp_server (words s), c_validated := VALIDATED_WEAK\<rparr>"
  shows "\<exists>st'. uplink_logresp_handler cfg cid s st = Some (0, st') \<and>
    (if logresp_ok cfg s \<and> (c_ssl_validate c \<longrightarrow> uc_cert_phase2 cfg c1) then
       worker_inv st' xs ys \<and> cs_store st' cid = Some (c1\<lparr>c_validated := if c_ssl_validate c then VALIDATED_STRONG else VALIDATED_WEAK,
         c_handler_line_in := Incoming_Handler, c_state := CSTATE_CONNECTED\<rparr>)
     else worker_inv st' (remove1 cid xs) ys \<and> cs_store st' cid = None)"
proof (cases "logresp_ok cfg s")
  case False
  have c: "cs_store st cid = Some c" using A by (simp add: logging_in_def)
  have "uplink_logresp_handler cfg cid s st = refuse_uplink cid st"
    using False unfolding logresp_ok_iff uplink_logresp_handler_def c option.case Let_def by (auto split: if_splits)
  then show ?thesis using refuse_uplink_ok [OF A] False by simp
next
  case True
  have c: "cs_store st cid = Some c" using A by (simp add: logging_in_def)
  have A1: "logging_in xs ys cid (set_client cid c1 st) c1" by (rule logging_in_set [OF A]) (simp_all add: c1_def)
  define c3 where "c3 = c1\<lparr>c_validated := if c_ssl_validate c then VALIDATED_STRONG else VALIDATED_WEAK, c_handler_line_in := Incoming_Handler\<rparr>"
  have run: "uplink_logresp_handler cfg cid s st =
      (if c_ssl_validate c \<and> \<not> uc_cert_phase2 cfg c1 then refuse_uplink cid (set_client cid c1 st)
       else Some (0, worker_mark_client_connected cid c3 (set_client cid c3 (set_client cid c1 st))))"
    using True unfolding logresp_ok_iff uplink_logresp_handler_def c option.case Let_def c1_def [symmetric]
    by (auto simp: c3_def c1_def)
  show ?thesis
  proof (cases "c_ssl_validate c \<and> \<not> uc_cert_phase2 cfg c1")
    case True
    then show ?thesis using run refuse_uplink_ok [OF A1] by auto
  next
    case False
    let ?st = "set_client cid c3 (set_client cid c1 st)"
    have A3: "logging_in xs ys cid ?st c3" by (rule logging_in_set [OF A1]) (simp_all add: c3_def)
    have I: "worker_inv ?st xs ys" "cid \<in> set xs" "cs_store ?st cid = Some c3" "c_state c3 \<noteq> CSTATE_CONNECTED" "c_state c3 \<noteq> CSTATE_COREPEER"
      using A3 by (simp_all add: logging_in_def)
    note M = worker_inv_mark [OF I]
    have "uplink_logresp_handler cfg cid s st = Some (0, worker_mark_client_connected cid c3 ?st)"
      unfolding run using False by (rule if_not_P)
    moreover have "logresp_ok cfg s \<and> (c_ssl_validate c \<longrightarrow> uc_cert_phase2 cfg c1)" using True False by blast
    moreover have "c3\<lparr>c_state := CSTATE_CONNECTED\<rparr> = c1\<lparr>c_validated := if c_ssl_validate c then VALIDATED_STRONG else VALIDATED_WEAK,
         c_handler_line_in := Incoming_Handler, c_state := CSTATE_CONNECTED\<rparr>" by (simp add: c3_def)
    ultimately show ?thesis using M by auto
  qed
qed

section \<open>Lines of words\<close>

fun join_words :: "string list \<Rightarrow> string" where
  "join_words [] = []"
| "join_words [w] = w"
| "join_words (w # v # ws) = w @ CHR '' '' # join_words (v # ws)"

definition clean_word :: "string \<Rightarrow> bool" where
  "clean_word w \<longleftrightarrow> w \<noteq> [] \<and> (\<forall>c \<in> set w. \<not> isspace c \<and> c \<noteq> NUL)"

lemma noshell_word:
  assumes "clean_word w"
  shows "parse_args_noshell_loop (Suc n) (w @ CHR '' '' # r) = w # parse_args_noshell_loop n r"
    and "parse_args_noshell_loop (Suc n) w = [w]"
proof -
  obtain x w' where w: "w = x # w'" using assms by (cases w) (auto simp: clean_word_def)
  have all: "\<forall>c \<in> set w. \<not> isspace c" using assms by (simp add: clean_word_def)
  then have drop: "dropWhile isspace w = w" "dropWhile isspace (w @ CHR '' '' # r) = w @ CHR '' '' # r" by (simp_all add: w)
  have take: "takeWhile (\<lambda>x. \<not> isspace x) w = w" "dropWhile (\<lambda>x. \<not> isspace x) w = []"
    "takeWhile (\<lambda>x. \<not> isspace x) (w @ CHR '' '' # r) = w" "dropWhile (\<lambda>x. \<not> isspace x) (w @ CHR '' '' # r) = CHR '' '' # r"
    using all by (simp_all add: takeWhile_append2 dropWhile_append2)
  have nil: "parse_args_noshell_loop n [] = []" for n by (cases n) simp_all
  show "parse_args_noshell_loop (Suc n) (w @ CHR '' '' # r) = w # parse_args_noshell_loop n r"
    unfolding parse_args_noshell_loop.simps drop Let_def take by (simp add: w)
  show "parse_args_noshell_loop (Suc n) w = [w]"
    unfolding parse_args_noshell_loop.simps drop Let_def take by (simp add: w nil)
qed

lemma noshell_join: "\<forall>w \<in> set ws. clean_word w \<Longrightarrow> length ws \<le> n \<Longrightarrow> parse_args_noshell_loop n (join_words ws) = ws"
proof (induction ws arbitrary: n rule: join_words.induct)
  case 1
  then show ?case by (cases n) simp_all
next
  case (2 w)
  then show ?case using noshell_word(2) by (cases n) simp_all
next
  case (3 w v ws)
  then obtain m where "n = Suc m" by (cases n) auto
  then show ?case using 3 noshell_word(1) [of w m "join_words (v # ws)"] by simp
qed

lemma words_join:
  assumes "\<forall>w \<in> set ws. clean_word w" "length ws \<le> 255"
  shows "words (join_words ws) = ws"
proof -
  have "NUL \<notin> set (join_words ws)" using assms(1)
    by (induction ws rule: join_words.induct) (auto simp: clean_word_def)
  then have "c_word (join_words ws) = join_words ws" by (auto simp: c_word_def takeWhile_eq_all_conv)
  then show ?thesis using noshell_join [OF assms] by (simp add: words_def parse_args_noshell_def)
qed

section \<open>A login between two servers\<close>

lemma logresp_text_words: "logresp_text u True s = join_words [''#'', ''logresp'', u, ''verified,'', ''server'', s]"
  by (simp add: logresp_text_def)

lemma uplink_login_text_words:
  "uc_verstr cfg = n @ '' '' @ v \<Longrightarrow>
   uplink_login_text cfg = join_words [''user'', uc_serverid cfg, ''pass'', uc_passcode cfg, ''vers'', n, v]"
  by (simp add: uplink_login_text_def)

lemma clean_literals: "clean_word ''user''" "clean_word ''pass''" "clean_word ''vers''" "clean_word ''#''" "clean_word ''logresp''"
  "clean_word ''verified,''" "clean_word ''server''"
  by (simp_all add: clean_word_def isspace_def byte_code_def)

lemma login_accepts_version:
  assumes A: "alive xs ys cid ls c" and env: "clients_env_ok env" and fs: "length (c_filter_s c) < FILTER_S_SIZE"
    and line: "words s = [''user'', u, ''pass'', p, ''vers'', n, v]" "\<not> strcaseeq v ''filter''"
    and user: "length u \<le> CALLSIGNLEN_MAX" "login_user_error cfg u = None" "passcode_ok u p" "\<not> c_ssl_validate c"
  shows "\<exists>rc ls'. login_handler env cfg cid s ls = Some (rc, ls') \<and>
    (rc < -2 \<and> ls_get cid ls' = None \<or>
     rc = 0 \<and> (\<exists>c'. ls_get cid ls' = Some c' \<and> c_state c' = CSTATE_CONNECTED \<and> c_validated c' = VALIDATED_WEAK \<and> c_username c' = u))"
proof -
  let ?c1 = "c\<lparr>c_username := u\<rparr>" let ?ls1 = "ls_set cid ?c1 ls"
  let ?c2 = "login_set_app_name cfg n v ?c1" let ?ls2 = "ls_set cid ?c2 ?ls1"
  have c: "ls_get cid ls = Some c" using A by (simp add: alive_def)
  have same: "c_id ?c2 = c_id ?c1" "c_state ?c2 = c_state ?c1" "c_flags ?c2 = c_flags ?c1" "c_write ?c2 = c_write ?c1"
    "c_filter_s ?c2 = c_filter_s c" "c_username ?c2 = u" by (simp_all add: login_set_app_name_def Let_def)
  have A1: "alive xs ys cid ?ls1 ?c1" by (rule alive_set [OF A]) simp_all
  have A2: "alive xs ys cid ?ls2 ?c2" by (rule alive_set [OF A1 same(1-4)])
  have kw: "strcaseeq ''user'' ''user''" "strcaseeq ''pass'' ''pass''" "strcaseeq ''vers'' ''vers''" "\<not> strcaseeq ''vers'' ''pass''"
    "rd ''user'' 0 \<noteq> CHR ''#''" by (simp_all add: strcaseeq_def cstr_simps rd_def)
  have args: "login_args env cfg cid [''pass'', p, ''vers'', n, v] None ?ls1 = Some (Args_Done (Some p), ?ls2)"
    using line(2) kw by (simp add: Let_def)
  have run: "login_handler env cfg cid s ls = login_finish env cfg cid u False (Some p) ?ls2"
    using c line user kw args by (simp add: login_handler_def words_def [symmetric] Let_def login_rest_def del: login_args.simps)
  have fs2: "length (c_filter_s ?c2) < FILTER_S_SIZE" using fs same by simp
  obtain rc ls' where F: "login_finish env cfg cid u False (Some p) ?ls2 = Some (rc, ls')"
    "rc < -2 \<and> dead xs ys cid ls' \<or>
     rc = 0 \<and> (\<exists>c'. connected xs ys cid ls' c' \<and> c_username c' = u \<and> c_validated c' = VALIDATED_WEAK)"
    using login_finish_ok [OF A2 env fs2, of cfg u False "Some p"] user(3) same(6) by auto
  then show ?thesis using run by (auto simp: dead_def connected_def)
qed

section \<open>Properties\<close>



section \<open>Concrete logins\<close>

definition demo_uplink_cfg :: uplink_login_cfg where
  "demo_uplink_cfg = \<lparr>uc_serverid = ''N0CALL'', uc_passcode = ''13023'', uc_verstr = ''aprsc 2.1'', uc_cert_phase1 = (\<lambda>c. True),
     uc_cert_phase2 = (\<lambda>c. True)\<rparr>"

lemma demo_clean: "clean_word ''N0CALL''" "clean_word ''13023''" "clean_word ''aprsc''" "clean_word ''2.1''" "clean_word ''T2FIN''"
  by (simp_all add: clean_word_def isspace_def byte_code_def)



end
