(* ===== verification/Spec2Isabelle.thy ===== *)
theory Spec2Isabelle
  imports Passcode Parse_QC Cellmalloc Client_Heard Historydb Incoming Incoming_Parse Pipeline
    Filter_Meaning Filter_Commands Delivery Parse_APRS Client_IO Worker_Clients Login Acl Accept Uplink_Login
begin

text \<open>
  A verification library for the APRS-IS server aprsc (the C sources under \<^verbatim>\<open>src/src/\<close>).

  \<^bold>\<open>The program.\<close> Worker threads read lines from clients (\<^verbatim>\<open>worker.c\<close>), check and parse them into packet
  buffers (\<^verbatim>\<open>incoming.c\<close>, \<^verbatim>\<open>parse_qc.c\<close>, \<^verbatim>\<open>parse_aprs.c\<close>) and hand them over in batches. One thread
  (\<^verbatim>\<open>dupecheck.c\<close>) drains the workers' inboxes, looks for duplicates, records positions
  (\<^verbatim>\<open>historydb.c\<close>), numbers the packets and appends them to two global queues, which it also purges.
  Each worker walks along the queues from the place it has reached (\<^verbatim>\<open>outgoing.c\<close>) and offers every packet
  to its clients, which the filters of each client (\<^verbatim>\<open>filter.c\<close>) and the stations it has heard
  (\<^verbatim>\<open>client_heard.c\<close>) select. Buffers and records come from cell arenas (\<^verbatim>\<open>cellmalloc.c\<close>).

  \<^bold>\<open>Conventions.\<close> A C string is a \<^typ>\<open>string\<close>; a buffer with its length is the list of its bytes, a pointer
  into it an offset. Structures are records whose fields carry the C names behind a prefix
  (\<^verbatim>\<open>pb_\<close> packet, \<^verbatim>\<open>c_\<close> client, \<^verbatim>\<open>w_\<close> worker, \<^verbatim>\<open>f_\<close> filter). Linked lists with a tail pointer are lists;
  where a pointer into the middle of a list matters (the workers' places in the global queues, free
  cells) it is an address. Unsigned counters and hashes that wrap are words. Negative return codes are
  integers or the error datatypes of the theories; a run that would read or write outside its buffers is
  \<^const>\<open>None\<close>, and theorems show when this does not happen. The C type \<^verbatim>\<open>float\<close> is idealised to real
  numbers (\<^verbatim>\<open>cfloat\<close> adds infinities and NaN where numbers are read from text). What a function takes
  from outside (the clock, \<^verbatim>\<open>random\<close>, the result of a socket write, whether an allocation succeeds, the
  results of \<^verbatim>\<open>fnmatch\<close>) is an argument of its definition. Locks are left out: a definition is the work done while
  the lock is held, and \<open>Pipeline\<close> interleaves the threads at that grain.

  \<^bold>\<open>The theories.\<close>
  \<^item> \<open>Aprsc_Prelude\<close>: C string functions, scans, generic list and word lemmas. \<open>C_Scan\<close>: the conversions of
    \<^verbatim>\<open>sscanf\<close> the sources use.
  \<^item> \<open>Worker_Types\<close>: the structures and constants of \<^verbatim>\<open>worker.h\<close>.
  \<^item> \<open>Passcode\<close>, \<open>Keyhash\<close>: \<^verbatim>\<open>passcode.c\<close> and \<^verbatim>\<open>keyhash.c\<close>. \<open>Hash_Table\<close>: chained hash tables and the locale
    of their laws, interpreted on the tables of the client list, heard lists, position database, and filters.
  \<^item> \<open>Cellmalloc\<close>: \<^verbatim>\<open>cellmalloc.c\<close>, an arena of cells in a heap of addresses, refined to a stack or queue of
    free cells.
  \<^item> \<open>Clientlist\<close>, \<open>Client_Heard\<close>, \<open>Historydb\<close>: the files of these names, with refinements to finite maps.
  \<^item> \<open>Parse_QC\<close>: the q construct algorithm of \<^verbatim>\<open>parse_qc.c\<close>.
  \<^item> \<open>Pbuf_Pool\<close>, \<open>Incoming\<close>, \<open>Incoming_Parse\<close>: \<^verbatim>\<open>incoming.c\<close>, the buffer pools, the checks of a line and the
    header, and the whole path of a line into the worker's queue.
  \<^item> \<open>Dupecheck\<close>: \<^verbatim>\<open>dupecheck.c\<close>, a refinement of the hash table of records to a map from keys to expiry
    times, and a turn of the thread. \<open>Outgoing\<close>: \<^verbatim>\<open>outgoing.c\<close>. \<open>Pipeline\<close>: the step relation of workers and
    duplicate check thread, with the invariant that no worker's place in a queue dangles.
  \<^item> \<open>Filter_Db\<close>, \<open>Filter_Parse\<close>, \<open>Filter_Process\<close>, \<open>Filter_Commands\<close>: \<^verbatim>\<open>filter.c\<close>. \<open>Filter_Meaning\<close> states
    what filters mean in terms of callsigns, paths and great circles and proves the code equal to it.
    \<open>Delivery\<close> composes the filters with the outgoing path.
  \<^item> \<open>Cfgfile\<close>, \<open>Messaging\<close>: word splitting of \<^verbatim>\<open>cfgfile.c\<close> and \<^verbatim>\<open>config.c\<close>, and \<^verbatim>\<open>messaging.c\<close>.
  \<^item> \<open>Parse_APRS\<close>: \<^verbatim>\<open>parse_aprs.c\<close>, reading a memory that goes on behind the packet, so that reads beyond its end are
    visible; positions are shown to be in range and the two text formats to be read back as printed.
  \<^item> \<open>Client_IO\<close>: the output and input buffers of a client, from \<^verbatim>\<open>worker.c\<close>: what is written reaches the socket in
    order and once, and the line handler sees the lines of the stream however the network cuts it.
  \<^item> \<open>Client_Links\<close> and \<open>Worker_Clients\<close>: the clients of a worker thread as structures linked by pointers, and what
    \<^verbatim>\<open>worker.c\<close> does with them: the queue of new clients, classification, keepalives, timeouts and closing. The runs
    of a worker are a step relation; its lists are shown to stay in order and no operation to follow a null
    or dangling pointer.
  \<^item> \<open>Login\<close>: \<^verbatim>\<open>login.c\<close> on top of the worker's clients. A login line is handled without touching a closed client, only
    a user name that passes all checks connects, and only its passcode or a certificate validates; one path, a
    rejected certificate whose reply cannot be written, does touch a freed client.
  \<^item> \<open>Acl\<close>: \<^verbatim>\<open>acl.c\<close>. The masks of the entries are shown to compare prefixes of addresses bit by bit, and the verdict of
    a listener's copy of a loaded file to be that of the first rule of the file that has the address.
  \<^item> \<open>Sock_Addr\<close>: socket addresses and their hexadecimal text.
  \<^item> \<open>Accept\<close>: the listeners of \<^verbatim>\<open>accept.c\<close> and the accounts that count their clients. A connection is passed to a worker exactly
    when limits and access list admit it, no freed account is used, and a reconfiguration ends with the configured
    listeners; connections that fail in TLS stay counted.
  \<^item> \<open>Uplink\<close>: the uplink thread of \<^verbatim>\<open>uplink.c\<close> and the uplinks of a configuration. Its runs are a step relation; at most one
    regular uplink is connected, and a server that can be reached is connected after one turn over the list.
  \<^item> \<open>Uplink_Login\<close>: the handlers by which this server logs in to another one. What they send is accepted by the login
    handler at the other end, and its reply by them; a refusal frees the client without telling the caller.

  \<^bold>\<open>Bounds and fuel.\<close> Loops are structural recursions or functions with a termination measure. Where a
  recursion takes a natural number as fuel, the number is the one the code itself counts with (ten path
  elements in a digipeater filter, 255 words in a line) or the length of the remaining
  input, each step of which consumes at least one byte.

  \<^bold>\<open>Not modelled.\<close> Socket, TLS, SCTP and poll wrappers, the HTTP server, the UDP sockets of listeners, process
  start-up, logging, and the vendored JSON library are input and output or glue around libraries. Rounding of floating point
  arithmetic and data races outside the locks are not modelled either.
\<close>

end
